(* ===== verification/Prelude.thy ===== *)
theory Prelude
  imports Main "HOL-Library.Word"
begin

text \<open>
  Shared vocabulary of the development: the C integer types of
  \<^verbatim>\<open>sys/compiler.h\<close> as words of fixed width, the alignment and rotation macros,
  arrays updated in place, and the generic facts on words and lists on which the component
  theories rest.

  The build that is modelled is the x86\_64 configuration of \<^verbatim>\<open>sys/cpu.h\<close>:
  little endian, \<open>CPU_STRUCT_ALIGN = 8\<close>, \<open>CPU_PAGE_SIZE = 4096\<close>, 32-bit
  \<^verbatim>\<open>unsigned int\<close> and 64-bit \<^verbatim>\<open>size_t\<close>, \<^verbatim>\<open>unsigned long\<close> and pointers.
\<close>

unbundle bit_operations_syntax

section \<open>Machine types\<close>

type_synonym byte = "8 word"
type_synonym u8 = "8 word"
type_synonym u16 = "16 word"
type_synonym u32 = "32 word"
type_synonym u64 = "64 word"

text \<open>Addresses are unbounded numbers; the address space is never exhausted in the model.\<close>

type_synonym addr = nat

named_theorems bytes_simps \<open>byte (de)composition of words\<close>
named_theorems array_simps \<open>lengths and elements of arrays written in place\<close>
named_theorems inv_intros \<open>preservation of the component invariants\<close>

definition ADDR_NULL :: addr where
  "ADDR_NULL = 0"

definition CPU_STRUCT_ALIGN :: nat where
  "CPU_STRUCT_ALIGN = 8"

definition CPU_PAGE_SIZE :: nat where
  "CPU_PAGE_SIZE = 4096"

section \<open>Macros of \<^verbatim>\<open>sys/compiler.h\<close>\<close>

text \<open>
  \<^verbatim>\<open>_rol(x, bits)\<close> on a 32-bit operand: both shifts, joined by \<^verbatim>\<open>|\<close>.
\<close>

definition rol32 :: "u32 \<Rightarrow> nat \<Rightarrow> u32" where
  "rol32 x bits = push_bit bits x OR drop_bit (32 - bits) x"

definition ror32 :: "u32 \<Rightarrow> nat \<Rightarrow> u32" where
  "ror32 x bits = drop_bit bits x OR push_bit (32 - bits) x"

text \<open>\<^verbatim>\<open>_align_to(s, a)\<close>, for any width of the operand; \<open>a\<close> is a power of two.\<close>

definition align_to :: "'a::len word \<Rightarrow> 'a word \<Rightarrow> 'a word" where
  "align_to s a = (s + a - 1) AND NOT (a - 1)"

section \<open>Arrays written in place\<close>

text \<open>
  \<^verbatim>\<open>memcpy(buf + i, xs, length xs)\<close>: the bytes of \<open>buf\<close> from index \<open>i\<close> are
  replaced by \<open>xs\<close>. Every use keeps \<open>i + length xs\<close> within the array.
\<close>

definition write_at :: "nat \<Rightarrow> 'a list \<Rightarrow> 'a list \<Rightarrow> 'a list" where
  "write_at i xs buf = take i buf @ xs @ drop (i + length xs) buf"

lemma length_write_at [simp, array_simps]:
  "i + length xs \<le> length buf \<Longrightarrow> length (write_at i xs buf) = length buf"
  by (simp add: write_at_def)

lemma take_write_at [array_simps]:
  "i \<le> length buf \<Longrightarrow> take (i + length xs) (write_at i xs buf) = take i buf @ xs"
  by (simp add: write_at_def)

lemma write_at_0_full [array_simps]:
  "length xs = length buf \<Longrightarrow> write_at 0 xs buf = xs"
  by (simp add: write_at_def)

lemma write_at_Nil [simp]: "write_at i [] buf = buf"
  by (simp add: write_at_def)

lemma write_at_snoc [array_simps]:
  "i + length xs < length buf \<Longrightarrow>
   write_at i (xs @ [y]) buf = (write_at i xs buf)[i + length xs := y]"
  by (simp add: write_at_def list_update_append1 list_update_append upd_conv_take_nth_drop
        min_def)

lemma write_at_Cons [array_simps]:
  "i < length buf \<Longrightarrow> write_at i (b # bs) buf = write_at (Suc i) bs (buf[i := b])"
  by (simp add: write_at_def take_Suc_conv_app_nth)

lemma take_write_at_le [array_simps]:
  "n \<le> i \<Longrightarrow> i \<le> length buf \<Longrightarrow> take n (write_at i xs buf) = take n buf"
  by (simp add: write_at_def min_def)

section \<open>Words\<close>

lemma unat_u32_less [simp]: "unat (x :: u32) < 4294967296"
  by (rule order_less_le_trans [OF unsigned_less]) simp

lemma unat_byte_less [simp]: "unat (x :: byte) < 256"
  by (rule order_less_le_trans [OF unsigned_less]) simp

lemma bit_byte_ge [simp]: "8 \<le> n \<Longrightarrow> \<not> bit (b :: byte) n"
  by (auto dest: bit_imp_le_length)

lemma unat_add_small:
  "unat a + unat b < 2 ^ LENGTH('a) \<Longrightarrow> unat (a + b :: 'a::len word) = unat a + unat b"
  by (simp add: unat_add_lem)

lemma unat_of_nat_small:
  "n < 2 ^ LENGTH('a) \<Longrightarrow> unat (of_nat n :: 'a::len word) = n"
  by (simp add: unat_of_nat take_bit_nat_eq_self)

text \<open>
  Masking with \<open>2 ^ n - 1\<close> and with its complement is \<open>mod\<close> and truncation on
  the unsigned value, the reading the alignment macros rely on.
\<close>

lemma word_and_mask_mod:
  "unat (x AND (2 ^ n - 1) :: 'a::len word) = unat x mod 2 ^ n"
proof -
  have "x AND (2 ^ n - 1) = take_bit n x"
    by (simp add: take_bit_eq_mask mask_eq_exp_minus_1)
  then show ?thesis
    by (simp only: unsigned_take_bit_eq) (simp add: take_bit_eq_mod)
qed

lemma unat_drop_bit_nat: "unat (drop_bit n w) = unat w div 2 ^ n" for w :: "'a::len word"
  by (simp only: unat_drop_bit_eq) (simp add: drop_bit_eq_div)

lemma unat_push_bit_nat: "unat (push_bit n w) = (unat w * 2 ^ n) mod 2 ^ LENGTH('a)"
  for w :: "'a::len word"
  by (simp only: unsigned_push_bit_eq) (simp add: push_bit_eq_mult take_bit_eq_mod)

lemma push_bit_OR_add:
  fixes h l :: "'a::len word"
  assumes "unat l < 2 ^ n"
  shows "push_bit n h OR l = push_bit n h + l"
proof (rule disjunctive_add [symmetric])
  fix i
  have "l = take_bit n l"
    using assms
    by (simp only: word_unat_eq_iff unsigned_take_bit_eq) (simp add: take_bit_nat_eq_self)
  then have "bit l i \<Longrightarrow> i < n" by (metis bit_take_bit_iff)
  then show "\<not> bit (push_bit n h) i \<or> \<not> bit l i" by (auto simp: bit_push_bit_iff)
qed

text \<open>
  Two words are equal when their bytes are: the bit-by-bit comparison that composes with
  \<open>bit_simps\<close>, stated byte by byte so that no index is a difference.
\<close>

lemma split_byte_index:
  fixes n :: nat
  assumes "n < 8 * k"
  obtains i m where "n = 8 * i + m" and "m < 8" and "i < k"
proof
  show "n = 8 * (n div 8) + n mod 8" by simp
  show "n mod 8 < 8" by simp
  show "n div 8 < k" using assms by (simp add: less_mult_imp_div_less mult.commute)
qed

lemma u32_eqI_bytes:
  assumes "\<And>m. m < 8 \<Longrightarrow> bit a m = bit b m"
    and "\<And>m. m < 8 \<Longrightarrow> bit a (8 + m) = bit b (8 + m)"
    and "\<And>m. m < 8 \<Longrightarrow> bit a (16 + m) = bit b (16 + m)"
    and "\<And>m. m < 8 \<Longrightarrow> bit a (24 + m) = bit b (24 + m)"
  shows "a = (b :: u32)"
proof (rule bit_word_eqI)
  fix n assume "n < LENGTH(32)"
  then have "n < 8 * 4" by simp
  then obtain i m where n: "n = 8 * i + m" "m < 8" "i < 4" by (rule split_byte_index)
  then have "i = 0 \<or> i = 1 \<or> i = 2 \<or> i = 3" by auto
  with n assms show "bit a n = bit b n" by auto
qed

lemma u64_eqI_bytes:
  assumes "\<And>m. m < 32 \<Longrightarrow> bit a m = bit b m"
    and "\<And>m. m < 32 \<Longrightarrow> bit a (32 + m) = bit b (32 + m)"
  shows "a = (b :: u64)"
proof (rule bit_word_eqI)
  fix n assume n: "n < LENGTH(64)"
  show "bit a n = bit b n"
  proof (cases "n < 32")
    case False
    then obtain m where "n = 32 + m" by (metis le_iff_add not_less)
    with n assms(2) show ?thesis by simp
  qed (rule assms(1))
qed

lemma byte_eqI:
  assumes "bit a 0 = bit b 0" "bit a 1 = bit b 1" "bit a 2 = bit b 2" "bit a 3 = bit b 3"
    "bit a 4 = bit b 4" "bit a 5 = bit b 5" "bit a 6 = bit b 6" "bit a 7 = bit b 7"
  shows "a = (b :: byte)"
proof (rule bit_word_eqI)
  fix n assume "n < LENGTH(8)"
  then have "n \<in> {0, 1, 2, 3, 4, 5, 6, 7}" by auto
  with assms show "bit a n = bit b n" by auto
qed

end
