(* ===== verification/Unaligned.thy ===== *)
theory Unaligned
  imports Prelude
begin

text \<open>
  Model of \<^verbatim>\<open>mem/unaligned.h\<close>: reading and writing integers of 16, 32, 40 and 64 bits at an
  arbitrary address, in big-endian and in little-endian order. A pointer is the list of the
  bytes from that address to the end of the object; a \<^verbatim>\<open>put\<close> returns the object with the
  leading bytes replaced. On x86\_64 the little-endian accessors are plain loads and stores
  (\<open>get_u32_le\<close> below), on other targets the bytes are shifted together
  (\<open>get_u32_le_bytes\<close>): the two branches of the \<^verbatim>\<open>#if\<close> are shown to agree.
\<close>

section \<open>Big-endian accessors\<close>

definition get_u16_be :: "byte list \<Rightarrow> u32" where
  "get_u16_be c = push_bit 8 (ucast (c ! 0)) OR ucast (c ! 1)"

definition get_u32_be :: "byte list \<Rightarrow> u32" where
  "get_u32_be c = push_bit 24 (ucast (c ! 0)) OR push_bit 16 (ucast (c ! 1)) OR
                  push_bit 8 (ucast (c ! 2)) OR ucast (c ! 3)"

definition get_u64_be :: "byte list \<Rightarrow> u64" where
  "get_u64_be p = push_bit 32 (ucast (get_u32_be p)) OR ucast (get_u32_be (drop 4 p))"

definition put_u16_be :: "byte list \<Rightarrow> u32 \<Rightarrow> byte list" where
  "put_u16_be p x = write_at 0 [ucast (drop_bit 8 x), ucast x] p"

definition be_bytes32 :: "u32 \<Rightarrow> byte list" where
  "be_bytes32 x = [ucast (drop_bit 24 x), ucast (drop_bit 16 x), ucast (drop_bit 8 x), ucast x]"

definition put_u32_be :: "byte list \<Rightarrow> u32 \<Rightarrow> byte list" where
  "put_u32_be p x = write_at 0 (be_bytes32 x) p"

definition put_u64_be :: "byte list \<Rightarrow> u64 \<Rightarrow> byte list" where
  "put_u64_be p x =
     (let p' = put_u32_be p (ucast (drop_bit 32 x))
      in take 4 p' @ put_u32_be (drop 4 p') (ucast x))"

definition get_u40_be :: "byte list \<Rightarrow> u64" where
  "get_u40_be c = push_bit 32 (ucast (c ! 0)) OR ucast (get_u32_be (drop 1 c))"

definition put_u40_be :: "byte list \<Rightarrow> u64 \<Rightarrow> byte list" where
  "put_u40_be c x =
     (let c' = c[0 := ucast (drop_bit 32 x)] in take 1 c' @ put_u32_be (drop 1 c') (ucast x))"

section \<open>Little-endian accessors\<close>

text \<open>
  The memory of a little-endian machine: the value of a run of bytes, least significant first,
  and the bytes of a value.
\<close>

fun nat_of_bytes :: "byte list \<Rightarrow> nat" where
  "nat_of_bytes [] = 0"
| "nat_of_bytes (b # bs) = unat b + 256 * nat_of_bytes bs"

fun bytes_of_nat :: "nat \<Rightarrow> nat \<Rightarrow> byte list" where
  "bytes_of_nat 0 v = []"
| "bytes_of_nat (Suc n) v = of_nat (v mod 256) # bytes_of_nat n (v div 256)"

definition get_u16_le :: "byte list \<Rightarrow> u32" where
  "get_u16_le p = of_nat (nat_of_bytes (take 2 p))"

definition get_u32_le :: "byte list \<Rightarrow> u32" where
  "get_u32_le p = of_nat (nat_of_bytes (take 4 p))"

definition get_u64_le :: "byte list \<Rightarrow> u64" where
  "get_u64_le p = of_nat (nat_of_bytes (take 8 p))"

definition put_u16_le :: "byte list \<Rightarrow> u32 \<Rightarrow> byte list" where
  "put_u16_le p x = write_at 0 (bytes_of_nat 2 (unat x)) p"

definition put_u32_le :: "byte list \<Rightarrow> u32 \<Rightarrow> byte list" where
  "put_u32_le p x = write_at 0 (bytes_of_nat 4 (unat x)) p"

definition put_u64_le :: "byte list \<Rightarrow> u64 \<Rightarrow> byte list" where
  "put_u64_le p x = write_at 0 (bytes_of_nat 8 (unat x)) p"

text \<open>The branch for machines without unaligned access.\<close>

definition get_u16_le_bytes :: "byte list \<Rightarrow> u32" where
  "get_u16_le_bytes c = ucast (c ! 0) OR push_bit 8 (ucast (c ! 1))"

definition get_u32_le_bytes :: "byte list \<Rightarrow> u32" where
  "get_u32_le_bytes c = ucast (c ! 0) OR push_bit 8 (ucast (c ! 1)) OR
                        push_bit 16 (ucast (c ! 2)) OR push_bit 24 (ucast (c ! 3))"

definition get_u64_le_bytes :: "byte list \<Rightarrow> u64" where
  "get_u64_le_bytes p =
     ucast (get_u32_le_bytes p) OR push_bit 32 (ucast (get_u32_le_bytes (drop 4 p)))"

definition put_u16_le_bytes :: "byte list \<Rightarrow> u32 \<Rightarrow> byte list" where
  "put_u16_le_bytes p x = write_at 0 [ucast x, ucast (drop_bit 8 x)] p"

definition le_bytes32 :: "u32 \<Rightarrow> byte list" where
  "le_bytes32 x = [ucast x, ucast (drop_bit 8 x), ucast (drop_bit 16 x), ucast (drop_bit 24 x)]"

definition put_u32_le_bytes :: "byte list \<Rightarrow> u32 \<Rightarrow> byte list" where
  "put_u32_le_bytes p x = write_at 0 (le_bytes32 x) p"

definition put_u64_le_bytes :: "byte list \<Rightarrow> u64 \<Rightarrow> byte list" where
  "put_u64_le_bytes p x =
     (let p' = put_u32_le_bytes p (ucast x)
      in take 4 p' @ put_u32_le_bytes (drop 4 p') (ucast (drop_bit 32 x)))"

definition get_u40_le :: "byte list \<Rightarrow> u64" where
  "get_u40_le c = ucast (get_u32_le c) OR push_bit 32 (ucast (c ! 4))"

definition put_u40_le :: "byte list \<Rightarrow> u64 \<Rightarrow> byte list" where
  "put_u40_le c x = (put_u32_le c (ucast x))[4 := ucast (drop_bit 32 x)]"

text \<open>
  \<^verbatim>\<open>cpu_be32\<close> and \<^verbatim>\<open>be32_cpu\<close> reinterpret the four bytes of a variable: a
  big-endian store followed by a native load, and a native store followed by a big-endian load.
\<close>

definition cpu_be32 :: "u32 \<Rightarrow> u32" where
  "cpu_be32 x = get_u32_le (be_bytes32 x)"

definition be32_cpu :: "u32 \<Rightarrow> u32" where
  "be32_cpu x = get_u32_be (bytes_of_nat 4 (unat x))"

text \<open>The accessors in the byte order of the machine, and of single bytes.\<close>

definition get_u16 :: "byte list \<Rightarrow> u32" where
  "get_u16 p = get_u16_le p"

definition get_u32 :: "byte list \<Rightarrow> u32" where
  "get_u32 p = get_u32_le p"

definition get_u64 :: "byte list \<Rightarrow> u64" where
  "get_u64 p = get_u64_le p"

definition get_u40 :: "byte list \<Rightarrow> u64" where
  "get_u40 p = get_u40_le p"

definition put_u16 :: "byte list \<Rightarrow> u32 \<Rightarrow> byte list" where
  "put_u16 p x = put_u16_le p x"

definition put_u32 :: "byte list \<Rightarrow> u32 \<Rightarrow> byte list" where
  "put_u32 p x = put_u32_le p x"

definition put_u64 :: "byte list \<Rightarrow> u64 \<Rightarrow> byte list" where
  "put_u64 p x = put_u64_le p x"

definition put_u40 :: "byte list \<Rightarrow> u64 \<Rightarrow> byte list" where
  "put_u40 p x = put_u40_le p x"

definition get_u8 :: "byte list \<Rightarrow> u32" where
  "get_u8 p = ucast (p ! 0)"

definition put_u8 :: "byte list \<Rightarrow> u32 \<Rightarrow> byte list" where
  "put_u8 p x = p[0 := ucast x]"

section \<open>Composition and decomposition of words\<close>

lemma length_be_bytes32 [simp, bytes_simps]: "length (be_bytes32 x) = 4"
  by (simp add: be_bytes32_def)

lemma length_le_bytes32 [simp, bytes_simps]: "length (le_bytes32 x) = 4"
  by (simp add: le_bytes32_def)

lemma length_bytes_of_nat [simp, bytes_simps]: "length (bytes_of_nat n v) = n"
  by (induction n arbitrary: v) simp_all

lemma get_u32_be_bytes [simp, bytes_simps]: "get_u32_be (be_bytes32 x @ zs) = x"
  by (rule u32_eqI_bytes) (simp_all add: get_u32_be_def be_bytes32_def bit_simps)

lemma get_u32_le_bytes_bytes [simp, bytes_simps]: "get_u32_le_bytes (le_bytes32 x @ zs) = x"
  by (rule u32_eqI_bytes) (simp_all add: get_u32_le_bytes_def le_bytes32_def bit_simps)

lemma of_nat_bytes_Cons [bytes_simps]:
  "(of_nat (nat_of_bytes (b # bs)) :: 'a::len word) =
     ucast b OR push_bit 8 (of_nat (nat_of_bytes bs))"
proof -
  have "(of_nat (nat_of_bytes (b # bs)) :: 'a word) =
          ucast b + push_bit 8 (of_nat (nat_of_bytes bs))"
    by (simp add: unsigned_ucast_eq push_bit_eq_mult mult.commute)
  also have "\<dots> = ucast b OR push_bit 8 (of_nat (nat_of_bytes bs))"
    by (rule disjunctive_add) (auto simp: bit_simps dest: bit_imp_le_length)
  finally show ?thesis .
qed

lemma bytes_of_nat_Suc_word [bytes_simps]:
  "bytes_of_nat (Suc n) (unat w) = ucast w # bytes_of_nat n (unat (drop_bit 8 w))"
  for w :: "'a::len word"
proof -
  have "of_nat (unat w mod 256) = (ucast w :: byte)"
    by (simp add: word_unat_eq_iff unat_of_nat take_bit_eq_mod unsigned_ucast_eq)
  moreover have "unat w div 256 = unat (drop_bit 8 w)"
    by (simp only: unat_drop_bit_eq) (simp add: drop_bit_eq_div)
  ultimately show ?thesis by simp
qed

lemma bytes_of_nat_u32 [bytes_simps]: "bytes_of_nat 4 (unat x) = le_bytes32 x" for x :: u32
proof -
  have four: "4 = Suc (Suc (Suc (Suc 0)))" by simp
  show ?thesis unfolding four bytes_of_nat_Suc_word bytes_of_nat.simps(1) le_bytes32_def
    by (simp add: drop_bit_drop_bit)
qed

lemma nat_of_bytes_of_nat: "nat_of_bytes (bytes_of_nat n v) = v mod 256 ^ n"
proof (induction n arbitrary: v)
  case (Suc n)
  have "unat (of_nat (v mod 256) :: byte) = v mod 256"
    by (simp add: unat_of_nat take_bit_eq_mod)
  with Suc show ?case by (simp add: mod_mult2_eq)
qed simp

lemma bytes_of_nat_of_bytes: "bytes_of_nat (length bs) (nat_of_bytes bs) = bs"
proof (induction bs)
  case (Cons b bs)
  have "(unat b + 256 * nat_of_bytes bs) mod 256 = unat b" by simp
  moreover have "(unat b + 256 * nat_of_bytes bs) div 256 = nat_of_bytes bs" by simp
  ultimately show ?case using Cons by simp
qed simp

lemma nat_of_bytes_less: "nat_of_bytes bs < 256 ^ length bs"
proof (induction bs)
  case (Cons b bs)
  have "unat b + 256 * nat_of_bytes bs < 256 * Suc (nat_of_bytes bs)" by simp
  also have "\<dots> \<le> 256 * 256 ^ length bs" using Cons by (simp only: Suc_le_eq mult_le_mono2)
  finally show ?case by simp
qed simp

lemma get_u32_le_eq_bytes [bytes_simps]:
  assumes "4 \<le> length p"
  shows "get_u32_le p = get_u32_le_bytes p"
proof -
  obtain a b c d q where p: "p = a # b # c # d # q"
    using assms by (auto simp: Suc_le_length_iff numeral_eq_Suc)
  show ?thesis
    by (simp add: p get_u32_le_def get_u32_le_bytes_def of_nat_bytes_Cons push_bit_or
        or.assoc del: nat_of_bytes.simps(2))
qed

lemma get_u32_le_le_bytes32 [simp, bytes_simps]: "get_u32_le (le_bytes32 x @ zs) = x"
  by (simp add: get_u32_le_eq_bytes)

lemma le_bytes32_get [bytes_simps]:
  assumes "length p = 4"
  shows "le_bytes32 (get_u32_le p) = p"
proof -
  have "bytes_of_nat 4 (unat (get_u32_le p)) = p"
    using assms nat_of_bytes_less [of p] bytes_of_nat_of_bytes [of p]
    by (simp add: get_u32_le_def unat_of_nat_small)
  then show ?thesis by (simp add: bytes_of_nat_u32)
qed

lemma be_bytes32_rev: "be_bytes32 x = rev (le_bytes32 x)"
  by (simp add: be_bytes32_def le_bytes32_def)

lemma get_u32_be_rev: "length p = 4 \<Longrightarrow> get_u32_be p = get_u32_le_bytes (rev p)"
  by (simp add: get_u32_be_def get_u32_le_bytes_def rev_nth or.assoc or.commute
      or.left_commute)

lemma be_bytes32_get [bytes_simps]: "length p = 4 \<Longrightarrow> be_bytes32 (get_u32_be p) = p"
  by (simp add: be_bytes32_rev get_u32_be_rev flip: get_u32_le_eq_bytes)
     (simp add: le_bytes32_get)

lemma drop_write_at_bytes [array_simps]:
  "length xs = n \<Longrightarrow> n \<le> length p \<Longrightarrow> write_at 0 xs p = xs @ drop n p"
  by (simp add: write_at_def)

lemma put_u32_be_append: "4 \<le> length p \<Longrightarrow> put_u32_be p x = be_bytes32 x @ drop 4 p"
  by (simp add: put_u32_be_def drop_write_at_bytes)

lemma put_u32_le_append: "4 \<le> length p \<Longrightarrow> put_u32_le p x = le_bytes32 x @ drop 4 p"
  by (simp add: put_u32_le_def bytes_of_nat_u32 drop_write_at_bytes)

lemma put_u32_le_bytes_append:
  "4 \<le> length p \<Longrightarrow> put_u32_le_bytes p x = le_bytes32 x @ drop 4 p"
  by (simp add: put_u32_le_bytes_def drop_write_at_bytes)

lemma put_u64_be_append:
  "8 \<le> length p \<Longrightarrow>
   put_u64_be p x = be_bytes32 (ucast (drop_bit 32 x)) @ be_bytes32 (ucast x) @ drop 8 p"
  by (simp add: put_u64_be_def put_u32_be_append)

lemma put_u64_le_bytes_append:
  "8 \<le> length p \<Longrightarrow>
   put_u64_le_bytes p x = le_bytes32 (ucast x) @ le_bytes32 (ucast (drop_bit 32 x)) @ drop 8 p"
  by (simp add: put_u64_le_bytes_def put_u32_le_bytes_append)

lemma ucast_halves [bytes_simps]:
  "push_bit 32 (ucast (ucast (drop_bit 32 x) :: u32)) OR ucast (ucast x :: u32) = (x :: u64)"
  by (rule u64_eqI_bytes) (auto simp: bit_simps)

lemma bytes_of_nat_u64 [bytes_simps]:
  "bytes_of_nat 8 (unat x) = le_bytes32 (ucast x) @ le_bytes32 (ucast (drop_bit 32 x))"
  for x :: u64
proof -
  have eight: "8 = Suc (Suc (Suc (Suc (Suc (Suc (Suc (Suc 0)))))))" by simp
  have cast: "(ucast (drop_bit n (ucast y :: u32)) :: byte) = ucast (drop_bit n y)"
    if "n \<le> 24" for n and y :: u64
    by (rule bit_word_eqI) (use that in \<open>auto simp: bit_simps\<close>)
  have cast0: "(ucast (ucast y :: u32) :: byte) = ucast y" for y :: u64
    by (rule bit_word_eqI) (auto simp: bit_simps)
  show ?thesis
    by (subst eight, simp only: bytes_of_nat_Suc_word bytes_of_nat.simps(1) le_bytes32_def)
       (simp add: drop_bit_drop_bit cast cast0)
qed

lemma get_u64_le_eq_bytes [bytes_simps]:
  assumes "8 \<le> length p"
  shows "get_u64_le p = get_u64_le_bytes p"
proof -
  obtain a b c d e f g h q where p: "p = a # b # c # d # e # f # g # h # q"
    using assms by (auto simp: Suc_le_length_iff numeral_eq_Suc)
  have push: "(ucast (push_bit n (ucast z :: u32)) :: u64) = push_bit n (ucast z)"
    if "n \<le> 24" for n and z :: byte
    by (rule bit_word_eqI) (use that in \<open>auto simp: bit_simps dest: bit_imp_le_length\<close>)
  have cast: "(ucast (ucast z :: u32) :: u64) = ucast z" for z :: byte
    by (rule bit_word_eqI) (auto simp: bit_simps dest: bit_imp_le_length)
  have or: "(ucast (v OR w) :: u64) = ucast v OR ucast w" for v w :: u32
    by (rule bit_word_eqI) (auto simp: bit_simps)
  show ?thesis
    by (simp add: p get_u64_le_def get_u64_le_bytes_def get_u32_le_bytes_def of_nat_bytes_Cons
        push_bit_or or push cast or.assoc del: nat_of_bytes.simps(2))
qed

section \<open>Properties\<close>

text \<open>
  a value stored by a big-endian \<^verbatim>\<open>put_uN_be\<close> is read back by \<^verbatim>\<open>get_uN_be\<close>
  (truncated to the stored width for 16 and 40 bits), and the bytes behind the field keep
  their value.
\<close>

theorem unaligned_be_roundtrip:
  assumes "8 \<le> length p"
  shows "get_u16_be (put_u16_be p x) = take_bit 16 x \<and> drop 2 (put_u16_be p x) = drop 2 p
    \<and> get_u32_be (put_u32_be p x) = x \<and> drop 4 (put_u32_be p x) = drop 4 p
    \<and> get_u40_be (put_u40_be p y) = take_bit 40 y \<and> drop 5 (put_u40_be p y) = drop 5 p
    \<and> get_u64_be (put_u64_be p y) = y \<and> drop 8 (put_u64_be p y) = drop 8 p"
proof (intro conjI)
  have p: "p \<noteq> []" using assms by auto
  show "get_u16_be (put_u16_be p x) = take_bit 16 x"
    by (rule u32_eqI_bytes) (simp_all add: get_u16_be_def put_u16_be_def write_at_def bit_simps)
  show "drop 2 (put_u16_be p x) = drop 2 p"
    by (simp add: put_u16_be_def write_at_def numeral_2_eq_2)
  show "get_u32_be (put_u32_be p x) = x" and "drop 4 (put_u32_be p x) = drop 4 p"
    using assms by (simp_all add: put_u32_be_append)
  have c: "put_u40_be p y = ucast (drop_bit 32 y) # be_bytes32 (ucast y) @ drop 5 p"
    using assms p by (cases p) (simp_all add: put_u40_be_def put_u32_be_append)
  show "get_u40_be (put_u40_be p y) = take_bit 40 y" unfolding c get_u40_be_def
    by (rule u64_eqI_bytes) (auto simp: bit_simps)
  show "drop 5 (put_u40_be p y) = drop 5 p" by (simp add: c)
  show "get_u64_be (put_u64_be p y) = y" and "drop 8 (put_u64_be p y) = drop 8 p"
    using assms by (simp_all add: get_u64_be_def put_u64_be_append ucast_halves)
qed

theorem unaligned_be_roundtrip_witness:
  "(8::nat) \<le> length [1, 2, 3, 4, 5, 6, 7, 8, 9 :: byte]
   \<and> get_u32_be (put_u32_be [1, 2, 3, 4, 5, 6, 7, 8, 9] 0xdeadbeef) = 0xdeadbeef
   \<and> drop 4 (put_u32_be [1, 2, 3, 4, 5, 6, 7, 8, 9] 0xdeadbeef) = [5, 6, 7, 8, 9]"
  using unaligned_be_roundtrip [of "[1, 2, 3, 4, 5, 6, 7, 8, 9]" "0xdeadbeef"] by simp

text \<open>
  the two implementations of the little-endian accessors, native loads and stores and
  byte-by-byte composition, agree on every object large enough for the access, and a stored
  value is read back.
\<close>

theorem unaligned_le_branches_agree:
  assumes "8 \<le> length p"
  shows "get_u16_le p = get_u16_le_bytes p \<and> get_u32_le p = get_u32_le_bytes p
    \<and> get_u64_le p = get_u64_le_bytes p
    \<and> put_u16_le p x = put_u16_le_bytes p x \<and> put_u32_le p x = put_u32_le_bytes p x
    \<and> put_u64_le p y = put_u64_le_bytes p y
    \<and> get_u32_le (put_u32_le p x) = x \<and> get_u64_le (put_u64_le p y) = y"
proof (intro conjI)
  obtain a b q where p: "p = a # b # q"
    using assms by (auto simp: Suc_le_length_iff numeral_eq_Suc)
  show "get_u16_le p = get_u16_le_bytes p"
    by (simp add: p get_u16_le_def get_u16_le_bytes_def of_nat_bytes_Cons
        del: nat_of_bytes.simps(2))
  show "get_u32_le p = get_u32_le_bytes p" using assms by (simp add: get_u32_le_eq_bytes)
  show "get_u64_le p = get_u64_le_bytes p" using assms by (rule get_u64_le_eq_bytes)
  have "bytes_of_nat (Suc (Suc 0)) (unat x) = [ucast x, ucast (drop_bit 8 x)]"
    by (simp only: bytes_of_nat_Suc_word bytes_of_nat.simps(1))
  then show "put_u16_le p x = put_u16_le_bytes p x"
    by (simp add: put_u16_le_def put_u16_le_bytes_def numeral_2_eq_2)
  show "put_u32_le p x = put_u32_le_bytes p x"
    using assms by (simp add: put_u32_le_append put_u32_le_bytes_append)
  show put64: "put_u64_le p y = put_u64_le_bytes p y"
    using assms by (simp add: put_u64_le_def bytes_of_nat_u64 drop_write_at_bytes
        put_u64_le_bytes_append)
  show "get_u32_le (put_u32_le p x) = x" using assms by (simp add: put_u32_le_append)
  show "get_u64_le (put_u64_le p y) = y"
    using assms ucast_halves [of y]
    by (simp add: put64 put_u64_le_bytes_append get_u64_le_eq_bytes get_u64_le_bytes_def
        or.commute)
qed

theorem unaligned_le_branches_agree_witness:
  "get_u32_le [0x78, 0x56, 0x34, 0x12, 0, 0, 0, 0] = 0x12345678
   \<and> get_u32_le_bytes [0x78, 0x56, 0x34, 0x12, 0, 0, 0, 0] = 0x12345678"
  using unaligned_le_branches_agree [of "[0x78, 0x56, 0x34, 0x12, 0, 0, 0, 0]"]
  by (simp add: get_u32_le_bytes_def)

text \<open>
  The conversions between host and network byte order are inverse to each other, and the
  byte order is really exchanged (they are not the identity).
\<close>

theorem be32_conversions_inverse:
  "be32_cpu (cpu_be32 x) = x \<and> cpu_be32 (be32_cpu x) = x \<and> cpu_be32 1 = 0x01000000"
proof (intro conjI)
  have be: "be_bytes32 (be32_cpu y) = le_bytes32 y" for y
    by (simp add: be32_cpu_def bytes_of_nat_u32 be_bytes32_get)
  have le: "le_bytes32 (cpu_be32 y) = be_bytes32 y" for y
    by (simp add: cpu_be32_def le_bytes32_get)
  show "be32_cpu (cpu_be32 x) = x"
    using get_u32_be_bytes [of x "[]"] by (simp add: be32_cpu_def bytes_of_nat_u32 le)
  show "cpu_be32 (be32_cpu x) = x"
    using get_u32_le_le_bytes32 [of x "[]"] by (simp add: cpu_be32_def be)
  show "cpu_be32 1 = 0x01000000"
    by (simp add: cpu_be32_def be_bytes32_def get_u32_le_eq_bytes get_u32_le_bytes_def)
qed

end
