(* ===== verification/Crc.thy ===== *)
theory Crc
  imports Crc_Tables Unaligned
begin

text \<open>
  Model of \<^verbatim>\<open>crypto/crc.c\<close> and \<^verbatim>\<open>crypto/crc.h\<close>: CRC-32C by one, four or
  eight bytes per step. A buffer is the list of bytes that may be read from its first address
  on; the alignment loops depend on the numeric address, which is a parameter. A read past the
  last byte of the object makes the run \<open>None\<close>. The reference is the bit-serial division
  by the Castagnoli polynomial (\<open>crc_bit\<close>), and the tables, the byte-wise loop and the two
  slicing loops are all shown to compute it.
\<close>

section \<open>State and loops\<close>

datatype crc32_fn = Update_by1 | Update_by4 | Update_by8

datatype crc32_mode = CRC_MODE_DEFAULT | CRC_MODE_SMALL | CRC_MODE_BIG | CRC_MODE_MAX

record crc32 =
  crc_state :: u32
  crc_update :: crc32_fn

text \<open>One table step, \<^verbatim>\<open>table_il8_o32[(crc ^ b) & 0xFF] ^ (crc >> 8)\<close>.\<close>

definition step_by1 :: "u32 \<Rightarrow> byte \<Rightarrow> u32" where
  "step_by1 crc b = (table_il8_o32 ! unat ((crc XOR ucast b) AND 0xFF)) XOR drop_bit 8 crc"

text \<open>\<^verbatim>\<open>while (n--) crc = step(crc, *buf++)\<close>\<close>

fun bytes_loop :: "nat \<Rightarrow> u32 \<Rightarrow> byte list \<Rightarrow> (u32 \<times> byte list) option" where
  "bytes_loop 0 crc buf = Some (crc, buf)"
| "bytes_loop (Suc n) crc [] = None"
| "bytes_loop (Suc n) crc (b # buf) = bytes_loop n (step_by1 crc b) buf"

definition crc32_update_by1 :: "u32 \<Rightarrow> byte list \<Rightarrow> u32 \<Rightarrow> u32 option" where
  "crc32_update_by1 crc buf len = map_option fst (bytes_loop (unat len) crc buf)"

text \<open>The body of the four-byte loop, and the loop over aligned words.\<close>

definition step_by4 :: "u32 \<Rightarrow> u32 \<Rightarrow> u32" where
  "step_by4 crc w =
     (let crc = crc XOR w;
          term1 = (table_il8_o56 ! unat (crc AND 0xFF)) XOR
                  (table_il8_o48 ! unat (drop_bit 8 crc AND 0xFF));
          term2 = drop_bit 16 crc
      in term1 XOR (table_il8_o40 ! unat (term2 AND 0xFF)) XOR
         (table_il8_o32 ! unat (drop_bit 8 term2 AND 0xFF)))"

fun words_loop :: "nat \<Rightarrow> u32 \<Rightarrow> byte list \<Rightarrow> (u32 \<times> byte list) option" where
  "words_loop 0 crc buf = Some (crc, buf)"
| "words_loop (Suc n) crc buf =
     (if length buf < 4 then None
      else words_loop n (step_by4 crc (get_u32_le buf)) (drop 4 buf))"

text \<open>
  The alignment prologue, common to both word loops: \<^verbatim>\<open>align - (buf & (align - 1))\<close> bytes
  when the address is not aligned, and \<^verbatim>\<open>len -= init_bytes\<close> in 32-bit arithmetic.
\<close>

definition init_bytes :: "u32 \<Rightarrow> u64 \<Rightarrow> u32" where
  "init_bytes align addr =
     (let i = ucast (addr AND (ucast align - 1)) in if i = 0 then 0 else align - i)"

definition crc32_update_by4 :: "u64 \<Rightarrow> u32 \<Rightarrow> byte list \<Rightarrow> u32 \<Rightarrow> u32 option" where
  "crc32_update_by4 addr crc buf len =
     (let ib = init_bytes 4 addr; len = len - ib in
      case bytes_loop (unat ib) crc buf of
        None \<Rightarrow> None
      | Some (crc, buf) \<Rightarrow>
          (let words = len div 4; len = len - 4 * words in
           case words_loop (unat words) crc buf of
             None \<Rightarrow> None
           | Some (crc, buf) \<Rightarrow> map_option fst (bytes_loop (unat len) crc buf)))"

definition step_by8 :: "u32 \<Rightarrow> u32 \<Rightarrow> u32 \<Rightarrow> u32" where
  "step_by8 crc w0 w1 =
     (let crc = crc XOR w0;
          term1 = (table_il8_o88 ! unat (crc AND 0xFF)) XOR
                  (table_il8_o80 ! unat (drop_bit 8 crc AND 0xFF));
          term2 = drop_bit 16 crc;
          crc = term1 XOR (table_il8_o72 ! unat (term2 AND 0xFF)) XOR
                (table_il8_o64 ! unat (drop_bit 8 term2 AND 0xFF));
          term1 = (table_il8_o56 ! unat (w1 AND 0xFF)) XOR
                  (table_il8_o48 ! unat (drop_bit 8 w1 AND 0xFF));
          term2 = drop_bit 16 w1
      in crc XOR term1 XOR (table_il8_o40 ! unat (term2 AND 0xFF)) XOR
         (table_il8_o32 ! unat (drop_bit 8 term2 AND 0xFF)))"

fun quads_loop :: "nat \<Rightarrow> u32 \<Rightarrow> byte list \<Rightarrow> (u32 \<times> byte list) option" where
  "quads_loop 0 crc buf = Some (crc, buf)"
| "quads_loop (Suc n) crc buf =
     (if length buf < 8 then None
      else quads_loop n (step_by8 crc (get_u32_le buf) (get_u32_le (drop 4 buf))) (drop 8 buf))"

definition crc32_update_by8 :: "u64 \<Rightarrow> u32 \<Rightarrow> byte list \<Rightarrow> u32 \<Rightarrow> u32 option" where
  "crc32_update_by8 addr crc buf len =
     (let ib = init_bytes 8 addr; len = len - ib in
      case bytes_loop (unat ib) crc buf of
        None \<Rightarrow> None
      | Some (crc, buf) \<Rightarrow>
          (let quads = len div 8; len = len - 8 * quads in
           case quads_loop (unat quads) crc buf of
             None \<Rightarrow> None
           | Some (crc, buf) \<Rightarrow> map_option fst (bytes_loop (unat len) crc buf)))"

text \<open>
  \<^verbatim>\<open>crc32_init\<close> selects the loop; an unknown mode fails the assertion (\<open>None\<close>).
\<close>

definition crc32_init :: "crc32_mode \<Rightarrow> crc32 option" where
  "crc32_init mode =
     (case mode of
        CRC_MODE_DEFAULT \<Rightarrow> Some \<lparr>crc_state = 0xffffffff, crc_update = Update_by4\<rparr>
      | CRC_MODE_SMALL \<Rightarrow> Some \<lparr>crc_state = 0xffffffff, crc_update = Update_by1\<rparr>
      | CRC_MODE_BIG \<Rightarrow> Some \<lparr>crc_state = 0xffffffff, crc_update = Update_by8\<rparr>
      | CRC_MODE_MAX \<Rightarrow> None)"

definition crc32_update :: "u64 \<Rightarrow> crc32 \<Rightarrow> byte list \<Rightarrow> u32 \<Rightarrow> crc32 option" where
  "crc32_update addr c buf len =
     map_option (\<lambda>s. c\<lparr>crc_state := s\<rparr>)
       (case crc_update c of
          Update_by1 \<Rightarrow> crc32_update_by1 (crc_state c) buf len
        | Update_by4 \<Rightarrow> crc32_update_by4 addr (crc_state c) buf len
        | Update_by8 \<Rightarrow> crc32_update_by8 addr (crc_state c) buf len)"

definition crc32_final :: "crc32 \<Rightarrow> u32" where
  "crc32_final c = crc_state c XOR 0xffffffff"

definition crc32_hash :: "u64 \<Rightarrow> byte list \<Rightarrow> u32 \<Rightarrow> u32 option" where
  "crc32_hash addr buf len =
     Option.bind (crc32_init CRC_MODE_DEFAULT)
       (\<lambda>c. map_option crc32_final (crc32_update addr c buf len))"

text \<open>
  \<^verbatim>\<open>crc32_generate\<close>, the second implementation: the macro \<^verbatim>\<open>CRC32C\<close> works on the
  64-bit table \<^verbatim>\<open>crc_c\<close> and truncates to the 32-bit accumulator, and the bytes of the
  complemented result are reversed at the end.
\<close>

definition CRC32C :: "u32 \<Rightarrow> byte \<Rightarrow> u32" where
  "CRC32C c d = ucast (ucast (drop_bit 8 c) XOR (crc_c ! unat ((c XOR ucast d) AND 0xFF)))"

definition swap_bytes :: "u32 \<Rightarrow> u32" where
  "swap_bytes res =
     (let b0 = ucast (res AND 0xff) :: byte; b1 = ucast (drop_bit 8 res AND 0xff) :: byte;
          b2 = ucast (drop_bit 16 res AND 0xff) :: byte;
          b3 = ucast (drop_bit 24 res AND 0xff) :: byte
      in push_bit 24 (ucast b0) OR push_bit 16 (ucast b1) OR push_bit 8 (ucast b2) OR ucast b3)"

definition crc32_generate :: "byte list \<Rightarrow> u32" where
  "crc32_generate buf = swap_bytes (NOT (foldl CRC32C (NOT 0) buf))"

section \<open>The bit-serial reference\<close>

text \<open>
  One bit of the division, least significant bit first; \<^verbatim>\<open>0x82F63B78\<close> is the polynomial
  \<^verbatim>\<open>CRC32C_POLY\<close> with its bits reversed.
\<close>

definition crc_bit :: "u32 \<Rightarrow> u32" where
  "crc_bit x = drop_bit 1 x XOR (if bit x 0 then 0x82F63B78 else 0)"

definition crc_shift :: "nat \<Rightarrow> u32 \<Rightarrow> u32" where
  "crc_shift n x = (crc_bit ^^ n) x"

definition crc_bytes :: "u32 \<Rightarrow> byte list \<Rightarrow> u32" where
  "crc_bytes = foldl (\<lambda>crc b. crc_shift 8 (crc XOR ucast b))"

definition crc32c :: "byte list \<Rightarrow> u32" where
  "crc32c buf = NOT (crc_bytes (NOT 0) buf)"

subsection \<open>Linearity and shifting\<close>

lemma crc_bit_xor: "crc_bit (x XOR y) = crc_bit x XOR crc_bit y"
  by (auto simp: crc_bit_def bit_simps ac_simps drop_bit_xor)

lemma crc_shift_0 [simp]: "crc_shift 0 x = x"
  by (simp add: crc_shift_def)

lemma crc_shift_Suc: "crc_shift (Suc n) x = crc_shift n (crc_bit x)"
  by (simp add: crc_shift_def funpow_swap1)

lemma crc_shift_add: "crc_shift (m + n) x = crc_shift m (crc_shift n x)"
  by (simp add: crc_shift_def funpow_add)

lemma crc_shift_xor: "crc_shift n (x XOR y) = crc_shift n x XOR crc_shift n y"
  by (induction n arbitrary: x y) (simp_all add: crc_shift_Suc crc_bit_xor)

lemma crc_shift_zero [simp]: "crc_shift n 0 = 0"
  by (induction n) (simp_all add: crc_shift_Suc crc_bit_def)

text \<open>Where the low bits are zero the division only shifts.\<close>

lemma crc_shift_drop:
  "(\<And>i. i < n \<Longrightarrow> \<not> bit x i) \<Longrightarrow> crc_shift n x = drop_bit n x"
proof (induction n arbitrary: x)
  case (Suc n)
  have "crc_bit x = drop_bit 1 x" using Suc.prems [of 0] by (simp add: crc_bit_def)
  moreover have "\<not> bit (drop_bit 1 x) i" if "i < n" for i
    using Suc.prems [of "Suc i"] that by (simp add: bit_simps)
  ultimately show ?case using Suc.IH by (simp add: crc_shift_Suc drop_bit_drop_bit)
qed simp

lemma crc_shift_push:
  assumes "n \<le> 24"
  shows "crc_shift (m + n) (push_bit n (ucast b)) = crc_shift m (ucast (b :: byte))"
proof -
  have "crc_shift n (push_bit n (ucast b)) = drop_bit n (push_bit n (ucast b :: u32))"
    by (rule crc_shift_drop) (auto simp: bit_simps)
  also have "\<dots> = ucast b"
    by (rule bit_word_eqI) (use assms in \<open>auto simp: bit_simps dest: bit_imp_le_length\<close>)
  finally show ?thesis by (simp add: crc_shift_add)
qed

text \<open>A word is the exclusive or of its four bytes in place.\<close>

definition byte_of :: "nat \<Rightarrow> u32 \<Rightarrow> byte" where
  "byte_of n x = ucast (drop_bit n x)"

lemma word_bytes_xor:
  "x = ucast (byte_of 0 x) XOR push_bit 8 (ucast (byte_of 8 x)) XOR
       push_bit 16 (ucast (byte_of 16 x)) XOR push_bit 24 (ucast (byte_of 24 x))"
  by (rule u32_eqI_bytes) (simp_all add: byte_of_def bit_simps)

lemma and_ff_ucast: "x AND 0xFF = ucast (byte_of 0 x)"
proof -
  have "x AND 0xFF = take_bit 8 x" using take_bit_eq_mask [of 8 x] by (simp add: mask_eq_exp_minus_1)
  also have "\<dots> = ucast (byte_of 0 x)"
    by (rule u32_eqI_bytes) (simp_all add: byte_of_def bit_simps)
  finally show ?thesis .
qed

lemma byte_of_drop_bit: "byte_of m (drop_bit n x) = byte_of (m + n) x"
  by (simp add: byte_of_def drop_bit_drop_bit)

lemma crc_shift_bytes:
  assumes "24 \<le> n"
  shows "crc_shift n x = crc_shift n (ucast (byte_of 0 x)) XOR
     crc_shift (n - 8) (ucast (byte_of 8 x)) XOR crc_shift (n - 16) (ucast (byte_of 16 x)) XOR
     crc_shift (n - 24) (ucast (byte_of 24 x))"
proof -
  have push: "crc_shift n (push_bit k (ucast b)) = crc_shift (n - k) (ucast (b :: byte))"
    if "k \<le> 24" for k b
    using crc_shift_push [OF that, of "n - k" b] that assms by simp
  show ?thesis by (subst word_bytes_xor) (simp add: crc_shift_xor push)
qed

lemma crc_shift_8: "crc_shift 8 x = crc_shift 8 (ucast (byte_of 0 x)) XOR drop_bit 8 x"
proof -
  let ?h = "push_bit 8 (drop_bit 8 x)"
  have "x = ucast (byte_of 0 x) XOR ?h"
    by (rule u32_eqI_bytes) (simp_all add: byte_of_def bit_simps)
  then have "crc_shift 8 x = crc_shift 8 (ucast (byte_of 0 x)) XOR crc_shift 8 ?h"
    by (metis crc_shift_xor)
  also have "crc_shift 8 ?h = drop_bit 8 ?h" by (rule crc_shift_drop) (auto simp: bit_simps)
  also have "\<dots> = drop_bit 8 x"
    by (rule bit_word_eqI) (auto simp: bit_simps dest: bit_imp_le_length)
  finally show ?thesis .
qed

subsection \<open>The tables\<close>

text \<open>
  A table is linear when entry \<open>2 ^ k + j\<close> is the exclusive or of entries \<open>2 ^ k\<close>
  and \<open>j\<close>: the second half of each prefix of length \<open>2 ^ (k + 1)\<close> is the first half
  with one entry added. This is a check of 255 exclusive ors per table, done by the kernel;
  a table is then determined by its entries at the powers of two.
\<close>

definition doubles :: "u32 list \<Rightarrow> nat \<Rightarrow> bool" where
  "doubles T n \<longleftrightarrow> take n (drop n T) = map (\<lambda>x. x XOR T ! n) (take n T)"

definition linear_table :: "u32 list \<Rightarrow> bool" where
  "linear_table T \<longleftrightarrow> length T = 256 \<and> T ! 0 = 0 \<and> doubles T 1 \<and> doubles T 2 \<and> doubles T 4 \<and>
     doubles T 8 \<and> doubles T 16 \<and> doubles T 32 \<and> doubles T 64 \<and> doubles T 128"

definition basis :: "u32 list \<Rightarrow> u32 list" where
  "basis T = [T ! 1, T ! 2, T ! 4, T ! 8, T ! 16, T ! 32, T ! 64, T ! 128]"

definition crc_table :: "nat \<Rightarrow> u32 list \<Rightarrow> bool" where
  "crc_table n T \<longleftrightarrow> (\<forall>b :: byte. T ! unat b = crc_shift n (ucast b))"

lemma doubles_nth:
  assumes "doubles T (2 ^ k)" and "length T = 256" and "k < 8" and "j < 2 ^ k"
  shows "T ! (2 ^ k + j) = T ! j XOR T ! (2 ^ k)"
proof -
  have le: "2 ^ k + (2 ^ k :: nat) \<le> 256"
    using power_increasing [of "Suc k" 8 "2 :: nat"] \<open>k < 8\<close> by simp
  have "T ! (2 ^ k + j) = take (2 ^ k) (drop (2 ^ k) T) ! j"
    using assms le by simp
  also have "\<dots> = T ! j XOR T ! (2 ^ k)"
    using assms le by (simp add: doubles_def)
  finally show ?thesis .
qed

lemma of_nat_exp_add_xor:
  assumes "j < 2 ^ k"
  shows "(of_nat (2 ^ k + j) :: u32) = of_nat j XOR 2 ^ k"
proof -
  have "j AND 2 ^ k = 0"
    using assms by (simp add: and_exp_eq_0_iff_not_bit bit_iff_odd)
  then have "2 ^ k + j = j XOR 2 ^ k" by (simp add: disjunctive_add_eq_xor add.commute)
  then show ?thesis by (simp add: of_nat_xor_eq)
qed

lemma linear_table_doubles:
  "linear_table T \<Longrightarrow> k < 8 \<Longrightarrow> doubles T (2 ^ k)"
  by (auto simp: linear_table_def numeral_eq_Suc less_Suc_eq)

lemma basis_nth: "k < 8 \<Longrightarrow> basis T ! k = T ! (2 ^ k)"
  by (auto simp: basis_def numeral_eq_Suc less_Suc_eq)

lemma crc_table_of_basis:
  assumes lin: "linear_table T"
    and basis: "basis T = map (\<lambda>k. crc_shift n (2 ^ k)) [0..<8]"
  shows "crc_table n T"
proof -
  have pow: "T ! (2 ^ k) = crc_shift n (2 ^ k)" if "k < 8" for k
    using basis_nth [of k T] that by (simp add: basis)
  have "i < 2 ^ k \<Longrightarrow> T ! i = crc_shift n (of_nat i)" if "k \<le> 8" for i k
    using that
  proof (induction k arbitrary: i)
    case 0
    then show ?case using lin by (simp add: linear_table_def)
  next
    case (Suc k)
    show ?case
    proof (cases "i < 2 ^ k")
      case False
      then obtain j where i: "i = 2 ^ k + j" and j: "j < 2 ^ k"
        using Suc.prems(1) by (metis add.commute add_less_cancel_left le_iff_add mult_2 not_less
            power_Suc)
      have k: "k < 8" using Suc.prems(2) by simp
      have "T ! i = T ! j XOR T ! (2 ^ k)"
        unfolding i using lin k j linear_table_doubles
        by (intro doubles_nth) (auto simp: linear_table_def)
      also have "\<dots> = crc_shift n (of_nat j XOR 2 ^ k)"
        using Suc j k by (simp add: pow crc_shift_xor)
      finally show ?thesis using of_nat_exp_add_xor [OF j] by (simp add: i)
    qed (use Suc in simp)
  qed
  from this [of 8] show ?thesis
    by (auto simp: crc_table_def unsigned_ucast_eq)
qed

lemma crc_tableD: "crc_table n T \<Longrightarrow> T ! unat (x AND 0xFF) = crc_shift n (ucast (byte_of 0 x))"
proof -
  assume "crc_table n T"
  moreover have "unat (ucast (byte_of 0 x) :: u32) = unat (byte_of 0 x)"
    by (simp add: unsigned_ucast_eq take_bit_nat_eq_self_iff)
       (rule order_less_trans [OF unat_byte_less], simp)
  ultimately show ?thesis by (simp add: crc_table_def and_ff_ucast)
qed

text \<open>
  The check of the tables. The basis of the first table is computed bit by bit, the basis of
  each following table from the previous one by eight further bits.
\<close>

definition crc_bit8 :: "u32 \<Rightarrow> u32" where
  "crc_bit8 x = crc_bit (crc_bit (crc_bit (crc_bit (crc_bit (crc_bit (crc_bit (crc_bit x)))))))"

lemma crc_bit8_shift: "crc_shift (8 + n) x = crc_bit8 (crc_shift n x)"
  by (simp add: crc_bit8_def crc_shift_add) (simp add: crc_shift_def numeral_eq_Suc)

lemma basis_next:
  assumes "basis T = map (\<lambda>k. crc_shift n (2 ^ k)) [0..<8]"
    and "basis T' = map crc_bit8 (basis T)"
  shows "basis T' = map (\<lambda>k. crc_shift (8 + n) (2 ^ k)) [0..<8]"
  using assms by (simp only: crc_bit8_shift map_map o_def)

lemmas table_check = linear_table_def doubles_def basis_def crc_bit8_def crc_bit_def

lemma linear_o32: "linear_table table_il8_o32"
  by (simp add: table_check table_il8_o32_def)

lemma linear_o40: "linear_table table_il8_o40"
  by (simp add: table_check table_il8_o40_def)

lemma linear_o48: "linear_table table_il8_o48"
  by (simp add: table_check table_il8_o48_def)

lemma linear_o56: "linear_table table_il8_o56"
  by (simp add: table_check table_il8_o56_def)

lemma linear_o64: "linear_table table_il8_o64"
  by (simp add: table_check table_il8_o64_def)

lemma linear_o72: "linear_table table_il8_o72"
  by (simp add: table_check table_il8_o72_def)

lemma linear_o80: "linear_table table_il8_o80"
  by (simp add: table_check table_il8_o80_def)

lemma linear_o88: "linear_table table_il8_o88"
  by (simp add: table_check table_il8_o88_def)

lemma basis_o32: "basis table_il8_o32 = map (\<lambda>k. crc_shift 8 (2 ^ k)) [0..<8]"
proof -
  have "basis table_il8_o32 = map crc_bit8 [1, 2, 4, 8, 16, 32, 64, 128]"
    by (simp add: table_check table_il8_o32_def)
  also have "\<dots> = map (\<lambda>k. crc_shift 8 (2 ^ k)) [0..<8]"
    using crc_bit8_shift [of 0] by (simp add: upt_rec)
  finally show ?thesis .
qed

lemma basis_o40: "basis table_il8_o40 = map (\<lambda>k. crc_shift 16 (2 ^ k)) [0..<8]"
  using basis_next [OF basis_o32, of table_il8_o40]
  by (simp add: basis_def crc_bit8_def crc_bit_def table_il8_o32_def table_il8_o40_def)

lemma basis_o48: "basis table_il8_o48 = map (\<lambda>k. crc_shift 24 (2 ^ k)) [0..<8]"
  using basis_next [OF basis_o40, of table_il8_o48]
  by (simp add: basis_def crc_bit8_def crc_bit_def table_il8_o40_def table_il8_o48_def)

lemma basis_o56: "basis table_il8_o56 = map (\<lambda>k. crc_shift 32 (2 ^ k)) [0..<8]"
  using basis_next [OF basis_o48, of table_il8_o56]
  by (simp add: basis_def crc_bit8_def crc_bit_def table_il8_o48_def table_il8_o56_def)

lemma basis_o64: "basis table_il8_o64 = map (\<lambda>k. crc_shift 40 (2 ^ k)) [0..<8]"
  using basis_next [OF basis_o56, of table_il8_o64]
  by (simp add: basis_def crc_bit8_def crc_bit_def table_il8_o56_def table_il8_o64_def)

lemma basis_o72: "basis table_il8_o72 = map (\<lambda>k. crc_shift 48 (2 ^ k)) [0..<8]"
  using basis_next [OF basis_o64, of table_il8_o72]
  by (simp add: basis_def crc_bit8_def crc_bit_def table_il8_o64_def table_il8_o72_def)

lemma basis_o80: "basis table_il8_o80 = map (\<lambda>k. crc_shift 56 (2 ^ k)) [0..<8]"
  using basis_next [OF basis_o72, of table_il8_o80]
  by (simp add: basis_def crc_bit8_def crc_bit_def table_il8_o72_def table_il8_o80_def)

lemma basis_o88: "basis table_il8_o88 = map (\<lambda>k. crc_shift 64 (2 ^ k)) [0..<8]"
  using basis_next [OF basis_o80, of table_il8_o88]
  by (simp add: basis_def crc_bit8_def crc_bit_def table_il8_o80_def table_il8_o88_def)

lemmas crc_tables =
  crc_table_of_basis [OF linear_o32 basis_o32]
  crc_table_of_basis [OF linear_o40 basis_o40]
  crc_table_of_basis [OF linear_o48 basis_o48]
  crc_table_of_basis [OF linear_o56 basis_o56]
  crc_table_of_basis [OF linear_o64 basis_o64]
  crc_table_of_basis [OF linear_o72 basis_o72]
  crc_table_of_basis [OF linear_o80 basis_o80]
  crc_table_of_basis [OF linear_o88 basis_o88]

lemmas crc_table_nth = crc_tables [THEN crc_tableD]

subsection \<open>The steps\<close>

lemma byte_of_xor: "byte_of n (x XOR y) = byte_of n x XOR byte_of n y"
  by (rule bit_word_eqI) (auto simp: byte_of_def bit_simps)

lemma drop_bit_8_byte: "drop_bit 8 (ucast (b :: byte)) = (0 :: u32)"
  by (rule bit_word_eqI) (auto simp: bit_simps dest: bit_imp_le_length)

lemma step_by1_eq: "step_by1 crc b = crc_shift 8 (crc XOR ucast b)"
  by (subst crc_shift_8) (simp add: step_by1_def crc_table_nth drop_bit_8_byte)

lemma step_by4_eq: "step_by4 crc w = crc_shift 32 (crc XOR w)"
  by (subst crc_shift_bytes)
     (simp_all add: step_by4_def Let_def crc_table_nth byte_of_drop_bit drop_bit_drop_bit ac_simps
       del: drop_bit_xor)

lemma step_by8_eq: "step_by8 crc w0 w1 = crc_shift 32 (crc_shift 32 (crc XOR w0) XOR w1)"
proof -
  have a: "crc_shift 64 (crc XOR w0) = crc_shift 32 (crc_shift 32 (crc XOR w0))"
    using crc_shift_add [of 32 32 "crc XOR w0"] by simp
  show ?thesis unfolding crc_shift_xor [of 32 "crc_shift 32 (crc XOR w0)"] a [symmetric]
    by (subst crc_shift_bytes [of 64], simp, subst crc_shift_bytes [of 32 w1], simp)
       (simp add: step_by8_def Let_def crc_table_nth byte_of_drop_bit drop_bit_drop_bit ac_simps
       del: drop_bit_xor)
qed

text \<open>Four bytes at once: the word loaded from memory carries its first byte lowest.\<close>

lemma crc_shift_8_add_byte:
  "n \<le> 24 \<Longrightarrow> crc_shift n x XOR ucast (b :: byte) = crc_shift n (x XOR push_bit n (ucast b))"
  using crc_shift_push [of n 0 b] by (simp add: crc_shift_xor)

lemma crc_word_bytes:
  "crc_shift 32 (crc XOR get_u32_le_bytes [a, b, c, d]) = crc_bytes crc [a, b, c, d]"
proof -
  have w: "get_u32_le_bytes [a, b, c, d] =
      ucast a XOR push_bit 8 (ucast b) XOR push_bit 16 (ucast c) XOR push_bit 24 (ucast d)"
    by (rule u32_eqI_bytes) (simp_all add: get_u32_le_bytes_def bit_simps)
  have "crc_bytes crc [a, b, c, d] =
      crc_shift 8 (crc_shift 24 (((crc XOR ucast a) XOR push_bit 8 (ucast b)) XOR
        push_bit 16 (ucast c)) XOR ucast d)"
    by (simp add: crc_bytes_def crc_shift_8_add_byte flip: crc_shift_add)
  also have "\<dots> = crc_shift 32 (crc XOR get_u32_le_bytes [a, b, c, d])"
    by (simp add: crc_shift_8_add_byte w xor.assoc flip: crc_shift_add)
  finally show ?thesis by simp
qed

subsection \<open>The loops\<close>

lemma crc_bytes_append: "crc_bytes crc (xs @ ys) = crc_bytes (crc_bytes crc xs) ys"
  by (simp add: crc_bytes_def)

lemma crc_bytes_Cons [simp]: "crc_bytes crc (b # bs) = crc_bytes (crc_shift 8 (crc XOR ucast b)) bs"
  by (simp add: crc_bytes_def)

lemma crc_bytes_Nil [simp]: "crc_bytes crc [] = crc"
  by (simp add: crc_bytes_def)

lemma crc_word_get:
  assumes "4 \<le> length buf"
  shows "crc_shift 32 (crc XOR get_u32_le buf) = crc_bytes crc (take 4 buf)"
proof -
  obtain a b c d q where buf: "buf = a # b # c # d # q"
    using assms by (auto simp: Suc_le_length_iff numeral_eq_Suc)
  have "get_u32_le_bytes (a # b # c # d # q) = get_u32_le_bytes [a, b, c, d]"
    by (simp add: get_u32_le_bytes_def)
  then show ?thesis
    using assms crc_word_bytes [of crc a b c d] by (simp add: buf get_u32_le_eq_bytes)
qed

lemma bytes_loop_eq:
  "bytes_loop n crc buf =
     (if n \<le> length buf then Some (crc_bytes crc (take n buf), drop n buf) else None)"
  by (induction n crc buf rule: bytes_loop.induct) (auto simp: step_by1_eq)

lemma words_loop_eq:
  "4 * n \<le> length buf \<Longrightarrow>
   words_loop n crc buf = Some (crc_bytes crc (take (4 * n) buf), drop (4 * n) buf)"
proof (induction n arbitrary: crc buf)
  case (Suc n)
  have len: "4 \<le> length buf" "4 * n \<le> length (drop 4 buf)" using Suc.prems by simp_all
  have "crc_bytes (crc_shift 32 (crc XOR get_u32_le buf)) (take (4 * n) (drop 4 buf)) =
        crc_bytes crc (take (4 + 4 * n) buf)"
    using crc_word_get [OF len(1), of crc] by (simp add: take_add crc_bytes_append)
  with Suc.IH [OF len(2)] len show ?case by (simp add: step_by4_eq add.commute)
qed simp

lemma quads_loop_eq:
  "8 * n \<le> length buf \<Longrightarrow>
   quads_loop n crc buf = Some (crc_bytes crc (take (8 * n) buf), drop (8 * n) buf)"
proof (induction n arbitrary: crc buf)
  case (Suc n)
  have len: "4 \<le> length buf" "4 \<le> length (drop 4 buf)" "8 * n \<le> length (drop 8 buf)"
    using Suc.prems by simp_all
  have "take (8 + 8 * n) buf = take 4 buf @ take 4 (drop 4 buf) @ take (8 * n) (drop 8 buf)"
    using take_add [of 4 4 buf] by (simp add: take_add)
  then have "crc_bytes (crc_shift 32 (crc_shift 32 (crc XOR get_u32_le buf) XOR
        get_u32_le (drop 4 buf))) (take (8 * n) (drop 8 buf)) = crc_bytes crc (take (8 + 8 * n) buf)"
    using crc_word_get [OF len(1)] crc_word_get [OF len(2)] by (simp add: crc_bytes_append)
  with Suc.IH [OF len(3)] Suc.prems show ?case by (simp add: step_by8_eq add.commute)
qed simp

text \<open>
  What a slicing loop consumes: the prologue, whole words, and the remaining bytes are together
  the first \<open>len\<close> bytes, provided the prologue is not longer than \<open>len\<close>.
\<close>

lemma take_three_parts:
  "i + w + r = n \<Longrightarrow> take n buf = take i buf @ take w (drop i buf) @ take r (drop (i + w) buf)"
  by (auto simp: take_add)

lemma split_len:
  fixes len ib k :: u32
  assumes "ib \<le> len" and "0 < unat k"
  defines "l \<equiv> len - ib"
  shows "unat ib + unat k * unat (l div k) + unat (l - k * (l div k)) = unat len"
proof -
  have l: "unat l = unat len - unat ib" using assms by (simp add: unat_sub)
  have "l - k * (l div k) = l mod k" by (simp add: minus_mult_div_eq_mod)
  moreover have "unat k * unat (l div k) + unat (l mod k) = unat l"
    by (simp add: unat_div_distrib unat_mod_distrib)
  ultimately show ?thesis using assms l by (simp add: word_le_nat_alt)
qed

lemma update_by4_eq:
  assumes "init_bytes 4 addr \<le> len" and "unat len \<le> length buf"
  shows "crc32_update_by4 addr crc buf len = Some (crc_bytes crc (take (unat len) buf))"
proof -
  define ib where "ib = init_bytes 4 addr"
  define l where "l = len - ib"
  define r where "r = l - 4 * (l div 4)"
  have parts: "unat ib + 4 * unat (l div 4) + unat r = unat len"
    using split_len [of ib len 4] assms(1) by (simp add: ib_def l_def r_def)
  then have bounds: "unat ib \<le> length buf" "4 * unat (l div 4) \<le> length (drop (unat ib) buf)"
    "unat r \<le> length (drop (unat ib + 4 * unat (l div 4)) buf)"
    using assms(2) by simp_all
  show ?thesis
    using bounds take_three_parts [OF parts, of buf]
    by (simp add: crc32_update_by4_def Let_def bytes_loop_eq words_loop_eq crc_bytes_append
        add.commute flip: ib_def l_def r_def)
qed

lemma update_by8_eq:
  assumes "init_bytes 8 addr \<le> len" and "unat len \<le> length buf"
  shows "crc32_update_by8 addr crc buf len = Some (crc_bytes crc (take (unat len) buf))"
proof -
  define ib where "ib = init_bytes 8 addr"
  define l where "l = len - ib"
  define r where "r = l - 8 * (l div 8)"
  have parts: "unat ib + 8 * unat (l div 8) + unat r = unat len"
    using split_len [of ib len 8] assms(1) by (simp add: ib_def l_def r_def)
  then have bounds: "unat ib \<le> length buf" "8 * unat (l div 8) \<le> length (drop (unat ib) buf)"
    "unat r \<le> length (drop (unat ib + 8 * unat (l div 8)) buf)"
    using assms(2) by simp_all
  show ?thesis
    using bounds take_three_parts [OF parts, of buf]
    by (simp add: crc32_update_by8_def Let_def bytes_loop_eq quads_loop_eq crc_bytes_append
        add.commute flip: ib_def l_def r_def)
qed

text \<open>The second implementation, over the 64-bit table.\<close>

lemma crc_c_eq: "crc_c = map ucast table_il8_o32"
  by (simp add: crc_c_def table_il8_o32_def)

lemma CRC32C_eq: "CRC32C c d = crc_shift 8 (c XOR ucast d)"
proof -
  have len: "length table_il8_o32 = 256" using linear_o32 by (simp add: linear_table_def)
  have "unat ((c XOR ucast d) AND 0xFF) < 256"
    using word_and_mask_mod [of "c XOR ucast d" 8] by simp
  then have "CRC32C c d =
      ucast (ucast (drop_bit 8 c) XOR
        (ucast (table_il8_o32 ! unat ((c XOR ucast d) AND 0xFF)) :: u64))"
    by (simp add: CRC32C_def crc_c_eq len)
  also have "\<dots> = step_by1 c d"
    unfolding step_by1_def by (rule bit_word_eqI) (auto simp: bit_simps)
  finally show ?thesis by (simp add: step_by1_eq)
qed

lemma swap_bytes_eq: "swap_bytes x = get_u32_le_bytes (be_bytes32 x)"
  by (rule u32_eqI_bytes)
     (simp_all add: swap_bytes_def Let_def get_u32_le_bytes_def be_bytes32_def and_ff_ucast
       byte_of_def bit_simps)

lemma crc32c_ones: "crc32c buf = crc_bytes 0xffffffff buf XOR 0xffffffff"
proof -
  have ones: "(0xffffffff :: u32) = - 1" by simp
  show ?thesis unfolding ones by (simp add: crc32c_def)
qed

section \<open>Properties\<close>

text \<open>
  C20: the loop that consumes four bytes per step and the one that consumes eight compute the
  same checksum as the byte-wise loop and as the bit-serial division, for every address of the
  buffer, every accumulator and every contents, as long as the buffer is at least as long as
  the bytes the alignment prologue consumes.
\<close>

theorem crc32_update_slicing_correct:
  assumes "unat len \<le> length buf" and "init_bytes 8 addr \<le> len" and "init_bytes 4 addr \<le> len"
  shows "crc32_update_by1 crc buf len = Some (crc_bytes crc (take (unat len) buf))
    \<and> crc32_update_by4 addr crc buf len = crc32_update_by1 crc buf len
    \<and> crc32_update_by8 addr crc buf len = crc32_update_by1 crc buf len"
  using assms
  by (simp add: crc32_update_by1_def bytes_loop_eq update_by4_eq update_by8_eq)

theorem crc32_update_slicing_correct_witness:
  "crc32_update_by8 3 0xffffffff (replicate 5 7) 5 =
   crc32_update_by1 0xffffffff (replicate 5 7) 5"
  using crc32_update_slicing_correct [of 5 "replicate 5 7" 3 "0xffffffff"]
  by (simp add: init_bytes_def Let_def)

text \<open>
  \<^verbatim>\<open>crc32_hash\<close> computes the CRC-32C of the buffer: division by the Castagnoli
  polynomial, least significant bit first, from the all-ones register, complemented at the end.
\<close>

theorem crc32_hash_correct:
  assumes "unat len = length buf" and "init_bytes 4 addr \<le> len"
  shows "crc32_hash addr buf len = Some (crc32c buf)"
  using assms
  by (simp add: crc32_hash_def crc32_init_def crc32_update_def crc32_final_def update_by4_eq
      crc32c_ones)

theorem crc32_hash_correct_witness:
  "crc32_hash 0 [0x61] 1 = Some 0xC1D04330"
proof -
  have "crc32c [0x61] = 0xC1D04330"
    using crc_bit8_shift [of 0] by (simp add: crc32c_def crc_bit8_def crc_bit_def)
  then show ?thesis
    using crc32_hash_correct [of 1 "[0x61]" 0] by (simp add: init_bytes_def Let_def)
qed

text \<open>
  A checksum may be computed over a buffer in pieces: updating with \<open>xs\<close> and then
  with \<open>ys\<close> leaves the same state as updating once with their concatenation, in every
  mode and whatever the addresses of the pieces.
\<close>

theorem crc32_update_append:
  assumes "unat m = length xs" and "unat n = length ys" and "unat mn = length (xs @ ys)"
    and "init_bytes 8 a \<le> m" "init_bytes 4 a \<le> m" "init_bytes 8 b \<le> n" "init_bytes 4 b \<le> n"
    and "init_bytes 8 d \<le> mn" "init_bytes 4 d \<le> mn"
  shows "Option.bind (crc32_update a c xs m) (\<lambda>c'. crc32_update b c' ys n) =
         crc32_update d c (xs @ ys) mn"
  using assms
  by (cases "crc_update c")
     (simp_all add: crc32_update_def crc32_update_by1_def bytes_loop_eq update_by4_eq
       update_by8_eq crc_bytes_append)

theorem crc32_update_append_witness:
  "Option.bind (crc32_update 4 \<lparr>crc_state = 0, crc_update = Update_by4\<rparr> [1, 2, 3, 4] 4)
     (\<lambda>c'. crc32_update 8 c' [5, 6] 2) =
   crc32_update 16 \<lparr>crc_state = 0, crc_update = Update_by4\<rparr> [1, 2, 3, 4, 5, 6] 6"
  using crc32_update_append
    [of 4 "[1, 2, 3, 4]" 2 "[5, 6]" 6 4 8 16 "\<lparr>crc_state = 0, crc_update = Update_by4\<rparr>"]
  by (simp add: init_bytes_def Let_def)

text \<open>
  the second implementation, \<^verbatim>\<open>crc32_generate\<close>, returns the same checksum with its
  four bytes in reverse order (the byte order of the SCTP header field).
\<close>

theorem crc32_generate_correct:
  "crc32_generate buf = get_u32_le_bytes (be_bytes32 (crc32c buf))"
proof -
  have "foldl CRC32C c buf = crc_bytes c buf" for c
    by (induction buf arbitrary: c) (simp_all add: CRC32C_eq)
  then show ?thesis by (simp add: crc32_generate_def crc32c_def swap_bytes_eq)
qed

text \<open>
  the alignment prologue of the four-byte loop does not look at \<open>len\<close>: for a buffer
  shorter than the prologue the loop reads past the end of the object (here \<open>None\<close>), and
  \<^verbatim>\<open>len -= init_bytes\<close> wraps around, so that the word loop would run on for about four
  gigabytes.
\<close>

theorem crc32_update_by4_overruns:
  assumes "unat len = length buf" and "len < init_bytes 4 addr"
  shows "crc32_update_by4 addr crc buf len = None
    \<and> unat (len - init_bytes 4 addr) = 2 ^ 32 - (unat (init_bytes 4 addr) - unat len)"
proof -
  have "unat len < unat (init_bytes 4 addr)" using assms(2) by (simp add: word_less_nat_alt)
  then show ?thesis
    using assms(1) unat_sub_if' [of len "init_bytes 4 addr"]
    by (simp add: crc32_update_by4_def Let_def bytes_loop_eq)
qed

theorem crc32_update_by4_overruns_witness:
  "crc32_update_by4 1 0xffffffff [0x61] 1 = None \<and> unat (1 - init_bytes 4 1 :: u32) = 2 ^ 32 - 2"
  using crc32_update_by4_overruns [of 1 "[0x61]" 1 "0xffffffff"]
  by (simp add: init_bytes_def Let_def)

end
