(* ===== verification/B64.thy ===== *)
theory B64
  imports Prelude
begin

text \<open>
  Model of \<^verbatim>\<open>crypto/b64.c\<close> and \<^verbatim>\<open>crypto/b64.h\<close>: Base64 encoding
  (RFC 4648). The encoder stores its output in \<^verbatim>\<open>dst\<close> at an index of 32 bits, which it
  returns; a store behind the buffer gives \<open>None\<close>.
\<close>

section \<open>The encoder\<close>

definition b64_tab :: "byte list" where
  "b64_tab =
    [0x41, 0x42, 0x43, 0x44, 0x45, 0x46, 0x47, 0x48, 0x49, 0x4a, 0x4b, 0x4c, 0x4d,
     0x4e, 0x4f, 0x50, 0x51, 0x52, 0x53, 0x54, 0x55, 0x56, 0x57, 0x58, 0x59, 0x5a,
     0x61, 0x62, 0x63, 0x64, 0x65, 0x66, 0x67, 0x68, 0x69, 0x6a, 0x6b, 0x6c, 0x6d,
     0x6e, 0x6f, 0x70, 0x71, 0x72, 0x73, 0x74, 0x75, 0x76, 0x77, 0x78, 0x79, 0x7a,
     0x30, 0x31, 0x32, 0x33, 0x34, 0x35, 0x36, 0x37, 0x38, 0x39, 0x2b, 0x2f, 0x00]"

definition b64_pad :: byte where
  "b64_pad = 0x3d"

text \<open>Indices are computed in \<^verbatim>\<open>int\<close>, to which the bytes are promoted.\<close>

definition b64_idx0 :: "byte \<Rightarrow> u32" where
  "b64_idx0 c0 = drop_bit 2 (ucast c0)"

definition b64_idx1 :: "byte \<Rightarrow> byte \<Rightarrow> u32" where
  "b64_idx1 c0 c1 = push_bit 4 (ucast c0 AND 0x03) + drop_bit 4 (ucast c1)"

definition b64_idx2 :: "byte \<Rightarrow> byte \<Rightarrow> u32" where
  "b64_idx2 c1 c2 = push_bit 2 (ucast c1 AND 0x0f) + drop_bit 6 (ucast c2)"

definition b64_idx3 :: "byte \<Rightarrow> u32" where
  "b64_idx3 c2 = ucast c2 AND 0x3f"

text \<open>Characters stored one after the other; the index wraps around.\<close>

fun b64_puts :: "u32 \<Rightarrow> byte list \<Rightarrow> byte list \<Rightarrow> (u32 \<times> byte list) option" where
  "b64_puts i d [] = Some (i, d)"
| "b64_puts i d (c # cs) = (if unat i < length d then b64_puts (i + 1) (d[unat i := c]) cs else None)"

fun b64_loop :: "u32 \<Rightarrow> byte list \<Rightarrow> byte list \<Rightarrow> (u32 \<times> byte list) option" where
  "b64_loop i d (c0 # c1 # c2 # cs) =
     Option.bind
       (b64_puts i d
         [b64_tab ! unat (b64_idx0 c0), b64_tab ! unat (b64_idx1 c0 c1),
          b64_tab ! unat (b64_idx2 c1 c2), b64_tab ! unat (b64_idx3 c2)])
       (\<lambda>(i, d). b64_loop i d cs)"
| "b64_loop i d [] = Some (i, d)"
| "b64_loop i d [c0, c1] =
     b64_puts i d
       [b64_tab ! unat (b64_idx0 c0), b64_tab ! unat (b64_idx1 c0 c1),
        b64_tab ! unat (push_bit 2 (ucast c1 AND 0x0f) :: u32), b64_pad]"
| "b64_loop i d [c0] =
     b64_puts i d
       [b64_tab ! unat (b64_idx0 c0), b64_tab ! unat (push_bit 4 (ucast c0 AND 0x03) :: u32),
        b64_pad, b64_pad]"

text \<open>The result is the number of characters and the buffer.\<close>

definition b64_enc :: "byte list \<Rightarrow> byte list \<Rightarrow> (u32 \<times> byte list) option" where
  "b64_enc dst src = b64_loop 0 dst src"

definition b64_enc_len :: "u32 \<Rightarrow> u32" where
  "b64_enc_len len = (len + 2) div 3 * 4"

section \<open>Decoding, as a specification\<close>

text \<open>
  The library has no decoder. This one, straight from RFC 4648, is the specification of
  what the encoder has to preserve: four characters carry three bytes, a final group with one
  or two padding characters carries two bytes or one.
\<close>

definition b64_val :: "byte \<Rightarrow> u32" where
  "b64_val ch = (if 0x41 \<le> ch \<and> ch \<le> 0x5a then ucast ch - 0x41
     else if 0x61 \<le> ch \<and> ch \<le> 0x7a then ucast ch - 0x47
     else if 0x30 \<le> ch \<and> ch \<le> 0x39 then ucast ch + 4
     else if ch = 0x2b then 62 else 63)"

definition group24 :: "u32 \<Rightarrow> u32 \<Rightarrow> u32 \<Rightarrow> u32 \<Rightarrow> u32" where
  "group24 a b c d = push_bit 18 a OR push_bit 12 b OR push_bit 6 c OR d"

definition bytes24 :: "u32 \<Rightarrow> byte list" where
  "bytes24 w = [ucast (drop_bit 16 w), ucast (drop_bit 8 w), ucast w]"

fun b64_dec :: "byte list \<Rightarrow> byte list" where
  "b64_dec (a # b # c # d # cs) =
     (if d = b64_pad
      then (if c = b64_pad then take 1 (bytes24 (group24 (b64_val a) (b64_val b) 0 0))
            else take 2 (bytes24 (group24 (b64_val a) (b64_val b) (b64_val c) 0)))
      else bytes24 (group24 (b64_val a) (b64_val b) (b64_val c) (b64_val d)) @ b64_dec cs)"
| "b64_dec cs = []"

text \<open>The characters of an encoding, in order.\<close>

fun b64_chars :: "byte list \<Rightarrow> byte list" where
  "b64_chars (c0 # c1 # c2 # cs) =
     [b64_tab ! unat (b64_idx0 c0), b64_tab ! unat (b64_idx1 c0 c1),
      b64_tab ! unat (b64_idx2 c1 c2), b64_tab ! unat (b64_idx3 c2)] @ b64_chars cs"
| "b64_chars [] = []"
| "b64_chars [c0, c1] =
     [b64_tab ! unat (b64_idx0 c0), b64_tab ! unat (b64_idx1 c0 c1),
      b64_tab ! unat (push_bit 2 (ucast c1 AND 0x0f) :: u32), b64_pad]"
| "b64_chars [c0] =
     [b64_tab ! unat (b64_idx0 c0), b64_tab ! unat (push_bit 4 (ucast c0 AND 0x03) :: u32),
      b64_pad, b64_pad]"

section \<open>Index arithmetic\<close>

fun counts_from :: "u32 \<Rightarrow> u32 list \<Rightarrow> bool" where
  "counts_from n [] = True"
| "counts_from n (x # xs) = (x = n \<and> counts_from (n + 1) xs)"

lemma counts_from_nth: "counts_from n xs \<Longrightarrow> i < length xs \<Longrightarrow> xs ! i = n + of_nat i"
  by (induction n xs arbitrary: i rule: counts_from.induct)
     (auto simp: nth_Cons split: nat.split)

lemma b64_val_counts: "counts_from 0 (map b64_val (take 64 b64_tab))"
  by (simp add: b64_tab_def b64_val_def)

lemma b64_pad_fresh: "b64_pad \<notin> set (take 64 b64_tab)"
  by (simp add: b64_tab_def b64_pad_def)

lemma length_b64_tab: "length b64_tab = 65"
  by (simp add: b64_tab_def)

lemma b64_tab_alphabet: "i < 64 \<Longrightarrow> b64_tab ! i \<in> set (take 64 b64_tab)"
  by (auto simp: in_set_conv_nth length_b64_tab)

lemma b64_tab_not_pad: "i < 64 \<Longrightarrow> b64_tab ! i \<noteq> b64_pad"
  using b64_tab_alphabet [of i] b64_pad_fresh by auto

lemma b64_val_tab: "unat i < 64 \<Longrightarrow> b64_val (b64_tab ! unat i) = i" for i :: u32
  using counts_from_nth [OF b64_val_counts, of "unat i"] by (simp add: length_b64_tab)

text \<open>Every index is a field of six bits, the sums being disjoint unions of bits.\<close>

lemma b64_idx_bits:
  "b64_idx0 c0 = drop_bit 2 (ucast c0)"
  "b64_idx1 c0 c1 = push_bit 4 (take_bit 2 (ucast c0)) OR drop_bit 4 (ucast c1)"
  "b64_idx2 c1 c2 = push_bit 2 (take_bit 4 (ucast c1)) OR drop_bit 6 (ucast c2)"
  "b64_idx3 c2 = take_bit 6 (ucast c2)"
proof -
  have m: "(x :: u32) AND 0x03 = take_bit 2 x" "x AND 0x0f = take_bit 4 x"
    "x AND 0x3f = take_bit 6 x" for x
    by (simp_all add: take_bit_eq_mask mask_eq_exp_minus_1)
  show "b64_idx0 c0 = drop_bit 2 (ucast c0)" by (simp add: b64_idx0_def)
  show "b64_idx1 c0 c1 = push_bit 4 (take_bit 2 (ucast c0)) OR drop_bit 4 (ucast c1)"
    unfolding b64_idx1_def m by (rule disjunctive_add) (auto simp: bit_simps)
  show "b64_idx2 c1 c2 = push_bit 2 (take_bit 4 (ucast c1)) OR drop_bit 6 (ucast c2)"
    unfolding b64_idx2_def m by (rule disjunctive_add) (auto simp: bit_simps)
  show "b64_idx3 c2 = take_bit 6 (ucast c2)" by (simp add: b64_idx3_def m)
qed

lemma six_bits: "(\<And>n. 6 \<le> n \<Longrightarrow> \<not> bit x n) \<Longrightarrow> unat x < 64" for x :: u32
proof -
  assume "\<And>n. 6 \<le> n \<Longrightarrow> \<not> bit x n"
  then have "x = take_bit 6 x" by (intro bit_word_eqI) (simp add: bit_simps, metis leI)
  then have "unat x = take_bit 6 (unat x)" by (metis unsigned_take_bit_eq)
  then show ?thesis using take_bit_nat_less_exp [of 6 "unat x"] by simp
qed

lemma idx_less [simp]:
  "unat (b64_idx0 c0) < 64" "unat (b64_idx1 c0 c1) < 64" "unat (b64_idx2 c1 c2) < 64"
  "unat (b64_idx3 c2) < 64"
  by (rule six_bits; auto simp: b64_idx_bits bit_simps)+

lemma idx_last:
  "push_bit 2 (ucast c1 AND 0x0f) = b64_idx2 c1 0" "push_bit 4 (ucast c0 AND 0x03) = b64_idx1 c0 0"
  by (simp_all add: b64_idx2_def b64_idx1_def)

lemmas b64_chars_idx = b64_chars.simps(1,2) b64_chars.simps(3,4) [unfolded idx_last]

lemma bytes24_group24:
  "bytes24 (group24 (b64_idx0 c0) (b64_idx1 c0 c1) (b64_idx2 c1 c2) (b64_idx3 c2)) = [c0, c1, c2]"
  unfolding bytes24_def list.inject
  by (intro conjI; (rule byte_eqI)?) (simp_all add: group24_def b64_idx_bits bit_simps)

lemma idx3_0 [simp]: "b64_idx3 0 = 0"
  by (simp add: b64_idx3_def)

lemma idx2_0_0 [simp]: "b64_idx2 0 0 = 0"
  by (simp add: b64_idx2_def)

lemma div3_step: "(5 + n) div 3 = Suc (Suc (Suc n) div 3)" for n :: nat
proof -
  have "(3 + Suc (Suc n)) div 3 = Suc (Suc (Suc n) div 3)"
    by (subst div_add_self1) simp_all
  then show ?thesis by simp
qed

section \<open>Properties\<close>

lemma b64_dec_chars: "b64_dec (b64_chars src) = src"
proof (induction src rule: b64_chars.induct)
  case (3 c0 c1)
  show ?case
    using bytes24_group24 [of c0 c1 0]
    by (simp add: b64_chars_idx b64_tab_not_pad b64_val_tab del: b64_chars.simps(3,4))
next
  case (4 c0)
  show ?case
    using bytes24_group24 [of c0 0 0]
    by (simp add: b64_chars_idx b64_tab_not_pad b64_val_tab del: b64_chars.simps(3,4))
qed (simp_all add: b64_tab_not_pad b64_val_tab bytes24_group24)

lemma b64_chars_length: "length (b64_chars src) = (length src + 2) div 3 * 4"
  by (induction src rule: b64_chars.induct) (simp_all add: div3_step)

lemma b64_puts_append: "b64_puts i d (xs @ ys) = Option.bind (b64_puts i d xs) (\<lambda>(i, d). b64_puts i d ys)"
  by (induction i d xs rule: b64_puts.induct) auto

lemma b64_loop_puts: "b64_loop i d src = b64_puts i d (b64_chars src)"
proof (induction i d src rule: b64_loop.induct)
  case (1 i d c0 c1 c2 cs)
  show ?case unfolding b64_loop.simps b64_chars.simps b64_puts_append
    by (rule Option.bind_cong [OF refl]) (use 1 in auto)
qed simp_all

text \<open>As long as the index does not wrap around, the characters end up side by side in the buffer.\<close>

lemma b64_puts_ok:
  assumes "unat i + length cs < 2 ^ 32" "unat i + length cs \<le> length d"
  shows "b64_puts i d cs = Some (i + of_nat (length cs), write_at (unat i) cs d)"
  using assms
proof (induction i d cs rule: b64_puts.induct)
  case (2 i d c cs)
  have i: "unat (i + 1) = unat i + 1" using 2(2) by (subst unat_add_small) simp_all
  then have "b64_puts (i + 1) (d[unat i := c]) cs = Some (i + 1 + of_nat (length cs), write_at (unat i + 1) cs (d[unat i := c]))"
    using 2 by simp
  moreover have "write_at (unat i + 1) cs (d[unat i := c]) = write_at (unat i) (c # cs) d"
    using 2(3) by (simp add: write_at_Cons)
  ultimately show ?case using 2(3) by (simp add: add.assoc)
qed simp

lemma b64_len_ok:
  assumes "n \<le> 3221225469"
  shows "unat (b64_enc_len (of_nat n)) = (n + 2) div 3 * 4"
proof -
  have small: "unat (of_nat n :: u32) = n" using assms by (simp add: unat_of_nat_small)
  have plus: "unat (of_nat n + 2 :: u32) = n + 2" using assms small by (subst unat_add_small) simp_all
  then show ?thesis using assms by (simp add: b64_enc_len_def unat_mult_lem [THEN iffD1] unat_div_distrib unat_word_ariths)
qed

text \<open>
  C38: A buffer of the size that \<^verbatim>\<open>b64_enc_len\<close> announces is enough for \<^verbatim>\<open>b64_enc\<close>, which
  returns that size; decoding what it stored gives back the input, and the rest of the buffer is
  as before. This holds for inputs of at most \<open>3221225469\<close> bytes: from then on the announced
  size, and the index of the encoder, wrap around.
\<close>

theorem b64_roundtrip:
  assumes "length src \<le> 3221225469" and "unat (b64_enc_len (of_nat (length src))) \<le> length dst"
  shows "\<exists>dst'. b64_enc dst src = Some (b64_enc_len (of_nat (length src)), dst') \<and>
    length dst' = length dst \<and>
    b64_dec (take (unat (b64_enc_len (of_nat (length src)))) dst') = src \<and>
    drop (unat (b64_enc_len (of_nat (length src)))) dst' = drop (unat (b64_enc_len (of_nat (length src)))) dst"
proof -
  let ?cs = "b64_chars src"
  have n: "unat (b64_enc_len (of_nat (length src))) = length ?cs"
    using b64_len_ok [OF assms(1)] by (simp add: b64_chars_length)
  have "length ?cs < 2 ^ 32" using unat_u32_less [of "b64_enc_len (of_nat (length src))"] n by simp
  then have "b64_enc dst src = Some (of_nat (length ?cs), write_at 0 ?cs dst)"
    using b64_puts_ok [of 0 ?cs dst] assms(2) n by (simp add: b64_enc_def b64_loop_puts)
  moreover have "of_nat (length ?cs) = b64_enc_len (of_nat (length src))" by (simp add: n [symmetric])
  moreover have "b64_dec (take (length ?cs) (write_at 0 ?cs dst)) = src"
    using assms(2) n by (simp add: write_at_def b64_dec_chars)
  ultimately show ?thesis using assms(2) n by (auto simp: write_at_def)
qed

theorem b64_roundtrip_witness:
  "\<exists>dst'. b64_enc (replicate 9 0) [0x66, 0x6f, 0x6f, 0x62, 0x61] = Some (8, dst') \<and> length dst' = 9 \<and>
     b64_dec (take 8 dst') = [0x66, 0x6f, 0x6f, 0x62, 0x61] \<and> drop 8 dst' = [0]"
  using b64_roundtrip [of "[0x66, 0x6f, 0x6f, 0x62, 0x61]" "replicate 9 0"] by (simp add: b64_enc_len_def)

text \<open>
  Every character that is written is from the alphabet or the padding character; the announced
  length wraps around at \<open>3221225470\<close> bytes.
\<close>

lemma b64_chars_alphabet: "set (b64_chars src) \<subseteq> set (take 64 b64_tab) \<union> {b64_pad}"
  by (induction src rule: b64_chars.induct) (simp_all add: b64_chars_idx b64_tab_alphabet del: b64_chars.simps(3,4))

lemma b64_enc_len_wraps: "b64_enc_len 3221225470 = 0"
  by (simp add: b64_enc_len_def)

end
