(* ===== verification/Merkle.thy ===== *)
theory Merkle
  imports Unaligned
begin

text \<open>
  What the three hash functions of \<^verbatim>\<open>crypto/\<close> have in common: the iteration of a compression
  function over blocks of 64 bytes, the padding, and the interface \<open>stream_hash\<close> of an
  object that consumes a message in pieces. The interface is stated for operations that may
  fail to return (\<open>None\<close>), with the condition under which they do as a parameter; it is
  interpreted in the theories of the three hash functions.
\<close>

section \<open>Iterating a compression function\<close>

fun md_blocks :: "('h \<Rightarrow> byte list \<Rightarrow> 'h) \<Rightarrow> 'h \<Rightarrow> byte list \<Rightarrow> 'h" where
  "md_blocks f h m = (if length m < 64 then h else md_blocks f (f h (take 64 m)) (drop 64 m))"

declare md_blocks.simps [simp del]

lemma md_blocks_short [simp]: "length m < 64 \<Longrightarrow> md_blocks f h m = h"
  by (simp add: md_blocks.simps)

lemma md_blocks_Cons_block:
  "length b = 64 \<Longrightarrow> md_blocks f h (b @ m) = md_blocks f (f h b) m"
  by (subst md_blocks.simps) simp

lemma md_blocks_block: "length b = 64 \<Longrightarrow> md_blocks f h b = f h b"
  using md_blocks_Cons_block [of b f h "[]"] by simp

lemma md_blocks_append:
  assumes "length xs = 64 * k"
  shows "md_blocks f h (xs @ ys) = md_blocks f (md_blocks f h xs) ys"
  using assms
proof (induction k arbitrary: h xs)
  case (Suc k)
  let ?b = "take 64 xs" and ?r = "drop 64 xs"
  have b: "length ?b = 64" and r: "length ?r = 64 * k" using Suc.prems by simp_all
  have "md_blocks f h (xs @ ys) = md_blocks f h (?b @ ?r @ ys)"
    by (simp flip: append_assoc)
  also have "\<dots> = md_blocks f (md_blocks f (f h ?b) ?r) ys"
    by (simp only: md_blocks_Cons_block [OF b] Suc.IH [OF r])
  also have "\<dots> = md_blocks f (md_blocks f h (?b @ ?r)) ys"
    by (simp only: md_blocks_Cons_block [OF b])
  finally show ?case by simp
qed simp

lemma md_blocks_take:
  "md_blocks f h (take (64 * (length m div 64)) m) = md_blocks f h m"
proof -
  let ?k = "length m div 64"
  have "md_blocks f h (take (64 * ?k) m @ drop (64 * ?k) m) =
        md_blocks f (md_blocks f h (take (64 * ?k) m)) (drop (64 * ?k) m)"
    by (rule md_blocks_append [where k = ?k]) (simp add: min_absorb2)
  also have "\<dots> = md_blocks f h (take (64 * ?k) m)"
    by (rule md_blocks_short) (simp flip: minus_mult_div_eq_mod)
  finally show ?thesis by simp
qed

text \<open>Bytes appended to a message complete its last block, or do not reach its end.\<close>

lemma md_length_complete:
  assumes "length m mod 64 + length xs = 64"
  shows "length (m @ xs) = 64 * Suc (length m div 64)"
proof -
  have "\<And>q r. 64 * q + r = length m \<Longrightarrow> r + length xs = 64 \<Longrightarrow> length (m @ xs) = 64 * Suc q" by auto
  from this [OF mult_div_mod_eq assms] show ?thesis .
qed

lemma md_blocks_complete:
  assumes "length m mod 64 + length xs = 64"
  shows "md_blocks f h (m @ xs) = f (md_blocks f h m) (drop (64 * (length m div 64)) m @ xs)"
proof -
  let ?full = "take (64 * (length m div 64)) m" and ?last = "drop (64 * (length m div 64)) m"
  have full: "length ?full = 64 * (length m div 64)" by (simp add: min_absorb2)
  have len: "length (?last @ xs) = 64" using assms by (simp add: minus_mult_div_eq_mod)
  have "md_blocks f h (m @ xs) = md_blocks f h (?full @ ?last @ xs)" by (simp flip: append_assoc)
  also have "\<dots> = f (md_blocks f h m) (?last @ xs)"
    by (simp only: md_blocks_append [OF full] md_blocks_block [OF len] md_blocks_take)
  finally show ?thesis .
qed

lemma md_length_incomplete:
  assumes "length m mod 64 + length xs < 64"
  shows "length (m @ xs) div 64 = length m div 64"
    and "length (m @ xs) mod 64 = length m mod 64 + length xs"
proof -
  have "length (m @ xs) = 64 * (length m div 64) + (length m mod 64 + length xs)"
    by (simp add: algebra_simps flip: mult_div_mod_eq [of 64 "length m", symmetric])
  then show "length (m @ xs) div 64 = length m div 64"
    and "length (m @ xs) mod 64 = length m mod 64 + length xs"
    using assms by (simp_all only: div_mult_self4 mod_mult_self4) simp_all
qed

lemma md_blocks_incomplete:
  assumes "length m mod 64 + length xs < 64"
  shows "md_blocks f h (m @ xs) = md_blocks f h m"
proof -
  let ?n = "64 * (length m div 64)"
  have "take ?n (m @ xs) = take ?n m" by simp
  then show ?thesis
    using md_blocks_take [of f h "m @ xs"] md_blocks_take [of f h m] md_length_incomplete(1) [OF assms]
    by simp
qed

section \<open>Padding\<close>

text \<open>
  One bit, zeros up to eight bytes short of a block boundary, and the length of the message
  in bits as a 64-bit number, in the byte order of the hash function.
\<close>

definition md_zeros :: "nat \<Rightarrow> nat" where
  "md_zeros n = (119 - n mod 64) mod 64"

definition md_pad :: "(nat \<Rightarrow> byte list) \<Rightarrow> byte list \<Rightarrow> byte list" where
  "md_pad lenb m = m @ 0x80 # replicate (md_zeros (length m)) 0 @ lenb (8 * length m)"

definition md_hash ::
  "('h \<Rightarrow> byte list \<Rightarrow> 'h) \<Rightarrow> 'h \<Rightarrow> ('h \<Rightarrow> byte list) \<Rightarrow> (nat \<Rightarrow> byte list) \<Rightarrow> byte list \<Rightarrow> byte list"
where
  "md_hash f iv out lenb m = out (md_blocks f iv (md_pad lenb m))"

definition md_len_be :: "nat \<Rightarrow> byte list" where
  "md_len_be n = be_bytes32 (of_nat (n div 2 ^ 32)) @ be_bytes32 (of_nat n)"

definition md_len_le :: "nat \<Rightarrow> byte list" where
  "md_len_le n = le_bytes32 (of_nat n) @ le_bytes32 (of_nat (n div 2 ^ 32))"

lemma take_write_at_0: "n \<le> length xs \<Longrightarrow> take n (write_at 0 xs buf) = take n xs"
  by (simp add: write_at_def)

lemma md_zeros_small: "n mod 64 < 56 \<Longrightarrow> md_zeros n = 55 - n mod 64"
  by (simp add: md_zeros_def le_mod_geq)

lemma md_zeros_big: "\<not> n mod 64 < 56 \<Longrightarrow> md_zeros n = 119 - n mod 64"
  by (simp add: md_zeros_def)

text \<open>
  The padding of the last, incomplete block \<open>tail\<close>: one block when it has room for the
  bit and the length, two otherwise.
\<close>

lemma md_hash_tail:
  assumes m: "m = full @ tail" and full: "length full = 64 * k" and tail: "length tail < 64"
    and lenb: "length (lenb (8 * length m)) = 8"
  shows "length tail < 56 \<Longrightarrow>
           md_blocks f iv (md_pad lenb m) =
             f (md_blocks f iv full) (tail @ 0x80 # replicate (55 - length tail) 0 @ lenb (8 * length m))"
    and "\<not> length tail < 56 \<Longrightarrow>
           md_blocks f iv (md_pad lenb m) =
             f (f (md_blocks f iv full) (tail @ 0x80 # replicate (63 - length tail) 0))
               (replicate 56 0 @ lenb (8 * length m))"
proof -
  have mod: "length m mod 64 = length tail" using m full tail by simp
  have pad: "md_blocks f iv (md_pad lenb m) =
      md_blocks f (md_blocks f iv full)
        (tail @ 0x80 # replicate (md_zeros (length m)) 0 @ lenb (8 * length m))"
    using md_blocks_append [OF full, of f iv] by (simp add: md_pad_def m)
  {
    assume "length tail < 56"
    then show "md_blocks f iv (md_pad lenb m) =
        f (md_blocks f iv full) (tail @ 0x80 # replicate (55 - length tail) 0 @ lenb (8 * length m))"
      unfolding pad using lenb mod by (subst md_blocks_block) (simp_all add: md_zeros_small)
  next
    assume big: "\<not> length tail < 56"
    let ?b = "tail @ 0x80 # replicate (63 - length tail) 0"
    have "replicate (119 - length tail) (0 :: byte) =
        replicate (63 - length tail) 0 @ replicate 56 0"
      using tail by (simp flip: replicate_add)
    then have split: "tail @ 0x80 # replicate (md_zeros (length m)) 0 @ lenb (8 * length m) =
        ?b @ replicate 56 0 @ lenb (8 * length m)"
      using big mod by (simp add: md_zeros_big)
    have b: "length ?b = 64" using tail by simp
    show "md_blocks f iv (md_pad lenb m) =
        f (f (md_blocks f iv full) ?b) (replicate 56 0 @ lenb (8 * length m))"
      unfolding pad split md_blocks_Cons_block [OF b] using lenb by (subst md_blocks_block) simp_all
  }
qed

text \<open>The same padding written into a 64-byte buffer that holds the last block.\<close>

lemma md_pad_short_buf:
  assumes "take i buf = last_bytes" and "length buf = 64" and "i < 56" and "length lb = 8"
  shows "write_at 56 lb (write_at i (x # replicate (55 - i) 0) buf) = last_bytes @ x # replicate (55 - i) 0 @ lb"
proof -
  have "length last_bytes = i" "56 - i = Suc (55 - i)" using assms by auto
  then show ?thesis using assms by (simp add: write_at_def)
qed

lemma md_pad_long_buf:
  assumes "take i buf = last_bytes" and "length buf = 64" and "i < 64"
  shows "write_at i (x # replicate (63 - i) 0) buf = last_bytes @ x # replicate (63 - i) 0"
  using assms by (auto simp: write_at_def)

lemma md_pad_second_buf:
  "length buf = 64 \<Longrightarrow> length lb = 8 \<Longrightarrow>
   write_at 56 lb (write_at 0 (replicate 56 z) buf) = replicate 56 z @ lb"
  by (simp add: write_at_def)

section \<open>The streaming interface\<close>

fun update_all :: "('s \<Rightarrow> 'a \<Rightarrow> 's option) \<Rightarrow> 's \<Rightarrow> 'a list \<Rightarrow> 's option" where
  "update_all upd s [] = Some s"
| "update_all upd s (x # xs) = Option.bind (upd s x) (\<lambda>s'. update_all upd s' xs)"

text \<open>
  The pieces of a message are accepted one after the other, each with what came before it.
\<close>

fun accepted :: "(byte list \<Rightarrow> byte list \<Rightarrow> bool) \<Rightarrow> byte list \<Rightarrow> byte list list \<Rightarrow> bool" where
  "accepted ok m [] = True"
| "accepted ok m (x # xs) = (ok m x \<and> accepted ok (m @ x) xs)"

lemma accepted_True [simp]: "accepted (\<lambda>m xs. True) m xss"
  by (induction xss arbitrary: m) simp_all

lemma update_all_Some: "update_all (\<lambda>s xs. Some (f s xs)) s xss = Some (foldl f s xss)"
  by (induction xss arbitrary: s) simp_all

locale stream_hash =
  fixes valid :: "'s \<Rightarrow> bool"
    and init :: "'s \<Rightarrow> 's"
    and update :: "'s \<Rightarrow> byte list \<Rightarrow> 's option"
    and final :: "'s \<Rightarrow> byte list option"
    and rep :: "'s \<Rightarrow> byte list \<Rightarrow> bool"
    and upd_ok :: "byte list \<Rightarrow> byte list \<Rightarrow> bool"
    and fin_ok :: "byte list \<Rightarrow> bool"
    and digest :: "byte list \<Rightarrow> byte list"
  assumes rep_init: "valid s \<Longrightarrow> rep (init s) []"
    and rep_update: "rep s m \<Longrightarrow> upd_ok m xs \<Longrightarrow> \<exists>s'. update s xs = Some s' \<and> rep s' (m @ xs)"
    and final_digest: "rep s m \<Longrightarrow> fin_ok m \<Longrightarrow> final s = Some (digest m)"
begin

lemma rep_update_all:
  "rep s m \<Longrightarrow> accepted upd_ok m xss \<Longrightarrow>
   \<exists>s'. update_all update s xss = Some s' \<and> rep s' (m @ concat xss)"
proof (induction xss arbitrary: s m)
  case (Cons x xss)
  then obtain s' where "update s x = Some s'" and "rep s' (m @ x)"
    using rep_update by fastforce
  with Cons show ?case by fastforce
qed simp

text \<open>A message hashed in pieces has the digest of the whole message.\<close>

lemma pieces_digest:
  assumes "valid s" and "accepted upd_ok [] xss" and "fin_ok (concat xss)"
  shows "Option.bind (update_all update (init s) xss) final = Some (digest (concat xss))"
  using rep_update_all [OF rep_init, of s xss] assms final_digest by fastforce

lemma oneshot_digest:
  assumes "valid s" and "upd_ok [] m" and "fin_ok m"
  shows "Option.bind (update (init s) m) final = Some (digest m)"
  using pieces_digest [of s "[m]"] assms by (simp add: Option.bind_assoc)

end

end
