(* ===== verification/Sha1.thy ===== *)
theory Sha1
  imports Merkle
begin

text \<open>
  Model of \<^verbatim>\<open>crypto/sha1.c\<close>: the compression function with its eighty unrolled rounds
  and its circular sixteen-word schedule, the streaming interface, and HMAC-SHA1. The reference
  is the eighty-step loop over an eighty-word schedule of FIPS 180.
\<close>

section \<open>The compression function\<close>

record sha1 =
  h0 :: u32
  h1 :: u32
  h2 :: u32
  h3 :: u32
  h4 :: u32
  nblocks :: u32
  sha1_buf :: "byte list"
  count :: nat

definition sha1_init :: "sha1 \<Rightarrow> sha1" where
  "sha1_init s = s\<lparr>h0 := 0x67452301, h1 := 0xefcdab89, h2 := 0x98badcfe, h3 := 0x10325476,
     h4 := 0xc3d2e1f0, nblocks := 0, count := 0\<rparr>"

text \<open>
  The five working variables \<^verbatim>\<open>a\<close> to \<^verbatim>\<open>e\<close>, the four round functions and constants,
  and the two sources of message words, \<^verbatim>\<open>x[i]\<close> and the macro \<^verbatim>\<open>M(i)\<close>.
\<close>

datatype reg = RA | RB | RC | RD | RE

datatype fname = F1 | F2 | F3 | F4

datatype kname = K1 | K2 | K3 | K4

datatype msrc = X nat | M nat

type_synonym round_row = "reg \<times> reg \<times> reg \<times> reg \<times> reg \<times> fname \<times> kname \<times> msrc"

fun F :: "fname \<Rightarrow> u32 \<Rightarrow> u32 \<Rightarrow> u32 \<Rightarrow> u32" where
  "F F1 x y z = z XOR (x AND (y XOR z))"
| "F F2 x y z = x XOR y XOR z"
| "F F3 x y z = (x AND y) OR (z AND (x OR y))"
| "F F4 x y z = x XOR y XOR z"

fun K :: "kname \<Rightarrow> u32" where
  "K K1 = 0x5A827999"
| "K K2 = 0x6ED9EBA1"
| "K K3 = 0x8F1BBCDC"
| "K K4 = 0xCA62C1D6"

text \<open>
  \<^verbatim>\<open>M(i)\<close>: \<^verbatim>\<open>(i - 14) & 0x0f\<close> is \<open>(i + 2) mod 16\<close> and so on; the new word
  overwrites \<^verbatim>\<open>x[i & 0x0f]\<close>.
\<close>

fun fetch :: "msrc \<Rightarrow> u32 list \<Rightarrow> u32 \<times> u32 list" where
  "fetch (X i) x = (x ! i, x)"
| "fetch (M i) x =
     (let tm = x ! (i mod 16) XOR x ! ((i - 14) mod 16) XOR x ! ((i - 8) mod 16) XOR
               x ! ((i - 3) mod 16);
          w = rol32 tm 1
      in (w, x[i mod 16 := w]))"

text \<open>
  \<^verbatim>\<open>R(a,b,c,d,e,f,k,m)\<close>. The constants are \<^verbatim>\<open>long\<close>, but the sum is truncated
  to the 32 bits of \<^verbatim>\<open>e\<close>, so the additions are taken modulo \<open>2 ^ 32\<close>.
\<close>

fun R :: "round_row \<Rightarrow> (reg \<Rightarrow> u32) \<times> u32 list \<Rightarrow> (reg \<Rightarrow> u32) \<times> u32 list" where
  "R (a, b, c, d, e, f, k, m) (r, x) =
     (let (w, x) = fetch m x;
          r = r(e := r e + (rol32 (r a) 5 + F f (r b) (r c) (r d) + K k + w));
          r = r(b := rol32 (r b) 30)
      in (r, x))"

definition rounds :: "round_row list" where
  "rounds =
    [(RA, RB, RC, RD, RE, F1, K1, X 0),
     (RE, RA, RB, RC, RD, F1, K1, X 1),
     (RD, RE, RA, RB, RC, F1, K1, X 2),
     (RC, RD, RE, RA, RB, F1, K1, X 3),
     (RB, RC, RD, RE, RA, F1, K1, X 4),
     (RA, RB, RC, RD, RE, F1, K1, X 5),
     (RE, RA, RB, RC, RD, F1, K1, X 6),
     (RD, RE, RA, RB, RC, F1, K1, X 7),
     (RC, RD, RE, RA, RB, F1, K1, X 8),
     (RB, RC, RD, RE, RA, F1, K1, X 9),
     (RA, RB, RC, RD, RE, F1, K1, X 10),
     (RE, RA, RB, RC, RD, F1, K1, X 11),
     (RD, RE, RA, RB, RC, F1, K1, X 12),
     (RC, RD, RE, RA, RB, F1, K1, X 13),
     (RB, RC, RD, RE, RA, F1, K1, X 14),
     (RA, RB, RC, RD, RE, F1, K1, X 15),
     (RE, RA, RB, RC, RD, F1, K1, M 16),
     (RD, RE, RA, RB, RC, F1, K1, M 17),
     (RC, RD, RE, RA, RB, F1, K1, M 18),
     (RB, RC, RD, RE, RA, F1, K1, M 19),
     (RA, RB, RC, RD, RE, F2, K2, M 20),
     (RE, RA, RB, RC, RD, F2, K2, M 21),
     (RD, RE, RA, RB, RC, F2, K2, M 22),
     (RC, RD, RE, RA, RB, F2, K2, M 23),
     (RB, RC, RD, RE, RA, F2, K2, M 24),
     (RA, RB, RC, RD, RE, F2, K2, M 25),
     (RE, RA, RB, RC, RD, F2, K2, M 26),
     (RD, RE, RA, RB, RC, F2, K2, M 27),
     (RC, RD, RE, RA, RB, F2, K2, M 28),
     (RB, RC, RD, RE, RA, F2, K2, M 29),
     (RA, RB, RC, RD, RE, F2, K2, M 30),
     (RE, RA, RB, RC, RD, F2, K2, M 31),
     (RD, RE, RA, RB, RC, F2, K2, M 32),
     (RC, RD, RE, RA, RB, F2, K2, M 33),
     (RB, RC, RD, RE, RA, F2, K2, M 34),
     (RA, RB, RC, RD, RE, F2, K2, M 35),
     (RE, RA, RB, RC, RD, F2, K2, M 36),
     (RD, RE, RA, RB, RC, F2, K2, M 37),
     (RC, RD, RE, RA, RB, F2, K2, M 38),
     (RB, RC, RD, RE, RA, F2, K2, M 39),
     (RA, RB, RC, RD, RE, F3, K3, M 40),
     (RE, RA, RB, RC, RD, F3, K3, M 41),
     (RD, RE, RA, RB, RC, F3, K3, M 42),
     (RC, RD, RE, RA, RB, F3, K3, M 43),
     (RB, RC, RD, RE, RA, F3, K3, M 44),
     (RA, RB, RC, RD, RE, F3, K3, M 45),
     (RE, RA, RB, RC, RD, F3, K3, M 46),
     (RD, RE, RA, RB, RC, F3, K3, M 47),
     (RC, RD, RE, RA, RB, F3, K3, M 48),
     (RB, RC, RD, RE, RA, F3, K3, M 49),
     (RA, RB, RC, RD, RE, F3, K3, M 50),
     (RE, RA, RB, RC, RD, F3, K3, M 51),
     (RD, RE, RA, RB, RC, F3, K3, M 52),
     (RC, RD, RE, RA, RB, F3, K3, M 53),
     (RB, RC, RD, RE, RA, F3, K3, M 54),
     (RA, RB, RC, RD, RE, F3, K3, M 55),
     (RE, RA, RB, RC, RD, F3, K3, M 56),
     (RD, RE, RA, RB, RC, F3, K3, M 57),
     (RC, RD, RE, RA, RB, F3, K3, M 58),
     (RB, RC, RD, RE, RA, F3, K3, M 59),
     (RA, RB, RC, RD, RE, F4, K4, M 60),
     (RE, RA, RB, RC, RD, F4, K4, M 61),
     (RD, RE, RA, RB, RC, F4, K4, M 62),
     (RC, RD, RE, RA, RB, F4, K4, M 63),
     (RB, RC, RD, RE, RA, F4, K4, M 64),
     (RA, RB, RC, RD, RE, F4, K4, M 65),
     (RE, RA, RB, RC, RD, F4, K4, M 66),
     (RD, RE, RA, RB, RC, F4, K4, M 67),
     (RC, RD, RE, RA, RB, F4, K4, M 68),
     (RB, RC, RD, RE, RA, F4, K4, M 69),
     (RA, RB, RC, RD, RE, F4, K4, M 70),
     (RE, RA, RB, RC, RD, F4, K4, M 71),
     (RD, RE, RA, RB, RC, F4, K4, M 72),
     (RC, RD, RE, RA, RB, F4, K4, M 73),
     (RB, RC, RD, RE, RA, F4, K4, M 74),
     (RA, RB, RC, RD, RE, F4, K4, M 75),
     (RE, RA, RB, RC, RD, F4, K4, M 76),
     (RD, RE, RA, RB, RC, F4, K4, M 77),
     (RC, RD, RE, RA, RB, F4, K4, M 78),
     (RB, RC, RD, RE, RA, F4, K4, M 79)]"

definition sha1_words :: "byte list \<Rightarrow> u32 list" where
  "sha1_words data = map (\<lambda>i. get_u32_be (drop (4 * i) data)) [0..<16]"

definition transform :: "sha1 \<Rightarrow> byte list \<Rightarrow> sha1" where
  "transform s data =
     (let r0 = (\<lambda>v. case v of RA \<Rightarrow> h0 s | RB \<Rightarrow> h1 s | RC \<Rightarrow> h2 s | RD \<Rightarrow> h3 s | RE \<Rightarrow> h4 s);
          (r, x) = fold R rounds (r0, sha1_words data)
      in s\<lparr>h0 := h0 s + r RA, h1 := h1 s + r RB, h2 := h2 s + r RC, h3 := h3 s + r RD,
           h4 := h4 s + r RE\<rparr>)"

section \<open>The streaming interface\<close>

text \<open>The flush of a full buffer, at the head of \<^verbatim>\<open>sha1_update\<close>.\<close>

definition sha1_flush :: "sha1 \<Rightarrow> sha1" where
  "sha1_flush s =
     (let s = transform s (sha1_buf s) in s\<lparr>count := 0, nblocks := nblocks s + 1\<rparr>)"

text \<open>\<^verbatim>\<open>for (; len && count < 64; len--) buf[count++] = *buf++\<close>\<close>

fun sha1_fill :: "sha1 \<Rightarrow> byte list \<Rightarrow> sha1 \<times> byte list" where
  "sha1_fill s [] = (s, [])"
| "sha1_fill s (b # bs) =
     (if count s < 64
      then sha1_fill (s\<lparr>sha1_buf := (sha1_buf s)[count s := b], count := count s + 1\<rparr>) bs
      else (s, b # bs))"

text \<open>\<^verbatim>\<open>while (len >= 64)\<close>\<close>

function sha1_blocks :: "sha1 \<Rightarrow> byte list \<Rightarrow> sha1 \<times> byte list" where
  "sha1_blocks s buf =
     (if length buf < 64 then (s, buf)
      else let s = transform s (take 64 buf)
           in sha1_blocks (s\<lparr>count := 0, nblocks := nblocks s + 1\<rparr>) (drop 64 buf))"
  by pat_completeness auto
termination
  by (relation "measure (\<lambda>(s, buf). length buf)") auto

declare sha1_blocks.simps [simp del]

definition sha1_tail :: "sha1 \<Rightarrow> byte list \<Rightarrow> sha1" where
  "sha1_tail s buf = (let (s, buf) = sha1_blocks s buf in fst (sha1_fill s buf))"

text \<open>
  \<^verbatim>\<open>sha1_update\<close> calls itself with no data after filling the buffer. The call is not
  guarded: with a partly filled buffer it calls itself again, and does not return. The
  function is therefore partial, and not returning is the value \<open>None\<close>.
\<close>

partial_function (option) sha1_update :: "sha1 \<Rightarrow> byte list \<Rightarrow> sha1 option" where
  "sha1_update s buf =
     (let s = (if count s = 64 then sha1_flush s else s) in
      if count s \<noteq> 0
      then (let (s, buf) = sha1_fill s buf in
            Option.bind (sha1_update s [])
              (\<lambda>s. if buf = [] then Some s else Some (sha1_tail s buf)))
      else Some (sha1_tail s buf))"

text \<open>
  The length in bits, from the number of blocks and the fill of the buffer, as the two 32-bit
  halves \<^verbatim>\<open>msb\<close> and \<^verbatim>\<open>lsb\<close>.
\<close>

definition sha1_bitlen :: "u32 \<Rightarrow> nat \<Rightarrow> u32 \<times> u32" where
  "sha1_bitlen nb cnt =
     (let t = nb; lsb = push_bit 6 t; msb = drop_bit 26 t; t = lsb;
          lsb = lsb + of_nat cnt; msb = (if lsb < t then msb + 1 else msb);
          t = lsb; lsb = push_bit 3 lsb; msb = push_bit 3 msb;
          msb = msb OR drop_bit 29 t
      in (msb, lsb))"

text \<open>The end of \<^verbatim>\<open>sha1_final\<close>: the length field, the last block, and the output.\<close>

definition sha1_emit :: "u32 \<Rightarrow> u32 \<Rightarrow> sha1 \<Rightarrow> sha1" where
  "sha1_emit msb lsb s =
     (let s = s\<lparr>sha1_buf := write_at 56 (be_bytes32 msb @ be_bytes32 lsb) (sha1_buf s)\<rparr>;
          s = transform s (sha1_buf s)
      in s\<lparr>sha1_buf := write_at 0 (be_bytes32 (h0 s) @ be_bytes32 (h1 s) @ be_bytes32 (h2 s) @
           be_bytes32 (h3 s) @ be_bytes32 (h4 s)) (sha1_buf s)\<rparr>)"

text \<open>
  \<^verbatim>\<open>sha1_final\<close> returns a pointer to the buffer, whose first twenty bytes are the digest;
  the model returns the final state.
\<close>

definition sha1_final :: "sha1 \<Rightarrow> sha1 option" where
  "sha1_final s =
     Option.bind (sha1_update s []) (\<lambda>s.
       let (msb, lsb) = sha1_bitlen (nblocks s) (count s) in
       Option.bind
         (if count s < 56
          then Some (s\<lparr>sha1_buf := write_at (count s) (0x80 # replicate (55 - count s) 0) (sha1_buf s),
                       count := 56\<rparr>)
          else map_option (\<lambda>s. s\<lparr>sha1_buf := write_at 0 (replicate 56 0) (sha1_buf s)\<rparr>)
                 (sha1_update
                   (s\<lparr>sha1_buf := write_at (count s) (0x80 # replicate (63 - count s) 0) (sha1_buf s),
                      count := 64\<rparr>) []))
         (\<lambda>s. Some (sha1_emit msb lsb s)))"

definition SHA1_SIZE :: nat where
  "SHA1_SIZE = 20"

definition SHA1_BLOCK_SIZE :: nat where
  "SHA1_BLOCK_SIZE = 64"

text \<open>
  The local \<^verbatim>\<open>struct sha1\<close> of \<^verbatim>\<open>sha1_hash\<close> is uninitialised: its contents are a
  parameter.
\<close>

definition sha1_hash :: "sha1 \<Rightarrow> byte list \<Rightarrow> byte list option" where
  "sha1_hash local buf =
     Option.bind (sha1_update (sha1_init local) buf) (\<lambda>s.
     Option.bind (sha1_final s) (\<lambda>s. Some (take SHA1_SIZE (sha1_buf s))))"

record sha1_hmac =
  ictx :: sha1
  octx :: sha1

definition sha1_hmac_key :: "sha1 \<Rightarrow> byte list \<Rightarrow> byte list option" where
  "sha1_hmac_key local key =
     (if length key \<le> SHA1_BLOCK_SIZE
      then Some (key @ replicate (SHA1_BLOCK_SIZE - length key) 0)
      else map_option (\<lambda>d. d @ replicate (SHA1_BLOCK_SIZE - SHA1_SIZE) 0) (sha1_hash local key))"

definition sha1_hmac_init :: "sha1 \<Rightarrow> sha1_hmac \<Rightarrow> byte list \<Rightarrow> sha1_hmac option" where
  "sha1_hmac_init local hmac key =
     Option.bind (sha1_hmac_key local key) (\<lambda>keybuf.
     Option.bind (sha1_update (sha1_init (ictx hmac)) (map (\<lambda>b. b XOR 0x36) keybuf)) (\<lambda>i.
     Option.bind (sha1_update (sha1_init (octx hmac)) (map (\<lambda>b. b XOR 0x5c) keybuf)) (\<lambda>o'.
     Some \<lparr>ictx = i, octx = o'\<rparr>)))"

definition sha1_hmac_update :: "sha1_hmac \<Rightarrow> byte list \<Rightarrow> sha1_hmac option" where
  "sha1_hmac_update hmac data =
     map_option (\<lambda>i. hmac\<lparr>ictx := i\<rparr>) (sha1_update (ictx hmac) data)"

definition sha1_hmac_final :: "sha1_hmac \<Rightarrow> byte list option" where
  "sha1_hmac_final hmac =
     Option.bind (sha1_final (ictx hmac)) (\<lambda>i.
     Option.bind (sha1_update (octx hmac) (take SHA1_SIZE (sha1_buf i))) (\<lambda>o'.
     Option.bind (sha1_final o') (\<lambda>o'. Some (sha1_buf o'))))"

definition sha1_hmac_of :: "sha1 \<Rightarrow> sha1_hmac \<Rightarrow> byte list \<Rightarrow> byte list \<Rightarrow> byte list option" where
  "sha1_hmac_of local hmac key data =
     Option.bind (sha1_hmac_init local hmac key) (\<lambda>h.
     Option.bind (sha1_hmac_update h data) (\<lambda>h.
     map_option (take SHA1_SIZE) (sha1_hmac_final h)))"

section \<open>The reference: FIPS 180\<close>

type_synonym sha1_chain = "u32 \<times> u32 \<times> u32 \<times> u32 \<times> u32"

definition fips_f :: "nat \<Rightarrow> u32 \<Rightarrow> u32 \<Rightarrow> u32 \<Rightarrow> u32" where
  "fips_f t x y z =
     (if t < 20 then (x AND y) XOR (NOT x AND z)
      else if t < 40 then x XOR y XOR z
      else if t < 60 then (x AND y) XOR (x AND z) XOR (y AND z)
      else x XOR y XOR z)"

definition fips_k :: "nat \<Rightarrow> u32" where
  "fips_k t = (if t < 20 then 0x5a827999 else if t < 40 then 0x6ed9eba1
     else if t < 60 then 0x8f1bbcdc else 0xca62c1d6)"

fun fips_w :: "byte list \<Rightarrow> nat \<Rightarrow> u32" where
  "fips_w data t =
     (if t < 16 then get_u32_be (drop (4 * t) data)
      else rol32 (fips_w data (t - 3) XOR fips_w data (t - 8) XOR fips_w data (t - 14) XOR
                  fips_w data (t - 16)) 1)"

declare fips_w.simps [simp del]

fun fips_step :: "byte list \<Rightarrow> nat \<Rightarrow> sha1_chain \<Rightarrow> sha1_chain" where
  "fips_step data t (a, b, c, d, e) =
     (rol32 a 5 + fips_f t b c d + e + fips_k t + fips_w data t, a, rol32 b 30, c, d)"

definition sha1_compress :: "sha1_chain \<Rightarrow> byte list \<Rightarrow> sha1_chain" where
  "sha1_compress h data =
     (case h of (a, b, c, d, e) \<Rightarrow>
      case fold (fips_step data) [0..<80] (a, b, c, d, e) of (a', b', c', d', e') \<Rightarrow>
        (a + a', b + b', c + c', d + d', e + e'))"

section \<open>The unrolled rounds are the reference\<close>

definition roles :: "nat \<Rightarrow> reg \<times> reg \<times> reg \<times> reg \<times> reg" where
  "roles t =
     (if t mod 5 = 0 then (RA, RB, RC, RD, RE) else if t mod 5 = 1 then (RE, RA, RB, RC, RD)
      else if t mod 5 = 2 then (RD, RE, RA, RB, RC) else if t mod 5 = 3 then (RC, RD, RE, RA, RB)
      else (RB, RC, RD, RE, RA))"

definition row :: "nat \<Rightarrow> round_row" where
  "row t =
     (case roles t of (a, b, c, d, e) \<Rightarrow>
      (a, b, c, d, e,
       if t < 20 then F1 else if t < 40 then F2 else if t < 60 then F3 else F4,
       if t < 20 then K1 else if t < 40 then K2 else if t < 60 then K3 else K4,
       if t < 16 then X t else M t))"

lemma rounds_row: "rounds = map row [0..<80]"
  by (simp add: rounds_def row_def roles_def upt_rec)

lemma F_fips_f:
  "F F1 x y z = (x AND y) XOR (NOT x AND z)" "F F3 x y z = (x AND y) XOR (x AND z) XOR (y AND z)"
  by (rule bit_word_eqI; auto simp: bit_simps)+

lemma F_row: "t < 80 \<Longrightarrow> row t = (a, b, c, d, e, f, k, m) \<Longrightarrow> F f = fips_f t \<and> K k = fips_k t"
  by (auto simp: row_def fips_f_def fips_k_def fun_eq_iff F_fips_f split: prod.splits if_splits
      simp del: F.simps(1) F.simps(3))

text \<open>
  The schedule: before round \<open>t\<close> the sixteen words hold the reference words
  \<open>t - 16 .. t - 1\<close> (the first sixteen up to round sixteen), each at its index modulo
  sixteen.
\<close>

definition schedule_ok :: "byte list \<Rightarrow> nat \<Rightarrow> u32 list \<Rightarrow> bool" where
  "schedule_ok data t x \<longleftrightarrow> length x = 16 \<and>
     (\<forall>j. t \<le> j + 16 \<and> (j < t \<or> j < 16) \<longrightarrow> x ! (j mod 16) = fips_w data j)"

lemma schedule_init: "schedule_ok data 0 (sha1_words data)"
  by (auto simp: schedule_ok_def sha1_words_def fips_w.simps)

lemma schedule_okD:
  "schedule_ok data t x \<Longrightarrow> t \<le> j + 16 \<Longrightarrow> j < t \<or> j < 16 \<Longrightarrow> x ! (j mod 16) = fips_w data j"
  by (simp add: schedule_ok_def)

lemma fetch_row:
  assumes ok: "schedule_ok data t x"
  obtains x' where "fetch (if t < 16 then X t else M t) x = (fips_w data t, x')"
    and "schedule_ok data (Suc t) x'"
proof (cases "t < 16")
  case True
  then have "x ! t = fips_w data t" using schedule_okD [OF ok, of t] by simp
  moreover have "schedule_ok data (Suc t) x" using ok True by (auto simp: schedule_ok_def)
  ultimately show ?thesis using that True by simp
next
  case False
  let ?x = "x[t mod 16 := fips_w data t]"
  have "x ! (t mod 16) = fips_w data (t - 16)"
    using schedule_okD [OF ok, of "t - 16"] False by (simp add: le_mod_geq)
  then have "fetch (M t) x = (fips_w data t, ?x)"
    using schedule_okD [OF ok, of "t - 14"] schedule_okD [OF ok, of "t - 8"]
      schedule_okD [OF ok, of "t - 3"] False
    by (simp add: Let_def fips_w.simps [of data t] ac_simps)
  moreover have "schedule_ok data (Suc t) ?x"
    unfolding schedule_ok_def
  proof (intro conjI allI impI)
    show "length ?x = 16" using ok by (simp add: schedule_ok_def)
    fix j assume j: "Suc t \<le> j + 16 \<and> (j < Suc t \<or> j < 16)"
    show "?x ! (j mod 16) = fips_w data j"
    proof (cases "j = t")
      case True
      then show ?thesis using ok by (simp add: schedule_ok_def)
    next
      case ne: False
      then have "t - j < 16" "0 < t - j" "j < t" using j False by auto
      then have "j mod 16 \<noteq> t mod 16"
        by (metis less_irrefl_nat mod_less nat_dvd_not_less mod_eq_dvd_iff_nat less_imp_le)
      then show ?thesis using schedule_okD [OF ok, of j] j \<open>j < t\<close> by simp
    qed
  qed
  ultimately show ?thesis using that False by simp
qed

definition read_roles :: "nat \<Rightarrow> (reg \<Rightarrow> u32) \<Rightarrow> sha1_chain" where
  "read_roles t r = (case roles t of (a, b, c, d, e) \<Rightarrow> (r a, r b, r c, r d, r e))"

lemma R_row:
  assumes "t < 80" and ok: "schedule_ok data t x"
  obtains r' x' where "R (row t) (r, x) = (r', x')" and "schedule_ok data (Suc t) x'"
    and "read_roles (Suc t) r' = fips_step data t (read_roles t r)"
proof -
  obtain a b c d e where roles: "roles t = (a, b, c, d, e)" by (metis prod_cases5)
  then obtain f k where row: "row t = (a, b, c, d, e, f, k, if t < 16 then X t else M t)"
    by (simp add: row_def)
  have fk: "F f = fips_f t" "K k = fips_k t" using F_row [OF \<open>t < 80\<close> row] by auto
  have dist: "distinct [a, b, c, d, e]" and nxt: "roles (Suc t) = (e, a, b, c, d)"
    using roles by (auto simp: roles_def mod_Suc split: if_splits)
  obtain x' where x': "fetch (if t < 16 then X t else M t) x = (fips_w data t, x')"
    and ok': "schedule_ok data (Suc t) x'" using fetch_row [OF ok] .
  show ?thesis
  proof (rule that)
    let ?r = "r(e := r e + (rol32 (r a) 5 + F f (r b) (r c) (r d) + K k + fips_w data t))"
    show "R (row t) (r, x) = (?r(b := rol32 (?r b) 30), x')"
      by (simp only: row R.simps x' Let_def prod.case)
    show "read_roles (Suc t) (?r(b := rol32 (?r b) 30)) = fips_step data t (read_roles t r)"
      using dist by (auto simp: read_roles_def roles nxt fk ac_simps)
  qed (rule ok')
qed

lemma rounds_fips:
  assumes "n \<le> 80" and "schedule_ok data 0 x"
  shows "\<exists>r' x'. fold R (map row [0..<n]) (r, x) = (r', x') \<and> schedule_ok data n x' \<and>
     read_roles n r' = fold (fips_step data) [0..<n] (read_roles 0 r)"
  using assms(1)
proof (induction n)
  case 0
  then show ?case using assms(2) by simp
next
  case (Suc n)
  then obtain r' x' where IH: "fold R (map row [0..<n]) (r, x) = (r', x')"
    "schedule_ok data n x'" "read_roles n r' = fold (fips_step data) [0..<n] (read_roles 0 r)"
    by auto
  obtain r'' x'' where "R (row n) (r', x') = (r'', x'')" "schedule_ok data (Suc n) x''"
    "read_roles (Suc n) r'' = fips_step data n (read_roles n r')"
    using R_row [OF _ IH(2), of r'] Suc.prems by auto
  with IH show ?case by auto
qed

definition hash_of :: "sha1 \<Rightarrow> sha1_chain" where
  "hash_of s = (h0 s, h1 s, h2 s, h3 s, h4 s)"

lemma transform_compress:
  "hash_of (transform s data) = sha1_compress (hash_of s) data"
  "nblocks (transform s data) = nblocks s"
  "sha1_buf (transform s data) = sha1_buf s"
  "count (transform s data) = count s"
proof -
  let ?r0 = "\<lambda>v. case v of RA \<Rightarrow> h0 s | RB \<Rightarrow> h1 s | RC \<Rightarrow> h2 s | RD \<Rightarrow> h3 s | RE \<Rightarrow> h4 s"
  obtain r x where f: "fold R rounds (?r0, sha1_words data) = (r, x)"
    and ref: "read_roles 80 r = fold (fips_step data) [0..<80] (read_roles 0 ?r0)"
    unfolding rounds_row
    using rounds_fips [OF order_refl schedule_init [of data], where r = ?r0] by blast
  have "read_roles 80 r = (r RA, r RB, r RC, r RD, r RE)" "read_roles 0 ?r0 = hash_of s"
    by (simp_all add: read_roles_def roles_def hash_of_def)
  with ref have "fold (fips_step data) [0..<80] (hash_of s) = (r RA, r RB, r RC, r RD, r RE)"
    by simp
  then show "hash_of (transform s data) = sha1_compress (hash_of s) data"
    by (simp add: transform_def f sha1_compress_def hash_of_def)
  show "nblocks (transform s data) = nblocks s" "sha1_buf (transform s data) = sha1_buf s"
    "count (transform s data) = count s"
    by (simp_all add: transform_def f)
qed

section \<open>The state represents a message\<close>

definition sha1_iv :: sha1_chain where
  "sha1_iv = (0x67452301, 0xefcdab89, 0x98badcfe, 0x10325476, 0xc3d2e1f0)"

definition sha1_rep :: "sha1 \<Rightarrow> byte list \<Rightarrow> bool" where
  "sha1_rep s m \<longleftrightarrow> length (sha1_buf s) = 64 \<and> count s = length m mod 64 \<and>
     nblocks s = of_nat (length m div 64) \<and> hash_of s = md_blocks sha1_compress sha1_iv m \<and>
     take (count s) (sha1_buf s) = drop (64 * (length m div 64)) m"

lemma hash_of_update [simp]:
  "hash_of (s\<lparr>count := c\<rparr>) = hash_of s" "hash_of (s\<lparr>nblocks := n\<rparr>) = hash_of s"
  "hash_of (s\<lparr>sha1_buf := b\<rparr>) = hash_of s"
  by (simp_all add: hash_of_def)

lemma sha1_fill_eq:
  assumes "length (sha1_buf s) = 64" and "count s \<le> 64"
  shows "sha1_fill s xs =
     (s\<lparr>sha1_buf := write_at (count s) (take (64 - count s) xs) (sha1_buf s),
        count := count s + min (length xs) (64 - count s)\<rparr>, drop (64 - count s) xs)"
  using assms
proof (induction s xs rule: sha1_fill.induct)
  case (2 s b bs)
  show ?case
  proof (cases "count s < 64")
    case True
    then have d: "64 - count s = Suc (63 - count s)" by simp
    show ?thesis unfolding d using "2" True by (simp add: write_at_Cons)
  qed (use "2" in simp)
qed simp

lemma sha1_blocks_eq:
  "case sha1_blocks s xs of (s', ys) \<Rightarrow>
     hash_of s' = md_blocks sha1_compress (hash_of s) xs \<and> ys = drop (64 * (length xs div 64)) xs \<and>
     nblocks s' = nblocks s + of_nat (length xs div 64) \<and> sha1_buf s' = sha1_buf s \<and>
     (count s = 0 \<longrightarrow> count s' = 0)"
proof (induction s xs rule: sha1_blocks.induct)
  case (1 s xs)
  show ?case
  proof (cases "length xs < 64")
    case False
    then have div: "length xs div 64 = Suc (length (drop 64 xs) div 64)"
      by (simp add: le_div_geq)
    show ?thesis
      using "1" [OF False refl] False
      by (subst sha1_blocks.simps)
         (simp add: div transform_compress md_blocks.simps [of _ _ xs] Let_def ac_simps
           split: prod.splits)
  qed (simp add: sha1_blocks.simps)
qed

lemma sha1_tail_rep:
  assumes rep: "sha1_rep s m" and 0: "count s = 0"
  shows "sha1_rep (sha1_tail s xs) (m @ xs)"
proof -
  obtain k where m: "length m = 64 * k"
    using rep 0 by (auto simp: sha1_rep_def mod_eq_0_iff_dvd)
  let ?l = "length xs div 64"
  obtain s' ys where b: "sha1_blocks s xs = (s', ys)" by (cases "sha1_blocks s xs")
  have s': "hash_of s' = md_blocks sha1_compress (hash_of s) xs" "ys = drop (64 * ?l) xs"
    "nblocks s' = nblocks s + of_nat ?l" "sha1_buf s' = sha1_buf s" "count s' = 0"
    using sha1_blocks_eq [of s xs] 0 by (simp_all add: b)
  have ys: "length ys = length xs mod 64" by (simp add: s' minus_mult_div_eq_mod)
  then have "length ys < 64" by simp
  moreover have "md_blocks sha1_compress sha1_iv (m @ xs) = hash_of s'"
    using rep md_blocks_append [OF m] by (simp add: s' sha1_rep_def)
  ultimately show ?thesis
    using rep s' ys m
    by (simp add: sha1_tail_def b sha1_fill_eq sha1_rep_def write_at_def)
qed

lemma sha1_tail_Nil [simp]: "sha1_tail s [] = s"
  by (simp add: sha1_tail_def sha1_blocks.simps)

subsection \<open>When \<^verbatim>\<open>sha1_update\<close> returns\<close>

lemma sha1_update_empty: "count s = 0 \<Longrightarrow> sha1_update s xs = Some (sha1_tail s xs)"
  by (subst sha1_update.simps) simp

lemma sha1_update_flush: "count s = 64 \<Longrightarrow> sha1_update s [] = Some (sha1_flush s)"
  by (subst sha1_update.simps) (simp add: sha1_flush_def Let_def)

lemma sha1_update_fills:
  assumes "length (sha1_buf s) = 64" and "count s < 64" and "64 - count s \<le> length xs"
    and "count s \<noteq> 0"
  defines "s' \<equiv> s\<lparr>sha1_buf := write_at (count s) (take (64 - count s) xs) (sha1_buf s), count := 64\<rparr>"
  shows "sha1_update s xs = Some (sha1_tail (sha1_flush s') (drop (64 - count s) xs))"
proof -
  have "sha1_fill s xs = (s', drop (64 - count s) xs)"
    using assms by (simp add: sha1_fill_eq s'_def)
  moreover have "count s' = 64" by (simp add: s'_def)
  ultimately show ?thesis
    using assms sha1_update_flush [of s'] by (subst sha1_update.simps) simp
qed

lemma sha1_update_stuck:
  assumes ret: "sha1_update s xs = Some r"
    and "length (sha1_buf s) = 64" "0 < count s" "count s + length xs < 64"
  shows False
proof -
  have "\<not> (length (sha1_buf s) = 64 \<and> 0 < count s \<and> count s + length xs < 64)"
  proof (rule sha1_update.raw_induct
      [where P = "\<lambda>s xs r. \<not> (length (sha1_buf s) = 64 \<and> 0 < count s \<and> count s + length xs < 64)",
        OF _ ret])
    fix upd s xs r
    assume IH: "\<And>s xs r. upd s xs = Some r \<Longrightarrow>
        \<not> (length (sha1_buf s) = 64 \<and> 0 < count s \<and> count s + length xs < 64)"
      and eq: "(let s = if count s = 64 then sha1_flush s else s in
          if count s \<noteq> 0
          then let (s, buf) = sha1_fill s xs in
               Option.bind (upd s []) (\<lambda>s. if buf = [] then Some s else Some (sha1_tail s buf))
          else Some (sha1_tail s xs)) = Some r"
    show "\<not> (length (sha1_buf s) = 64 \<and> 0 < count s \<and> count s + length xs < 64)"
    proof
      assume bad: "length (sha1_buf s) = 64 \<and> 0 < count s \<and> count s + length xs < 64"
      then have "length xs \<le> 64 - count s" by linarith
      with bad have "sha1_fill s xs =
          (s\<lparr>sha1_buf := write_at (count s) xs (sha1_buf s), count := count s + length xs\<rparr>, [])"
        by (simp add: sha1_fill_eq min_absorb1)
      with eq bad obtain r' where "upd (s\<lparr>sha1_buf := write_at (count s) xs (sha1_buf s),
          count := count s + length xs\<rparr>) [] = Some r'"
        by (auto simp: bind_eq_Some_conv)
      from IH [OF this] bad show False by simp
    qed
  qed
  with assms show False by blast
qed

definition sha1_upd_ok :: "byte list \<Rightarrow> byte list \<Rightarrow> bool" where
  "sha1_upd_ok m xs \<longleftrightarrow> length m mod 64 = 0 \<or> 64 \<le> length m mod 64 + length xs"

lemma sha1_flush_rep:
  assumes rep: "sha1_rep s m" and xs: "length xs = 64 - count s"
  shows "sha1_rep (sha1_flush (s\<lparr>sha1_buf := write_at (count s) xs (sha1_buf s), count := 64\<rparr>)) (m @ xs)
    \<and> count (sha1_flush (s\<lparr>sha1_buf := write_at (count s) xs (sha1_buf s), count := 64\<rparr>)) = 0"
proof -
  let ?b = "write_at (count s) xs (sha1_buf s)"
  have c: "count s = length m mod 64" "length (sha1_buf s) = 64"
    and t: "take (count s) (sha1_buf s) = drop (64 * (length m div 64)) m"
    and h: "hash_of s = md_blocks sha1_compress sha1_iv m"
    using rep unfolding sha1_rep_def by blast+
  have full: "length m mod 64 + length xs = 64" using c xs by simp
  have b: "?b = drop (64 * (length m div 64)) m @ xs"
    unfolding write_at_def t using xs c by simp
  have "md_blocks sha1_compress sha1_iv (m @ xs) = sha1_compress (hash_of s) ?b"
    unfolding b h by (rule md_blocks_complete [OF full])
  then show ?thesis
    using rep xs md_length_complete [OF full]
    by (simp add: sha1_flush_def sha1_rep_def Let_def transform_compress)
qed

lemma sha1_update_rep:
  assumes rep: "sha1_rep s m" and ok: "sha1_upd_ok m xs"
  shows "\<exists>s'. sha1_update s xs = Some s' \<and> sha1_rep s' (m @ xs)"
proof (cases "count s = 0")
  case True
  then show ?thesis using rep by (simp add: sha1_update_empty sha1_tail_rep)
next
  case False
  let ?n = "64 - count s"
  have s: "length (sha1_buf s) = 64" "count s < 64" "?n \<le> length xs"
    using rep ok False by (auto simp: sha1_rep_def sha1_upd_ok_def)
  have "length (take ?n xs) = ?n" using s by simp
  from sha1_flush_rep [OF rep this] have
    "sha1_rep (sha1_tail (sha1_flush (s\<lparr>sha1_buf := write_at (count s) (take ?n xs) (sha1_buf s),
       count := 64\<rparr>)) (drop ?n xs)) ((m @ take ?n xs) @ drop ?n xs)"
    by (intro sha1_tail_rep) auto
  then show ?thesis using sha1_update_fills [OF s False] by simp
qed

subsection \<open>The final block\<close>

fun sha1_out :: "sha1_chain \<Rightarrow> byte list" where
  "sha1_out (a, b, c, d, e) =
     be_bytes32 a @ be_bytes32 b @ be_bytes32 c @ be_bytes32 d @ be_bytes32 e"

definition sha1_spec :: "byte list \<Rightarrow> byte list" where
  "sha1_spec = md_hash sha1_compress sha1_iv sha1_out md_len_be"

lemma sha1_bitlen_eq:
  assumes k: "k < 2 ^ 32" and c: "c < 64"
  shows "sha1_bitlen (of_nat k) c =
     (of_nat (8 * (64 * k + c) div 2 ^ 32), of_nat (8 * (64 * k + c)))"
proof -
  let ?nb = "of_nat k :: u32" and ?c = "of_nat c :: u32"
  let ?t = "push_bit 6 ?nb" and ?h = "drop_bit 26 ?nb"
  have t: "unat ?t = 64 * (k mod 2 ^ 26)"
    using k by (simp add: unat_push_bit_nat unat_of_nat_small mult_mod_right mult.commute)
  have cw: "unat ?c = c" using c by (simp add: unat_of_nat_small)
  have "k mod 2 ^ 26 < 2 ^ 26" by simp
  then have lsb: "unat (?t + ?c) = 64 * (k mod 2 ^ 26) + c"
    using c by (subst unat_add_small) (simp_all add: t cw)
  then have nocarry: "\<not> ?t + ?c < ?t" by (simp add: word_less_nat_alt t)
  have h: "unat ?h = k div 2 ^ 26" using k by (simp add: unat_drop_bit_nat unat_of_nat_small)
  let ?l = "drop_bit 29 (?t + ?c)"
  have l: "unat ?l = (64 * (k mod 2 ^ 26) + c) div 2 ^ 29" by (simp add: unat_drop_bit_nat lsb)
  have "unat ?l < 2 ^ 3" unfolding l using c by (simp add: div_less_iff_less_mult)
  then have "push_bit 3 ?h OR ?l = push_bit 3 ?h + ?l" by (rule push_bit_OR_add)
  also have "\<dots> = of_nat (8 * (k div 2 ^ 26) + (64 * (k mod 2 ^ 26) + c) div 2 ^ 29)"
    unfolding l [symmetric] h [symmetric] by (simp add: push_bit_eq_mult)
  also have "8 * (k div 2 ^ 26) + (64 * (k mod 2 ^ 26) + c) div 2 ^ 29 =
      8 * (64 * k + c) div 2 ^ 32"
  proof -
    have "\<And>q r. 2 ^ 26 * q + r = k \<Longrightarrow> 8 * (64 * k + c) = (64 * r + c) * 8 + 8 * q * 2 ^ 32"
      by auto
    from this [OF mult_div_mod_eq]
    have "8 * (64 * k + c) = (64 * (k mod 2 ^ 26) + c) * 8 + 8 * (k div 2 ^ 26) * 2 ^ 32" .
    then have "8 * (64 * k + c) div 2 ^ 32 =
        8 * (k div 2 ^ 26) + (64 * (k mod 2 ^ 26) + c) * 8 div 2 ^ 32"
      by (simp only:) simp
    also have "(64 * (k mod 2 ^ 26) + c) * 8 div 2 ^ 32 = (64 * (k mod 2 ^ 26) + c) div 2 ^ 29"
      using div_mult_mult2 [of 8 "64 * (k mod 2 ^ 26) + c" "2 ^ 29"] by simp
    finally show ?thesis by simp
  qed
  finally show ?thesis
    using nocarry by (simp add: sha1_bitlen_def Let_def) (simp add: push_bit_eq_mult algebra_simps)
qed

definition sha1_fin_ok :: "byte list \<Rightarrow> bool" where
  "sha1_fin_ok m \<longleftrightarrow> length m mod 64 = 0 \<and> length m < 2 ^ 38"

lemma sha1_final_digest:
  assumes rep: "sha1_rep s m" and ok: "sha1_fin_ok m"
  shows "map_option (\<lambda>s. take SHA1_SIZE (sha1_buf s)) (sha1_final s) = Some (sha1_spec m)"
proof -
  let ?n = "8 * length m" and ?k = "length m div 64"
  have s: "count s = 0" "nblocks s = of_nat ?k" "hash_of s = md_blocks sha1_compress sha1_iv m"
    "length (sha1_buf s) = 64"
    using rep ok by (simp_all add: sha1_rep_def sha1_fin_ok_def)
  have k: "length m = 64 * ?k" "?k < 2 ^ 32"
    using ok by (auto simp: sha1_fin_ok_def div_less_iff_less_mult)
  let ?lenb = "be_bytes32 (of_nat (?n div 2 ^ 32)) @ be_bytes32 (of_nat ?n)"
  let ?block = "0x80 # replicate 55 0 @ ?lenb"
  have bl: "sha1_bitlen (nblocks s) 0 = (of_nat (?n div 2 ^ 32), of_nat ?n)"
    using sha1_bitlen_eq [OF k(2), of 0] k(1) by (simp add: s)
  have "write_at 56 ?lenb (write_at 0 (0x80 # replicate 55 0) (sha1_buf s)) = ?block"
    using s by (simp add: write_at_def)
  then have "map_option (\<lambda>s. take SHA1_SIZE (sha1_buf s)) (sha1_final s) =
      Some (sha1_out (hash_of (transform s ?block)))"
    using s(1) bl by (simp add: sha1_final_def sha1_emit_def sha1_update_empty Let_def SHA1_SIZE_def
        hash_of_def take_write_at_0 transform_def split: prod.splits)
  also have "hash_of (transform s ?block) = md_blocks sha1_compress sha1_iv (md_pad md_len_be m)"
    using md_hash_tail(1) [of m m "[]" ?k md_len_be sha1_compress sha1_iv] k(1)
    by (simp add: transform_compress s md_len_be_def)
  finally show ?thesis by (simp add: sha1_spec_def md_hash_def)
qed

interpretation sha1: stream_hash "\<lambda>s. length (sha1_buf s) = 64" sha1_init sha1_update
  "\<lambda>s. map_option (\<lambda>s. take SHA1_SIZE (sha1_buf s)) (sha1_final s)"
  sha1_rep sha1_upd_ok sha1_fin_ok sha1_spec
proof unfold_locales
  fix s :: sha1
  assume "length (sha1_buf s) = 64"
  then show "sha1_rep (sha1_init s) []"
    by (simp add: sha1_rep_def sha1_init_def hash_of_def sha1_iv_def)
qed (simp_all add: sha1_update_rep sha1_final_digest)

section \<open>Correctness of SHA-1\<close>

text \<open>
  The eighty unrolled rounds of \<^verbatim>\<open>transform\<close>, with the rotated roles of the five
  variables and the schedule kept in sixteen words, compute the compression function of
  FIPS 180 with its eighty-word schedule, and touch nothing but the chaining variables.
\<close>

theorem sha1_transform_correct:
  "hash_of (transform s data) = sha1_compress (hash_of s) data \<and>
   nblocks (transform s data) = nblocks s \<and> sha1_buf (transform s data) = sha1_buf s \<and>
   count (transform s data) = count s"
  by (simp add: transform_compress)

text \<open>
  A message fed to \<^verbatim>\<open>sha1_update\<close> in pieces, each of which either meets an empty
  buffer or completes a block, and ending at a block boundary, has the SHA-1 digest of the
  whole message. The number of blocks fits its 32-bit counter.
\<close>

theorem sha1_pieces_digest:
  assumes "length (sha1_buf s) = 64" and "accepted sha1_upd_ok [] xss"
    and "sha1_fin_ok (concat xss)"
  shows "Option.bind (update_all sha1_update (sha1_init s) xss)
      (\<lambda>s. map_option (\<lambda>s. take SHA1_SIZE (sha1_buf s)) (sha1_final s)) =
    Some (sha1_spec (concat xss))"
  using assms by (rule sha1.pieces_digest)

definition sha1_blank :: sha1 where
  "sha1_blank = \<lparr>h0 = 0, h1 = 0, h2 = 0, h3 = 0, h4 = 0, nblocks = 0, sha1_buf = replicate 64 0,
     count = 0\<rparr>"

theorem sha1_pieces_digest_witness:
  "Option.bind (update_all sha1_update (sha1_init sha1_blank) [replicate 70 1, replicate 58 2])
      (\<lambda>s. map_option (\<lambda>s. take SHA1_SIZE (sha1_buf s)) (sha1_final s)) =
    Some (sha1_spec (replicate 70 1 @ replicate 58 2))"
  using sha1_pieces_digest [of sha1_blank "[replicate 70 1, replicate 58 2]"]
  by (simp add: sha1_blank_def sha1_upd_ok_def sha1_fin_ok_def)

lemma sha1_init_simps [simp]:
  "count (sha1_init s) = 0" "sha1_buf (sha1_init s) = sha1_buf s"
  by (simp_all add: sha1_init_def)

lemma sha1_final_stuck:
  assumes "length (sha1_buf s) = 64" "0 < count s" "count s < 64"
  shows "sha1_final s = None"
  using sha1_update_stuck [of s "[]"] assms by (cases "sha1_update s []") (auto simp: sha1_final_def)

lemma sha1_hash_final:
  "sha1_hash local m = Option.bind (sha1_update (sha1_init local) m)
     (\<lambda>s. map_option (\<lambda>s. take SHA1_SIZE (sha1_buf s)) (sha1_final s))"
  by (simp add: sha1_hash_def map_option_case bind_eq_Some_conv cong: Option.bind_cong)
    (metis (no_types, lifting) Option.bind_cong bind.bind_lunit bind.bind_lzero option.case_eq_if option.exhaust_sel)

text \<open>
  C39: \<^verbatim>\<open>sha1_hash\<close> returns the SHA-1 digest for a message of whole blocks, and does not
  return for any other message: the nested \<^verbatim>\<open>sha1_update(sha1, NULL, 0)\<close> on a partly
  filled buffer repeats itself without end.
\<close>

theorem sha1_hash_returns_iff:
  assumes "length (sha1_buf local) = 64" and "length m < 2 ^ 38"
  shows "sha1_hash local m = (if length m mod 64 = 0 then Some (sha1_spec m) else None)"
proof (cases "length m mod 64 = 0")
  case True
  then show ?thesis
    using assms sha1.oneshot_digest [of local m]
    by (simp add: sha1_hash_final sha1_upd_ok_def sha1_fin_ok_def)
next
  case False
  have "sha1_rep (sha1_init local) []" using assms(1) by (rule sha1.rep_init)
  then have "sha1_rep (sha1_tail (sha1_init local) m) m"
    using sha1_tail_rep [of "sha1_init local" "[]" m] by simp
  then have "sha1_final (sha1_tail (sha1_init local) m) = None"
    using False by (intro sha1_final_stuck) (simp_all add: sha1_rep_def)
  then show ?thesis using False by (simp add: sha1_hash_def sha1_update_empty)
qed

theorem sha1_hash_returns_iff_witness:
  "sha1_hash sha1_blank (replicate 64 1) = Some (sha1_spec (replicate 64 1)) \<and>
   sha1_hash sha1_blank [1, 2, 3] = None"
  using sha1_hash_returns_iff [of sha1_blank "replicate 64 1"]
    sha1_hash_returns_iff [of sha1_blank "[1, 2, 3]"]
  by (simp add: sha1_blank_def)

lemma sha1_final_size:
  assumes "sha1_final s = Some s'"
  shows "length (take SHA1_SIZE (sha1_buf s')) = SHA1_SIZE"
proof -
  from assms obtain msb lsb t where "s' = sha1_emit msb lsb t"
    by (auto simp: sha1_final_def bind_eq_Some_conv Let_def case_prod_unfold)
  moreover have "20 \<le> length (sha1_buf (sha1_emit msb lsb t))"
    by (simp add: sha1_emit_def Let_def write_at_def)
  ultimately show ?thesis by (simp add: SHA1_SIZE_def)
qed

lemma sha1_hash_size: "sha1_hash local m = Some d \<Longrightarrow> length d = SHA1_SIZE"
  by (auto simp: sha1_hash_def bind_eq_Some_conv dest: sha1_final_size)

lemma sha1_hmac_key_size:
  "sha1_hmac_key local key = Some k \<Longrightarrow> length k = SHA1_BLOCK_SIZE"
  by (auto simp: sha1_hmac_key_def SHA1_BLOCK_SIZE_def SHA1_SIZE_def sha1_hash_size
      split: if_splits)

text \<open>The outer context after \<^verbatim>\<open>sha1_hmac_init\<close> has hashed one block, the padded key.\<close>

lemma sha1_hmac_init_octx:
  assumes "sha1_hmac_init local hmac key = Some h" and "length (sha1_buf (octx hmac)) = 64"
  shows "\<exists>m. length m = 64 \<and> sha1_rep (octx h) m"
proof -
  from assms(1) obtain k where k: "sha1_hmac_key local key = Some k"
    and up: "sha1_update (sha1_init (octx hmac)) (map (\<lambda>b. b XOR 0x5c) k) = Some (octx h)"
    by (auto simp: sha1_hmac_init_def bind_eq_Some_conv)
  let ?k = "map (\<lambda>b. b XOR 0x5c) k"
  have "sha1_rep (sha1_init (octx hmac)) []" using assms(2) by (rule sha1.rep_init)
  then have "sha1_rep (octx h) ([] @ ?k)"
    using sha1_update_rep [of "sha1_init (octx hmac)" "[]" ?k] up by (auto simp: sha1_upd_ok_def)
  moreover have "length ?k = 64" using sha1_hmac_key_size [OF k] by (simp add: SHA1_BLOCK_SIZE_def)
  ultimately show ?thesis by (metis append_Nil)
qed

text \<open>
  C40: \<^verbatim>\<open>sha1_hmac\<close> returns for no key and no data: its outer hash always ends with twenty
  bytes in the buffer, and \<^verbatim>\<open>sha1_final\<close> does not return on a partly filled buffer.
\<close>

theorem sha1_hmac_never_returns:
  assumes "length (sha1_buf (octx hmac)) = 64"
  shows "sha1_hmac_of local hmac key data = None"
proof (rule ccontr)
  assume "sha1_hmac_of local hmac key data \<noteq> None"
  then obtain h h' i o1 o2 where init: "sha1_hmac_init local hmac key = Some h"
    and "sha1_hmac_update h data = Some h'" and fin: "sha1_final (ictx h') = Some i"
    and up: "sha1_update (octx h') (take SHA1_SIZE (sha1_buf i)) = Some o1"
    and out: "sha1_final o1 = Some o2"
    by (auto simp: sha1_hmac_of_def sha1_hmac_final_def bind_eq_Some_conv)
  then have "octx h' = octx h" by (auto simp: sha1_hmac_update_def)
  with sha1_hmac_init_octx [OF init assms] obtain m where m: "length m = 64" "sha1_rep (octx h') m"
    by auto
  let ?d = "take SHA1_SIZE (sha1_buf i)"
  have "length ?d = 20" using sha1_final_size [OF fin] by (simp only: SHA1_SIZE_def)
  moreover have "sha1_rep o1 (m @ ?d)"
    using sha1_update_rep [OF m(2), of ?d] m(1) up by (auto simp: sha1_upd_ok_def)
  ultimately have "sha1_final o1 = None"
    using m(1) by (intro sha1_final_stuck) (simp_all only: sha1_rep_def length_append, simp_all)
  with out show False by simp
qed

theorem sha1_hmac_never_returns_witness:
  "sha1_hmac_of sha1_blank \<lparr>ictx = sha1_blank, octx = sha1_blank\<rparr> [1, 2] [3] = None"
  using sha1_hmac_never_returns [of "\<lparr>ictx = sha1_blank, octx = sha1_blank\<rparr>"]
  by (simp add: sha1_blank_def)

end
