(* ===== verification/Sha256.thy ===== *)
theory Sha256
  imports Merkle
begin

text \<open>
  Model of \<^verbatim>\<open>crypto/sha256.c\<close>: the compression function, the byte-by-byte
  \<^verbatim>\<open>sha256_update\<close> and the padding of \<^verbatim>\<open>sha256_final\<close>. The reference is FIPS 180-4,
  with the library's word rotations, a recursive message schedule, and the constants given
  by their definition, the fractional parts of roots of primes.
\<close>

section \<open>The compression function\<close>

text \<open>
  \<^verbatim>\<open>struct sha256\<close>. The fill \<^verbatim>\<open>len\<close> of the buffer is an index below 64; the
  bit length is the pair of 32-bit words of the source.
\<close>

record sha256 =
  sha256_data :: "byte list"
  sha256_len :: nat
  bitlen0 :: u32
  bitlen1 :: u32
  sha256_state :: "u32 list"

definition SHA256_BLOCK_SIZE :: nat where
  "SHA256_BLOCK_SIZE = 64"

definition DBL_INT_ADD :: "u32 \<times> u32 \<Rightarrow> u32 \<Rightarrow> u32 \<times> u32" where
  "DBL_INT_ADD ab c = (case ab of (a, b) \<Rightarrow> (a + c, if a > 0xffffffff - c then b + 1 else b))"

definition ROTRIGHT :: "u32 \<Rightarrow> nat \<Rightarrow> u32" where
  "ROTRIGHT a b = drop_bit b a OR push_bit (32 - b) a"

definition CH :: "u32 \<Rightarrow> u32 \<Rightarrow> u32 \<Rightarrow> u32" where
  "CH x y z = (x AND y) XOR (NOT x AND z)"

definition MAJ :: "u32 \<Rightarrow> u32 \<Rightarrow> u32 \<Rightarrow> u32" where
  "MAJ x y z = (x AND y) XOR (x AND z) XOR (y AND z)"

definition EP0 :: "u32 \<Rightarrow> u32" where
  "EP0 x = ROTRIGHT x 2 XOR ROTRIGHT x 13 XOR ROTRIGHT x 22"

definition EP1 :: "u32 \<Rightarrow> u32" where
  "EP1 x = ROTRIGHT x 6 XOR ROTRIGHT x 11 XOR ROTRIGHT x 25"

definition SIG0 :: "u32 \<Rightarrow> u32" where
  "SIG0 x = ROTRIGHT x 7 XOR ROTRIGHT x 18 XOR drop_bit 3 x"

definition SIG1 :: "u32 \<Rightarrow> u32" where
  "SIG1 x = ROTRIGHT x 17 XOR ROTRIGHT x 19 XOR drop_bit 10 x"

definition sha256_k :: "u32 list" where
  "sha256_k =
     [0x428a2f98, 0x71374491, 0xb5c0fbcf, 0xe9b5dba5, 0x3956c25b, 0x59f111f1] @
     [0x923f82a4, 0xab1c5ed5] @
     [0xd807aa98, 0x12835b01, 0x243185be, 0x550c7dc3, 0x72be5d74, 0x80deb1fe] @
     [0x9bdc06a7, 0xc19bf174] @
     [0xe49b69c1, 0xefbe4786, 0x0fc19dc6, 0x240ca1cc, 0x2de92c6f, 0x4a7484aa] @
     [0x5cb0a9dc, 0x76f988da] @
     [0x983e5152, 0xa831c66d, 0xb00327c8, 0xbf597fc7, 0xc6e00bf3, 0xd5a79147] @
     [0x06ca6351, 0x14292967] @
     [0x27b70a85, 0x2e1b2138, 0x4d2c6dfc, 0x53380d13, 0x650a7354, 0x766a0abb] @
     [0x81c2c92e, 0x92722c85] @
     [0xa2bfe8a1, 0xa81a664b, 0xc24b8b70, 0xc76c51a3, 0xd192e819, 0xd6990624] @
     [0xf40e3585, 0x106aa070] @
     [0x19a4c116, 0x1e376c08, 0x2748774c, 0x34b0bcb5, 0x391c0cb3, 0x4ed8aa4a] @
     [0x5b9cca4f, 0x682e6ff3] @
     [0x748f82ee, 0x78a5636f, 0x84c87814, 0x8cc70208, 0x90befffa, 0xa4506ceb] @
     [0xbef9a3f7, 0xc67178f2]"

text \<open>
  The array \<^verbatim>\<open>m\<close>: sixteen words of the block, then each word from earlier ones. The
  list is the part of the array that has been written.
\<close>

definition sha256_m0 :: "byte list \<Rightarrow> u32 list" where
  "sha256_m0 data =
     map (\<lambda>i. push_bit 24 (ucast (data ! (4 * i))) OR push_bit 16 (ucast (data ! (4 * i + 1))) OR
              push_bit 8 (ucast (data ! (4 * i + 2))) OR ucast (data ! (4 * i + 3))) [0..<16]"

definition sha256_extend :: "nat \<Rightarrow> u32 list \<Rightarrow> u32 list" where
  "sha256_extend i m =
     m @ [SIG1 (m ! (i - 2)) + m ! (i - 7) + SIG0 (m ! (i - 15)) + m ! (i - 16)]"

definition sha256_m :: "byte list \<Rightarrow> u32 list" where
  "sha256_m data = fold sha256_extend [16..<SHA256_BLOCK_SIZE] (sha256_m0 data)"

type_synonym regs8 = "u32 \<times> u32 \<times> u32 \<times> u32 \<times> u32 \<times> u32 \<times> u32 \<times> u32"

definition sha256_round :: "u32 list \<Rightarrow> nat \<Rightarrow> regs8 \<Rightarrow> regs8" where
  "sha256_round m i r =
     (case r of (a, b, c, d, e, f, g, h) \<Rightarrow>
      let t1 = h + EP1 e + CH e f g + sha256_k ! i + m ! i;
          t2 = EP0 a + MAJ a b c;
          h = g; g = f; f = e; e = d + t1; d = c; c = b; b = a; a = t1 + t2
      in (a, b, c, d, e, f, g, h))"

definition sha256_transform :: "sha256 \<Rightarrow> byte list \<Rightarrow> sha256" where
  "sha256_transform s data =
     (let m = sha256_m data; st = sha256_state s in
      case fold (sha256_round m) [0..<SHA256_BLOCK_SIZE]
             (st ! 0, st ! 1, st ! 2, st ! 3, st ! 4, st ! 5, st ! 6, st ! 7)
      of (a, b, c, d, e, f, g, h) \<Rightarrow>
        s\<lparr>sha256_state := [st ! 0 + a, st ! 1 + b, st ! 2 + c, st ! 3 + d,
                           st ! 4 + e, st ! 5 + f, st ! 6 + g, st ! 7 + h]\<rparr>)"

section \<open>The streaming interface\<close>

definition sha256_init :: "sha256 \<Rightarrow> sha256" where
  "sha256_init s = s\<lparr>sha256_len := 0, bitlen0 := 0, bitlen1 := 0,
     sha256_state := [0x6a09e667, 0xbb67ae85, 0x3c6ef372, 0xa54ff53a,
                      0x510e527f, 0x9b05688c, 0x1f83d9ab, 0x5be0cd19]\<rparr>"

definition sha256_add_bits :: "u32 \<Rightarrow> sha256 \<Rightarrow> sha256" where
  "sha256_add_bits c s =
     (case DBL_INT_ADD (bitlen0 s, bitlen1 s) c of (a, b) \<Rightarrow> s\<lparr>bitlen0 := a, bitlen1 := b\<rparr>)"

text \<open>The body of the loop of \<^verbatim>\<open>sha256_update\<close>.\<close>

definition sha256_byte :: "byte \<Rightarrow> sha256 \<Rightarrow> sha256" where
  "sha256_byte b s =
     (let s = s\<lparr>sha256_data := (sha256_data s)[sha256_len s := b], sha256_len := sha256_len s + 1\<rparr> in
      if sha256_len s = SHA256_BLOCK_SIZE
      then (sha256_add_bits 512 (sha256_transform s (sha256_data s)))\<lparr>sha256_len := 0\<rparr>
      else s)"

definition sha256_update :: "sha256 \<Rightarrow> byte list \<Rightarrow> sha256" where
  "sha256_update s data = fold sha256_byte data s"

text \<open>
  \<^verbatim>\<open>sha256_final\<close>: the padding, with \<^verbatim>\<open>len\<close> left as it is, the length field, and
  the digest stored big-endian in \<^verbatim>\<open>hash\<close>.
\<close>

definition sha256_pad :: "sha256 \<Rightarrow> sha256" where
  "sha256_pad s =
     (let i = sha256_len s in
      if i < 56
      then s\<lparr>sha256_data := write_at i (0x80 # replicate (55 - i) 0) (sha256_data s)\<rparr>
      else let s = s\<lparr>sha256_data := write_at i (0x80 # replicate (63 - i) 0) (sha256_data s)\<rparr>;
               s = sha256_transform s (sha256_data s)
           in s\<lparr>sha256_data := write_at 0 (replicate 56 0) (sha256_data s)\<rparr>)"

definition sha256_store :: "u32 list \<Rightarrow> nat \<Rightarrow> byte list \<Rightarrow> byte list" where
  "sha256_store st i hash =
     fold (\<lambda>j hash. hash[i + 4 * j := ucast (drop_bit (24 - i * 8) (st ! j) AND 0x000000ff)])
       [0..<8] hash"

definition sha256_final :: "sha256 \<Rightarrow> byte list \<Rightarrow> sha256 \<times> byte list" where
  "sha256_final s hash =
     (let s = sha256_add_bits (of_nat (sha256_len s) * 8) (sha256_pad s);
          s = s\<lparr>sha256_data := (sha256_data s)
               [63 := ucast (bitlen0 s), 62 := ucast (drop_bit 8 (bitlen0 s)),
                61 := ucast (drop_bit 16 (bitlen0 s)), 60 := ucast (drop_bit 24 (bitlen0 s)),
                59 := ucast (bitlen1 s), 58 := ucast (drop_bit 8 (bitlen1 s)),
                57 := ucast (drop_bit 16 (bitlen1 s)), 56 := ucast (drop_bit 24 (bitlen1 s))]\<rparr>;
          s = sha256_transform s (sha256_data s)
      in (s, fold (sha256_store (sha256_state s)) [0..<4] hash))"

section \<open>The reference: FIPS 180-4\<close>

definition primes64 :: "nat list" where
  "primes64 =
    [2, 3, 5, 7, 11, 13, 17, 19, 23, 29, 31, 37, 41, 43, 47, 53,
     59, 61, 67, 71, 73, 79, 83, 89, 97, 101, 103, 107, 109, 113, 127, 131,
     137, 139, 149, 151, 157, 163, 167, 173, 179, 181, 191, 193, 197, 199, 211, 223,
     227, 229, 233, 239, 241, 251, 257, 263, 269, 271, 277, 281, 283, 293, 307, 311]"

text \<open>
  \<open>cube_root_bits p k\<close>: for some integer part \<open>n\<close>, the number \<open>n + k / 2 ^ 32\<close> is the
  cube root of \<open>p\<close> cut off after 32 fractional bits; likewise for square roots.
\<close>

definition cube_root_bits :: "nat \<Rightarrow> u32 \<Rightarrow> bool" where
  "cube_root_bits p k \<longleftrightarrow>
     (\<exists>n < p. (n * 2 ^ 32 + unat k) ^ 3 \<le> p * 2 ^ 96 \<and> p * 2 ^ 96 < (n * 2 ^ 32 + unat k + 1) ^ 3)"

definition square_root_bits :: "nat \<Rightarrow> u32 \<Rightarrow> bool" where
  "square_root_bits p k \<longleftrightarrow>
     (\<exists>n < p. (n * 2 ^ 32 + unat k)\<^sup>2 \<le> p * 2 ^ 64 \<and> p * 2 ^ 64 < (n * 2 ^ 32 + unat k + 1)\<^sup>2)"

function sha256_w :: "byte list \<Rightarrow> nat \<Rightarrow> u32" where
  "sha256_w data t =
     (if t < 16 then get_u32_be (drop (4 * t) data)
      else (let x = sha256_w data (t - 2); y = sha256_w data (t - 15) in
        (word_rotr 17 x XOR word_rotr 19 x XOR drop_bit 10 x) + sha256_w data (t - 7) +
        (word_rotr 7 y XOR word_rotr 18 y XOR drop_bit 3 y) + sha256_w data (t - 16)))"
  by pat_completeness auto
termination
  by (relation "measure snd") auto

declare sha256_w.simps [simp del]

fun sha256_step :: "byte list \<Rightarrow> nat \<Rightarrow> regs8 \<Rightarrow> regs8" where
  "sha256_step data t (a, b, c, d, e, f, g, h) =
     (let t1 = h + (word_rotr 6 e XOR word_rotr 11 e XOR word_rotr 25 e) +
               ((e AND f) XOR (NOT e AND g)) + sha256_k ! t + sha256_w data t;
          t2 = (word_rotr 2 a XOR word_rotr 13 a XOR word_rotr 22 a) +
               ((a AND b) XOR (a AND c) XOR (b AND c))
      in (t1 + t2, a, b, c, d + t1, e, f, g))"

fun regs_list :: "regs8 \<Rightarrow> u32 list" where
  "regs_list (a, b, c, d, e, f, g, h) = [a, b, c, d, e, f, g, h]"

fun regs_add :: "regs8 \<Rightarrow> regs8 \<Rightarrow> regs8" where
  "regs_add (a, b, c, d, e, f, g, h) (a', b', c', d', e', f', g', h') =
     (a + a', b + b', c + c', d + d', e + e', f + f', g + g', h + h')"

definition sha256_compress :: "regs8 \<Rightarrow> byte list \<Rightarrow> regs8" where
  "sha256_compress r data = regs_add r (fold (sha256_step data) [0..<64] r)"

definition sha256_iv :: regs8 where
  "sha256_iv = (0x6a09e667, 0xbb67ae85, 0x3c6ef372, 0xa54ff53a,
                0x510e527f, 0x9b05688c, 0x1f83d9ab, 0x5be0cd19)"

definition sha256_spec :: "byte list \<Rightarrow> byte list" where
  "sha256_spec = md_hash sha256_compress sha256_iv (\<lambda>r. concat (map be_bytes32 (regs_list r))) md_len_be"

section \<open>The constants\<close>

definition icbrt :: "nat \<Rightarrow> nat" where
  "icbrt p = (if p < 8 then 1 else if p < 27 then 2 else if p < 64 then 3 else if p < 125 then 4
     else if p < 216 then 5 else 6)"

definition isqrt :: "nat \<Rightarrow> nat" where
  "isqrt p = (if p < 4 then 1 else if p < 9 then 2 else if p < 16 then 3 else 4)"

lemma cube_root_bitsI:
  "icbrt p < p \<Longrightarrow> (icbrt p * 2 ^ 32 + unat k) ^ 3 \<le> p * 2 ^ 96 \<Longrightarrow>
   p * 2 ^ 96 < (icbrt p * 2 ^ 32 + unat k + 1) ^ 3 \<Longrightarrow> cube_root_bits p k"
  unfolding cube_root_bits_def by blast

lemma square_root_bitsI:
  "isqrt p < p \<Longrightarrow> (isqrt p * 2 ^ 32 + unat k)\<^sup>2 \<le> p * 2 ^ 64 \<Longrightarrow>
   p * 2 ^ 64 < (isqrt p * 2 ^ 32 + unat k + 1)\<^sup>2 \<Longrightarrow> square_root_bits p k"
  unfolding square_root_bits_def by blast

lemma sha256_k_roots: "list_all2 cube_root_bits primes64 sha256_k"
  unfolding primes64_def sha256_k_def append.simps
  by (intro list_all2_Cons [THEN iffD2] conjI list_all2_Nil [THEN iffD2] cube_root_bitsI)
     (simp_all add: icbrt_def power_numeral_even power_numeral_odd)

lemma sha256_iv_roots: "list_all2 square_root_bits (take 8 primes64) (regs_list sha256_iv)"
proof -
  have "take 8 primes64 = [2, 3, 5, 7, 11, 13, 17, 19]" by (simp add: primes64_def)
  then show ?thesis
    by (simp only: sha256_iv_def regs_list.simps, intro list_all2_Cons [THEN iffD2] conjI
        list_all2_Nil [THEN iffD2] square_root_bitsI) (simp_all add: isqrt_def power2_eq_square)
qed

section \<open>The code computes the reference\<close>

lemma ROTRIGHT_rotr: "0 < b \<Longrightarrow> b < 32 \<Longrightarrow> ROTRIGHT a b = word_rotr b a"
proof (rule bit_word_eqI)
  fix n assume b: "0 < b" "b < 32" and n: "n < LENGTH(32)"
  show "bit (ROTRIGHT a b) n = bit (word_rotr b a) n"
  proof (cases "n + b < 32")
    case True
    then show ?thesis using b n by (auto simp: ROTRIGHT_def bit_simps ac_simps)
  next
    case False
    then have "(n + b) mod 32 = n - (32 - b)" using b n by (simp add: le_mod_geq)
    moreover have "\<not> bit a (b + n)" using False by (auto dest: bit_imp_le_length)
    ultimately show ?thesis using b n False by (auto simp: ROTRIGHT_def bit_simps)
  qed
qed

lemmas sha256_macros = EP0_def EP1_def SIG0_def SIG1_def CH_def MAJ_def ROTRIGHT_rotr

lemma sha256_m0_w: "length data = 64 \<Longrightarrow> sha256_m0 data = map (sha256_w data) [0..<16]"
  by (auto simp: sha256_m0_def sha256_w.simps get_u32_be_def add.commute)

lemma sha256_m_w:
  assumes "length data = 64"
  shows "sha256_m data = map (sha256_w data) [0..<64]"
proof -
  have "fold sha256_extend [16..<i] (sha256_m0 data) = map (sha256_w data) [0..<i]" if "16 \<le> i" for i
    using that
  proof (induction i rule: nat_induct_at_least)
    case base
    then show ?case using sha256_m0_w [OF assms] by simp
  next
    case (Suc i)
    have "sha256_extend i (map (sha256_w data) [0..<i]) =
        map (sha256_w data) [0..<i] @ [sha256_w data i]"
      using Suc.hyps by (simp add: sha256_extend_def sha256_macros sha256_w.simps [of data i] Let_def)
    then show ?case using Suc by simp
  qed
  from this [of 64] show ?thesis by (simp add: sha256_m_def SHA256_BLOCK_SIZE_def)
qed

lemma sha256_rounds:
  assumes "length data = 64"
  shows "fold (sha256_round (sha256_m data)) [0..<64] r = fold (sha256_step data) [0..<64] r"
proof (rule fold_cong)
  fix t assume "t \<in> set [0..<64]"
  then have "sha256_m data ! t = sha256_w data t" by (simp add: sha256_m_w [OF assms])
  then show "sha256_round (sha256_m data) t = sha256_step data t"
    by (simp add: fun_eq_iff sha256_round_def sha256_macros Let_def)
qed simp_all

definition sha256_hash_of :: "sha256 \<Rightarrow> regs8" where
  "sha256_hash_of s = (let st = sha256_state s in
     (st ! 0, st ! 1, st ! 2, st ! 3, st ! 4, st ! 5, st ! 6, st ! 7))"

lemma sha256_hash_of_simps [simp]:
  "sha256_hash_of (s\<lparr>sha256_len := n\<rparr>) = sha256_hash_of s"
  "sha256_hash_of (s\<lparr>sha256_data := d\<rparr>) = sha256_hash_of s"
  by (simp_all add: sha256_hash_of_def)

lemma sha256_transform_simps [simp]:
  "sha256_data (sha256_transform s data) = sha256_data s"
  "sha256_len (sha256_transform s data) = sha256_len s"
  "bitlen0 (sha256_transform s data) = bitlen0 s"
  "bitlen1 (sha256_transform s data) = bitlen1 s"
  "length (sha256_state (sha256_transform s data)) = 8"
  by (simp_all add: sha256_transform_def Let_def split: prod.splits)

lemma sha256_transform_compress:
  assumes "length data = 64"
  shows "sha256_hash_of (sha256_transform s data) = sha256_compress (sha256_hash_of s) data"
  using sha256_rounds [OF assms]
  by (simp add: sha256_transform_def sha256_hash_of_def sha256_compress_def SHA256_BLOCK_SIZE_def Let_def
      split: prod.splits)

lemma sha256_state_hash:
  "length (sha256_state s) = 8 \<Longrightarrow> sha256_state s = regs_list (sha256_hash_of s)"
  by (rule nth_equalityI) (auto simp: sha256_hash_of_def Let_def less_Suc_eq numeral_eq_Suc)

section \<open>The streaming interface\<close>

lemma DBL_INT_ADD_nat:
  assumes c: "c < 2 ^ 32"
  shows "DBL_INT_ADD (of_nat n, of_nat (n div 2 ^ 32)) (of_nat c) =
     (of_nat (n + c), of_nat ((n + c) div 2 ^ 32))"
proof -
  let ?c = "of_nat c :: u32"
  have cw: "unat ?c = c" using c by (simp add: unat_of_nat_small)
  have a: "unat (of_nat n :: u32) = n mod 2 ^ 32" by (simp add: unat_of_nat take_bit_eq_mod)
  have "unat (0xffffffff - ?c) = 2 ^ 32 - 1 - c"
    using c by (subst unat_sub) (simp_all add: cw word_le_nat_alt)
  then have carry: "of_nat n > 0xffffffff - ?c \<longleftrightarrow> 2 ^ 32 \<le> n mod 2 ^ 32 + c"
    using c by (auto simp: word_less_nat_alt a)
  have "\<And>q r. 2 ^ 32 * q + r = n \<Longrightarrow> r < 2 ^ 32 \<Longrightarrow>
      (n + c) div 2 ^ 32 = (if 2 ^ 32 \<le> r + c then q + 1 else q)"
    using c by (auto simp: div_add1_eq [of "_ * _"] add.assoc div_nat_eqI)
  from this [OF mult_div_mod_eq]
  have "(n + c) div 2 ^ 32 = (if 2 ^ 32 \<le> n mod 2 ^ 32 + c then n div 2 ^ 32 + 1 else n div 2 ^ 32)"
    by simp
  then show ?thesis unfolding DBL_INT_ADD_def prod.case carry by (simp add: add.commute)
qed

definition sha256_rep :: "sha256 \<Rightarrow> byte list \<Rightarrow> bool" where
  "sha256_rep s m \<longleftrightarrow> length (sha256_data s) = 64 \<and> length (sha256_state s) = 8 \<and>
     sha256_len s = length m mod 64 \<and>
     (bitlen0 s, bitlen1 s) = (let n = 512 * (length m div 64) in (of_nat n, of_nat (n div 2 ^ 32))) \<and>
     sha256_hash_of s = md_blocks sha256_compress sha256_iv m \<and>
     take (sha256_len s) (sha256_data s) = drop (64 * (length m div 64)) m"

lemma sha256_add_bits_simps [simp]:
  "sha256_data (sha256_add_bits c s) = sha256_data s"
  "sha256_state (sha256_add_bits c s) = sha256_state s"
  "sha256_len (sha256_add_bits c s) = sha256_len s"
  "sha256_hash_of (sha256_add_bits c s) = sha256_hash_of s"
  "(bitlen0 (sha256_add_bits c s), bitlen1 (sha256_add_bits c s)) = DBL_INT_ADD (bitlen0 s, bitlen1 s) c"
  by (simp_all add: sha256_add_bits_def sha256_hash_of_def split: prod.splits)

lemma sha256_byte_rep:
  assumes rep: "sha256_rep s m"
  shows "sha256_rep (sha256_byte b s) (m @ [b])"
proof -
  let ?k = "length m div 64" and ?d = "(sha256_data s)[sha256_len s := b]"
  have s: "sha256_len s = length m mod 64" "length (sha256_data s) = 64" "length (sha256_state s) = 8"
    and bits: "(bitlen0 s, bitlen1 s) = (of_nat (512 * ?k), of_nat (512 * ?k div 2 ^ 32))"
    and t: "take (sha256_len s) (sha256_data s) = drop (64 * ?k) m"
    and h: "sha256_hash_of s = md_blocks sha256_compress sha256_iv m"
    using rep unfolding sha256_rep_def Let_def by blast+
  have less: "sha256_len s < 64" by (simp add: s)
  have d: "take (Suc (sha256_len s)) ?d = drop (64 * ?k) m @ [b]"
    using less s(2) t by (simp add: take_Suc_conv_app_nth)
  show ?thesis
  proof (cases "Suc (sha256_len s) = 64")
    case True
    then have full: "length m mod 64 + length [b] = 64" by (simp add: s)
    have "?d = drop (64 * ?k) m @ [b]" using d True s(2) by simp
    then have "md_blocks sha256_compress sha256_iv (m @ [b]) = sha256_compress (sha256_hash_of s) ?d"
      using md_blocks_complete [OF full] by (simp add: h)
    moreover have "DBL_INT_ADD (bitlen0 s, bitlen1 s) 512 =
        (of_nat (512 * Suc ?k), of_nat (512 * Suc ?k div 2 ^ 32))"
      unfolding bits using DBL_INT_ADD_nat [of 512 "512 * ?k"] by (simp add: add.commute)
    moreover have dm: "length (m @ [b]) div 64 = Suc ?k" "length (m @ [b]) mod 64 = 0"
      "drop (64 * Suc ?k) (m @ [b]) = []"
      using md_length_complete [OF full] by (simp_all only: drop_all order_refl) simp_all
    ultimately show ?thesis
      unfolding sha256_rep_def Let_def dm using True s
      by (simp add: sha256_byte_def Let_def SHA256_BLOCK_SIZE_def sha256_transform_compress)
  next
    case False
    then have part: "length m mod 64 + length [b] < 64" using less by (simp add: s)
    then show ?thesis
      using False d md_length_incomplete [OF part] md_blocks_incomplete [OF part, of sha256_compress] s bits h
      by (simp add: sha256_byte_def sha256_rep_def Let_def SHA256_BLOCK_SIZE_def)
  qed
qed

lemma sha256_update_rep: "sha256_rep s m \<Longrightarrow> sha256_rep (sha256_update s xs) (m @ xs)"
  unfolding sha256_update_def
proof (induction xs arbitrary: s m)
  case (Cons b xs)
  from Cons.IH [OF sha256_byte_rep [OF Cons.prems]] show ?case by simp
qed simp

text \<open>The digest is stored byte by byte, most significant byte of each word first.\<close>

lemma fold_stores:
  assumes "length hash = 32"
  shows "fold (\<lambda>i. fold (\<lambda>j hash. hash[i + 4 * j := g i j]) [0..<8]) [0..<4] hash =
    concat (map (\<lambda>j. map (\<lambda>i. g i j) [0..<4]) [0..<8])"
  using assms by (auto simp: upt_rec numeral_eq_Suc length_Suc_conv)

lemma ucast_and_255: "ucast (w AND 0xff) = (ucast w :: byte)" for w :: u32
proof -
  have "w AND 0xff = take_bit 8 w" by (simp add: take_bit_eq_mask mask_eq_exp_minus_1)
  then show ?thesis by (simp add: bit_eq_iff bit_simps)
qed

lemma sha256_store_all:
  assumes "length hash = 32" and "length st = 8"
  shows "fold (sha256_store st) [0..<4] hash = concat (map be_bytes32 st)"
proof -
  have "map (\<lambda>i. ucast (drop_bit (24 - i * 8) w AND 0x000000ff)) [0..<4] = be_bytes32 w" for w :: u32
    by (simp add: upt_rec be_bytes32_def ucast_and_255)
  then have "fold (sha256_store st) [0..<4] hash = concat (map be_bytes32 (map ((!) st) [0..<8]))"
    by (simp add: sha256_store_def [abs_def] fold_stores [OF assms(1)] comp_def)
  then show ?thesis using map_nth [of st] assms(2) by (simp only:)
qed

text \<open>The eight stores of the length field.\<close>

lemma sha256_length_stores:
  assumes "length d = 64"
  shows "d[63 := ucast lo, 62 := ucast (drop_bit 8 lo), 61 := ucast (drop_bit 16 lo),
           60 := ucast (drop_bit 24 lo), 59 := ucast hi, 58 := ucast (drop_bit 8 hi),
           57 := ucast (drop_bit 16 hi), 56 := ucast (drop_bit 24 hi)] =
         write_at 56 (be_bytes32 hi @ be_bytes32 lo) d"
  using assms
  by (intro nth_equalityI) (auto simp: write_at_def be_bytes32_def nth_append nth_Cons nth_list_update
      split: nat.splits)

lemma sha256_pad_simps [simp]:
  "bitlen0 (sha256_pad s) = bitlen0 s" "bitlen1 (sha256_pad s) = bitlen1 s"
  "length (sha256_state s) = 8 \<Longrightarrow> length (sha256_state (sha256_pad s)) = 8"
  by (simp_all add: sha256_pad_def Let_def)

text \<open>
  Whichever branch the padding takes, the next compression, of the buffer with the length
  field \<open>lenb\<close>, gives the chaining value of the padded message.
\<close>

lemma sha256_pad_compress:
  assumes rep: "sha256_rep s m" and lenb: "length (lenb (8 * length m)) = 8"
  shows "sha256_compress (sha256_hash_of (sha256_pad s))
           (write_at 56 (lenb (8 * length m)) (sha256_data (sha256_pad s))) =
         md_blocks sha256_compress sha256_iv (md_pad lenb m)"
    and "length (sha256_data (sha256_pad s)) = 64"
proof -
  let ?k = "length m div 64" and ?i = "sha256_len s"
  let ?full = "take (64 * ?k) m" and ?tail = "drop (64 * ?k) m"
  have s: "?i = length m mod 64" "length (sha256_data s) = 64"
    and t: "take ?i (sha256_data s) = ?tail"
    and h: "sha256_hash_of s = md_blocks sha256_compress sha256_iv m"
    using rep unfolding sha256_rep_def by blast+
  have m: "m = ?full @ ?tail" and full: "length ?full = 64 * ?k" by (simp_all add: min_absorb2)
  have tail: "length ?tail = ?i" by (simp add: s minus_mult_div_eq_mod)
  then have tail64: "length ?tail < 64" by (simp add: s)
  note pad = md_hash_tail [where lenb = lenb and f = sha256_compress and iv = sha256_iv, OF m full tail64 lenb,
      unfolded md_blocks_take tail]
  have "sha256_compress (sha256_hash_of (sha256_pad s))
           (write_at 56 (lenb (8 * length m)) (sha256_data (sha256_pad s))) =
         md_blocks sha256_compress sha256_iv (md_pad lenb m) \<and>
        length (sha256_data (sha256_pad s)) = 64"
  proof (cases "?i < 56")
    case True
    then have "write_at 56 (lenb (8 * length m)) (sha256_data (sha256_pad s)) =
        ?tail @ 0x80 # replicate (55 - ?i) 0 @ lenb (8 * length m)"
      using md_pad_short_buf [OF t s(2) True lenb] by (simp add: sha256_pad_def Let_def)
    with True pad(1) s(2) show ?thesis by (simp add: sha256_pad_def Let_def h)
  next
    case False
    let ?b = "?tail @ 0x80 # replicate (63 - ?i) 0"
    have "?i < 64" by (simp add: s)
    then have b: "write_at ?i (0x80 # replicate (63 - ?i) 0) (sha256_data s) = ?b" "length ?b = 64"
      using md_pad_long_buf [OF t s(2)] tail by simp_all
    then have "sha256_hash_of (sha256_pad s) = sha256_compress (sha256_hash_of s) ?b"
      "sha256_data (sha256_pad s) = write_at 0 (replicate 56 0) ?b"
      using False by (simp_all add: sha256_pad_def Let_def sha256_transform_compress)
    moreover have "write_at 56 (lenb (8 * length m)) (write_at 0 (replicate 56 0) ?b) =
        replicate 56 0 @ lenb (8 * length m)"
      by (rule md_pad_second_buf [OF b(2) lenb])
    ultimately show ?thesis using pad(2) False b(2) by (simp add: h)
  qed
  then show "sha256_compress (sha256_hash_of (sha256_pad s))
           (write_at 56 (lenb (8 * length m)) (sha256_data (sha256_pad s))) =
         md_blocks sha256_compress sha256_iv (md_pad lenb m)"
    and "length (sha256_data (sha256_pad s)) = 64" by auto
qed

lemma sha256_final_digest:
  assumes rep: "sha256_rep s m" and hash: "length hash = 32"
  shows "snd (sha256_final s hash) = sha256_spec m"
proof -
  let ?k = "length m div 64" and ?s = "sha256_add_bits (of_nat (sha256_len s) * 8) (sha256_pad s)"
  have len: "sha256_len s = length m mod 64" and st: "length (sha256_state s) = 8"
    and bits: "(bitlen0 s, bitlen1 s) = (of_nat (512 * ?k), of_nat (512 * ?k div 2 ^ 32))"
    using rep unfolding sha256_rep_def Let_def by blast+
  have "\<And>q r. 64 * q + r = length m \<Longrightarrow> 512 * q + r * 8 = 8 * length m" by auto
  from this [OF mult_div_mod_eq] have n: "512 * ?k + sha256_len s * 8 = 8 * length m"
    by (simp only: len)
  have "sha256_len s * 8 < 2 ^ 32" by (simp add: len trans_less_add1)
  from DBL_INT_ADD_nat [OF this, of "512 * ?k"]
  have "(bitlen0 ?s, bitlen1 ?s) = (of_nat (8 * length m), of_nat (8 * length m div 2 ^ 32))"
    unfolding sha256_add_bits_simps sha256_pad_simps bits n by simp
  then have bits': "bitlen0 ?s = of_nat (8 * length m)" "bitlen1 ?s = of_nat (8 * length m div 2 ^ 32)"
    by blast+
  have lenb: "length (md_len_be (8 * length m)) = 8" by (simp add: md_len_be_def)
  note pad = sha256_pad_compress [OF rep, of md_len_be, OF lenb]
  let ?d = "write_at 56 (md_len_be (8 * length m)) (sha256_data (sha256_pad s))"
  let ?t = "sha256_transform (?s\<lparr>sha256_data := ?d\<rparr>) ?d"
  have "snd (sha256_final s hash) = fold (sha256_store (sha256_state ?t)) [0..<4] hash"
    unfolding sha256_final_def Let_def md_len_be_def bits' by (simp add: bits' sha256_length_stores pad)
  also have "\<dots> = concat (map be_bytes32 (regs_list (sha256_hash_of ?t)))"
    by (simp add: sha256_store_all [OF hash] flip: sha256_state_hash)
  also have "sha256_hash_of ?t = md_blocks sha256_compress sha256_iv (md_pad md_len_be m)"
    using pad lenb by (simp add: sha256_transform_compress)
  finally show ?thesis by (simp add: sha256_spec_def md_hash_def)
qed

text \<open>
  \<^verbatim>\<open>sha256_update\<close> and \<^verbatim>\<open>sha256_final\<close> always return; the message may have any
  length, its bit length being taken modulo \<open>2 ^ 64\<close> as the standard's field is.
\<close>

interpretation sha256: stream_hash
  "\<lambda>s. length (sha256_data s) = 64" sha256_init "\<lambda>s xs. Some (sha256_update s xs)"
  "\<lambda>s. Some (snd (sha256_final s (replicate 32 0)))"
  sha256_rep "\<lambda>m xs. True" "\<lambda>m. True" sha256_spec
proof unfold_locales
  fix s :: sha256
  assume "length (sha256_data s) = 64"
  then show "sha256_rep (sha256_init s) []"
    by (simp add: sha256_rep_def sha256_init_def sha256_hash_of_def sha256_iv_def)
qed (simp_all add: sha256_update_rep sha256_final_digest)

section \<open>Correctness of SHA-256\<close>

text \<open>
  The round constants and the initial state of \<^verbatim>\<open>sha256.c\<close> are the ones the standard
  defines: the first 32 fractional bits of the cube roots of the first 64 primes, and of the
  square roots of the first eight.
\<close>

theorem sha256_constants_correct:
  "list_all2 cube_root_bits primes64 sha256_k \<and>
   list_all2 square_root_bits (take 8 primes64) (sha256_state (sha256_init s))"
  using sha256_k_roots sha256_iv_roots by (simp add: sha256_init_def sha256_iv_def)

text \<open>
  C21: A message fed to \<^verbatim>\<open>sha256_update\<close> in pieces of any sizes, then \<^verbatim>\<open>sha256_final\<close>,
  gives the SHA-256 digest of the whole message, whatever the context and the output buffer
  held before.
\<close>

theorem sha256_pieces_digest:
  assumes "length (sha256_data s) = 64" and "length hash = 32"
  shows "snd (sha256_final (foldl sha256_update (sha256_init s) xss) hash) = sha256_spec (concat xss)"
proof -
  obtain s' where "update_all (\<lambda>s xs. Some (sha256_update s xs)) (sha256_init s) xss = Some s'"
    and "sha256_rep s' (concat xss)"
    using sha256.rep_update_all [OF sha256.rep_init [OF assms(1)], of xss] by auto
  with assms(2) show ?thesis by (simp add: update_all_Some sha256_final_digest)
qed

theorem sha256_pieces_digest_witness:
  "snd (sha256_final (foldl sha256_update
      (sha256_init \<lparr>sha256_data = replicate 64 7, sha256_len = 3, bitlen0 = 1, bitlen1 = 2,
                    sha256_state = []\<rparr>) [[0x61], [0x62, 0x63]]) (replicate 32 5)) =
   sha256_spec [0x61, 0x62, 0x63]"
  using sha256_pieces_digest [of "\<lparr>sha256_data = replicate 64 7, sha256_len = 3, bitlen0 = 1,
      bitlen1 = 2, sha256_state = []\<rparr>" "replicate 32 5" "[[0x61], [0x62, 0x63]]"]
  by simp

end
