(* ===== verification/Md5.thy ===== *)
theory Md5
  imports Merkle
begin

text \<open>
  Model of \<^verbatim>\<open>crypto/md5.c\<close>: the compression function with its sixty-four unrolled steps,
  the streaming interface, \<^verbatim>\<open>md5_hash\<close> and \<^verbatim>\<open>md5_hmac\<close>. On the little-endian build
  \<^verbatim>\<open>byterev\<close> is empty and the buffer is read as sixteen little-endian words. The reference
  is the algorithm of RFC 1321.
\<close>

section \<open>The compression function\<close>

record md5 =
  md5_buf :: "u32 list"
  bits0 :: u32
  bits1 :: u32
  md5_in :: "byte list"

datatype md5_reg = RA | RB | RC | RD

datatype md5_fname = F1 | F2 | F3 | F4

type_synonym md5_row = "md5_fname \<times> md5_reg \<times> md5_reg \<times> md5_reg \<times> md5_reg \<times> nat \<times> u32 \<times> nat"

definition md5_F1 :: "u32 \<Rightarrow> u32 \<Rightarrow> u32 \<Rightarrow> u32" where
  "md5_F1 x y z = z XOR (x AND (y XOR z))"

fun md5_f :: "md5_fname \<Rightarrow> u32 \<Rightarrow> u32 \<Rightarrow> u32 \<Rightarrow> u32" where
  "md5_f F1 x y z = md5_F1 x y z"
| "md5_f F2 x y z = md5_F1 z x y"
| "md5_f F3 x y z = x XOR y XOR z"
| "md5_f F4 x y z = y XOR (x OR NOT z)"

text \<open>
  \<^verbatim>\<open>MD5STEP(f, w, x, y, z, in[k] + c, s)\<close>:
  \<^verbatim>\<open>w += f(x, y, z) + data, w = w << s | w >> (32 - s), w += x\<close>.
\<close>

fun MD5STEP :: "u32 list \<Rightarrow> md5_row \<Rightarrow> (md5_reg \<Rightarrow> u32) \<Rightarrow> (md5_reg \<Rightarrow> u32)" where
  "MD5STEP inp (f, w, x, y, z, k, c, s) r =
     (let r = r(w := r w + (md5_f f (r x) (r y) (r z) + (inp ! k + c)));
          r = r(w := push_bit s (r w) OR drop_bit (32 - s) (r w));
          r = r(w := r w + r x)
      in r)"

definition md5_steps :: "md5_row list" where
  "md5_steps =
    [(F1, RA, RB, RC, RD, 0, 0xd76aa478, 7),
     (F1, RD, RA, RB, RC, 1, 0xe8c7b756, 12),
     (F1, RC, RD, RA, RB, 2, 0x242070db, 17),
     (F1, RB, RC, RD, RA, 3, 0xc1bdceee, 22),
     (F1, RA, RB, RC, RD, 4, 0xf57c0faf, 7),
     (F1, RD, RA, RB, RC, 5, 0x4787c62a, 12),
     (F1, RC, RD, RA, RB, 6, 0xa8304613, 17),
     (F1, RB, RC, RD, RA, 7, 0xfd469501, 22),
     (F1, RA, RB, RC, RD, 8, 0x698098d8, 7),
     (F1, RD, RA, RB, RC, 9, 0x8b44f7af, 12),
     (F1, RC, RD, RA, RB, 10, 0xffff5bb1, 17),
     (F1, RB, RC, RD, RA, 11, 0x895cd7be, 22),
     (F1, RA, RB, RC, RD, 12, 0x6b901122, 7),
     (F1, RD, RA, RB, RC, 13, 0xfd987193, 12),
     (F1, RC, RD, RA, RB, 14, 0xa679438e, 17),
     (F1, RB, RC, RD, RA, 15, 0x49b40821, 22),
     (F2, RA, RB, RC, RD, 1, 0xf61e2562, 5),
     (F2, RD, RA, RB, RC, 6, 0xc040b340, 9),
     (F2, RC, RD, RA, RB, 11, 0x265e5a51, 14),
     (F2, RB, RC, RD, RA, 0, 0xe9b6c7aa, 20),
     (F2, RA, RB, RC, RD, 5, 0xd62f105d, 5),
     (F2, RD, RA, RB, RC, 10, 0x02441453, 9),
     (F2, RC, RD, RA, RB, 15, 0xd8a1e681, 14),
     (F2, RB, RC, RD, RA, 4, 0xe7d3fbc8, 20),
     (F2, RA, RB, RC, RD, 9, 0x21e1cde6, 5),
     (F2, RD, RA, RB, RC, 14, 0xc33707d6, 9),
     (F2, RC, RD, RA, RB, 3, 0xf4d50d87, 14),
     (F2, RB, RC, RD, RA, 8, 0x455a14ed, 20),
     (F2, RA, RB, RC, RD, 13, 0xa9e3e905, 5),
     (F2, RD, RA, RB, RC, 2, 0xfcefa3f8, 9),
     (F2, RC, RD, RA, RB, 7, 0x676f02d9, 14),
     (F2, RB, RC, RD, RA, 12, 0x8d2a4c8a, 20),
     (F3, RA, RB, RC, RD, 5, 0xfffa3942, 4),
     (F3, RD, RA, RB, RC, 8, 0x8771f681, 11),
     (F3, RC, RD, RA, RB, 11, 0x6d9d6122, 16),
     (F3, RB, RC, RD, RA, 14, 0xfde5380c, 23),
     (F3, RA, RB, RC, RD, 1, 0xa4beea44, 4),
     (F3, RD, RA, RB, RC, 4, 0x4bdecfa9, 11),
     (F3, RC, RD, RA, RB, 7, 0xf6bb4b60, 16),
     (F3, RB, RC, RD, RA, 10, 0xbebfbc70, 23),
     (F3, RA, RB, RC, RD, 13, 0x289b7ec6, 4),
     (F3, RD, RA, RB, RC, 0, 0xeaa127fa, 11),
     (F3, RC, RD, RA, RB, 3, 0xd4ef3085, 16),
     (F3, RB, RC, RD, RA, 6, 0x04881d05, 23),
     (F3, RA, RB, RC, RD, 9, 0xd9d4d039, 4),
     (F3, RD, RA, RB, RC, 12, 0xe6db99e5, 11),
     (F3, RC, RD, RA, RB, 15, 0x1fa27cf8, 16),
     (F3, RB, RC, RD, RA, 2, 0xc4ac5665, 23),
     (F4, RA, RB, RC, RD, 0, 0xf4292244, 6),
     (F4, RD, RA, RB, RC, 7, 0x432aff97, 10),
     (F4, RC, RD, RA, RB, 14, 0xab9423a7, 15),
     (F4, RB, RC, RD, RA, 5, 0xfc93a039, 21),
     (F4, RA, RB, RC, RD, 12, 0x655b59c3, 6),
     (F4, RD, RA, RB, RC, 3, 0x8f0ccc92, 10),
     (F4, RC, RD, RA, RB, 10, 0xffeff47d, 15),
     (F4, RB, RC, RD, RA, 1, 0x85845dd1, 21),
     (F4, RA, RB, RC, RD, 8, 0x6fa87e4f, 6),
     (F4, RD, RA, RB, RC, 15, 0xfe2ce6e0, 10),
     (F4, RC, RD, RA, RB, 6, 0xa3014314, 15),
     (F4, RB, RC, RD, RA, 13, 0x4e0811a1, 21),
     (F4, RA, RB, RC, RD, 4, 0xf7537e82, 6),
     (F4, RD, RA, RB, RC, 11, 0xbd3af235, 10),
     (F4, RC, RD, RA, RB, 2, 0x2ad7d2bb, 15),
     (F4, RB, RC, RD, RA, 9, 0xeb86d391, 21)]"

definition md5_transform :: "u32 list \<Rightarrow> u32 list \<Rightarrow> u32 list" where
  "md5_transform buf inp =
     (let r0 = (\<lambda>v. case v of RA \<Rightarrow> buf ! 0 | RB \<Rightarrow> buf ! 1 | RC \<Rightarrow> buf ! 2 | RD \<Rightarrow> buf ! 3);
          r = fold (MD5STEP inp) md5_steps r0
      in [buf ! 0 + r RA, buf ! 1 + r RB, buf ! 2 + r RC, buf ! 3 + r RD])"

section \<open>The streaming interface\<close>

definition MD5_SIZE :: nat where
  "MD5_SIZE = 16"

definition MD5_BLOCK_SIZE :: nat where
  "MD5_BLOCK_SIZE = 64"

definition md5_init :: "md5 \<Rightarrow> md5" where
  "md5_init s = s\<lparr>md5_buf := [0x67452301, 0xefcdab89, 0x98badcfe, 0x10325476],
     bits0 := 0, bits1 := 0\<rparr>"

text \<open>The cast \<^verbatim>\<open>(u32 *) md5->in\<close> on a little-endian machine.\<close>

definition md5_words :: "byte list \<Rightarrow> u32 list" where
  "md5_words d = map (\<lambda>i. get_u32_le (drop (4 * i) d)) [0..<16]"

definition md5_run :: "md5 \<Rightarrow> md5" where
  "md5_run s = s\<lparr>md5_buf := md5_transform (md5_buf s) (md5_words (md5_in s))\<rparr>"

definition md5_count_bits :: "md5 \<Rightarrow> nat \<Rightarrow> md5" where
  "md5_count_bits s len =
     (let t = bits0 s;
          s = s\<lparr>bits0 := t + push_bit 3 (of_nat len)\<rparr>;
          s = (if bits0 s < t then s\<lparr>bits1 := bits1 s + 1\<rparr> else s)
      in s\<lparr>bits1 := bits1 s + drop_bit 29 (of_nat len)\<rparr>)"

text \<open>\<^verbatim>\<open>while (len >= MD5_BLOCK_SIZE)\<close>, and the copy of the rest.\<close>

function md5_blocks :: "md5 \<Rightarrow> byte list \<Rightarrow> md5" where
  "md5_blocks s buf =
     (if length buf < MD5_BLOCK_SIZE then s\<lparr>md5_in := write_at 0 buf (md5_in s)\<rparr>
      else md5_blocks (md5_run (s\<lparr>md5_in := write_at 0 (take MD5_BLOCK_SIZE buf) (md5_in s)\<rparr>))
             (drop MD5_BLOCK_SIZE buf))"
  by pat_completeness auto
termination
  by (relation "measure (\<lambda>(s, buf). length buf)") (auto simp: MD5_BLOCK_SIZE_def)

declare md5_blocks.simps [simp del]

text \<open>The fill of the buffer, \<^verbatim>\<open>(bits[0] >> 3) & 0x3f\<close>.\<close>

definition md5_fill :: "md5 \<Rightarrow> nat" where
  "md5_fill s = unat (drop_bit 3 (bits0 s) AND 0x3f)"

definition md5_update :: "md5 \<Rightarrow> byte list \<Rightarrow> md5" where
  "md5_update s buf =
     (let t = md5_fill s; s = md5_count_bits s (length buf) in
      if t \<noteq> 0
      then (let n = MD5_BLOCK_SIZE - t in
            if length buf < n then s\<lparr>md5_in := write_at t buf (md5_in s)\<rparr>
            else md5_blocks (md5_run (s\<lparr>md5_in := write_at t (take n buf) (md5_in s)\<rparr>)) (drop n buf))
      else md5_blocks s buf)"

text \<open>
  \<^verbatim>\<open>md5_final\<close> returns a pointer to \<^verbatim>\<open>md5->buf\<close>; \<open>md5_bytes\<close> is what it points
  to, the four words as bytes.
\<close>

definition md5_bytes :: "md5 \<Rightarrow> byte list" where
  "md5_bytes s = concat (map le_bytes32 (md5_buf s))"

definition md5_final :: "md5 \<Rightarrow> md5" where
  "md5_final s =
     (let count = md5_fill s;
          s = s\<lparr>md5_in := (md5_in s)[count := 0x80]\<rparr>;
          p = count + 1;
          count = MD5_BLOCK_SIZE - 1 - count;
          s = (if count < 8
               then (let s = md5_run (s\<lparr>md5_in := write_at p (replicate count 0) (md5_in s)\<rparr>)
                     in s\<lparr>md5_in := write_at 0 (replicate 56 0) (md5_in s)\<rparr>)
               else s\<lparr>md5_in := write_at p (replicate (count - 8) 0) (md5_in s)\<rparr>);
          s = s\<lparr>md5_in := write_at 56 (le_bytes32 (bits0 s) @ le_bytes32 (bits1 s)) (md5_in s)\<rparr>
      in md5_run s)"

text \<open>The local \<^verbatim>\<open>struct md5\<close> of the next two functions is uninitialised: a parameter.\<close>

definition md5_hash :: "md5 \<Rightarrow> byte list \<Rightarrow> byte list" where
  "md5_hash local buf = take MD5_SIZE (md5_bytes (md5_final (md5_update (md5_init local) buf)))"

text \<open>
  \<^verbatim>\<open>md5_hmac\<close>. For a key longer than a block, \<^verbatim>\<open>memcpy(md5_final(&ctx), tk, MD5_SIZE)\<close>
  copies the uninitialised \<^verbatim>\<open>tk\<close> over the digest, and \<^verbatim>\<open>tk\<close> becomes the key. The
  pointer \<^verbatim>\<open>digest\<close> is \<^verbatim>\<open>md5.buf\<close>: \<^verbatim>\<open>md5_init\<close> and \<^verbatim>\<open>md5_update\<close>
  overwrite what it points to, and the last \<^verbatim>\<open>md5_update\<close> reads it (its bit count is a
  multiple of 512, so it copies the sixteen bytes before it writes to \<^verbatim>\<open>md5.buf\<close>). The
  value returned is what the pointer points to at the return.
\<close>

definition md5_hmac :: "md5 \<Rightarrow> byte list \<Rightarrow> byte list \<Rightarrow> byte list \<Rightarrow> byte list" where
  "md5_hmac local tk buf key =
     (let key = (if length key > MD5_BLOCK_SIZE then tk else key);
          pad = key @ replicate (MD5_BLOCK_SIZE - length key) 0;
          ipad = map (\<lambda>b. b XOR 0x36) pad;
          opad = map (\<lambda>b. b XOR 0x5c) pad;
          md5 = md5_init local;
          md5 = md5_update md5 ipad;
          md5 = md5_update md5 buf;
          md5 = md5_final md5;
          md5 = md5_init md5;
          md5 = md5_update md5 opad;
          md5 = md5_update md5 (md5_bytes md5)
      in md5_bytes (md5_final md5))"

section \<open>The reference: RFC 1321\<close>

type_synonym md5_chain = "u32 \<times> u32 \<times> u32 \<times> u32"

definition rfc_T :: "u32 list" where
  "rfc_T =
    [0xd76aa478, 0xe8c7b756, 0x242070db, 0xc1bdceee, 0xf57c0faf, 0x4787c62a, 0xa8304613, 0xfd469501,
     0x698098d8, 0x8b44f7af, 0xffff5bb1, 0x895cd7be, 0x6b901122, 0xfd987193, 0xa679438e, 0x49b40821,
     0xf61e2562, 0xc040b340, 0x265e5a51, 0xe9b6c7aa, 0xd62f105d, 0x02441453, 0xd8a1e681, 0xe7d3fbc8,
     0x21e1cde6, 0xc33707d6, 0xf4d50d87, 0x455a14ed, 0xa9e3e905, 0xfcefa3f8, 0x676f02d9, 0x8d2a4c8a,
     0xfffa3942, 0x8771f681, 0x6d9d6122, 0xfde5380c, 0xa4beea44, 0x4bdecfa9, 0xf6bb4b60, 0xbebfbc70,
     0x289b7ec6, 0xeaa127fa, 0xd4ef3085, 0x04881d05, 0xd9d4d039, 0xe6db99e5, 0x1fa27cf8, 0xc4ac5665,
     0xf4292244, 0x432aff97, 0xab9423a7, 0xfc93a039, 0x655b59c3, 0x8f0ccc92, 0xffeff47d, 0x85845dd1,
     0x6fa87e4f, 0xfe2ce6e0, 0xa3014314, 0x4e0811a1, 0xf7537e82, 0xbd3af235, 0x2ad7d2bb, 0xeb86d391]"

definition rfc_f :: "nat \<Rightarrow> u32 \<Rightarrow> u32 \<Rightarrow> u32 \<Rightarrow> u32" where
  "rfc_f t x y z =
     (if t < 16 then (x AND y) OR (NOT x AND z)
      else if t < 32 then (x AND z) OR (y AND NOT z)
      else if t < 48 then x XOR y XOR z
      else y XOR (x OR NOT z))"

definition rfc_k :: "nat \<Rightarrow> nat" where
  "rfc_k t =
     (if t < 16 then t else if t < 32 then (5 * t + 1) mod 16
      else if t < 48 then (3 * t + 5) mod 16 else (7 * t) mod 16)"

definition rfc_s :: "nat \<Rightarrow> nat" where
  "rfc_s t = [[7, 12, 17, 22], [5, 9, 14, 20], [4, 11, 16, 23], [6, 10, 15, 21]] ! (t div 16) ! (t mod 4)"

fun rfc_step :: "u32 list \<Rightarrow> nat \<Rightarrow> md5_chain \<Rightarrow> md5_chain" where
  "rfc_step x t (a, b, c, d) =
     (d, b + word_rotl (rfc_s t) (a + rfc_f t b c d + x ! rfc_k t + rfc_T ! t), b, c)"

definition md5_compress :: "md5_chain \<Rightarrow> byte list \<Rightarrow> md5_chain" where
  "md5_compress h data =
     (let x = map (\<lambda>i. get_u32_le_bytes (drop (4 * i) data)) [0..<16] in
      case (h, fold (rfc_step x) [0..<64] h) of ((a, b, c, d), (a', b', c', d')) \<Rightarrow>
        (a + a', b + b', c + c', d + d'))"

definition md5_iv :: md5_chain where
  "md5_iv = (0x67452301, 0xefcdab89, 0x98badcfe, 0x10325476)"

fun md5_out :: "md5_chain \<Rightarrow> byte list" where
  "md5_out (a, b, c, d) = le_bytes32 a @ le_bytes32 b @ le_bytes32 c @ le_bytes32 d"

definition md5_spec :: "byte list \<Rightarrow> byte list" where
  "md5_spec = md_hash md5_compress md5_iv md5_out md_len_le"

section \<open>The unrolled steps are the reference\<close>

definition md5_roles :: "nat \<Rightarrow> md5_reg \<times> md5_reg \<times> md5_reg \<times> md5_reg" where
  "md5_roles t =
     (if t mod 4 = 0 then (RA, RB, RC, RD) else if t mod 4 = 1 then (RD, RA, RB, RC)
      else if t mod 4 = 2 then (RC, RD, RA, RB) else (RB, RC, RD, RA))"

definition md5_row :: "nat \<Rightarrow> md5_row" where
  "md5_row t =
     (case md5_roles t of (w, x, y, z) \<Rightarrow>
      (if t < 16 then F1 else if t < 32 then F2 else if t < 48 then F3 else F4,
       w, x, y, z, rfc_k t, rfc_T ! t, rfc_s t))"

lemma md5_steps_row: "md5_steps = map md5_row [0..<64]"
  by (simp add: md5_steps_def md5_row_def md5_roles_def rfc_k_def rfc_T_def rfc_s_def upt_rec)

lemma md5_row_f:
  "md5_f (if t < 16 then F1 else if t < 32 then F2 else if t < 48 then F3 else F4) x y z = rfc_f t x y z"
  by (rule bit_word_eqI) (auto simp: rfc_f_def md5_F1_def bit_simps)

lemma rol_word_rotl:
  fixes x :: u32
  assumes "0 < s" and "s < 32"
  shows "push_bit s x OR drop_bit (32 - s) x = word_rotl s x"
proof (rule bit_word_eqI)
  fix n assume n: "n < LENGTH(32)"
  have rot: "bit (word_rotl s x) n = bit x ((n + (32 - s)) mod 32)"
    using assms n by (simp add: bit_word_rotl_iff)
  show "bit (push_bit s x OR drop_bit (32 - s) x) n = bit (word_rotl s x) n"
  proof (cases "s \<le> n")
    case True
    then have "(n + (32 - s)) mod 32 = n - s" using assms n by (simp add: le_mod_geq)
    moreover have "\<not> bit x (32 - s + n)" using True assms by (auto dest: bit_imp_le_length)
    ultimately show ?thesis using True n unfolding rot by (simp add: bit_simps)
  next
    case False
    then have "(n + (32 - s)) mod 32 = 32 - s + n" using assms by simp
    then show ?thesis using False n unfolding rot by (simp add: bit_simps add.commute)
  qed
qed

lemma rfc_s_range: "t < 64 \<Longrightarrow> 0 < rfc_s t \<and> rfc_s t < 32"
proof -
  assume "t < 64"
  then have "t div 16 < 4" by auto
  then have "t div 16 \<in> {0, 1, 2, 3}" by auto
  moreover have "t mod 4 < 4" by simp
  then have "t mod 4 \<in> {0, 1, 2, 3}" by auto
  ultimately show ?thesis by (elim insertE emptyE) (simp_all add: rfc_s_def)
qed

definition md5_read :: "nat \<Rightarrow> (md5_reg \<Rightarrow> u32) \<Rightarrow> md5_chain" where
  "md5_read t r = (case md5_roles t of (a, b, c, d) \<Rightarrow> (r a, r b, r c, r d))"

lemma MD5STEP_rfc:
  assumes "t < 64"
  shows "md5_read (Suc t) (MD5STEP x (md5_row t) r) = rfc_step x t (md5_read t r)"
proof -
  obtain a b c d where roles: "md5_roles t = (a, b, c, d)" by (metis prod_cases4)
  have "b \<noteq> a" "c \<noteq> a" "d \<noteq> a" and "md5_roles (Suc t) = (d, a, b, c)"
    using roles by (auto simp: md5_roles_def mod_Suc split: if_splits)
  then show ?thesis
    using rfc_s_range [OF assms] roles
    by (simp add: md5_row_def md5_read_def md5_row_f rol_word_rotl Let_def ac_simps del: md5_f.simps)
qed

lemma md5_steps_rfc:
  "n \<le> 64 \<Longrightarrow> md5_read n (fold (MD5STEP x) (map md5_row [0..<n]) r) = fold (rfc_step x) [0..<n] (md5_read 0 r)"
  by (induction n) (simp_all add: MD5STEP_rfc)

definition md5_hash_of :: "md5 \<Rightarrow> md5_chain" where
  "md5_hash_of s = (md5_buf s ! 0, md5_buf s ! 1, md5_buf s ! 2, md5_buf s ! 3)"

lemma md5_words_bytes:
  "length d = 64 \<Longrightarrow> md5_words d = map (\<lambda>i. get_u32_le_bytes (drop (4 * i) d)) [0..<16]"
  by (auto simp: md5_words_def intro!: get_u32_le_eq_bytes)

lemma md5_run_compress:
  assumes "length (md5_in s) = 64"
  shows "md5_hash_of (md5_run s) = md5_compress (md5_hash_of s) (md5_in s)"
proof -
  let ?x = "map (\<lambda>i. get_u32_le_bytes (drop (4 * i) (md5_in s))) [0..<16]"
  let ?ini = "\<lambda>v. case v of RA \<Rightarrow> md5_buf s ! 0 | RB \<Rightarrow> md5_buf s ! 1 | RC \<Rightarrow> md5_buf s ! 2 | RD \<Rightarrow> md5_buf s ! 3"
  let ?r = "fold (MD5STEP ?x) md5_steps ?ini"
  have "(?r RA, ?r RB, ?r RC, ?r RD) = fold (rfc_step ?x) [0..<64] (md5_hash_of s)"
  proof -
    have "md5_read 64 r = (r RA, r RB, r RC, r RD)" for r by (simp add: md5_read_def md5_roles_def)
    moreover have "md5_read 0 ?ini = md5_hash_of s"
      by (simp add: md5_read_def md5_roles_def md5_hash_of_def)
    moreover have "md5_read 64 ?r = fold (rfc_step ?x) [0..<64] (md5_read 0 ?ini)"
      unfolding md5_steps_row by (rule md5_steps_rfc) simp
    ultimately show ?thesis by metis
  qed
  note eq = this [symmetric]
  show ?thesis
    unfolding md5_compress_def Let_def eq
    by (simp add: md5_run_def md5_hash_of_def md5_transform_def md5_words_bytes [OF assms] Let_def)
qed

section \<open>The streaming interface\<close>

definition bits_ok :: "md5 \<Rightarrow> nat \<Rightarrow> bool" where
  "bits_ok s n \<longleftrightarrow> bits0 s = of_nat n \<and> bits1 s = of_nat (n div 2 ^ 32)"

definition md5_rep :: "md5 \<Rightarrow> byte list \<Rightarrow> bool" where
  "md5_rep s m \<longleftrightarrow> length (md5_in s) = 64 \<and> length (md5_buf s) = 4 \<and> bits_ok s (8 * length m) \<and>
     md5_hash_of s = md_blocks md5_compress md5_iv m \<and>
     take (length m mod 64) (md5_in s) = drop (64 * (length m div 64)) m"

text \<open>The carry between the two words of the bit count, for any length of the new piece.\<close>

lemma md5_count_bits_ok:
  assumes ok: "bits_ok s n" and len: "len < 2 ^ 32"
  shows "bits_ok (md5_count_bits s len) (n + 8 * len)"
proof -
  let ?t = "of_nat n :: u32" and ?x = "push_bit 3 (of_nat len) :: u32"
  let ?M = "2 ^ 32 :: nat"
  have x: "?x = of_nat (8 * len)" by (simp add: push_bit_eq_mult mult.commute)
  have ut: "unat ?t = n mod ?M" by (simp add: unat_of_nat take_bit_eq_mod)
  have ux: "unat ?x = 8 * len mod ?M" unfolding x by (simp only: unat_of_nat take_bit_eq_mod) simp
  have sum: "unat (?t + ?x) = (unat ?t + unat ?x) mod ?M" by (simp add: unat_word_ariths)
  have lt: "unat ?t < ?M" "unat ?x < ?M" by simp_all
  have carry: "?t + ?x < ?t \<longleftrightarrow> ?M \<le> unat ?t + unat ?x"
  proof (cases "unat ?t + unat ?x < ?M")
    case False
    have "unat ?t + unat ?x - ?M < ?M" and less: "unat ?t + unat ?x - ?M < unat ?t"
      using False lt by linarith+
    with False have "(unat ?t + unat ?x) mod ?M = unat ?t + unat ?x - ?M"
      by (simp add: le_mod_geq)
    then show ?thesis using False less sum by (simp add: word_less_nat_alt)
  qed (use sum in \<open>simp add: word_less_nat_alt\<close>)
  have h: "drop_bit 29 (of_nat len :: u32) = of_nat (8 * len div ?M)"
    using len by (simp add: word_unat_eq_iff unat_drop_bit_nat unat_of_nat_small)
  have "(n + 8 * len) div ?M = n div ?M + 8 * len div ?M + (if ?M \<le> unat ?t + unat ?x then 1 else 0)"
  proof -
    have "(a + b) div ?M = (if ?M \<le> a + b then 1 else 0)" if "a < ?M" "b < ?M" for a b
      using that by (auto simp: le_div_geq)
    then show ?thesis unfolding ut ux using div_add1_eq [of n "8 * len" ?M] by simp
  qed
  then show ?thesis
    using ok unfolding bits_ok_def md5_count_bits_def Let_def
    by (simp add: carry [unfolded x] h x del: of_nat_mult)
qed

lemma md5_fill_eq:
  assumes "bits_ok s (8 * n)"
  shows "md5_fill s = n mod 64"
proof -
  have "md5_fill s = unat (drop_bit 3 (bits0 s)) mod 2 ^ 6"
    using word_and_mask_mod [of "drop_bit 3 (bits0 s)" 6] by (simp add: md5_fill_def)
  also have "unat (drop_bit 3 (bits0 s)) = 8 * n mod 2 ^ 32 div 2 ^ 3"
    using assms by (simp add: bits_ok_def unat_drop_bit_nat unat_of_nat take_bit_eq_mod flip: of_nat_mult)
  also have "8 * n mod 2 ^ 32 div 2 ^ 3 = n mod 2 ^ 29"
    using mult_mod_right [of 8 n "2 ^ 29"] by simp
  finally show ?thesis by (simp add: mod_mod_cancel)
qed

lemma md5_hash_of_simps [simp]:
  "md5_hash_of (s\<lparr>md5_in := d\<rparr>) = md5_hash_of s"
  "md5_hash_of (s\<lparr>bits0 := a\<rparr>) = md5_hash_of s"
  "md5_hash_of (s\<lparr>bits1 := a\<rparr>) = md5_hash_of s"
  by (simp_all add: md5_hash_of_def)

lemma md5_run_simps [simp]:
  "md5_in (md5_run s) = md5_in s" "bits0 (md5_run s) = bits0 s" "bits1 (md5_run s) = bits1 s"
  "length (md5_buf (md5_run s)) = 4"
  by (simp_all add: md5_run_def md5_transform_def Let_def)

lemma md5_count_bits_simps [simp]:
  "md5_in (md5_count_bits s n) = md5_in s" "md5_buf (md5_count_bits s n) = md5_buf s"
  "md5_hash_of (md5_count_bits s n) = md5_hash_of s"
  by (simp_all add: md5_count_bits_def md5_hash_of_def Let_def)

lemma md5_blocks_eq:
  assumes "length (md5_in s) = 64" and "length (md5_buf s) = 4"
  shows "md5_hash_of (md5_blocks s xs) = md_blocks md5_compress (md5_hash_of s) xs \<and>
    length (md5_in (md5_blocks s xs)) = 64 \<and> length (md5_buf (md5_blocks s xs)) = 4 \<and>
    take (length xs mod 64) (md5_in (md5_blocks s xs)) = drop (64 * (length xs div 64)) xs \<and>
    bits0 (md5_blocks s xs) = bits0 s \<and> bits1 (md5_blocks s xs) = bits1 s"
  using assms
proof (induction s xs rule: md5_blocks.induct)
  case (1 s buf)
  show ?case
  proof (cases "length buf < 64")
    case True
    then show ?thesis
      using "1.prems" by (subst (1 2 3 4 5 6) md5_blocks.simps) (simp add: MD5_BLOCK_SIZE_def take_write_at_0)
  next
    case False
    let ?s = "md5_run (s\<lparr>md5_in := write_at 0 (take MD5_BLOCK_SIZE buf) (md5_in s)\<rparr>)"
    have step: "md5_blocks s buf = md5_blocks ?s (drop 64 buf)"
      using False by (subst md5_blocks.simps) (simp add: MD5_BLOCK_SIZE_def)
    have blk: "write_at 0 (take MD5_BLOCK_SIZE buf) (md5_in s) = take 64 buf"
      using False "1.prems" by (simp add: write_at_0_full MD5_BLOCK_SIZE_def)
    then have "md5_hash_of ?s = md5_compress (md5_hash_of s) (take 64 buf)"
      using False by (subst md5_run_compress) (simp_all add: min_absorb2)
    then show ?thesis
      using "1.IH" False "1.prems" blk unfolding step
      by (simp add: MD5_BLOCK_SIZE_def md_blocks.simps [of _ _ buf] le_div_geq le_mod_geq min_absorb2
          add.commute)
  qed
qed

lemma md5_blocks_rep:
  assumes rep: "md5_rep s m" and 0: "length m mod 64 = 0" and s': "bits_ok s' (8 * length (m @ xs))"
    "md5_in s' = md5_in s" "md5_buf s' = md5_buf s"
  shows "md5_rep (md5_blocks s' xs) (m @ xs)"
proof -
  obtain k where m: "length m = 64 * k" using 0 by (auto simp: mod_eq_0_iff_dvd)
  have h: "md5_hash_of s' = md_blocks md5_compress md5_iv m" and len: "length (md5_in s') = 64" "length (md5_buf s') = 4"
    using rep s' by (simp_all add: md5_rep_def md5_hash_of_def)
  show ?thesis
    using md5_blocks_eq [OF len, of xs] s'(1) m md_blocks_append [OF m, of md5_compress md5_iv xs]
    by (simp add: md5_rep_def h bits_ok_def)
qed

lemma md5_update_rep:
  assumes rep: "md5_rep s m" and len: "length xs < 2 ^ 32"
  shows "md5_rep (md5_update s xs) (m @ xs)"
proof -
  let ?t = "length m mod 64" and ?k = "length m div 64" and ?s = "md5_count_bits s (length xs)"
  have s: "length (md5_in s) = 64" "length (md5_buf s) = 4" and ok: "bits_ok s (8 * length m)"
    and h: "md5_hash_of s = md_blocks md5_compress md5_iv m"
    and t: "take ?t (md5_in s) = drop (64 * ?k) m"
    using rep unfolding md5_rep_def by blast+
  have bits: "bits_ok ?s (8 * length (m @ xs))"
    using md5_count_bits_ok [OF ok len] by (simp add: add_mult_distrib2)
  note fill = md5_fill_eq [OF ok]
  show ?thesis
  proof (cases "?t = 0")
    case True
    then show ?thesis
      using md5_blocks_rep [OF rep True bits] by (simp add: md5_update_def fill Let_def)
  next
    case nz: False
    show ?thesis
    proof (cases "length xs < 64 - ?t")
      case True
      then have part: "length m mod 64 + length xs < 64" by simp
      have "take (?t + length xs) (write_at ?t xs (md5_in s)) = drop (64 * ?k) m @ xs"
        using s(1) by (subst take_write_at) (simp_all add: t)
      then show ?thesis
        using True nz s bits h md_length_incomplete [OF part]
          md_blocks_incomplete [OF part, of md5_compress]
        by (simp add: md5_update_def fill Let_def MD5_BLOCK_SIZE_def md5_rep_def bits_ok_def)
    next
      case False
      let ?a = "take (64 - ?t) xs" and ?b = "drop (64 - ?t) xs"
      let ?s1 = "md5_run (?s\<lparr>md5_in := write_at ?t ?a (md5_in s)\<rparr>)"
      have "length ?a = 64 - ?t" using False by simp
      then have full: "length m mod 64 + length ?a = 64" by simp
      have dm: "length (m @ ?a) div 64 = Suc ?k" "length (m @ ?a) mod 64 = 0"
        "drop (64 * Suc ?k) (m @ ?a) = []"
        using md_length_complete [OF full] by (simp_all only: drop_all order_refl) simp_all
      have buf: "write_at ?t ?a (md5_in s) = drop (64 * ?k) m @ ?a"
        using full s(1) unfolding write_at_def t by simp
      then have "md5_hash_of ?s1 = md_blocks md5_compress md5_iv (m @ ?a)"
        using full h md_blocks_complete [OF full, of md5_compress md5_iv]
        by (subst md5_run_compress) (simp_all add: minus_mult_div_eq_mod)
      then have "md5_rep (?s1\<lparr>bits0 := of_nat (8 * length (m @ ?a)),
          bits1 := of_nat (8 * length (m @ ?a) div 2 ^ 32)\<rparr>) (m @ ?a)"
        unfolding md5_rep_def dm using s full by (simp add: bits_ok_def)
      from md5_blocks_rep [OF this dm(2), of ?s1 ?b] have "md5_rep (md5_blocks ?s1 ?b) ((m @ ?a) @ ?b)"
        using bits by (simp add: bits_ok_def)
      then show ?thesis
        using nz False by (simp add: md5_update_def fill Let_def MD5_BLOCK_SIZE_def)
    qed
  qed
qed

lemma md5_bytes_out: "length (md5_buf s) = 4 \<Longrightarrow> md5_bytes s = md5_out (md5_hash_of s)"
  by (auto simp: md5_bytes_def md5_hash_of_def numeral_eq_Suc length_Suc_conv)

lemma md5_final_state:
  assumes rep: "md5_rep s m"
  shows "md5_hash_of (md5_final s) = md_blocks md5_compress md5_iv (md_pad md_len_le m) \<and>
    length (md5_buf (md5_final s)) = 4 \<and> length (md5_in (md5_final s)) = 64"
proof -
  let ?i = "length m mod 64" and ?k = "length m div 64" and ?n = "8 * length m"
  let ?full = "take (64 * ?k) m" and ?tail = "drop (64 * ?k) m"
  have s: "length (md5_in s) = 64" "length (md5_buf s) = 4" and ok: "bits_ok s ?n"
    and h: "md5_hash_of s = md_blocks md5_compress md5_iv m"
    and t: "take ?i (md5_in s) = ?tail"
    using rep unfolding md5_rep_def by blast+
  have i: "?i < 64" by simp
  have lenb: "length (md_len_le ?n) = 8" by (simp add: md_len_le_def)
  have m: "m = ?full @ ?tail" and full: "length ?full = 64 * ?k" by (simp_all add: min_absorb2)
  have tail: "length ?tail = ?i" by (simp add: minus_mult_div_eq_mod)
  then have tail64: "length ?tail < 64" by simp
  note pad = md_hash_tail [where lenb = md_len_le and f = md5_compress and iv = md5_iv,
      OF m full tail64 lenb, unfolded md_blocks_take tail]
  have len: "le_bytes32 (bits0 s) @ le_bytes32 (bits1 s) = md_len_le ?n"
    using ok by (simp add: bits_ok_def md_len_le_def)
  have one: "write_at (Suc ?i) xs ((md5_in s)[?i := 0x80]) = write_at ?i (0x80 # xs) (md5_in s)" for xs
    using s(1) by (simp add: write_at_Cons)
  show ?thesis
  proof (cases "?i < 56")
    case True
    let ?d = "?tail @ 0x80 # replicate (55 - ?i) 0 @ md_len_le ?n"
    have "md5_final s = md5_run (s\<lparr>md5_in := ?d\<rparr>)"
      using md_pad_short_buf [OF t s(1) True lenb] True
      by (simp add: md5_final_def md5_fill_eq [OF ok] MD5_BLOCK_SIZE_def Let_def one len)
    moreover have "length ?d = 64" using True lenb tail by simp
    ultimately show ?thesis using pad(1) [OF True] lenb tail True by (simp add: md5_run_compress h)
  next
    case False
    let ?b = "?tail @ 0x80 # replicate (63 - ?i) 0" and ?z = "replicate 56 0 @ md_len_le ?n"
    have b: "length ?b = 64" using tail i by simp
    have w: "write_at 56 (md_len_le ?n) (write_at 0 (replicate 56 0) ?b) = ?z"
      by (rule md_pad_second_buf [OF b lenb])
    have "md5_final s = md5_run ((md5_run (s\<lparr>md5_in := ?b\<rparr>))\<lparr>md5_in := ?z\<rparr>)"
      using md_pad_long_buf [OF t s(1) i] False i w
      by (simp add: md5_final_def md5_fill_eq [OF ok] MD5_BLOCK_SIZE_def Let_def one len)
    then show ?thesis
      using pad(2) [OF False] b lenb by (simp add: md5_run_compress h)
  qed
qed

lemma md5_final_digest: "md5_rep s m \<Longrightarrow> md5_bytes (md5_final s) = md5_spec m"
  using md5_final_state [of s m] by (simp add: md5_bytes_out md5_spec_def md_hash_def)

interpretation md5: stream_hash
  "\<lambda>s. length (md5_in s) = 64" md5_init "\<lambda>s xs. Some (md5_update s xs)"
  "\<lambda>s. Some (md5_bytes (md5_final s))"
  md5_rep "\<lambda>m xs. length xs < 2 ^ 32" "\<lambda>m. True" md5_spec
proof unfold_locales
  fix s :: md5
  assume "length (md5_in s) = 64"
  then show "md5_rep (md5_init s) []"
    by (simp add: md5_rep_def md5_init_def md5_hash_of_def md5_iv_def bits_ok_def)
qed (simp_all add: md5_update_rep md5_final_digest)

section \<open>Correctness of MD5\<close>

text \<open>
  The sixty-four unrolled steps of \<^verbatim>\<open>md5_transform\<close>, each with its own assignment of
  the four registers, message word, constant and rotation, compute the compression function of
  RFC 1321 on the block in the input buffer.
\<close>

theorem md5_transform_correct:
  assumes "length buf = 4" and "length d = 64"
  shows "md5_out (md5_compress (buf ! 0, buf ! 1, buf ! 2, buf ! 3) d) =
    concat (map le_bytes32 (md5_transform buf (md5_words d)))"
  using md5_run_compress [of "\<lparr>md5_buf = buf, bits0 = 0, bits1 = 0, md5_in = d\<rparr>"] assms
    md5_bytes_out [of "md5_run \<lparr>md5_buf = buf, bits0 = 0, bits1 = 0, md5_in = d\<rparr>"]
  by (simp add: md5_hash_of_def md5_bytes_def) (simp add: md5_run_def)

theorem md5_transform_correct_witness:
  "md5_out (md5_compress (1, 2, 3, 4) (replicate 64 5)) =
    concat (map le_bytes32 (md5_transform [1, 2, 3, 4] (md5_words (replicate 64 5))))"
  using md5_transform_correct [of "[1, 2, 3, 4]" "replicate 64 5"] by simp

text \<open>
  C22: A message fed to \<^verbatim>\<open>md5_update\<close> in pieces of any sizes an \<^verbatim>\<open>unsigned int\<close> can
  express gives the MD5 digest of the whole message.
\<close>

theorem md5_pieces_digest:
  assumes "length (md5_in s) = 64" and "list_all (\<lambda>xs. length xs < 2 ^ 32) xss"
  shows "md5_bytes (md5_final (foldl md5_update (md5_init s) xss)) = md5_spec (concat xss)"
proof -
  have acc: "accepted (\<lambda>m xs. length xs < 2 ^ 32) m xss" for m
    using assms(2) by (induction xss arbitrary: m) simp_all
  from md5.pieces_digest [OF assms(1) acc] show ?thesis by (simp add: update_all_Some)
qed

definition md5_blank :: md5 where
  "md5_blank = \<lparr>md5_buf = [], bits0 = 9, bits1 = 9, md5_in = replicate 64 9\<rparr>"

theorem md5_pieces_digest_witness:
  "md5_bytes (md5_final (foldl md5_update (md5_init md5_blank) [[0x61], replicate 70 0x62])) =
   md5_spec (0x61 # replicate 70 0x62)"
  using md5_pieces_digest [of md5_blank "[[0x61], replicate 70 0x62]"]
  by (simp add: md5_blank_def)

text \<open>
  What \<^verbatim>\<open>md5_hmac\<close> returns, for a key of at most one block. The message does not
  occur in it: the inner digest has been overwritten by the time the outer hash reads it, and
  the outer hash reads its own chaining value instead.
\<close>

theorem md5_hmac_ignores_message:
  assumes "length (md5_in local) = 64" and "length buf < 2 ^ 32" and "length key \<le> 64"
  defines "opad \<equiv> map (\<lambda>b. b XOR 0x5c) (key @ replicate (64 - length key) 0)"
  shows "md5_hmac local tk buf key = md5_spec (opad @ md5_out (md5_compress md5_iv opad))"
proof -
  let ?ipad = "map (\<lambda>b. b XOR 0x36) (key @ replicate (64 - length key) 0)"
  have len: "length ?ipad = 64" "length opad = 64" using assms(3) by (simp_all add: opad_def)
  let ?s = "md5_init (md5_final (md5_update (md5_update (md5_init local) ?ipad) buf))"
  have "md5_rep (md5_update (md5_update (md5_init local) ?ipad) buf) (([] @ ?ipad) @ buf)"
    using len assms(2) by (intro md5_update_rep md5.rep_init assms(1)) simp_all
  then have "md5_rep ?s []" by (intro md5.rep_init) (simp add: md5_final_state)
  then have rep: "md5_rep (md5_update ?s opad) ([] @ opad)" by (rule md5_update_rep) (simp add: len)
  then have "md5_hash_of (md5_update ?s opad) = md5_compress md5_iv opad"
    using len by (simp add: md5_rep_def md_blocks_block)
  then have bytes: "md5_bytes (md5_update ?s opad) = md5_out (md5_compress md5_iv opad)"
    using rep by (simp add: md5_rep_def md5_bytes_out)
  have "length (md5_out h) < 2 ^ 32" for h by (cases h) simp
  then have "md5_rep (md5_update (md5_update ?s opad) (md5_out (md5_compress md5_iv opad)))
      (([] @ opad) @ md5_out (md5_compress md5_iv opad))"
    by (intro md5_update_rep rep)
  from md5_final_digest [OF this] show ?thesis
    using assms(3) bytes by (simp add: md5_hmac_def Let_def MD5_BLOCK_SIZE_def opad_def)
qed

theorem md5_hmac_ignores_message_witness:
  "md5_hmac md5_blank [] [1, 2, 3] [0x6b] = md5_hmac md5_blank [] [7] [0x6b]"
  using md5_hmac_ignores_message [of md5_blank "[1, 2, 3]" "[0x6b]" "[]"]
    md5_hmac_ignores_message [of md5_blank "[7]" "[0x6b]" "[]"]
  by (simp add: md5_blank_def)

end
