(* ===== verification/Mem_List.thy ===== *)
theory Mem_List
  imports Prelude
begin

text \<open>
  Model of \<^verbatim>\<open>mem/list.h\<close> and \<^verbatim>\<open>mem/list.c\<close>: the circular doubly linked lists
  \<^verbatim>\<open>struct list\<close> and \<^verbatim>\<open>struct dlist\<close>, and the hash-bucket list
  \<^verbatim>\<open>struct hlist\<close> with its pointer-to-pointer back links. The lists are intrusive: an
  operation only updates link fields of nodes that are shared with other lists, so the heap
  is explicit, and the contract (locale \<open>intrusive_list\<close>) says what happens to the list
  an operation works on and that it leaves the links of all others alone. The client lemma,
  proved once and interpreted for the three kinds of lists, is that any sequence of
  operations on any number of lists refines the same operations on abstract sequences.
\<close>

section \<open>The contract\<close>

datatype ('l, 'n) list_cmd = Init 'l | Add 'n 'l | Remove 'n

text \<open>
  The abstract state maps the list heads that have been initialised to the sequences of
  their nodes; \<open>valid\<close> excludes null pointers where they matter. \<open>hcell\<close> and \<open>ncell\<close> name the memory cells of heads and nodes; all
  cells of all lists are distinct.
\<close>

definition list_cells :: "('l \<Rightarrow> 'c) \<Rightarrow> ('n \<Rightarrow> 'c) \<Rightarrow> 'l \<Rightarrow> 'n list \<Rightarrow> 'c set" where
  "list_cells hcell ncell l xs = insert (hcell l) (ncell ` set xs)"

lemma list_cells_Cons:
  "list_cells hcell ncell l (n # xs) = insert (ncell n) (list_cells hcell ncell l xs)"
  by (auto simp: list_cells_def)

definition owned :: "('l \<Rightarrow> 'c) \<Rightarrow> ('n \<Rightarrow> 'c) \<Rightarrow> ('l \<rightharpoonup> 'n list) \<Rightarrow> 'c set" where
  "owned hcell ncell A = \<Union> {list_cells hcell ncell l xs | l xs. A l = Some xs}"

inductive list_step ::
  "('n \<Rightarrow> bool) \<Rightarrow> ('l \<Rightarrow> 'c) \<Rightarrow> ('n \<Rightarrow> 'c) \<Rightarrow> ('l \<rightharpoonup> 'n list) \<Rightarrow> ('l, 'n) list_cmd \<Rightarrow> ('l \<rightharpoonup> 'n list) \<Rightarrow> bool"
  for valid hcell ncell
where
  step_Init: "hcell l \<notin> owned hcell ncell A \<Longrightarrow> list_step valid hcell ncell A (Init l) (A(l \<mapsto> []))"
| step_Add: "valid n \<Longrightarrow> A l = Some xs \<Longrightarrow> ncell n \<notin> owned hcell ncell A \<Longrightarrow>
    list_step valid hcell ncell A (Add n l) (A(l \<mapsto> n # xs))"
| step_Remove: "A l = Some (xs @ n # ys) \<Longrightarrow>
    list_step valid hcell ncell A (Remove n) (A(l \<mapsto> xs @ ys))"

inductive list_run ::
  "('n \<Rightarrow> bool) \<Rightarrow> ('l \<Rightarrow> 'c) \<Rightarrow> ('n \<Rightarrow> 'c) \<Rightarrow> ('l \<rightharpoonup> 'n list) \<Rightarrow> ('l, 'n) list_cmd list \<Rightarrow> ('l \<rightharpoonup> 'n list) \<Rightarrow> bool"
  for valid hcell ncell
where
  run_Nil: "list_run valid hcell ncell A [] A"
| run_Cons: "list_step valid hcell ncell A c A' \<Longrightarrow> list_run valid hcell ncell A' cs A'' \<Longrightarrow>
    list_run valid hcell ncell A (c # cs) A''"

fun list_exec ::
  "('l \<Rightarrow> 'h \<Rightarrow> 'h) \<Rightarrow> ('n \<Rightarrow> 'l \<Rightarrow> 'h \<Rightarrow> 'h) \<Rightarrow> ('n \<Rightarrow> 'h \<Rightarrow> 'h) \<Rightarrow> ('l, 'n) list_cmd \<Rightarrow> 'h \<Rightarrow> 'h"
where
  "list_exec init add remove (Init l) h = init l h"
| "list_exec init add remove (Add n l) h = add n l h"
| "list_exec init add remove (Remove n) h = remove n h"

locale intrusive_list =
  fixes init :: "'l \<Rightarrow> 'h \<Rightarrow> 'h"
    and add :: "'n \<Rightarrow> 'l \<Rightarrow> 'h \<Rightarrow> 'h"
    and remove :: "'n \<Rightarrow> 'h \<Rightarrow> 'h"
    and holds :: "'h \<Rightarrow> 'l \<Rightarrow> 'n list \<Rightarrow> bool"
    and same :: "'h \<Rightarrow> 'h \<Rightarrow> 'c \<Rightarrow> bool"
    and valid :: "'n \<Rightarrow> bool"
    and hcell :: "'l \<Rightarrow> 'c"
    and ncell :: "'n \<Rightarrow> 'c"
  assumes frame: "holds h l xs \<Longrightarrow> (\<And>c. c \<in> list_cells hcell ncell l xs \<Longrightarrow> same h h' c) \<Longrightarrow> holds h' l xs"
    and init_holds: "holds (init l h) l []"
    and init_same: "c \<noteq> hcell l \<Longrightarrow> same h (init l h) c"
    and add_holds: "holds h l xs \<Longrightarrow> valid n \<Longrightarrow> ncell n \<notin> list_cells hcell ncell l xs \<Longrightarrow>
      holds (add n l h) l (n # xs)"
    and add_same: "holds h l xs \<Longrightarrow> valid n \<Longrightarrow> ncell n \<notin> list_cells hcell ncell l xs \<Longrightarrow>
      c \<notin> list_cells hcell ncell l (n # xs) \<Longrightarrow> same h (add n l h) c"
    and remove_holds: "holds h l (xs @ n # ys) \<Longrightarrow> holds (remove n h) l (xs @ ys)"
    and remove_same: "holds h l (xs @ n # ys) \<Longrightarrow> c \<notin> list_cells hcell ncell l (xs @ n # ys) \<Longrightarrow>
      same h (remove n h) c"
begin

definition apart :: "('l \<rightharpoonup> 'n list) \<Rightarrow> bool" where
  "apart A \<longleftrightarrow> (\<forall>l m xs ys. A l = Some xs \<longrightarrow> A m = Some ys \<longrightarrow> l \<noteq> m \<longrightarrow>
     list_cells hcell ncell l xs \<inter> list_cells hcell ncell m ys = {})"

definition sim :: "'h \<Rightarrow> ('l \<rightharpoonup> 'n list) \<Rightarrow> bool" where
  "sim h A \<longleftrightarrow> apart A \<and> (\<forall>l xs. A l = Some xs \<longrightarrow> holds h l xs)"

text \<open>
  An operation that establishes \<open>xs'\<close> in the list \<open>l\<close>, whose cells stay apart from
  the other lists, and changes no other cell.
\<close>

lemma sim_update:
  assumes "sim h A" and "holds h' l xs'"
    and new: "list_cells hcell ncell l xs' \<subseteq> S"
    and same: "\<And>c. c \<notin> S \<Longrightarrow> same h h' c"
    and S: "\<And>m ys. A m = Some ys \<Longrightarrow> m \<noteq> l \<Longrightarrow> S \<inter> list_cells hcell ncell m ys = {}"
  shows "sim h' (A(l \<mapsto> xs'))"
  unfolding sim_def
proof (intro conjI allI impI)
  have "list_cells hcell ncell l xs' \<inter> list_cells hcell ncell m ys = {}"
    if "A m = Some ys" "m \<noteq> l" for m ys using S [OF that] new by blast
  then show "apart (A(l \<mapsto> xs'))"
    using assms(1) unfolding sim_def apart_def by (simp add: Int_commute)
  fix m ys assume m: "(A(l \<mapsto> xs')) m = Some ys"
  show "holds h' m ys"
  proof (cases "m = l")
    case False
    with m have "A m = Some ys" by simp
    with assms(1) S [OF this False] show ?thesis
      unfolding sim_def by (blast intro: frame same)
  qed (use m assms(2) in simp)
qed

lemma sim_step:
  assumes "list_step valid hcell ncell A c A'" and "sim h A"
  shows "sim (list_exec init add remove c h) A'"
  using assms
proof (induction rule: list_step.induct)
  case (step_Init l A)
  have "{hcell l} \<inter> list_cells hcell ncell m ys = {}" if "A m = Some ys" for m ys
    using step_Init.hyps that unfolding owned_def by blast
  then have "sim (init l h) (A(l \<mapsto> []))"
    by (intro sim_update [OF step_Init.prems init_holds, where S = "{hcell l}"])
      (auto simp: list_cells_def init_same)
  then show ?case by (simp only: list_exec.simps)
next
  case (step_Add n A l xs)
  have l: "holds h l xs" using step_Add by (simp add: sim_def)
  have fresh: "ncell n \<notin> list_cells hcell ncell m ys" if "A m = Some ys" for m ys
    using step_Add.hyps that unfolding owned_def by blast
  have "list_cells hcell ncell l (n # xs) \<inter> list_cells hcell ncell m ys = {}"
    if "A m = Some ys" "m \<noteq> l" for m ys
    using fresh [OF that(1)] step_Add that unfolding sim_def apart_def list_cells_Cons by blast
  then have "sim (add n l h) (A(l \<mapsto> n # xs))"
    using fresh [OF step_Add.hyps(2)] step_Add.hyps(1) l
    by (intro sim_update [OF step_Add.prems add_holds, where S = "list_cells hcell ncell l (n # xs)"])
      (auto simp: add_same)
  then show ?case by (simp only: list_exec.simps)
next
  case (step_Remove A l xs n ys)
  have l: "holds h l (xs @ n # ys)" using step_Remove by (simp add: sim_def)
  have "list_cells hcell ncell l (xs @ n # ys) \<inter> list_cells hcell ncell m zs = {}"
    if "A m = Some zs" "m \<noteq> l" for m zs
    using step_Remove that unfolding sim_def apart_def by blast
  then have "sim (remove n h) (A(l \<mapsto> xs @ ys))"
    by (intro sim_update [OF step_Remove.prems remove_holds [OF l],
          where S = "list_cells hcell ncell l (xs @ n # ys)"])
      (auto simp: remove_same [OF l], auto simp: list_cells_def)
  then show ?case by (simp only: list_exec.simps)
qed

lemma sim_run: "list_run valid hcell ncell A cs A' \<Longrightarrow> sim h A \<Longrightarrow> sim (fold (list_exec init add remove) cs h) A'"
  by (induction arbitrary: h rule: list_run.induct) (simp_all add: sim_step)

lemma run_holds:
  assumes "list_run valid hcell ncell Map.empty cs A" and "A l = Some xs"
  shows "holds (fold (list_exec init add remove) cs h) l xs"
  using sim_run [OF assms(1), of h] assms(2) by (simp add: sim_def apart_def)

end

section \<open>\<^verbatim>\<open>struct list\<close>\<close>

text \<open>
  The link fields of all \<^verbatim>\<open>struct node\<close> and \<^verbatim>\<open>struct dlist\<close> objects, by address.
  The head of a list is a node too, at the address of the list.
\<close>

record links =
  nxt :: "addr \<Rightarrow> addr"
  prv :: "addr \<Rightarrow> addr"

definition set_next :: "addr \<Rightarrow> addr \<Rightarrow> links \<Rightarrow> links" where
  "set_next n v h = h\<lparr>nxt := (nxt h)(n := v)\<rparr>"

definition set_prev :: "addr \<Rightarrow> addr \<Rightarrow> links \<Rightarrow> links" where
  "set_prev n v h = h\<lparr>prv := (prv h)(n := v)\<rparr>"

definition list_init :: "addr \<Rightarrow> links \<Rightarrow> links" where
  "list_init l h = set_next l l (set_prev l l h)"

definition list_head :: "addr \<Rightarrow> links \<Rightarrow> addr" where
  "list_head l h = (if nxt h l \<noteq> l then nxt h l else ADDR_NULL)"

definition list_tail :: "addr \<Rightarrow> links \<Rightarrow> addr" where
  "list_tail l h = (if prv h l \<noteq> l then prv h l else ADDR_NULL)"

definition list_next :: "addr \<Rightarrow> addr \<Rightarrow> links \<Rightarrow> addr" where
  "list_next l n h = (if nxt h n \<noteq> l then nxt h n else ADDR_NULL)"

definition list_prev :: "addr \<Rightarrow> addr \<Rightarrow> links \<Rightarrow> addr" where
  "list_prev l n h = (if prv h n \<noteq> l then prv h n else ADDR_NULL)"

definition list_empty :: "addr \<Rightarrow> links \<Rightarrow> bool" where
  "list_empty l h \<longleftrightarrow> nxt h l = l"

definition list_insert_after :: "addr \<Rightarrow> addr \<Rightarrow> links \<Rightarrow> links" where
  "list_insert_after what after h =
     (let before = nxt h after;
          h = set_next what before h;
          h = set_prev what after h;
          h = set_prev before what h
      in set_next after what h)"

definition list_insert_before :: "addr \<Rightarrow> addr \<Rightarrow> links \<Rightarrow> links" where
  "list_insert_before what before h =
     (let after = prv h before;
          h = set_next what before h;
          h = set_prev what after h;
          h = set_prev before what h
      in set_next after what h)"

definition list_add_head :: "addr \<Rightarrow> addr \<Rightarrow> links \<Rightarrow> links" where
  "list_add_head l n h = list_insert_after n l h"

definition list_add_tail :: "addr \<Rightarrow> addr \<Rightarrow> links \<Rightarrow> links" where
  "list_add_tail l n h = list_insert_before n l h"

definition list_remove :: "addr \<Rightarrow> links \<Rightarrow> links" where
  "list_remove n h =
     (let before = prv h n; after = nxt h n; h = set_next before after h
      in set_prev after before h)"

definition list_remove_head :: "addr \<Rightarrow> links \<Rightarrow> addr \<times> links" where
  "list_remove_head l h =
     (let n = list_head l h in (n, if n \<noteq> ADDR_NULL then list_remove n h else h))"

definition list_insert_list_after :: "addr \<Rightarrow> addr \<Rightarrow> links \<Rightarrow> links" where
  "list_insert_list_after what after h =
     (if list_empty what h then h
      else let w = what;
               h = set_next (prv h w) (nxt h after) h;
               h = set_prev (nxt h after) (prv h w) h;
               h = set_prev (nxt h w) after h;
               h = set_next after (nxt h w) h
           in list_init what h)"

definition list_move :: "addr \<Rightarrow> addr \<Rightarrow> links \<Rightarrow> links" where
  "list_move to from h = list_init from (list_insert_list_after from to (list_init to h))"

text \<open>
  \<^verbatim>\<open>list_walk\<close>, collecting the nodes it visits; the loop ends when it is back at the
  head, and \<open>fuel\<close> bounds its iterations.
\<close>

fun walk_from :: "nat \<Rightarrow> (addr \<Rightarrow> addr) \<Rightarrow> addr \<Rightarrow> addr \<Rightarrow> addr list option" where
  "walk_from 0 f l n = None"
| "walk_from (Suc fuel) f l n =
     (if n = l then Some [] else map_option (Cons n) (walk_from fuel f l (f n)))"

definition list_walk :: "nat \<Rightarrow> addr \<Rightarrow> links \<Rightarrow> addr list option" where
  "list_walk fuel l h = walk_from fuel (nxt h) l (nxt h l)"

text \<open>\<^verbatim>\<open>list.c\<close>, the variants of \<^verbatim>\<open>CONFIG_DEBUG_LIST\<close>, with the poison addresses.\<close>

definition ADDR_POISON1 :: addr where
  "ADDR_POISON1 = 0x00100100"

definition ADDR_POISON2 :: addr where
  "ADDR_POISON2 = 0x00200200"

definition debug_list_remove :: "addr \<Rightarrow> links \<Rightarrow> links" where
  "debug_list_remove n h =
     (let before = prv h n; after = nxt h n; h = set_next before after h;
          h = set_prev after before h; h = set_next n ADDR_POISON1 h
      in set_prev n ADDR_POISON2 h)"

definition debug_dlist_del :: "addr \<Rightarrow> links \<Rightarrow> links" where
  "debug_dlist_del entry h =
     (let h = set_prev (nxt h entry) (prv h entry) h;
          h = set_next (prv h entry) (nxt h entry) h;
          h = set_next entry ADDR_POISON1 h
      in set_prev entry ADDR_POISON2 h)"

section \<open>\<^verbatim>\<open>struct dlist\<close>\<close>

definition init_list_head :: "addr \<Rightarrow> links \<Rightarrow> links" where
  "init_list_head l h = set_prev l l (set_next l l h)"

definition dlist_add_between :: "addr \<Rightarrow> addr \<Rightarrow> addr \<Rightarrow> links \<Rightarrow> links" where
  "dlist_add_between e p n h =
     (let h = set_prev n e h; h = set_next e n h; h = set_prev e p h in set_next p e h)"

definition dlist_add :: "addr \<Rightarrow> addr \<Rightarrow> links \<Rightarrow> links" where
  "dlist_add n head h = dlist_add_between n head (nxt h head) h"

definition dlist_add_tail :: "addr \<Rightarrow> addr \<Rightarrow> links \<Rightarrow> links" where
  "dlist_add_tail n head h = dlist_add_between n (prv h head) head h"

definition dlist_del_between :: "addr \<Rightarrow> addr \<Rightarrow> links \<Rightarrow> links" where
  "dlist_del_between p n h = (let h = set_prev n p h in set_next p n h)"

definition dlist_del_entry :: "addr \<Rightarrow> links \<Rightarrow> links" where
  "dlist_del_entry entry h = dlist_del_between (prv h entry) (nxt h entry) h"

definition dlist_del :: "addr \<Rightarrow> links \<Rightarrow> links" where
  "dlist_del entry h = dlist_del_between (prv h entry) (nxt h entry) h"

definition dlist_replace :: "addr \<Rightarrow> addr \<Rightarrow> links \<Rightarrow> links" where
  "dlist_replace old n h =
     (let h = set_next n (nxt h old) h;
          h = set_prev (nxt h n) n h;
          h = set_prev n (prv h old) h
      in set_next (prv h n) n h)"

definition dlist_replace_init :: "addr \<Rightarrow> addr \<Rightarrow> links \<Rightarrow> links" where
  "dlist_replace_init old n h = init_list_head old (dlist_replace old n h)"

definition dlist_del_init :: "addr \<Rightarrow> links \<Rightarrow> links" where
  "dlist_del_init entry h = init_list_head entry (dlist_del_entry entry h)"

definition dlist_move :: "addr \<Rightarrow> addr \<Rightarrow> links \<Rightarrow> links" where
  "dlist_move e head h = dlist_add e head (dlist_del_entry e h)"

definition dlist_move_tail :: "addr \<Rightarrow> addr \<Rightarrow> links \<Rightarrow> links" where
  "dlist_move_tail e head h = dlist_add_tail e head (dlist_del_entry e h)"

definition dlist_is_last :: "addr \<Rightarrow> addr \<Rightarrow> links \<Rightarrow> bool" where
  "dlist_is_last e head h \<longleftrightarrow> nxt h e = head"

definition dlist_empty :: "addr \<Rightarrow> links \<Rightarrow> bool" where
  "dlist_empty head h \<longleftrightarrow> nxt h head = head"

definition dlist_empty_careful :: "addr \<Rightarrow> links \<Rightarrow> bool" where
  "dlist_empty_careful head h \<longleftrightarrow> (let n = nxt h head in n = head \<and> n = prv h head)"

definition dlist_rotate_left :: "addr \<Rightarrow> links \<Rightarrow> links" where
  "dlist_rotate_left head h =
     (if \<not> dlist_empty head h then dlist_move_tail (nxt h head) head h else h)"

definition dlist_is_singular :: "addr \<Rightarrow> links \<Rightarrow> bool" where
  "dlist_is_singular head h \<longleftrightarrow> \<not> dlist_empty head h \<and> nxt h head = prv h head"

definition dlist_cut_at :: "addr \<Rightarrow> addr \<Rightarrow> addr \<Rightarrow> links \<Rightarrow> links" where
  "dlist_cut_at l head entry h =
     (let new_first = nxt h entry;
          h = set_next l (nxt h head) h;
          h = set_prev (nxt h l) l h;
          h = set_prev l entry h;
          h = set_next entry l h;
          h = set_next head new_first h
      in set_prev new_first head h)"

definition dlist_cut_position :: "addr \<Rightarrow> addr \<Rightarrow> addr \<Rightarrow> links \<Rightarrow> links" where
  "dlist_cut_position l head entry h =
     (if dlist_empty head h then h
      else if dlist_is_singular head h \<and> nxt h head \<noteq> entry \<and> head \<noteq> entry then h
      else if entry = head then init_list_head l h
      else dlist_cut_at l head entry h)"

definition dlist_splice_between :: "addr \<Rightarrow> addr \<Rightarrow> addr \<Rightarrow> links \<Rightarrow> links" where
  "dlist_splice_between l p n h =
     (let first = nxt h l; last = prv h l;
          h = set_prev first p h;
          h = set_next p first h;
          h = set_next last n h
      in set_prev n last h)"

definition dlist_splice :: "addr \<Rightarrow> addr \<Rightarrow> links \<Rightarrow> links" where
  "dlist_splice l head h =
     (if \<not> dlist_empty l h then dlist_splice_between l head (nxt h head) h else h)"

definition dlist_splice_tail :: "addr \<Rightarrow> addr \<Rightarrow> links \<Rightarrow> links" where
  "dlist_splice_tail l head h =
     (if \<not> dlist_empty l h then dlist_splice_between l (prv h head) head h else h)"

definition list_splice_init :: "addr \<Rightarrow> addr \<Rightarrow> links \<Rightarrow> links" where
  "list_splice_init l head h =
     (if \<not> dlist_empty l h then init_list_head l (dlist_splice_between l head (nxt h head) h) else h)"

definition dlist_splice_tail_init :: "addr \<Rightarrow> addr \<Rightarrow> links \<Rightarrow> links" where
  "dlist_splice_tail_init l head h =
     (if \<not> dlist_empty l h then init_list_head l (dlist_splice_between l (prv h head) head h) else h)"

section \<open>Rings\<close>

text \<open>
  \<open>chain h xs\<close>: each node of \<open>xs\<close> has the following one as its next, and is the
  previous of that one. A list is a chain from its head back to its head.
\<close>

fun chain :: "links \<Rightarrow> addr list \<Rightarrow> bool" where
  "chain h (x # y # zs) = (nxt h x = y \<and> prv h y = x \<and> chain h (y # zs))"
| "chain h _ = True"

definition ring :: "links \<Rightarrow> addr \<Rightarrow> addr list \<Rightarrow> bool" where
  "ring h l xs \<longleftrightarrow> chain h (l # xs @ [l]) \<and> distinct (l # xs)"

lemma chain_append:
  "xs \<noteq> [] \<Longrightarrow> ys \<noteq> [] \<Longrightarrow>
   chain h (xs @ ys) \<longleftrightarrow> chain h xs \<and> chain h ys \<and> nxt h (last xs) = hd ys \<and> prv h (hd ys) = last xs"
  by (induction h xs rule: chain.induct) (auto simp: neq_Nil_conv)

lemma chain_cong:
  "(\<And>n. n \<in> set (butlast xs) \<Longrightarrow> nxt h' n = nxt h n) \<Longrightarrow>
   (\<And>n. n \<in> set (tl xs) \<Longrightarrow> prv h' n = prv h n) \<Longrightarrow> chain h' xs = chain h xs"
  by (induction h xs rule: chain.induct) auto

lemma links_simps [simp]:
  "nxt (set_next n v h) m = (if m = n then v else nxt h m)"
  "nxt (set_prev n v h) = nxt h"
  "prv (set_prev n v h) m = (if m = n then v else prv h m)"
  "prv (set_next n v h) = prv h"
  by (simp_all add: set_next_def set_prev_def)

definition same_links :: "links \<Rightarrow> links \<Rightarrow> addr \<Rightarrow> bool" where
  "same_links h h' n \<longleftrightarrow> nxt h' n = nxt h n \<and> prv h' n = prv h n"

lemma ring_frame:
  "ring h l xs \<Longrightarrow> (\<And>n. n \<in> insert l (set xs) \<Longrightarrow> same_links h h' n) \<Longrightarrow> ring h' l xs"
  unfolding ring_def same_links_def
  by (subst chain_cong [of _ h' h]) (auto dest: in_set_butlastD)

text \<open>A ring cut between two neighbours.\<close>

lemma ring_split:
  "ring h l (ys @ zs) \<longleftrightarrow> chain h (l # ys) \<and> chain h (zs @ [l]) \<and>
     nxt h (last (l # ys)) = hd (zs @ [l]) \<and> prv h (hd (zs @ [l])) = last (l # ys) \<and>
     distinct (l # ys @ zs)"
  unfolding ring_def using chain_append [of "l # ys" "zs @ [l]" h] by auto

lemma cut_ends_in: "last (l # ys) \<in> set (l # ys)" "hd (zs @ [l]) \<in> set (zs @ [l])"
  by (rule last_in_set, simp) (cases zs, simp_all)

lemma last_not_butlast: "distinct xs \<Longrightarrow> last xs \<notin> set (butlast xs)"
  by (cases xs rule: rev_cases) auto

lemma hd_not_tl: "distinct xs \<Longrightarrow> xs \<noteq> [] \<Longrightarrow> hd xs \<notin> set (tl xs)"
  by (cases xs) auto

lemma set_tl_subset: "x \<in> set (tl xs) \<Longrightarrow> x \<in> set xs"
  by (cases xs) auto

text \<open>
  The cells a segment depends on: changes at its last next link, at its first previous
  link, and outside, do not touch it.
\<close>

lemma chain_segment:
  assumes "chain h xs" and "distinct xs"
    and "\<And>m. m \<in> set xs \<Longrightarrow> m \<noteq> last xs \<Longrightarrow> nxt h' m = nxt h m"
    and "\<And>m. m \<in> set xs \<Longrightarrow> m \<noteq> hd xs \<Longrightarrow> prv h' m = prv h m"
  shows "chain h' xs"
proof (cases "xs = []")
  case False
  have "chain h' xs = chain h xs"
  proof (rule chain_cong)
    fix n assume "n \<in> set (butlast xs)"
    then show "nxt h' n = nxt h n"
      using assms(2,3) last_not_butlast in_set_butlastD by metis
  next
    fix n assume "n \<in> set (tl xs)"
    then show "prv h' n = prv h n"
      using assms(2,4) hd_not_tl [OF assms(2) False] set_tl_subset by metis
  qed
  then show ?thesis using assms(1) by simp
qed simp

text \<open>
  New links \<open>p \<rightarrow> n \<rightarrow> q\<close> between the neighbours \<open>p\<close> and \<open>q\<close>, and no other
  change.
\<close>

lemma ring_insert:
  assumes ring: "ring h l (ys @ zs)" and n: "n \<notin> set (l # ys @ zs)"
    and p: "p = last (l # ys)" and q: "q = hd (zs @ [l])"
    and nxt': "\<And>m. nxt h' m = (if m = p then n else if m = n then q else nxt h m)"
    and prv': "\<And>m. prv h' m = (if m = q then n else if m = n then p else prv h m)"
  shows "ring h' l (ys @ n # zs)"
proof -
  have dist: "distinct (l # ys @ zs)" using ring by (simp add: ring_split)
  have pin: "p \<in> set (l # ys)" and qin: "q \<in> set (zs @ [l])"
    unfolding p q by (rule cut_ends_in)+
  have "chain h' (l # ys)"
  proof (rule chain_segment [of h])
    fix m assume m: "m \<in> set (l # ys)"
    show "m \<noteq> last (l # ys) \<Longrightarrow> nxt h' m = nxt h m" using m n by (auto simp: nxt' p)
    assume "m \<noteq> hd (l # ys)"
    then show "prv h' m = prv h m" using m n qin dist by (auto simp: prv')
  qed (use ring dist in \<open>simp_all add: ring_split\<close>)
  moreover have "chain h' (zs @ [l])"
  proof (rule chain_segment [of h])
    fix m assume m: "m \<in> set (zs @ [l])"
    show "m \<noteq> hd (zs @ [l]) \<Longrightarrow> prv h' m = prv h m" using m n by (auto simp: prv' q)
    assume "m \<noteq> last (zs @ [l])"
    then show "nxt h' m = nxt h m" using m n pin dist by (auto simp: nxt')
  qed (use ring dist in \<open>auto simp add: ring_split\<close>)
  moreover have ne: "n \<noteq> p" "n \<noteq> q" using n pin qin by auto
  moreover from calculation have "chain h' ([n] @ (zs @ [l]))"
    by (subst chain_append) (simp_all add: nxt' prv' flip: q)
  ultimately show ?thesis
    unfolding ring_split p [symmetric] using dist n by (simp add: nxt' prv')
qed

text \<open>
  The reverse: \<open>p\<close> and \<open>q\<close>, the neighbours of \<open>n\<close>, are linked to each other.
\<close>

lemma ring_remove:
  assumes ring: "ring h l (ys @ n # zs)"
    and p: "p = last (l # ys)" and q: "q = hd (zs @ [l])"
    and nxt': "\<And>m. m \<noteq> n \<Longrightarrow> nxt h' m = (if m = p then q else nxt h m)"
    and prv': "\<And>m. m \<noteq> n \<Longrightarrow> prv h' m = (if m = q then p else prv h m)"
  shows "ring h' l (ys @ zs)"
proof -
  have dist: "distinct (l # ys @ n # zs)" and 1: "chain h (l # ys)" and 2: "chain h ([n] @ (zs @ [l]))"
    using ring by (simp_all add: ring_split)
  have 3: "chain h (zs @ [l])" using 2 by (subst (asm) chain_append) simp_all
  have pin: "p \<in> set (l # ys)" and qin: "q \<in> set (zs @ [l])"
    unfolding p q by (rule cut_ends_in)+
  have "chain h' (l # ys)"
  proof (rule chain_segment [OF 1])
    fix m assume m: "m \<in> set (l # ys)"
    have ne: "m \<noteq> n" using m dist by auto
    show "m \<noteq> last (l # ys) \<Longrightarrow> nxt h' m = nxt h m" using nxt' [OF ne] by (simp add: p)
    assume "m \<noteq> hd (l # ys)"
    then show "prv h' m = prv h m" using prv' [OF ne] m qin dist by auto
  qed (use dist in simp)
  moreover have "chain h' (zs @ [l])"
  proof (rule chain_segment [OF 3])
    fix m assume m: "m \<in> set (zs @ [l])"
    have ne: "m \<noteq> n" using m dist by auto
    show "m \<noteq> hd (zs @ [l]) \<Longrightarrow> prv h' m = prv h m" using prv' [OF ne] by (simp add: q)
    assume "m \<noteq> last (zs @ [l])"
    then show "nxt h' m = nxt h m" using nxt' [OF ne] m pin dist by auto
  qed (use dist in auto)
  moreover have "p \<noteq> n" "q \<noteq> n" using dist pin qin by auto
  ultimately show ?thesis
    unfolding ring_split p [symmetric] q [symmetric] using dist by (simp add: nxt' prv')
qed

text \<open>The neighbours of a node and of the head.\<close>

lemma ring_neighbours:
  assumes "ring h l (ys @ n # zs)"
  shows "nxt h n = hd (zs @ [l])" and "prv h n = last (l # ys)"
proof -
  have "chain h ([n] @ (zs @ [l]))" using assms by (simp add: ring_split)
  then show "nxt h n = hd (zs @ [l])" by (subst (asm) chain_append) simp_all
  show "prv h n = last (l # ys)" using assms unfolding ring_split by simp
qed

lemma ring_head_links:
  assumes "ring h l xs"
  shows "nxt h l = hd (xs @ [l])" and "prv h l = last (l # xs)"
  using assms ring_split [of h l "[]" xs] ring_split [of h l xs "[]"] by simp_all

section \<open>The operations on rings\<close>

lemma list_init_ring: "ring (list_init l h) l []" "ring (init_list_head l h) l []"
  by (simp_all add: ring_def list_init_def init_list_head_def)

lemma insert_between_ring:
  assumes ring: "ring h l (ys @ zs)" and n: "n \<notin> set (l # ys @ zs)"
    and p: "p = last (l # ys)" and q: "q = hd (zs @ [l])"
  shows "ring (set_next p n (set_prev q n (set_prev n p (set_next n q h)))) l (ys @ n # zs)"
    and "ring (set_next p n (set_prev n p (set_next n q (set_prev q n h)))) l (ys @ n # zs)"
proof -
  have "p \<in> set (l # ys)" and "q \<in> set (zs @ [l])"
    unfolding p q by (rule cut_ends_in)+
  then have "n \<noteq> p" "n \<noteq> q" using n by auto
  then show "ring (set_next p n (set_prev q n (set_prev n p (set_next n q h)))) l (ys @ n # zs)"
    and "ring (set_next p n (set_prev n p (set_next n q (set_prev q n h)))) l (ys @ n # zs)"
    by (intro ring_insert [OF ring n p q]; simp)+
qed

lemma list_insert_after_ring:
  assumes "ring h l (ys @ zs)" and "n \<notin> set (l # ys @ zs)"
  shows "ring (list_insert_after n (last (l # ys)) h) l (ys @ n # zs)"
  using insert_between_ring(1) [OF assms refl refl] assms(1)
  unfolding list_insert_after_def Let_def by (simp add: ring_split)

lemma list_insert_before_ring:
  assumes "ring h l (ys @ zs)" and "n \<notin> set (l # ys @ zs)"
  shows "ring (list_insert_before n (hd (zs @ [l])) h) l (ys @ n # zs)"
  using insert_between_ring(1) [OF assms refl refl] assms(1)
  unfolding list_insert_before_def Let_def by (simp add: ring_split)

lemma list_remove_ring:
  assumes ring: "ring h l (ys @ n # zs)"
  shows "ring (list_remove n h) l (ys @ zs)" and "ring (dlist_del n h) l (ys @ zs)"
    and "ring (dlist_del_entry n h) l (ys @ zs)"
proof -
  note nb = ring_neighbours [OF ring]
  show "ring (list_remove n h) l (ys @ zs)" "ring (dlist_del n h) l (ys @ zs)"
    "ring (dlist_del_entry n h) l (ys @ zs)"
    by (rule ring_remove [OF ring refl refl];
        simp add: list_remove_def dlist_del_def dlist_del_entry_def dlist_del_between_def Let_def nb)+
qed

lemma dlist_add_between_ring:
  assumes "ring h l (ys @ zs)" and "n \<notin> set (l # ys @ zs)"
  shows "ring (dlist_add_between n (last (l # ys)) (hd (zs @ [l])) h) l (ys @ n # zs)"
  using insert_between_ring(2) [OF assms refl refl] unfolding dlist_add_between_def Let_def .

lemma add_ring:
  assumes "ring h l xs" and "n \<notin> set (l # xs)"
  shows "ring (list_add_head l n h) l (n # xs)" and "ring (list_add_tail l n h) l (xs @ [n])"
    and "ring (dlist_add n l h) l (n # xs)" and "ring (dlist_add_tail n l h) l (xs @ [n])"
  using list_insert_after_ring [of h l "[]" xs n] list_insert_before_ring [of h l xs "[]" n]
    dlist_add_between_ring [of h l "[]" xs n] dlist_add_between_ring [of h l xs "[]" n] assms
    ring_head_links [OF assms(1)]
  by (simp_all add: list_add_head_def list_add_tail_def dlist_add_def dlist_add_tail_def)

text \<open>No operation changes a node outside the list and the node it adds.\<close>

lemma ring_head_in:
  assumes "ring h l xs"
  shows "nxt h l \<in> insert l (set xs)" and "prv h l \<in> insert l (set xs)"
  using ring_head_links [OF assms] by (auto simp: hd_append)

lemma ring_node_in:
  assumes "ring h l (ys @ n # zs)"
  shows "nxt h n \<in> insert l (set (ys @ n # zs))" and "prv h n \<in> insert l (set (ys @ n # zs))"
  using ring_neighbours [OF assms] by (auto simp: hd_append)

lemma add_same:
  assumes "ring h l xs" and "m \<notin> insert l (set (n # xs))"
  shows "same_links h (list_add_head l n h) m" "same_links h (list_add_tail l n h) m"
    "same_links h (dlist_add n l h) m" "same_links h (dlist_add_tail n l h) m"
  using ring_head_in [OF assms(1)] assms(2)
  by (auto simp: same_links_def list_add_head_def list_add_tail_def list_insert_after_def
      list_insert_before_def dlist_add_def dlist_add_tail_def dlist_add_between_def Let_def)

lemma remove_same:
  assumes "ring h l (ys @ n # zs)" and "m \<notin> insert l (set (ys @ n # zs))"
  shows "same_links h (list_remove n h) m" "same_links h (dlist_del n h) m"
    "same_links h (dlist_del_entry n h) m"
  using ring_node_in [OF assms(1)] assms(2)
  by (auto simp: same_links_def list_remove_def dlist_del_def dlist_del_entry_def
      dlist_del_between_def Let_def)

lemma init_same:
  assumes "m \<noteq> l"
  shows "same_links h (list_init l h) m" "same_links h (init_list_head l h) m"
  using assms by (simp_all add: same_links_def list_init_def init_list_head_def)

lemma list_cells_id [simp]: "list_cells id id l xs = insert l (set xs)"
  by (simp add: list_cells_def)

text \<open>
  Both kinds of rings meet the contract, with insertion at the head; insertion at the tail
  meets it for the sequence read backwards.
\<close>

lemmas ring_elims = add_ring add_same list_remove_ring remove_same

interpretation list: intrusive_list list_init "\<lambda>n l. list_add_head l n" list_remove ring same_links "\<lambda>n. True" id id
proof unfold_locales
  show "ring h' l xs" if "ring h l xs" "\<And>c. c \<in> list_cells id id l xs \<Longrightarrow> same_links h h' c" for h l xs h'
    using that(1) by (rule ring_frame) (use that(2) in simp)
qed (simp_all add: list_init_ring init_same, (erule ring_elims; simp; fail)+)

interpretation dlist: intrusive_list init_list_head dlist_add dlist_del ring same_links "\<lambda>n. True" id id
proof unfold_locales
  show "ring h' l xs" if "ring h l xs" "\<And>c. c \<in> list_cells id id l xs \<Longrightarrow> same_links h h' c" for h l xs h'
    using that(1) by (rule ring_frame) (use that(2) in simp)
qed (simp_all add: list_init_ring init_same, (erule ring_elims; simp; fail)+)

interpretation list_queue: intrusive_list list_init "\<lambda>n l. list_add_tail l n" list_remove
  "\<lambda>h l xs. ring h l (rev xs)" same_links "\<lambda>n. True" id id
proof unfold_locales
  show "ring h' l (rev xs)" if "ring h l (rev xs)" "\<And>c. c \<in> list_cells id id l xs \<Longrightarrow> same_links h h' c"
    for h l xs h' using that(1) by (rule ring_frame) (use that(2) in simp)
qed (simp_all add: list_init_ring init_same, (erule ring_elims; simp; fail)+)

interpretation dlist_queue: intrusive_list init_list_head dlist_add_tail dlist_del
  "\<lambda>h l xs. ring h l (rev xs)" same_links "\<lambda>n. True" id id
proof unfold_locales
  show "ring h' l (rev xs)" if "ring h l (rev xs)" "\<And>c. c \<in> list_cells id id l xs \<Longrightarrow> same_links h h' c"
    for h l xs h' using that(1) by (rule ring_frame) (use that(2) in simp)
qed (simp_all add: list_init_ring init_same, (erule ring_elims; simp; fail)+)

text \<open>The nodes of one ring moved between two neighbours of another.\<close>

lemma ring_splice:
  assumes src: "ring h l xs" and "xs \<noteq> []" and dst: "ring h m (ys @ zs)"
    and disj: "set (l # xs) \<inter> set (m # ys @ zs) = {}"
    and p: "p = last (m # ys)" and q: "q = hd (zs @ [m])"
    and nxt': "\<And>n. n \<noteq> l \<Longrightarrow> nxt h' n = (if n = last xs then q else if n = p then hd xs else nxt h n)"
    and prv': "\<And>n. n \<noteq> l \<Longrightarrow> prv h' n = (if n = q then last xs else if n = hd xs then p else prv h n)"
  shows "ring h' m (ys @ xs @ zs)"
proof -
  have dist: "distinct (m # ys @ zs)" "distinct (l # xs)" using src dst by (simp_all add: ring_def)
  have pin: "p \<in> set (m # ys)" and qin: "q \<in> set (zs @ [m])" and "hd xs \<in> set xs" "last xs \<in> set xs"
    unfolding p q by (rule cut_ends_in hd_in_set last_in_set assms(2))+
  then have ends: "hd xs \<notin> set (m # ys @ zs)" "last xs \<notin> set (m # ys @ zs)" "p \<notin> set xs" "q \<notin> set xs"
    "l \<noteq> p" "l \<noteq> q" "l \<noteq> hd xs" "l \<noteq> last xs"
    using disj dist by auto
  have "chain h ([l] @ (xs @ [l]))" using src by (simp add: ring_def)
  then have 2: "chain h xs" using assms(2) by (simp add: chain_append del: append_Cons append.append_Cons)
  have 1: "chain h (m # ys)" and 3: "chain h (zs @ [m])" using dst by (simp_all add: ring_split)
  have "chain h' (m # ys)"
  proof (rule chain_segment [OF 1])
    fix n assume n: "n \<in> set (m # ys)"
    then have "n \<noteq> l" using disj by auto
    with n show "n \<noteq> last (m # ys) \<Longrightarrow> nxt h' n = nxt h n" using ends by (auto simp: nxt' p)
    assume "n \<noteq> hd (m # ys)"
    with \<open>n \<noteq> l\<close> n show "prv h' n = prv h n" using ends qin dist by (auto simp: prv')
  qed (use dist in simp)
  moreover have "chain h' xs"
  proof (rule chain_segment [OF 2])
    fix n assume n: "n \<in> set xs"
    then have "n \<noteq> l" using dist by auto
    with n show "n \<noteq> last xs \<Longrightarrow> nxt h' n = nxt h n" using ends by (auto simp: nxt')
    show "n \<noteq> hd xs \<Longrightarrow> prv h' n = prv h n" using \<open>n \<noteq> l\<close> n ends by (auto simp: prv')
  qed (use dist in simp)
  moreover have "chain h' (zs @ [m])"
  proof (rule chain_segment [OF 3])
    fix n assume n: "n \<in> set (zs @ [m])"
    then have "n \<noteq> l" using disj by auto
    with n show "n \<noteq> hd (zs @ [m]) \<Longrightarrow> prv h' n = prv h n" using ends by (auto simp: prv' q)
    assume "n \<noteq> last (zs @ [m])"
    with \<open>n \<noteq> l\<close> n show "nxt h' n = nxt h n" using ends pin dist by (auto simp: nxt')
  qed (use dist in auto)
  moreover from calculation have "chain h' (xs @ (zs @ [m]))"
    using assms(2) ends by (subst chain_append) (auto simp: nxt' prv' simp flip: q)
  ultimately show ?thesis
    unfolding ring_split [of h' m ys "xs @ zs"] p [symmetric]
    using dist disj ends assms(2) by (auto simp: nxt' prv')
qed

lemma splice_between_ring:
  assumes "ring h l xs" and "xs \<noteq> []" and "ring h m (ys @ zs)"
    and "set (l # xs) \<inter> set (m # ys @ zs) = {}"
  shows "ring (dlist_splice_between l (last (m # ys)) (hd (zs @ [m])) h) m (ys @ xs @ zs)"
proof -
  have "last (m # ys) \<in> set (m # ys)" "hd (zs @ [m]) \<in> set (zs @ [m])" "hd xs \<in> set xs" "last xs \<in> set xs"
    by (rule cut_ends_in hd_in_set last_in_set assms(2))+
  then have "last xs \<noteq> last (m # ys)" "hd xs \<noteq> hd (zs @ [m])" using assms(4) by auto
  then show ?thesis
    using ring_head_links [OF assms(1)] assms(2)
    by (intro ring_splice [OF assms refl refl]) (auto simp: dlist_splice_between_def Let_def)
qed

lemma splice_ring:
  assumes "ring h l xs" and "ring h m ys" and "set (l # xs) \<inter> set (m # ys) = {}"
  shows "ring (dlist_splice l m h) m (xs @ ys)" and "ring (dlist_splice_tail l m h) m (ys @ xs)"
    and "ring (list_splice_init l m h) m (xs @ ys) \<and> ring (list_splice_init l m h) l []"
    and "ring (dlist_splice_tail_init l m h) m (ys @ xs) \<and> ring (dlist_splice_tail_init l m h) l []"
proof -
  have e: "dlist_empty l h \<longleftrightarrow> xs = []"
    using ring_head_links [OF assms(1)] assms(1) by (auto simp: dlist_empty_def hd_append ring_def)
  note m = ring_head_links [OF assms(2)]
  have init: "ring (init_list_head l h') m ws" if "ring h' m ws" "l \<notin> set (m # ws)" for h' ws
    using that by (auto intro!: ring_frame [OF that(1)] Mem_List.init_same)
  have 1: "ring (dlist_splice l m h) m (xs @ ys)"
    using splice_between_ring [of h l xs m "[]" ys] assms e m by (auto simp: dlist_splice_def)
  have 2: "ring (dlist_splice_tail l m h) m (ys @ xs)"
    using splice_between_ring [of h l xs m ys "[]"] assms e m by (auto simp: dlist_splice_tail_def)
  have l: "l \<notin> set (m # xs @ ys)" using assms by (auto simp: ring_def)
  show "ring (dlist_splice l m h) m (xs @ ys)" "ring (dlist_splice_tail l m h) m (ys @ xs)"
    by (rule 1 2)+
  show "ring (list_splice_init l m h) m (xs @ ys) \<and> ring (list_splice_init l m h) l []"
    using init [OF 1] l assms e by (auto simp: list_splice_init_def dlist_splice_def list_init_ring split: if_splits)
  show "ring (dlist_splice_tail_init l m h) m (ys @ xs) \<and> ring (dlist_splice_tail_init l m h) l []"
    using init [OF 2] l assms e
    by (auto simp: dlist_splice_tail_init_def dlist_splice_tail_def list_init_ring split: if_splits)
qed

lemma init_other_ring:
  assumes "ring h m ws" and "l \<notin> set (m # ws)"
  shows "ring (list_init l h) m ws" "ring (init_list_head l h) m ws"
proof -
  have "n \<noteq> l" if "n \<in> insert m (set ws)" for n using that assms(2) by auto
  then show "ring (list_init l h) m ws" "ring (init_list_head l h) m ws"
    by (auto intro!: ring_frame [OF assms(1)] Mem_List.init_same)
qed

lemma list_empty_ring: "ring h l xs \<Longrightarrow> list_empty l h \<longleftrightarrow> xs = []" "ring h l xs \<Longrightarrow> dlist_empty l h \<longleftrightarrow> xs = []"
  using ring_head_links [of h l xs]
  by (auto simp: list_empty_def dlist_empty_def hd_append ring_def)

lemma list_insert_list_after_ring:
  assumes "ring h l xs" and "ring h m (ys @ zs)" and "set (l # xs) \<inter> set (m # ys @ zs) = {}"
  shows "ring (list_insert_list_after l (last (m # ys)) h) m (ys @ xs @ zs) \<and>
         ring (list_insert_list_after l (last (m # ys)) h) l []"
proof (cases "xs = []")
  case True
  then show ?thesis using assms list_empty_ring [OF assms(1)] by (simp add: list_insert_list_after_def)
next
  case False
  let ?p = "last (m # ys)" and ?q = "hd (zs @ [m])"
  let ?h = "set_next ?p (hd xs) (set_prev (hd xs) ?p (set_prev ?q (last xs) (set_next (last xs) ?q h)))"
  have "?p \<in> set (m # ys)" "?q \<in> set (zs @ [m])" "hd xs \<in> set xs" "last xs \<in> set xs"
    by (rule cut_ends_in hd_in_set last_in_set False)+
  then have ne: "last xs \<noteq> ?p" "hd xs \<noteq> ?q" "l \<noteq> ?p" "l \<noteq> ?q" "l \<noteq> last xs" "l \<noteq> hd xs"
    using assms by (auto simp: ring_def)
  have q: "nxt h ?p = ?q" using assms(2) unfolding ring_split by blast
  have w: "nxt h l = hd xs" "prv h l = last xs"
    using ring_head_links [OF assms(1)] False by simp_all
  have "list_insert_list_after l ?p h = list_init l ?h"
    using False ne w list_empty_ring [OF assms(1)]
    by (simp add: list_insert_list_after_def Let_def q del: last.simps)
  moreover have "ring ?h m (ys @ xs @ zs)"
    using ne by (intro ring_splice [OF assms(1) False assms(2,3) refl refl]) (auto simp del: last.simps)
  moreover have "l \<notin> set (m # ys @ xs @ zs)" using assms by (auto simp: ring_def)
  ultimately show ?thesis using init_other_ring(1) list_init_ring(1) by metis
qed

lemma list_move_ring:
  assumes "ring h src xs" and "to \<notin> set (src # xs)"
  shows "ring (list_move to src h) to xs \<and> ring (list_move to src h) src []"
proof -
  have "ring (list_init to h) src xs" "ring (list_init to h) to ([] @ [])"
    using assms by (simp_all add: init_other_ring list_init_ring)
  from list_insert_list_after_ring [OF this] assms
  have "ring (list_insert_list_after src to (list_init to h)) to xs" by auto
  moreover have "src \<notin> set (to # xs)" using assms by (auto simp: ring_def)
  ultimately show ?thesis by (simp add: list_move_def init_other_ring list_init_ring)
qed

lemma dlist_replace_ring:
  assumes ring: "ring h l (ys @ old # zs)" and n: "n \<notin> set (l # ys @ old # zs)"
  shows "ring (dlist_replace old n h) l (ys @ n # zs)"
proof -
  let ?p = "last (l # ys)" and ?q = "hd (zs @ [l])"
  note nb = ring_neighbours [OF ring]
  have dist: "distinct (l # ys @ old # zs)" using ring by (simp add: ring_def)
  have "?p \<in> set (l # ys)" "?q \<in> set (zs @ [l])" by (rule cut_ends_in)+
  then have ne: "n \<noteq> ?p" "n \<noteq> ?q" "old \<noteq> ?p" "old \<noteq> ?q" "n \<noteq> old" using dist n by auto
  have "ring (dlist_del old h) l (ys @ zs)" by (rule list_remove_ring [OF ring])
  moreover have "n \<notin> set (l # ys @ zs)" using n by simp
  ultimately have "ring (set_next ?p n (set_prev ?q n (set_prev n ?p (set_next n ?q (dlist_del old h))))) l (ys @ n # zs)"
    by (rule insert_between_ring) (rule refl)+
  then show ?thesis
    by (rule ring_frame)
      (use ne in \<open>auto simp: same_links_def dlist_replace_def dlist_del_def dlist_del_between_def Let_def nb
         simp del: last.simps\<close>)
qed

lemma dlist_move_ring:
  assumes "ring h l (ys @ n # zs)"
  shows "ring (dlist_move n l h) l (n # ys @ zs)" and "ring (dlist_move_tail n l h) l (ys @ zs @ [n])"
proof -
  have "ring (dlist_del_entry n h) l (ys @ zs)" by (rule list_remove_ring [OF assms])
  moreover have "n \<notin> set (l # ys @ zs)" using assms by (auto simp: ring_def)
  ultimately show "ring (dlist_move n l h) l (n # ys @ zs)" "ring (dlist_move_tail n l h) l (ys @ zs @ [n])"
    using add_ring [of "dlist_del_entry n h" l "ys @ zs" n]
    by (simp_all add: dlist_move_def dlist_move_tail_def)
qed

lemma dlist_rotate_left_ring:
  assumes "ring h l xs"
  shows "ring (dlist_rotate_left l h) l (rotate1 xs)"
  using assms list_empty_ring [OF assms] ring_head_links [OF assms] dlist_move_ring(2) [of h l "[]"]
  by (cases xs) (auto simp: dlist_rotate_left_def)

lemma dlist_cut_ring:
  assumes ring: "ring h head (ys @ entry # zs)" and l: "l \<notin> set (head # ys @ entry # zs)"
  shows "ring (dlist_cut_position l head entry h) l (ys @ [entry]) \<and>
         ring (dlist_cut_position l head entry h) head zs"
proof -
  let ?h = "dlist_cut_position l head entry h" and ?f = "hd (ys @ [entry])" and ?q = "hd (zs @ [head])"
  have dist: "distinct (head # ys @ entry # zs)" using ring by (simp add: ring_def)
  have "?f \<in> set (ys @ [entry])" "?q \<in> set (zs @ [head])" by (rule cut_ends_in)+
  then have ne: "?f \<noteq> head" "?q \<noteq> entry" "?f \<noteq> ?q" "?f \<noteq> l" "?q \<noteq> l" "l \<noteq> head" "l \<noteq> entry" "entry \<noteq> head"
    using dist l by auto
  have links: "nxt h head = ?f" "nxt h entry = ?q" "prv h head = last (head # ys @ entry # zs)"
    using ring_head_links [OF ring] ring_neighbours [OF ring] by (simp_all add: hd_append)
  have "dlist_is_singular head h \<Longrightarrow> nxt h head = entry"
  proof (rule ccontr)
    assume sing: "dlist_is_singular head h" and "nxt h head \<noteq> entry"
    then have "hd ys = last (entry # zs)" "ys \<noteq> []"
      using links by (auto simp: dlist_is_singular_def hd_append split: if_splits)
    moreover have "last (entry # zs) \<in> set (entry # zs)" by (rule cut_ends_in)
    moreover have "set ys \<inter> set (entry # zs) = {}" using dist by auto
    ultimately show False using hd_in_set [of ys] by (metis disjoint_iff)
  qed
  then have "?h = dlist_cut_at l head entry h"
    using ne links list_empty_ring(2) [OF ring] by (auto simp: dlist_cut_position_def)
  then have nxt': "nxt ?h n = (if n = head then ?q else if n = entry then l else if n = l then ?f else nxt h n)"
    and prv': "prv ?h n = (if n = ?q then head else if n = l then entry else if n = ?f then l else prv h n)" for n
    using ne by (auto simp: dlist_cut_at_def Let_def links)
  have "chain h ([head] @ ((ys @ [entry]) @ (zs @ [head])))" using ring by (simp add: ring_def)
  then have segs: "chain h (ys @ [entry])" "chain h (zs @ [head])"
    by (simp_all only: chain_append [of "[head]"] chain_append [of "ys @ [entry]" "zs @ [head]"] append_is_Nil_conv
        not_Cons_self2 list.simps simp_thms)
  have "chain ?h (ys @ [entry])"
    by (rule chain_segment [OF segs(1)]) (use dist l ne cut_ends_in(2) [of zs head] in \<open>auto simp: nxt' prv'\<close>)
  then have "chain ?h ([l] @ (ys @ [entry]) @ [l])"
  proof -
    assume c: "chain ?h (ys @ [entry])"
    have "hd ((ys @ [entry]) @ [l]) = ?f" by (simp add: hd_append)
    moreover have "chain ?h ((ys @ [entry]) @ [l])" using c ne by (simp add: chain_append nxt' prv' del: append_assoc)
    ultimately show ?thesis using ne by (subst chain_append) (simp_all add: nxt' prv' del: append_assoc)
  qed
  moreover have "chain ?h (zs @ [head])"
    by (rule chain_segment [OF segs(2)]) (use dist l ne cut_ends_in(2) [of ys entry] in \<open>auto simp: nxt' prv'\<close>)
  then have "chain ?h ([head] @ zs @ [head])"
    by (subst chain_append) (simp_all add: nxt' prv')
  ultimately show ?thesis using dist l by (auto simp: ring_def)
qed

lemma walk_from_chain:
  "chain h (x # xs @ [l]) \<Longrightarrow> l \<notin> set xs \<Longrightarrow> walk_from (Suc (length xs)) (nxt h) l (nxt h x) = Some xs"
  by (induction xs arbitrary: x) auto

lemma walk_back_chain:
  "chain h (l # xs @ [y]) \<Longrightarrow> l \<notin> set xs \<Longrightarrow> walk_from (Suc (length xs)) (prv h) l (prv h y) = Some (rev xs)"
proof (induction xs arbitrary: y rule: rev_induct)
  case (snoc x xs)
  have "chain h ((l # xs @ [x]) @ [y])" using snoc.prems by simp
  then have "chain h (l # xs @ [x])" "prv h y = x" by (subst (asm) chain_append; simp)+
  with snoc show ?case by simp
qed simp

text \<open>A ring is its list: walking it either way visits exactly its nodes, in order.\<close>

lemma ring_walk:
  assumes "ring h l xs"
  shows "list_walk (Suc (length xs)) l h = Some xs"
    and "walk_from (Suc (length xs)) (prv h) l (prv h l) = Some (rev xs)"
  using assms walk_from_chain [of h l xs l] walk_back_chain [of h l xs l]
  by (simp_all add: ring_def list_walk_def)

lemma debug_remove_ring:
  assumes "ring h l (ys @ n # zs)"
  shows "ring (debug_list_remove n h) l (ys @ zs)" and "ring (debug_dlist_del n h) l (ys @ zs)"
proof -
  note nb = ring_neighbours [OF assms]
  have dist: "distinct (l # ys @ n # zs)" using assms by (simp add: ring_def)
  have "last (l # ys) \<in> set (l # ys)" "hd (zs @ [l]) \<in> set (zs @ [l])" by (rule cut_ends_in)+
  then have ne: "last (l # ys) \<noteq> n" "hd (zs @ [l]) \<noteq> n" using dist by auto
  show "ring (debug_list_remove n h) l (ys @ zs)" "ring (debug_dlist_del n h) l (ys @ zs)"
    using ne by (intro ring_remove [OF assms refl refl];
        simp add: debug_list_remove_def debug_dlist_del_def Let_def nb del: last.simps)+
qed

lemma list_remove_head_ring:
  assumes "ring h l xs" and "ADDR_NULL \<notin> set xs"
  shows "fst (list_remove_head l h) = (case xs of [] \<Rightarrow> ADDR_NULL | x # _ \<Rightarrow> x) \<and>
    ring (snd (list_remove_head l h)) l (tl xs)"
proof -
  have hd: "list_head l h = (case xs of [] \<Rightarrow> ADDR_NULL | x # _ \<Rightarrow> x)"
    using ring_head_links [OF assms(1)] assms(1)
    by (auto simp: list_head_def ring_def split: list.splits)
  show ?thesis
    using list_remove_ring(1) [of h l "[]"] assms
    by (cases xs) (auto simp: list_remove_head_def Let_def hd)
qed

section \<open>Correctness of the rings\<close>

text \<open>
  C23: Any sequence of initialisations, insertions at the head and removals, on any number of
  lists that share no nodes, from any initial memory, leaves every list a well-formed ring
  whose forward walk visits exactly the nodes of the abstract sequence, in order, and whose
  backward walk visits them in reverse. This holds for \<^verbatim>\<open>struct list\<close> and for
  \<^verbatim>\<open>struct dlist\<close>.
\<close>

theorem list_runs_refine:
  assumes "list_run (\<lambda>n. True) id id Map.empty cs A" and "A l = Some xs"
  shows "(let h' = fold (list_exec list_init (\<lambda>n l. list_add_head l n) list_remove) cs h in
      list_walk (Suc (length xs)) l h' = Some xs \<and>
      walk_from (Suc (length xs)) (prv h') l (prv h' l) = Some (rev xs)) \<and>
    (let h' = fold (list_exec init_list_head dlist_add dlist_del) cs h in
      list_walk (Suc (length xs)) l h' = Some xs \<and>
      walk_from (Suc (length xs)) (prv h') l (prv h' l) = Some (rev xs))"
  using ring_walk [OF list.run_holds [OF assms]] ring_walk [OF dlist.run_holds [OF assms]]
  by (simp add: Let_def)

lemma list_demo_run:
  assumes "valid 10" "valid 11" "valid 20"
    and "\<And>l m. hcell l = hcell m \<longleftrightarrow> l = m" "\<And>l m. ncell l = ncell m \<longleftrightarrow> l = m"
      "hcell 1 \<notin> ncell ` {10, 11, 20}" "hcell 2 \<notin> ncell ` {10, 11, 20}"
  shows "\<exists>A. list_run valid hcell ncell Map.empty [Init 1, Init 2, Add 10 1, Add 11 1, Add 20 2, Remove 10] A \<and>
    A (1 :: addr) = Some [11 :: addr] \<and> A 2 = Some [20]"
proof -
  let ?A1 = "Map.empty(1 \<mapsto> [])" and ?A2 = "Map.empty(1 \<mapsto> [], 2 \<mapsto> [])"
  let ?A3 = "?A2(1 \<mapsto> [10])" and ?A4 = "?A2(1 \<mapsto> [10], 1 \<mapsto> [11, 10])"
  let ?A5 = "?A4(2 \<mapsto> [20])" and ?A6 = "?A4(2 \<mapsto> [20], 1 \<mapsto> [11] @ [])"
  have cells: "list_step valid hcell ncell Map.empty (Init 1) ?A1" "list_step valid hcell ncell ?A1 (Init 2) ?A2"
    by (rule step_Init; auto simp: owned_def list_cells_def assms(4) split: if_splits)+
  have "list_step valid hcell ncell ?A2 (Add 10 1) ?A3"
    by (rule step_Add; use assms in \<open>auto simp: owned_def list_cells_def split: if_splits\<close>)
  moreover have "list_step valid hcell ncell ?A3 (Add 11 1) ?A4"
    by (rule step_Add; use assms in \<open>auto simp: owned_def list_cells_def split: if_splits\<close>)
  moreover have "list_step valid hcell ncell ?A4 (Add 20 2) ?A5"
    by (rule step_Add; use assms in \<open>auto simp: owned_def list_cells_def split: if_splits\<close>)
  moreover have "list_step valid hcell ncell ?A5 (Remove 10) ?A6"
    by (rule step_Remove) simp
  ultimately have "list_run valid hcell ncell Map.empty [Init 1, Init 2, Add 10 1, Add 11 1, Add 20 2, Remove 10] ?A6"
    using cells by (blast intro: run_Cons run_Nil)
  then show ?thesis by (intro exI [of _ ?A6] conjI) simp_all
qed

theorem list_runs_refine_witness:
  "list_walk 2 1 (fold (list_exec list_init (\<lambda>n l. list_add_head l n) list_remove)
     [Init 1, Init 2, Add 10 1, Add 11 1, Add 20 2, Remove 10] \<lparr>nxt = \<lambda>n. n + 3, prv = \<lambda>n. 7\<rparr>) = Some [11]"
proof -
  obtain A where "list_run (\<lambda>n. True) id id Map.empty [Init 1, Init 2, Add 10 1, Add 11 1, Add 20 2, Remove 10] A"
    and "A (1 :: addr) = Some [11 :: addr]"
    using list_demo_run [of "\<lambda>n. True" id id] by auto
  from list_runs_refine [OF this, of "\<lparr>nxt = \<lambda>n. n + 3, prv = \<lambda>n. 7\<rparr>"] show ?thesis
    by (simp add: Let_def numeral_2_eq_2)
qed

text \<open>
  The operations that take lists apart and join them: with a list \<open>l\<close>, a disjoint list
  \<open>m\<close> that contains \<open>n\<close>, and a node \<open>e\<close> in neither, splicing, cutting after \<open>n\<close>,
  replacing \<open>n\<close> by \<open>e\<close>, moving \<open>n\<close> to either end, rotating, moving a whole list to a
  new head, and the poisoning removal give exactly the lists the operations promise.
\<close>

theorem dlist_surgery_correct:
  assumes l: "ring h l xs" and m: "ring h m (ys @ n # zs)"
    and disj: "set (l # xs) \<inter> set (m # ys @ n # zs) = {}"
    and e: "e \<notin> set (l # xs)" "e \<notin> set (m # ys @ n # zs)"
  shows "ring (list_splice_init l m h) m (xs @ ys @ n # zs) \<and> ring (list_splice_init l m h) l [] \<and>
    ring (dlist_splice_tail_init l m h) m (ys @ n # zs @ xs) \<and> ring (dlist_splice_tail_init l m h) l [] \<and>
    ring (list_insert_list_after l n h) m (ys @ n # xs @ zs) \<and> ring (list_insert_list_after l n h) l [] \<and>
    ring (dlist_cut_position e m n h) e (ys @ [n]) \<and> ring (dlist_cut_position e m n h) m zs \<and>
    ring (dlist_replace_init n e h) m (ys @ e # zs) \<and> ring (dlist_replace_init n e h) n [] \<and>
    ring (dlist_del_init n h) m (ys @ zs) \<and> ring (dlist_del_init n h) n [] \<and>
    ring (dlist_move n m h) m (n # ys @ zs) \<and> ring (dlist_move_tail n m h) m (ys @ zs @ [n]) \<and>
    ring (dlist_rotate_left l h) l (rotate1 xs) \<and>
    ring (list_move e l h) e xs \<and> ring (list_move e l h) l [] \<and>
    ring (debug_list_remove n h) m (ys @ zs) \<and> ring (debug_dlist_del n h) m (ys @ zs)"
proof -
  have n: "n \<notin> set (m # ys @ zs)" "n \<notin> set (m # ys @ e # zs)" using m e by (auto simp: ring_def)
  have ins: "ring (list_insert_list_after l n h) m (ys @ n # xs @ zs) \<and> ring (list_insert_list_after l n h) l []"
    using list_insert_list_after_ring [of h l xs m "ys @ [n]" zs] l m disj by simp
  note facts = splice_ring(3,4) [OF l m disj] ins dlist_cut_ring [OF m e(2)]
    init_other_ring(2) [OF dlist_replace_ring [OF m e(2)] n(2)]
    init_other_ring(2) [OF list_remove_ring(3) [OF m] n(1)]
    dlist_move_ring [OF m] dlist_rotate_left_ring [OF l] list_move_ring [OF l e(1)]
    debug_remove_ring [OF m]
  show ?thesis
    using facts by (simp add: dlist_replace_init_def dlist_del_init_def list_init_ring)
qed

theorem dlist_surgery_correct_witness:
  "let h = fold (list_exec init_list_head dlist_add_tail dlist_del) [Init 1, Add 3 1, Add 4 1, Init 2, Add 5 2]
     \<lparr>nxt = \<lambda>n. 0, prv = \<lambda>n. 0\<rparr>
   in ring (dlist_cut_position 9 1 3 h) 9 [3] \<and> ring (dlist_cut_position 9 1 3 h) 1 [4]"
proof -
  let ?h = "fold (list_exec init_list_head dlist_add_tail dlist_del) [Init 1, Add 3 1, Add 4 1, Init 2, Add 5 2]
     \<lparr>nxt = \<lambda>n. 0, prv = \<lambda>n. 0\<rparr>"
  have "ring ?h 2 [5]" "ring ?h 1 ([] @ 3 # [4])"
    by (simp_all add: ring_def init_list_head_def dlist_add_tail_def dlist_add_between_def)
  from dlist_surgery_correct [OF this, of 9] show ?thesis by (simp add: Let_def)
qed

end
