(* ===== verification/Hlist.thy ===== *)
theory Hlist
  imports Mem_List
begin

text \<open>
  Model of \<^verbatim>\<open>struct hlist\<close> of \<^verbatim>\<open>mem/list.h\<close>, the singly headed list of the hash
  tables. The back link of a node is a pointer to the pointer that leads to the node, either
  the \<^verbatim>\<open>first\<close> field of the list or the \<^verbatim>\<open>next\<close> field of the node before; it is
  modelled as a reference to one of these fields. Stores through a null or poisoned reference
  are undefined in C and give \<open>None\<close>.
\<close>

datatype href = Null_ref | Poison_ref | First_of addr | Next_of addr

record hheap =
  hnext :: "addr \<Rightarrow> addr"
  hprev :: "addr \<Rightarrow> href"
  first :: "addr \<Rightarrow> addr"

definition set_hnext :: "addr \<Rightarrow> addr \<Rightarrow> hheap \<Rightarrow> hheap" where
  "set_hnext n v h = h\<lparr>hnext := (hnext h)(n := v)\<rparr>"

definition set_hprev :: "addr \<Rightarrow> href \<Rightarrow> hheap \<Rightarrow> hheap" where
  "set_hprev n v h = h\<lparr>hprev := (hprev h)(n := v)\<rparr>"

definition set_first :: "addr \<Rightarrow> addr \<Rightarrow> hheap \<Rightarrow> hheap" where
  "set_first l v h = h\<lparr>first := (first h)(l := v)\<rparr>"

fun store_ref :: "href \<Rightarrow> addr \<Rightarrow> hheap \<Rightarrow> hheap option" where
  "store_ref (First_of l) v h = Some (set_first l v h)"
| "store_ref (Next_of n) v h = Some (set_hnext n v h)"
| "store_ref _ v h = None"

definition init_hlist_head :: "addr \<Rightarrow> hheap \<Rightarrow> hheap" where
  "init_hlist_head l h = set_first l ADDR_NULL h"

definition init_hlist_node :: "addr \<Rightarrow> hheap \<Rightarrow> hheap" where
  "init_hlist_node n h = set_hprev n Null_ref (set_hnext n ADDR_NULL h)"

definition hlist_unhashed :: "addr \<Rightarrow> hheap \<Rightarrow> bool" where
  "hlist_unhashed n h \<longleftrightarrow> hprev h n = Null_ref"

definition hlist_empty :: "addr \<Rightarrow> hheap \<Rightarrow> bool" where
  "hlist_empty l h \<longleftrightarrow> first h l = ADDR_NULL"

definition hlist_unlink :: "addr \<Rightarrow> hheap \<Rightarrow> hheap option" where
  "hlist_unlink n h =
     (let nx = hnext h n; pv = hprev h n in
      map_option (\<lambda>h. if nx \<noteq> ADDR_NULL then set_hprev nx pv h else h) (store_ref pv nx h))"

definition hlist_del :: "addr \<Rightarrow> hheap \<Rightarrow> hheap option" where
  "hlist_del n h =
     map_option (\<lambda>h. set_hprev n Poison_ref (set_hnext n ADDR_POISON1 h)) (hlist_unlink n h)"

definition hlist_del_init :: "addr \<Rightarrow> hheap \<Rightarrow> hheap option" where
  "hlist_del_init n h =
     (if \<not> hlist_unhashed n h then map_option (init_hlist_node n) (hlist_unlink n h) else Some h)"

definition hlist_add_head :: "addr \<Rightarrow> addr \<Rightarrow> hheap \<Rightarrow> hheap" where
  "hlist_add_head n l h =
     (let f = first h l;
          h = set_hnext n f h;
          h = (if f \<noteq> ADDR_NULL then set_hprev f (Next_of n) h else h);
          h = set_first l n h
      in set_hprev n (First_of l) h)"

definition hlist_add_before :: "addr \<Rightarrow> addr \<Rightarrow> hheap \<Rightarrow> hheap option" where
  "hlist_add_before n nx h =
     (let h = set_hprev n (hprev h nx) h;
          h = set_hnext n nx h;
          h = set_hprev nx (Next_of n) h
      in store_ref (hprev h n) n h)"

definition hlist_add_after :: "addr \<Rightarrow> addr \<Rightarrow> hheap \<Rightarrow> hheap" where
  "hlist_add_after n nx h =
     (let h = set_hnext nx (hnext h n) h;
          h = set_hnext n nx h;
          h = set_hprev nx (Next_of n) h
      in if hnext h nx \<noteq> ADDR_NULL then set_hprev (hnext h nx) (Next_of nx) h else h)"

definition hlist_add_fake :: "addr \<Rightarrow> hheap \<Rightarrow> hheap" where
  "hlist_add_fake n h = set_hprev n (Next_of n) h"

definition hlist_move_list :: "addr \<Rightarrow> addr \<Rightarrow> hheap \<Rightarrow> hheap" where
  "hlist_move_list old n h =
     (let h = set_first n (first h old) h;
          h = (if first h n \<noteq> ADDR_NULL then set_hprev (first h n) (First_of n) h else h)
      in set_first old ADDR_NULL h)"

section \<open>Bucket lists\<close>

fun load_ref :: "href \<Rightarrow> hheap \<Rightarrow> addr" where
  "load_ref (First_of l) h = first h l"
| "load_ref (Next_of n) h = hnext h n"
| "load_ref _ h = ADDR_NULL"

fun hchain :: "hheap \<Rightarrow> href \<Rightarrow> addr list \<Rightarrow> bool" where
  "hchain h r [] = (load_ref r h = ADDR_NULL)"
| "hchain h r (x # xs) = (x \<noteq> ADDR_NULL \<and> load_ref r h = x \<and> hprev h x = r \<and> hchain h (Next_of x) xs)"

definition bucket :: "hheap \<Rightarrow> addr \<Rightarrow> addr list \<Rightarrow> bool" where
  "bucket h l xs \<longleftrightarrow> hchain h (First_of l) xs \<and> distinct xs"

lemma hheap_simps [simp]:
  "hnext (set_hnext n v h) m = (if m = n then v else hnext h m)"
  "hprev (set_hnext n v h) = hprev h" "first (set_hnext n v h) = first h"
  "hprev (set_hprev n r h) m = (if m = n then r else hprev h m)"
  "hnext (set_hprev n r h) = hnext h" "first (set_hprev n r h) = first h"
  "first (set_first l v h) m = (if m = l then v else first h m)"
  "hnext (set_first l v h) = hnext h" "hprev (set_first l v h) = hprev h"
  by (simp_all add: set_hnext_def set_hprev_def set_first_def)

text \<open>The references that lead to the nodes of a chain, and the one that ends it.\<close>

fun href_of :: "href \<Rightarrow> addr list \<Rightarrow> href" where
  "href_of r [] = r"
| "href_of r (x # xs) = href_of (Next_of x) xs"

lemma href_of_snoc [simp]: "href_of r (xs @ [x]) = Next_of x"
  by (induction xs arbitrary: r) auto

lemma href_of_cases: "href_of r xs = r \<and> xs = [] \<or> (\<exists>x \<in> set xs. href_of r xs = Next_of x)"
  by (cases xs rule: rev_cases) auto

text \<open>A chain up to a node, without what follows.\<close>

fun hseg :: "hheap \<Rightarrow> href \<Rightarrow> addr list \<Rightarrow> bool" where
  "hseg h r [] = True"
| "hseg h r (x # xs) = (x \<noteq> ADDR_NULL \<and> load_ref r h = x \<and> hprev h x = r \<and> hseg h (Next_of x) xs)"

lemma hchain_append: "hchain h r (xs @ ys) \<longleftrightarrow> hseg h r xs \<and> hchain h (href_of r xs) ys"
  by (induction xs arbitrary: r) auto

lemma bucket_split:
  "bucket h l (ys @ zs) \<longleftrightarrow> hseg h (First_of l) ys \<and> hchain h (href_of (First_of l) ys) zs \<and> distinct (ys @ zs)"
  by (auto simp: bucket_def hchain_append)

lemma hseg_cong:
  "(xs \<noteq> [] \<Longrightarrow> load_ref r h' = load_ref r h) \<Longrightarrow> (\<And>m. m \<in> set (butlast xs) \<Longrightarrow> hnext h' m = hnext h m) \<Longrightarrow>
   (\<And>m. m \<in> set xs \<Longrightarrow> hprev h' m = hprev h m) \<Longrightarrow> hseg h' r xs = hseg h r xs"
proof (induction xs arbitrary: r)
  case (Cons x xs)
  have "hseg h' (Next_of x) xs = hseg h (Next_of x) xs"
  proof (rule Cons.IH)
    fix m assume "m \<in> set (butlast xs)"
    then have "m \<in> set (butlast (x # xs))" by auto
    then show "hnext h' m = hnext h m" by (rule Cons.prems)
  qed (use Cons.prems in auto)
  then show ?case using Cons.prems by auto
qed simp

lemma hchain_cong:
  "(\<And>m. m \<in> set (z # zs) \<Longrightarrow> hnext h' m = hnext h m) \<Longrightarrow> (\<And>m. m \<in> set zs \<Longrightarrow> hprev h' m = hprev h m) \<Longrightarrow>
   hchain h' (Next_of z) zs = hchain h (Next_of z) zs"
  by (induction zs arbitrary: z) auto

definition next_in :: "addr list \<Rightarrow> addr" where
  "next_in zs = (case zs of [] \<Rightarrow> ADDR_NULL | z # _ \<Rightarrow> z)"

lemma bucket_node:
  assumes "bucket h l (ys @ n # zs)"
  shows "hprev h n = href_of (First_of l) ys" and "hnext h n = next_in zs" and "n \<noteq> ADDR_NULL"
  using assms by (auto simp: bucket_split next_in_def split: list.splits)

text \<open>
  A front segment is not touched by a store to the reference that ends it, nor by changes
  outside of it.
\<close>

lemma hseg_front:
  assumes "hseg h (First_of l) ys" and "distinct ys"
    and "\<And>m. Next_of m \<noteq> href_of (First_of l) ys \<Longrightarrow> m \<in> set ys \<Longrightarrow> hnext h' m = hnext h m"
    and "ys \<noteq> [] \<Longrightarrow> first h' l = first h l"
    and "\<And>m. m \<in> set ys \<Longrightarrow> hprev h' m = hprev h m"
  shows "hseg h' (First_of l) ys"
proof -
  have "hseg h' (First_of l) ys = hseg h (First_of l) ys"
  proof (rule hseg_cong)
    fix m assume m: "m \<in> set (butlast ys)"
    then obtain zs x where ys: "ys = zs @ [x]" by (cases ys rule: rev_cases) auto
    with m assms(2) show "hnext h' m = hnext h m" by (intro assms(3)) auto
  qed (use assms in auto)
  with assms(1) show ?thesis by simp
qed

text \<open>
  The list after the reference \<open>r\<close> that leads to position \<open>ys\<close> is given a new tail;
  the nodes whose links change otherwise are in \<open>N\<close>.
\<close>

lemma bucket_retarget:
  assumes b: "bucket h l (ys @ zs)" and r: "r = href_of (First_of l) ys"
    and nx: "\<And>m. m \<notin> N \<Longrightarrow> Next_of m \<noteq> r \<Longrightarrow> hnext h' m = hnext h m"
    and fi: "r \<noteq> First_of l \<Longrightarrow> first h' l = first h l"
    and pv: "\<And>m. m \<notin> N \<Longrightarrow> hprev h' m = hprev h m"
    and N: "set ys \<inter> N = {}" and tail: "hchain h' r ws" and dist: "distinct (ys @ ws)"
  shows "bucket h' l (ys @ ws)"
proof -
  have "hseg h' (First_of l) ys"
  proof (rule hseg_front)
    show "hseg h (First_of l) ys" "distinct ys" using b by (auto simp: bucket_split)
    show "hnext h' m = hnext h m" if "Next_of m \<noteq> href_of (First_of l) ys" "m \<in> set ys" for m
      using that N by (intro nx) (auto simp: r)
    show "first h' l = first h l" if "ys \<noteq> []"
    proof (rule fi)
      show "r \<noteq> First_of l" using that by (cases ys rule: rev_cases) (simp_all add: r)
    qed
    show "hprev h' m = hprev h m" if "m \<in> set ys" for m using that N by (intro pv) auto
  qed
  then show ?thesis using tail dist by (simp add: bucket_split r)
qed

lemma href_of_First: "href_of (First_of l) ys = First_of l \<or> (\<exists>x \<in> set ys. href_of (First_of l) ys = Next_of x)"
  using href_of_cases [of "First_of l" ys] by auto

lemma hlist_unlink_bucket:
  assumes b: "bucket h l (ys @ n # zs)"
  obtains h' where "hlist_unlink n h = Some h'" and "bucket h' l (ys @ zs)"
    and "\<And>m. m \<notin> set (ys @ n # zs) \<Longrightarrow> hnext h' m = hnext h m \<and> hprev h' m = hprev h m"
    and "\<And>m. m \<noteq> l \<Longrightarrow> first h' m = first h m"
proof -
  let ?r = "href_of (First_of l) ys" and ?x = "next_in zs"
  note nd = bucket_node [OF b]
  have dist: "distinct (ys @ n # zs)" using b by (simp add: bucket_def)
  obtain g where g: "store_ref ?r ?x h = Some g" using href_of_First [of l ys] by auto
  let ?h = "if ?x \<noteq> ADDR_NULL then set_hprev ?x ?r g else g"
  have un: "hlist_unlink n h = Some ?h" by (simp add: hlist_unlink_def nd g)
  have gs: "hprev g = hprev h" "\<And>m. Next_of m \<noteq> ?r \<Longrightarrow> hnext g m = hnext h m"
    "\<And>m. First_of m \<noteq> ?r \<Longrightarrow> first g m = first h m" "load_ref ?r g = ?x"
    using g href_of_First [of l ys] by auto
  have x: "?x \<noteq> ADDR_NULL \<Longrightarrow> ?x \<in> set zs" by (auto simp: next_in_def split: list.splits)
  have tail0: "hchain h (Next_of n) zs" using b by (simp add: bucket_split)
  have rn: "Next_of m \<noteq> ?r" if "m \<in> set (n # zs)" for m
    using that href_of_First [of l ys] dist by auto
  have "hchain ?h ?r zs"
  proof (cases zs)
    case Nil
    then show ?thesis using gs(4) by (simp add: next_in_def)
  next
    case (Cons z zs')
    have "z \<noteq> ADDR_NULL" and c: "hchain h (Next_of z) zs'" using tail0 Cons by auto
    moreover have "hchain ?h (Next_of z) zs' = hchain h (Next_of z) zs'"
      using Cons dist rn gs by (intro hchain_cong) (auto simp: next_in_def)
    moreover have "load_ref ?r ?h = load_ref ?r g" by (cases ?r) auto
    ultimately show ?thesis using Cons gs(4) by (simp add: next_in_def)
  qed
  then have "bucket ?h l (ys @ zs)"
    using dist gs x by (intro bucket_retarget [OF b refl, where N = "set zs"]) auto
  then show ?thesis
  proof (rule that [OF un])
    show "hnext ?h m = hnext h m \<and> hprev ?h m = hprev h m" if "m \<notin> set (ys @ n # zs)" for m
    proof -
      have "Next_of m \<noteq> ?r" using that href_of_First [of l ys] by auto
      then show ?thesis using that gs x by auto
    qed
    show "first ?h m = first h m" if "m \<noteq> l" for m
      using that gs(3) [of m] href_of_First [of l ys] by auto
  qed
qed

fun same_cell :: "hheap \<Rightarrow> hheap \<Rightarrow> addr + addr \<Rightarrow> bool" where
  "same_cell h h' (Inl l) = (first h' l = first h l)"
| "same_cell h h' (Inr n) = (hnext h' n = hnext h n \<and> hprev h' n = hprev h n)"

lemma bucket_frame:
  assumes b: "bucket h l xs" and "first h' l = first h l"
    and "\<And>n. n \<in> set xs \<Longrightarrow> hnext h' n = hnext h n \<and> hprev h' n = hprev h n"
  shows "bucket h' l xs"
proof -
  have "hchain h' (First_of l) xs = hchain h (First_of l) xs"
  proof (cases xs)
    case (Cons x xs')
    then have "hchain h' (Next_of x) xs' = hchain h (Next_of x) xs'"
      using assms(3) by (intro hchain_cong) auto
    then show ?thesis using Cons assms(2,3) by simp
  qed (use assms(2) in simp)
  then show ?thesis using b by (simp add: bucket_def)
qed

definition hlist_remove :: "addr \<Rightarrow> hheap \<Rightarrow> hheap" where
  "hlist_remove n h = (case hlist_del n h of Some h' \<Rightarrow> h' | None \<Rightarrow> h)"

lemma hlist_del_bucket:
  assumes b: "bucket h l (ys @ n # zs)"
  obtains h' where "hlist_del n h = Some h'" and "hlist_remove n h = h'" and "bucket h' l (ys @ zs)"
    and "\<And>m. m \<notin> set (ys @ n # zs) \<Longrightarrow> hnext h' m = hnext h m \<and> hprev h' m = hprev h m"
    and "\<And>m. m \<noteq> l \<Longrightarrow> first h' m = first h m"
proof -
  obtain g where g: "hlist_unlink n h = Some g" "bucket g l (ys @ zs)"
    and same: "\<And>m. m \<notin> set (ys @ n # zs) \<Longrightarrow> hnext g m = hnext h m \<and> hprev g m = hprev h m"
      "\<And>m. m \<noteq> l \<Longrightarrow> first g m = first h m"
    by (rule hlist_unlink_bucket [OF b]) blast
  let ?h = "set_hprev n Poison_ref (set_hnext n ADDR_POISON1 g)"
  have del: "hlist_del n h = Some ?h" by (simp add: hlist_del_def g)
  have "n \<notin> set (ys @ zs)" using b by (simp add: bucket_def)
  then have "bucket ?h l (ys @ zs)" by (intro bucket_frame [OF g(2)]) auto
  with del show ?thesis using same by (intro that [of ?h]) (auto simp: hlist_remove_def)
qed

lemma hlist_add_head_bucket:
  assumes b: "bucket h l xs" and n: "n \<notin> set xs" "n \<noteq> ADDR_NULL"
  shows "bucket (hlist_add_head n l h) l (n # xs)"
proof (cases xs)
  case Nil
  then show ?thesis using b n by (simp add: bucket_def hlist_add_head_def)
next
  case (Cons x xs')
  let ?h = "hlist_add_head n l h"
  have x: "x \<noteq> ADDR_NULL" "first h l = x" and tail: "hchain h (Next_of x) xs'" and "distinct (x # xs')"
    using b Cons by (auto simp: bucket_def)
  moreover have "hchain ?h (Next_of x) xs' = hchain h (Next_of x) xs'"
    using n Cons x \<open>distinct (x # xs')\<close> by (intro hchain_cong) (auto simp: hlist_add_head_def Let_def)
  ultimately show ?thesis using n Cons by (auto simp: bucket_def hlist_add_head_def Let_def)
qed

lemma bucket_first_in: "bucket h l xs \<Longrightarrow> first h l = ADDR_NULL \<or> first h l \<in> set xs"
  by (cases xs) (auto simp: bucket_def)

interpretation hlist: intrusive_list init_hlist_head hlist_add_head hlist_remove bucket same_cell
  "\<lambda>n. n \<noteq> ADDR_NULL" Inl Inr
proof unfold_locales
  fix h l xs h'
  assume b: "bucket h l xs" and same: "\<And>c. c \<in> list_cells Inl Inr l xs \<Longrightarrow> same_cell h h' c"
  from b show "bucket h' l xs"
  proof (rule bucket_frame)
    show "first h' l = first h l" using same [of "Inl l"] by (simp add: list_cells_def)
    show "hnext h' n = hnext h n \<and> hprev h' n = hprev h n" if "n \<in> set xs" for n
      using same [of "Inr n"] that by (simp add: list_cells_def)
  qed
next
  fix l h
  show "bucket (init_hlist_head l h) l []" by (simp add: bucket_def init_hlist_head_def)
next
  fix c :: "addr + addr" and l h assume "c \<noteq> Inl l"
  then show "same_cell h (init_hlist_head l h) c" by (cases c) (simp_all add: init_hlist_head_def)
next
  fix h l xs n assume "bucket h l xs" "n \<noteq> ADDR_NULL" "Inr n \<notin> list_cells Inl Inr l xs"
  then show "bucket (hlist_add_head n l h) l (n # xs)"
    by (auto intro!: hlist_add_head_bucket simp: list_cells_def)
next
  fix h l xs n c assume "bucket h l xs" "c \<notin> list_cells Inl Inr l (n # xs)"
  then show "same_cell h (hlist_add_head n l h) c"
    using bucket_first_in [of h l xs] by (cases c) (auto simp: list_cells_def hlist_add_head_def Let_def)
next
  fix h l xs n ys assume "bucket h l (xs @ n # ys)"
  then show "bucket (hlist_remove n h) l (xs @ ys)" by (rule hlist_del_bucket) simp
next
  fix h l xs n ys c assume b: "bucket h l (xs @ n # ys)" and c: "c \<notin> list_cells Inl Inr l (xs @ n # ys)"
  show "same_cell h (hlist_remove n h) c"
    using b by (rule hlist_del_bucket) (use c in \<open>cases c; auto simp: list_cells_def\<close>)
qed

lemma hlist_add_after_bucket:
  assumes b: "bucket h l (ys @ n # zs)" and nx: "nx \<notin> set (ys @ n # zs)" "nx \<noteq> ADDR_NULL"
  shows "bucket (hlist_add_after n nx h) l (ys @ n # nx # zs)"
proof -
  let ?h = "hlist_add_after n nx h" and ?r = "href_of (First_of l) (ys @ [n])"
  note nd = bucket_node [OF b]
  have dist: "distinct (ys @ n # zs)" and tail: "hchain h (Next_of n) zs"
    using b by (simp_all add: bucket_split)
  have hn: "hnext ?h m = (if m = n then nx else if m = nx then next_in zs else hnext h m)" for m
    using nx by (auto simp: hlist_add_after_def Let_def nd)
  have hp: "hprev ?h m = (if m = nx then Next_of n
      else if m = next_in zs \<and> m \<noteq> ADDR_NULL then Next_of nx else hprev h m)"
    "first ?h = first h" if "nx \<noteq> next_in zs" for m
    using nx that by (auto simp: hlist_add_after_def Let_def nd)
  have x: "next_in zs \<noteq> ADDR_NULL \<Longrightarrow> next_in zs \<in> set zs" by (auto simp: next_in_def split: list.splits)
  then have ne: "nx \<noteq> next_in zs" using nx by auto
  have "hchain ?h (Next_of n) (nx # zs)"
  proof (cases zs)
    case Nil
    then show ?thesis using nx ne by (simp add: hn hp [OF ne] next_in_def)
  next
    case (Cons z zs')
    have "hchain ?h (Next_of z) zs' = hchain h (Next_of z) zs'"
      using Cons dist nx by (intro hchain_cong) (auto simp: hn hp [OF ne] next_in_def)
    then show ?thesis using Cons tail nx dist by (auto simp: hn hp [OF ne] next_in_def)
  qed
  then have tail': "hchain ?h ?r (nx # zs)" by simp
  have b': "bucket h l ((ys @ [n]) @ zs)" using b by simp
  have "bucket ?h l ((ys @ [n]) @ nx # zs)"
  proof (rule bucket_retarget [OF b' refl _ _ _ _ tail', where N = "insert nx (set zs)"])
    fix m assume m: "m \<notin> insert nx (set zs)"
    then show "hprev ?h m = hprev h m" using x by (auto simp: hp [OF ne])
    show "Next_of m \<noteq> ?r \<Longrightarrow> hnext ?h m = hnext h m" using m by (simp add: hn)
  qed (use nx dist in \<open>auto simp: hp [OF ne]\<close>)
  then show ?thesis by simp
qed

text \<open>
  \<^verbatim>\<open>hlist_for_each_entry\<close>: from the first node along the next links to a null pointer.
\<close>

fun hwalk :: "nat \<Rightarrow> hheap \<Rightarrow> addr \<Rightarrow> addr list option" where
  "hwalk 0 h n = None"
| "hwalk (Suc fuel) h n =
     (if n = ADDR_NULL then Some [] else map_option (Cons n) (hwalk fuel h (hnext h n)))"

lemma hchain_walk: "hchain h r xs \<Longrightarrow> hwalk (Suc (length xs)) h (load_ref r h) = Some xs"
proof (induction xs arbitrary: r)
  case (Cons x xs)
  then have "hwalk (Suc (length xs)) h (load_ref (Next_of x) h) = Some xs" by (intro Cons.IH) simp
  then have "hwalk (Suc (length xs)) h (hnext h x) = Some xs" by simp
  with Cons.prems show ?case by (simp del: hwalk.simps add: hwalk.simps(2) [of "Suc (length xs)"])
qed simp

lemma bucket_walk: "bucket h l xs \<Longrightarrow> hwalk (Suc (length xs)) h (first h l) = Some xs"
  using hchain_walk [of h "First_of l" xs] by (simp add: bucket_def)

text \<open>
  C24: Any sequence of \<^verbatim>\<open>init_hlist_head\<close>, \<^verbatim>\<open>hlist_add_head\<close> and \<^verbatim>\<open>hlist_del\<close>
  on any number of hash buckets, from any initial memory, leaves each bucket with the nodes of
  the abstract sequence; a node can be deleted knowing only the node, and deleting a node of a
  bucket never goes through a null or poisoned reference.
\<close>

theorem hlist_runs_refine:
  assumes "list_run (\<lambda>n. n \<noteq> ADDR_NULL) Inl Inr Map.empty cs A" and "A l = Some xs"
  shows "let h' = fold (list_exec init_hlist_head hlist_add_head hlist_remove) cs h in
    hwalk (Suc (length xs)) h' (first h' l) = Some xs \<and> list_all (\<lambda>n. hlist_del n h' \<noteq> None) xs"
proof -
  let ?h = "fold (list_exec init_hlist_head hlist_add_head hlist_remove) cs h"
  have b: "bucket ?h l xs" using assms by (rule hlist.run_holds)
  have "hlist_del n ?h \<noteq> None" if "n \<in> set xs" for n
  proof -
    from that obtain ys zs where "xs = ys @ n # zs" by (metis split_list)
    with b have "bucket ?h l (ys @ n # zs)" by simp
    then show ?thesis by (rule hlist_del_bucket) simp
  qed
  then show ?thesis using bucket_walk [OF b] by (simp add: Let_def list_all_iff)
qed

theorem hlist_runs_refine_witness:
  "let h' = fold (list_exec init_hlist_head hlist_add_head hlist_remove)
       [Init 1, Init 2, Add 10 1, Add 11 1, Add 20 2, Remove 10]
       \<lparr>hnext = \<lambda>n. 5, hprev = \<lambda>n. Poison_ref, first = \<lambda>l. 6\<rparr>
   in hwalk 2 h' (first h' 1) = Some [11] \<and> hlist_del 11 h' \<noteq> None"
proof -
  obtain A where "list_run (\<lambda>n. n \<noteq> ADDR_NULL) Inl Inr Map.empty
      [Init 1, Init 2, Add 10 1, Add 11 1, Add 20 2, Remove 10] A" and "A (1 :: addr) = Some [11 :: addr]"
    using list_demo_run [of "\<lambda>n. n \<noteq> ADDR_NULL" Inl Inr] by (auto simp: ADDR_NULL_def)
  from hlist_runs_refine [OF this, of "\<lparr>hnext = \<lambda>n. 5, hprev = \<lambda>n. Poison_ref, first = \<lambda>l. 6\<rparr>"]
  show ?thesis by (simp add: Let_def numeral_2_eq_2)
qed

end
