(* ===== verification/Alloc.thy ===== *)
theory Alloc
  imports Prelude
begin

text \<open>
  The memory that \<^verbatim>\<open>malloc\<close>, \<^verbatim>\<open>realloc\<close> and \<^verbatim>\<open>free\<close> manage, and the
  allocators of \<^verbatim>\<open>mem/alloc.c\<close> on top of them. The placement policy of
  \<^verbatim>\<open>malloc\<close> is a parameter: a function from the live blocks and the size to an
  address. \<open>allocator_ok\<close> states what the C library promises of a successful call: an
  aligned address, of a block that overlaps no live block. An operation that is undefined in
  C (freeing what is not a live block, writing through a null pointer) gives \<open>None\<close>.
\<close>

section \<open>The C heap\<close>

record heap =
  mem :: "addr \<Rightarrow> byte"
  live :: "(addr \<times> nat) list"

type_synonym placement = "(addr \<times> nat) list \<Rightarrow> nat \<Rightarrow> addr"

definition block :: "addr \<times> nat \<Rightarrow> addr set" where
  "block b = {fst b..<fst b + snd b}"

definition allocator_ok :: "placement \<Rightarrow> bool" where
  "allocator_ok A \<longleftrightarrow> (\<forall>L n. A L n \<noteq> ADDR_NULL \<and> A L n mod 16 = 0 \<and>
     (\<forall>b \<in> set L. block (A L n, n) \<inter> block b = {} \<and> fst b \<noteq> A L n))"

definition live_ok :: "(addr \<times> nat) list \<Rightarrow> bool" where
  "live_ok L \<longleftrightarrow> distinct (map fst L) \<and>
     (\<forall>b \<in> set L. \<forall>c \<in> set L. b \<noteq> c \<longrightarrow> block b \<inter> block c = {}) \<and> (\<forall>b \<in> set L. fst b \<noteq> ADDR_NULL)"

definition malloc :: "placement \<Rightarrow> nat \<Rightarrow> 'a heap_scheme \<Rightarrow> addr \<times> 'a heap_scheme" where
  "malloc A n h =
     (let p = A (live h) n in if p = ADDR_NULL then (p, h) else (p, h\<lparr>live := (p, n) # live h\<rparr>))"

definition release :: "addr \<Rightarrow> (addr \<times> nat) list \<Rightarrow> (addr \<times> nat) list" where
  "release p L = filter (\<lambda>b. fst b \<noteq> p) L"

definition c_free :: "addr \<Rightarrow> 'a heap_scheme \<Rightarrow> 'a heap_scheme option" where
  "c_free p h =
     (if p = ADDR_NULL then Some h
      else if p \<in> fst ` set (live h) then Some (h\<lparr>live := release p (live h)\<rparr>) else None)"

text \<open>\<^verbatim>\<open>memcpy\<close> and \<^verbatim>\<open>memset\<close>; the source of a copy is read before the stores.\<close>

definition load_bytes :: "addr \<Rightarrow> nat \<Rightarrow> 'a heap_scheme \<Rightarrow> byte list" where
  "load_bytes p n h = map (\<lambda>i. mem h (p + i)) [0..<n]"

definition store_bytes :: "addr \<Rightarrow> byte list \<Rightarrow> 'a heap_scheme \<Rightarrow> 'a heap_scheme" where
  "store_bytes p xs h =
     h\<lparr>mem := \<lambda>a. if p \<le> a \<and> a < p + length xs then xs ! (a - p) else mem h a\<rparr>"

definition memset0 :: "addr \<Rightarrow> nat \<Rightarrow> 'a heap_scheme \<Rightarrow> 'a heap_scheme option" where
  "memset0 p n h =
     (if p = ADDR_NULL \<and> n \<noteq> 0 then None else Some (store_bytes p (replicate n 0) h))"

definition c_realloc :: "placement \<Rightarrow> addr \<Rightarrow> nat \<Rightarrow> 'a heap_scheme \<Rightarrow> (addr \<times> 'a heap_scheme) option" where
  "c_realloc A p n h =
     (if p = ADDR_NULL then Some (malloc A n h)
      else case map_of (live h) p of
        None \<Rightarrow> None
      | Some m \<Rightarrow>
          let L = release p (live h); q = A L n in
          if q = ADDR_NULL then Some (q, h)
          else Some (q, store_bytes q (load_bytes p (min m n) h) (h\<lparr>live := (q, n) # L\<rparr>)))"

section \<open>\<^verbatim>\<open>alloc.c\<close>\<close>

definition xmalloc :: "placement \<Rightarrow> nat \<Rightarrow> 'a heap_scheme \<Rightarrow> addr \<times> 'a heap_scheme" where
  "xmalloc A sz h = malloc A sz h"

definition xmalloc_zero :: "placement \<Rightarrow> nat \<Rightarrow> 'a heap_scheme \<Rightarrow> (addr \<times> 'a heap_scheme) option" where
  "xmalloc_zero A sz h =
     (let (x, h) = xmalloc A sz h in map_option (\<lambda>h. (x, h)) (memset0 x sz h))"

definition xrealloc :: "placement \<Rightarrow> addr \<Rightarrow> nat \<Rightarrow> 'a heap_scheme \<Rightarrow> (addr \<times> 'a heap_scheme) option" where
  "xrealloc A ptr sz h = c_realloc A ptr sz h"

definition xfree :: "addr \<Rightarrow> 'a heap_scheme \<Rightarrow> 'a heap_scheme option" where
  "xfree ptr h = c_free ptr h"

definition std_alloc :: "placement \<Rightarrow> nat \<Rightarrow> 'a heap_scheme \<Rightarrow> (addr \<times> 'a heap_scheme) option" where
  "std_alloc A sz h = Some (xmalloc A sz h)"

definition std_realloc ::
  "placement \<Rightarrow> addr \<Rightarrow> nat \<Rightarrow> nat \<Rightarrow> 'a heap_scheme \<Rightarrow> (addr \<times> 'a heap_scheme) option"
where
  "std_realloc A ptr old_size new_size h = xrealloc A ptr new_size h"

definition std_free :: "addr \<Rightarrow> 'a heap_scheme \<Rightarrow> 'a heap_scheme option" where
  "std_free ptr h = xfree ptr h"

definition zero_alloc :: "placement \<Rightarrow> nat \<Rightarrow> 'a heap_scheme \<Rightarrow> (addr \<times> 'a heap_scheme) option" where
  "zero_alloc A sz h = xmalloc_zero A sz h"

definition zero_realloc ::
  "placement \<Rightarrow> addr \<Rightarrow> nat \<Rightarrow> nat \<Rightarrow> 'a heap_scheme \<Rightarrow> (addr \<times> 'a heap_scheme) option"
where
  "zero_realloc A ptr osize nsize h =
     Option.bind (xrealloc A ptr nsize h) (\<lambda>(ptr, h).
       if osize < nsize
       then if ptr = ADDR_NULL then None
            else map_option (\<lambda>h. (ptr, h)) (memset0 (ptr + osize) (nsize - osize) h)
       else Some (ptr, h))"

text \<open>\<^verbatim>\<open>struct mem\<close>: the three operations of an allocator, and its four instances.\<close>

record mem_ops =
  m_alloc :: "placement \<Rightarrow> nat \<Rightarrow> heap \<Rightarrow> (addr \<times> heap) option"
  m_realloc :: "placement \<Rightarrow> addr \<Rightarrow> nat \<Rightarrow> nat \<Rightarrow> heap \<Rightarrow> (addr \<times> heap) option"
  m_free :: "addr \<Rightarrow> heap \<Rightarrow> heap option"

definition mem_std :: mem_ops where
  "mem_std = \<lparr>m_alloc = std_alloc, m_realloc = std_realloc, m_free = std_free\<rparr>"

definition mem_std_zero :: mem_ops where
  "mem_std_zero = \<lparr>m_alloc = zero_alloc, m_realloc = zero_realloc, m_free = std_free\<rparr>"

definition mem_ext :: mem_ops where
  "mem_ext = \<lparr>m_alloc = zero_alloc, m_realloc = zero_realloc, m_free = std_free\<rparr>"

definition mem_ext_zero :: mem_ops where
  "mem_ext_zero = \<lparr>m_alloc = zero_alloc, m_realloc = zero_realloc, m_free = std_free\<rparr>"

section \<open>Facts on the heap\<close>

lemma live_store [simp]: "live (store_bytes p xs h) = live h"
  by (simp add: store_bytes_def)

lemma load_store_same [simp]: "load_bytes p (length xs) (store_bytes p xs h) = xs"
  by (rule nth_equalityI) (simp_all add: load_bytes_def store_bytes_def)

lemma store_Nil [simp]: "store_bytes p [] h = h"
proof -
  have "(\<lambda>a. if p \<le> a \<and> a < p + length [] then [] ! (a - p) else mem h a) = mem h"
    by (rule ext) auto
  then show ?thesis by (simp only: store_bytes_def) simp
qed

lemma store_append: "store_bytes (p + length xs) ys (store_bytes p xs h) = store_bytes p (xs @ ys) h"
proof -
  have "(\<lambda>a. if p + length xs \<le> a \<and> a < p + length xs + length ys then ys ! (a - (p + length xs))
      else if p \<le> a \<and> a < p + length xs then xs ! (a - p) else mem h a) =
    (\<lambda>a. if p \<le> a \<and> a < p + length (xs @ ys) then (xs @ ys) ! (a - p) else mem h a)"
    by (rule ext) (auto simp: nth_append)
  then show ?thesis by (simp add: store_bytes_def cong: if_cong)
qed

lemma mem_store_other: "a \<notin> {p..<p + length xs} \<Longrightarrow> mem (store_bytes p xs h) a = mem h a"
  by (auto simp: store_bytes_def)

lemma length_load [simp]: "length (load_bytes p n h) = n"
  by (simp add: load_bytes_def)

lemma load_live_update [simp]: "load_bytes p n (h\<lparr>live := L\<rparr>) = load_bytes p n h"
  by (simp add: load_bytes_def)

lemma load_append: "load_bytes p (m + n) h = load_bytes p m h @ load_bytes (p + m) n h"
  by (rule nth_equalityI) (auto simp: load_bytes_def nth_append)

lemma load_store_disjoint:
  "{p..<p + n} \<inter> {q..<q + length xs} = {} \<Longrightarrow> load_bytes p n (store_bytes q xs h) = load_bytes p n h"
  by (rule nth_equalityI) (auto simp: load_bytes_def store_bytes_def disjoint_iff)

lemma load_sub:
  assumes "load_bytes q n h' = load_bytes p n h" "k + m \<le> n"
  shows "load_bytes (q + k) m h' = load_bytes (p + k) m h"
proof (rule nth_equalityI)
  fix i assume "i < length (load_bytes (q + k) m h')"
  then have "load_bytes q n h' ! (k + i) = load_bytes p n h ! (k + i)" "k + i < n" "i < m" using assms by simp_all
  then show "load_bytes (q + k) m h' ! i = load_bytes (p + k) m h ! i" by (simp add: load_bytes_def add.assoc)
qed simp

lemma load_prefix: "m \<le> n \<Longrightarrow> load_bytes p m h = take m (load_bytes p n h)"
  by (rule nth_equalityI) (auto simp: load_bytes_def)

lemma allocator_okD:
  assumes "allocator_ok A"
  shows "A L n \<noteq> ADDR_NULL" "A L n mod 16 = 0"
    "b \<in> set L \<Longrightarrow> block (A L n, n) \<inter> block b = {}" "b \<in> set L \<Longrightarrow> fst b \<noteq> A L n"
  using assms by (auto simp: allocator_ok_def)

lemma live_ok_Cons:
  assumes "live_ok L" and "allocator_ok A"
  shows "live_ok ((A L n, n) # L)"
proof -
  have "A L n \<notin> fst ` set L" using allocator_okD(4) [OF assms(2), where L = L and n = n] by force
  then show ?thesis
    using assms(1) allocator_okD(1,3) [OF assms(2), where L = L and n = n]
    unfolding live_ok_def by (simp add: Int_commute)
qed

lemma live_ok_release: "live_ok L \<Longrightarrow> live_ok (release p L)"
  by (auto simp: live_ok_def release_def distinct_map_filter)

lemma live_ok_map_of: "live_ok L \<Longrightarrow> map_of L p = Some n \<longleftrightarrow> (p, n) \<in> set L"
  by (simp add: live_ok_def)

text \<open>
  An allocator as \<open>allocator_ok\<close> describes it exists: the next multiple of sixteen above
  all live blocks.
\<close>

definition bump :: placement where
  "bump L n = 16 * Suc (fold (\<lambda>b m. max (fst b + snd b) m) L 0)"

lemma fold_max_ge: "(j :: nat) \<le> fold (\<lambda>b m. max (f b) m) L j"
proof (induction L arbitrary: j)
  case (Cons c L)
  have "j \<le> max (f c) j" by simp
  also have "max (f c) j \<le> fold (\<lambda>b m. max (f b) m) L (max (f c) j)" by (rule Cons.IH)
  finally show ?case by simp
qed simp

lemma bump_ge: "b \<in> set L \<Longrightarrow> fst b + snd b \<le> fold (\<lambda>b m. max (fst b + snd b) m) L (k :: nat)"
proof (induction L arbitrary: k)
  case (Cons c L)
  show ?case
  proof (cases "b = c")
    case True
    then show ?thesis
      using fold_max_ge [of "max (fst c + snd c) k" "\<lambda>b. fst b + snd b" L] by simp
  qed (use Cons in simp)
qed simp

lemma bump_ok: "allocator_ok bump"
  unfolding allocator_ok_def
proof (intro allI conjI ballI)
  fix L n and b :: "addr \<times> nat"
  assume "b \<in> set L"
  then have "fst b + snd b < bump L n" using bump_ge [of b L 0] by (simp add: bump_def)
  then show "block (bump L n, n) \<inter> block b = {}" "fst b \<noteq> bump L n" by (auto simp: block_def)
qed (simp_all add: bump_def ADDR_NULL_def)

section \<open>Correctness of the zeroing allocator\<close>

text \<open>
  The zeroing allocator: a new block is aligned, overlaps no live block, is all zeros, and
  leaves the contents of the other blocks alone; reallocation to a larger size keeps the old
  contents, clears the rest, and retires the old block.
\<close>

theorem zero_allocator_correct:
  fixes h :: "'a heap_scheme"
  assumes A: "allocator_ok A" and L: "live_ok (live h)" and p: "(p, m) \<in> set (live h)" and n: "m \<le> n"
  shows "(\<exists>q h'. zero_alloc A n h = Some (q, h') \<and> live h' = (q, n) # live h \<and> live_ok (live h') \<and>
      q mod 16 = 0 \<and> load_bytes q n h' = replicate n 0 \<and> load_bytes p m h' = load_bytes p m h) \<and>
    (\<exists>q h'. zero_realloc A p m n h = Some (q, h') \<and> live h' = (q, n) # release p (live h) \<and>
      live_ok (live h') \<and> load_bytes q n h' = load_bytes p m h @ replicate (n - m) 0)"
proof
  let ?q = "A (live h) n"
  have "{p..<p + m} \<inter> {?q..<?q + length (replicate n (0 :: byte))} = {}"
    using allocator_okD(3) [OF A p, of n] by (auto simp: block_def)
  then have sep: "load_bytes p m (store_bytes ?q (replicate n 0) g) = load_bytes p m g" for g :: "'a heap_scheme"
    by (rule load_store_disjoint)
  have "load_bytes ?q n (store_bytes ?q (replicate n 0) g) = replicate n 0" for g :: "'a heap_scheme"
    using load_store_same [of ?q "replicate n 0" g] by simp
  then show "\<exists>q h'. zero_alloc A n h = Some (q, h') \<and> live h' = (q, n) # live h \<and> live_ok (live h') \<and>
      q mod 16 = 0 \<and> load_bytes q n h' = replicate n 0 \<and> load_bytes p m h' = load_bytes p m h"
    using allocator_okD(1,2) [OF A, where L = "live h" and n = n] live_ok_Cons [OF L A, of n] sep
    by (simp add: zero_alloc_def xmalloc_zero_def xmalloc_def malloc_def memset0_def Let_def)
next
  let ?L = "release p (live h)"
  let ?q = "A ?L n"
  let ?h = "store_bytes ?q (load_bytes p m h) (h\<lparr>live := (?q, n) # ?L\<rparr>)"
  let ?z = "store_bytes (?q + m) (replicate (n - m) 0) ?h"
  have "p \<noteq> ADDR_NULL" "map_of (live h) p = Some m"
    using L p live_ok_map_of [OF L] by (auto simp: live_ok_def)
  then have re: "xrealloc A p n h = Some (?q, ?h)"
    using allocator_okD(1) [OF A, where L = ?L and n = n] n by (simp add: xrealloc_def c_realloc_def Let_def min_absorb1)
  have rest: "load_bytes (?q + m) (n - m) ?z = replicate (n - m) 0"
    using load_store_same [of "?q + m" "replicate (n - m) 0" ?h] by simp
  have first: "load_bytes ?q m ?z = load_bytes p m h"
    using load_store_same [of ?q "load_bytes p m h" "h\<lparr>live := (?q, n) # ?L\<rparr>"]
    by (subst load_store_disjoint) auto
  have zero: "zero_realloc A p m n h = Some (?q, ?z)"
  proof (cases "m < n")
    case True
    then show ?thesis
      using allocator_okD(1) [OF A, where L = ?L and n = n] by (simp add: zero_realloc_def re memset0_def ADDR_NULL_def)
  next
    case False
    then have "?z = ?h" by simp
    then show ?thesis using False by (simp add: zero_realloc_def re)
  qed
  have "load_bytes ?q n ?z = load_bytes p m h @ replicate (n - m) 0"
    using load_append [of ?q m "n - m" ?z] n first rest by simp
  with zero show "\<exists>q h'. zero_realloc A p m n h = Some (q, h') \<and> live h' = (q, n) # ?L \<and>
      live_ok (live h') \<and> load_bytes q n h' = load_bytes p m h @ replicate (n - m) 0"
    using live_ok_Cons [OF live_ok_release [OF L, of p] A, of n] by simp
qed

theorem zero_allocator_correct_witness:
  "\<exists>q h'. zero_realloc bump 16 2 4 \<lparr>mem = \<lambda>a. 7, live = [(16, 2), (48, 8)]\<rparr> = Some (q, h') \<and>
     load_bytes q 4 h' = [7, 7, 0, 0]"
proof -
  let ?h = "\<lparr>mem = \<lambda>a. 7, live = [(16, 2), (48, 8)]\<rparr>"
  have "live_ok (live ?h)" by (auto simp: live_ok_def block_def ADDR_NULL_def)
  from zero_allocator_correct [OF bump_ok this, of 16 2 4]
  obtain q h' where "zero_realloc bump 16 2 4 ?h = Some (q, h')"
    "load_bytes q 4 h' = load_bytes 16 2 ?h @ replicate 2 0" by auto
  then show ?thesis by (simp add: load_bytes_def upt_rec numeral_2_eq_2)
qed

end
