(* ===== verification/Mempool.thy ===== *)
theory Mempool
  imports Alloc
begin

text \<open>
  Model of \<^verbatim>\<open>mem/pool.c\<close> and the inline functions of \<^verbatim>\<open>mem/pool.h\<close>, in the
  configuration without \<^verbatim>\<open>MEM_POOL_MMAP\<close>: memory pools that carve allocations from
  chunks, with a separate chain of big chunks, growing buffers, and saved states that are
  restored as a stack. A \<^verbatim>\<open>struct mempool_chunk\<close> sits behind the data it describes; its
  two fields are kept in the heap by its address. Offsets and sizes are numbers, with the
  wrap-around of \<^verbatim>\<open>unsigned int\<close> written out where it can occur. Results are \<open>None\<close>
  where the code calls \<^verbatim>\<open>die\<close>, does not return, or is undefined.
\<close>

section \<open>Data\<close>

record mempool_state =
  free0 :: nat
  free1 :: nat
  last0 :: addr
  last1 :: addr
  state_next :: addr

record mempool =
  self :: addr
  state :: mempool_state
  unused :: addr
  last_big :: addr
  chunk_size :: nat
  threshold :: nat
  index :: nat

text \<open>The chunk headers and the states saved by \<^verbatim>\<open>mp_push\<close>, by address.\<close>

record mp_heap = heap +
  c_next :: "addr \<Rightarrow> addr"
  c_size :: "addr \<Rightarrow> nat"
  saved :: "addr \<Rightarrow> mempool_state"

record mempool_stats =
  total_size :: nat
  chain_count :: "nat list"
  chain_size :: "nat list"

definition MP_CHUNK_TAIL :: nat where
  "MP_CHUNK_TAIL = 16"

definition MP_SIZE_MAX :: nat where
  "MP_SIZE_MAX = 2 ^ 32 - 1 - MP_CHUNK_TAIL - CPU_PAGE_SIZE"

definition sizeof_mempool :: nat where
  "sizeof_mempool = 64"

definition sizeof_mempool_state :: nat where
  "sizeof_mempool_state = 32"

definition sizeof_mempool_chunk :: nat where
  "sizeof_mempool_chunk = 16"

definition mp_size_max :: nat where
  "mp_size_max = MP_SIZE_MAX"

definition mp_align_size :: "nat \<Rightarrow> nat" where
  "mp_align_size sz = (sz + CPU_STRUCT_ALIGN - 1) mod 2 ^ 32 div CPU_STRUCT_ALIGN * CPU_STRUCT_ALIGN"

text \<open>\<^verbatim>\<open>&pool->last_big\<close>, an address that is no allocation.\<close>

definition addr_last_big :: "mempool \<Rightarrow> addr" where
  "addr_last_big pool = self pool + 40"

section \<open>Chunks\<close>

definition mp_new_big_chunk :: "placement \<Rightarrow> nat \<Rightarrow> mp_heap \<Rightarrow> (addr \<times> mp_heap) option" where
  "mp_new_big_chunk A sz h =
     (let (a, h) = xmalloc A (sz + MP_CHUNK_TAIL) h in
      if a = ADDR_NULL then None
      else let chunk = a + sz in Some (chunk, h\<lparr>c_size := (c_size h)(chunk := sz)\<rparr>))"

definition mp_free_big_chunk :: "addr \<Rightarrow> mp_heap \<Rightarrow> mp_heap option" where
  "mp_free_big_chunk chunk h = xfree (chunk - c_size h chunk) h"

definition mp_new_chunk :: "placement \<Rightarrow> nat \<Rightarrow> mp_heap \<Rightarrow> (addr \<times> mp_heap) option" where
  "mp_new_chunk A sz h = mp_new_big_chunk A sz h"

definition mp_free_chunk :: "addr \<Rightarrow> mp_heap \<Rightarrow> mp_heap option" where
  "mp_free_chunk chunk h = mp_free_big_chunk chunk h"

definition set_c_next :: "addr \<Rightarrow> addr \<Rightarrow> mp_heap \<Rightarrow> mp_heap" where
  "set_c_next c v h = h\<lparr>c_next := (c_next h)(c := v)\<rparr>"

partial_function (option) mp_free_chain :: "addr \<Rightarrow> mp_heap \<Rightarrow> mp_heap option" where
  "mp_free_chain chunk h =
     (if chunk = ADDR_NULL then Some h
      else let nx = c_next h chunk in Option.bind (mp_free_chunk chunk h) (mp_free_chain nx))"

partial_function (option) mp_free_big_chain :: "addr \<Rightarrow> mp_heap \<Rightarrow> mp_heap option" where
  "mp_free_big_chain chunk h =
     (if chunk = ADDR_NULL then Some h
      else let nx = c_next h chunk in Option.bind (mp_free_big_chunk chunk h) (mp_free_big_chain nx))"

section \<open>Pools\<close>

definition mp_init :: "addr \<Rightarrow> nat \<Rightarrow> mempool" where
  "mp_init pool sz =
     (let sz = mp_align_size (max sizeof_mempool sz) in
      \<lparr>self = pool,
       state = \<lparr>free0 = 0, free1 = 0, last0 = ADDR_NULL, last1 = ADDR_NULL, state_next = ADDR_NULL\<rparr>,
       unused = ADDR_NULL, last_big = pool + 40, chunk_size = sz, threshold = sz div 2, index = 0\<rparr>)"

definition mp_new :: "placement \<Rightarrow> nat \<Rightarrow> mp_heap \<Rightarrow> (mempool \<times> mp_heap) option" where
  "mp_new A sz h =
     (let sz = mp_align_size (max sizeof_mempool sz) in
      Option.bind (mp_new_chunk A sz h) (\<lambda>(chunk, h).
        let pool = chunk - sz; h = set_c_next chunk ADDR_NULL h in
        Some (\<lparr>self = pool,
               state = \<lparr>free0 = sz - sizeof_mempool, free1 = 0, last0 = chunk, last1 = ADDR_NULL,
                        state_next = ADDR_NULL\<rparr>,
               unused = ADDR_NULL, last_big = pool + 40, chunk_size = sz, threshold = sz div 2,
               index = 0\<rparr>, h)))"

definition mp_delete :: "mempool \<Rightarrow> mp_heap \<Rightarrow> mp_heap option" where
  "mp_delete pool h =
     Option.bind (mp_free_big_chain (last1 (state pool)) h) (\<lambda>h.
     Option.bind (mp_free_chain (unused pool) h) (\<lambda>h.
     mp_free_chain (last0 (state pool)) h))"

text \<open>
  The loop of \<^verbatim>\<open>mp_flush\<close>: chunks go to the unused chain up to the chunk that holds the
  pool itself, or the end of the chain.
\<close>

partial_function (option) mp_flush_loop ::
  "mempool \<Rightarrow> addr \<Rightarrow> mp_heap \<Rightarrow> (addr \<times> mempool \<times> mp_heap) option"
where
  "mp_flush_loop pool chunk h =
     (if chunk \<noteq> ADDR_NULL \<and> chunk - c_size h chunk \<noteq> self pool
      then let nx = c_next h chunk; h = set_c_next chunk (unused pool) h
           in mp_flush_loop (pool\<lparr>unused := chunk\<rparr>) nx h
      else Some (chunk, pool, h))"

definition mp_flush :: "mempool \<Rightarrow> mp_heap \<Rightarrow> (mempool \<times> mp_heap) option" where
  "mp_flush pool h =
     Option.bind (mp_free_big_chain (last1 (state pool)) h) (\<lambda>h.
     Option.bind (mp_flush_loop pool (last0 (state pool)) h) (\<lambda>(chunk, pool, h).
       Some (pool\<lparr>state := \<lparr>free0 = (if chunk \<noteq> ADDR_NULL then c_size h chunk - sizeof_mempool else 0),
                            free1 = 0, last0 = chunk, last1 = ADDR_NULL, state_next = ADDR_NULL\<rparr>,
                  last_big := addr_last_big pool\<rparr>, h)))"

partial_function (option) mp_stats_chain ::
  "addr \<Rightarrow> nat \<Rightarrow> mp_heap \<Rightarrow> mempool_stats \<Rightarrow> mempool_stats option"
where
  "mp_stats_chain chunk idx h st =
     (if chunk \<noteq> ADDR_NULL
      then mp_stats_chain (c_next h chunk) idx h
             (st\<lparr>chain_size := (chain_size st)
                   [idx := (chain_size st ! idx + c_size h chunk + sizeof_mempool_chunk) mod 2 ^ 32],
                 chain_count := (chain_count st)[idx := (chain_count st ! idx + 1) mod 2 ^ 32]\<rparr>)
      else Some (st\<lparr>total_size := (total_size st + chain_size st ! idx) mod 2 ^ 64\<rparr>))"

definition mp_stats :: "mempool \<Rightarrow> mp_heap \<Rightarrow> mempool_stats option" where
  "mp_stats pool h =
     Option.bind (mp_stats_chain (last0 (state pool)) 0 h
         \<lparr>total_size = 0, chain_count = [0, 0, 0], chain_size = [0, 0, 0]\<rparr>) (\<lambda>st.
     Option.bind (mp_stats_chain (last1 (state pool)) 1 h st) (\<lambda>st.
     mp_stats_chain (unused pool) 2 h st))"

definition mp_total_size :: "mempool \<Rightarrow> mp_heap \<Rightarrow> nat option" where
  "mp_total_size pool h = map_option total_size (mp_stats pool h)"

section \<open>Allocation\<close>

definition mp_alloc_internal ::
  "placement \<Rightarrow> mempool \<Rightarrow> nat \<Rightarrow> mp_heap \<Rightarrow> (addr \<times> mempool \<times> mp_heap) option"
where
  "mp_alloc_internal A pool sz h =
     (if sz \<le> threshold pool
      then let pool = pool\<lparr>index := 0\<rparr> in
        Option.bind
          (if unused pool \<noteq> ADDR_NULL
           then let chunk = unused pool in Some (chunk, pool\<lparr>unused := c_next h chunk\<rparr>, h)
           else map_option (\<lambda>(chunk, h). (chunk, pool, h)) (mp_new_chunk A (chunk_size pool) h))
          (\<lambda>(chunk, pool, h).
            let h = set_c_next chunk (last0 (state pool)) h;
                pool = pool\<lparr>state := (state pool)\<lparr>last0 := chunk, free0 := chunk_size pool - sz\<rparr>\<rparr>
            in Some (chunk - chunk_size pool, pool, h))
      else if sz \<le> MP_SIZE_MAX
      then let pool = pool\<lparr>index := 1\<rparr>; aligned = mp_align_size sz in
        Option.bind (mp_new_big_chunk A aligned h) (\<lambda>(chunk, h).
          let h = set_c_next chunk (last1 (state pool)) h;
              pool = pool\<lparr>state := (state pool)\<lparr>last1 := chunk, free1 := aligned - sz\<rparr>,
                          last_big := chunk - aligned\<rparr>
          in Some (chunk - aligned, pool, h))
      else None)"

text \<open>\<^verbatim>\<open>free[0] & ~(CPU_STRUCT_ALIGN - 1)\<close>\<close>

definition avail_aligned :: "mempool \<Rightarrow> nat" where
  "avail_aligned pool = free0 (state pool) div CPU_STRUCT_ALIGN * CPU_STRUCT_ALIGN"

definition mp_alloc_fast ::
  "placement \<Rightarrow> mempool \<Rightarrow> nat \<Rightarrow> mp_heap \<Rightarrow> (addr \<times> mempool \<times> mp_heap) option"
where
  "mp_alloc_fast A pool sz h =
     (let avail = avail_aligned pool in
      if sz \<le> avail
      then Some (last0 (state pool) - avail, pool\<lparr>state := (state pool)\<lparr>free0 := avail - sz\<rparr>\<rparr>, h)
      else mp_alloc_internal A pool sz h)"

definition mp_alloc_fast_noalign ::
  "placement \<Rightarrow> mempool \<Rightarrow> nat \<Rightarrow> mp_heap \<Rightarrow> (addr \<times> mempool \<times> mp_heap) option"
where
  "mp_alloc_fast_noalign A pool sz h =
     (if sz \<le> free0 (state pool)
      then Some (last0 (state pool) - free0 (state pool),
                 pool\<lparr>state := (state pool)\<lparr>free0 := free0 (state pool) - sz\<rparr>\<rparr>, h)
      else mp_alloc_internal A pool sz h)"

definition mp_alloc ::
  "placement \<Rightarrow> mempool \<Rightarrow> nat \<Rightarrow> mp_heap \<Rightarrow> (addr \<times> mempool \<times> mp_heap) option"
where
  "mp_alloc A pool sz h = mp_alloc_fast A pool sz h"

definition mp_alloc_noalign ::
  "placement \<Rightarrow> mempool \<Rightarrow> nat \<Rightarrow> mp_heap \<Rightarrow> (addr \<times> mempool \<times> mp_heap) option"
where
  "mp_alloc_noalign A pool sz h = mp_alloc_fast_noalign A pool sz h"

definition mp_alloc_zero ::
  "placement \<Rightarrow> mempool \<Rightarrow> nat \<Rightarrow> mp_heap \<Rightarrow> (addr \<times> mempool \<times> mp_heap) option"
where
  "mp_alloc_zero A pool sz h =
     Option.bind (mp_alloc_fast A pool sz h) (\<lambda>(ptr, pool, h).
       Some (ptr, pool, store_bytes ptr (replicate sz 0) h))"

section \<open>Growing buffers\<close>

definition free_at :: "mempool \<Rightarrow> nat \<Rightarrow> nat" where
  "free_at pool i = (if i = 0 then free0 (state pool) else free1 (state pool))"

definition last_at :: "mempool \<Rightarrow> nat \<Rightarrow> addr" where
  "last_at pool i = (if i = 0 then last0 (state pool) else last1 (state pool))"

definition set_free_at :: "nat \<Rightarrow> nat \<Rightarrow> mempool \<Rightarrow> mempool" where
  "set_free_at i v pool =
     pool\<lparr>state := (if i = 0 then (state pool)\<lparr>free0 := v\<rparr> else (state pool)\<lparr>free1 := v\<rparr>)\<rparr>"

definition mp_idx :: "mempool \<Rightarrow> addr \<Rightarrow> nat" where
  "mp_idx pool ptr = (if ptr = last_big pool then 1 else 0)"

definition mp_ptr :: "mempool \<Rightarrow> addr" where
  "mp_ptr pool = last_at pool (index pool) - free_at pool (index pool)"

definition mp_avail :: "mempool \<Rightarrow> nat" where
  "mp_avail pool = free_at pool (index pool)"

definition mp_start_internal ::
  "placement \<Rightarrow> mempool \<Rightarrow> nat \<Rightarrow> mp_heap \<Rightarrow> (addr \<times> mempool \<times> mp_heap) option"
where
  "mp_start_internal A pool sz h =
     Option.bind (mp_alloc_internal A pool sz h) (\<lambda>(ptr, pool, h).
       Some (ptr, set_free_at (index pool) ((free_at pool (index pool) + sz) mod 2 ^ 32) pool, h))"

definition mp_start_fast ::
  "placement \<Rightarrow> mempool \<Rightarrow> nat \<Rightarrow> mp_heap \<Rightarrow> (addr \<times> mempool \<times> mp_heap) option"
where
  "mp_start_fast A pool sz h =
     (let avail = avail_aligned pool in
      if sz \<le> avail
      then Some (last0 (state pool) - avail,
                 pool\<lparr>index := 0, state := (state pool)\<lparr>free0 := avail\<rparr>\<rparr>, h)
      else mp_start_internal A pool sz h)"

definition mp_start_fast_noalign ::
  "placement \<Rightarrow> mempool \<Rightarrow> nat \<Rightarrow> mp_heap \<Rightarrow> (addr \<times> mempool \<times> mp_heap) option"
where
  "mp_start_fast_noalign A pool sz h =
     (if sz \<le> free0 (state pool)
      then Some (last0 (state pool) - free0 (state pool), pool\<lparr>index := 0\<rparr>, h)
      else mp_start_internal A pool sz h)"

definition mp_start ::
  "placement \<Rightarrow> mempool \<Rightarrow> nat \<Rightarrow> mp_heap \<Rightarrow> (addr \<times> mempool \<times> mp_heap) option"
where
  "mp_start A pool sz h = mp_start_fast A pool sz h"

definition mp_start_noalign ::
  "placement \<Rightarrow> mempool \<Rightarrow> nat \<Rightarrow> mp_heap \<Rightarrow> (addr \<times> mempool \<times> mp_heap) option"
where
  "mp_start_noalign A pool sz h = mp_start_fast_noalign A pool sz h"

definition mp_grow_internal ::
  "placement \<Rightarrow> mempool \<Rightarrow> nat \<Rightarrow> mp_heap \<Rightarrow> (addr \<times> mempool \<times> mp_heap) option"
where
  "mp_grow_internal A pool sz h =
     (if sz > MP_SIZE_MAX then None
      else let avail = mp_avail pool; ptr = mp_ptr pool in
        if index pool = 0
        then Option.bind (mp_start_internal A pool sz h) (\<lambda>(p, pool, h).
               Some (p, pool, store_bytes p (load_bytes ptr avail h) h))
        else
          let amortized = (if avail \<le> MP_SIZE_MAX div 2 then avail * 2 else MP_SIZE_MAX);
              amortized = max amortized sz;
              amortized = mp_align_size amortized;
              chunk = last1 (state pool);
              nx = c_next h chunk
          in Option.bind (c_realloc A ptr (amortized + MP_CHUNK_TAIL) h) (\<lambda>(ptr, h).
               if ptr = ADDR_NULL then None
               else let chunk = ptr + amortized;
                        h = set_c_next chunk nx h;
                        h = h\<lparr>c_size := (c_size h)(chunk := amortized)\<rparr>;
                        pool = pool\<lparr>state := (state pool)\<lparr>last1 := chunk, free1 := amortized\<rparr>,
                                    last_big := ptr\<rparr>
                    in Some (ptr, pool, h)))"

definition mp_grow ::
  "placement \<Rightarrow> mempool \<Rightarrow> nat \<Rightarrow> mp_heap \<Rightarrow> (addr \<times> mempool \<times> mp_heap) option"
where
  "mp_grow A pool sz h =
     (if sz \<le> mp_avail pool then Some (mp_ptr pool, pool, h) else mp_grow_internal A pool sz h)"

definition mp_expand :: "placement \<Rightarrow> mempool \<Rightarrow> mp_heap \<Rightarrow> (addr \<times> mempool \<times> mp_heap) option" where
  "mp_expand A pool h = mp_grow_internal A pool ((mp_avail pool + 1) mod 2 ^ 32) h"

definition mp_spread_internal ::
  "placement \<Rightarrow> mempool \<Rightarrow> addr \<Rightarrow> nat \<Rightarrow> mp_heap \<Rightarrow> (addr \<times> mempool \<times> mp_heap) option"
where
  "mp_spread_internal A pool p sz h =
     (let old = mp_ptr pool in
      Option.bind (mp_grow_internal A pool ((p - old + sz) mod 2 ^ 32) h) (\<lambda>(new, pool, h).
        Some (p - old + new, pool, h)))"

definition mp_spread ::
  "placement \<Rightarrow> mempool \<Rightarrow> addr \<Rightarrow> nat \<Rightarrow> mp_heap \<Rightarrow> (addr \<times> mempool \<times> mp_heap) option"
where
  "mp_spread A pool p sz h =
     (if sz \<le> (last_at pool (index pool) - p) mod 2 ^ 32 then Some (p, pool, h)
      else mp_spread_internal A pool p sz h)"

definition mp_end :: "mempool \<Rightarrow> addr \<Rightarrow> addr \<times> mempool" where
  "mp_end pool e =
     (mp_ptr pool, set_free_at (index pool) ((last_at pool (index pool) - e) mod 2 ^ 32) pool)"

definition mp_size :: "mempool \<Rightarrow> addr \<Rightarrow> nat" where
  "mp_size pool ptr = (let i = mp_idx pool ptr in last_at pool i - ptr - free_at pool i)"

definition mp_open_fast :: "mempool \<Rightarrow> addr \<Rightarrow> nat \<times> mempool" where
  "mp_open_fast pool ptr =
     (let pool = pool\<lparr>index := mp_idx pool ptr\<rparr>;
          sz = last_at pool (index pool) - ptr - free_at pool (index pool)
      in (sz, set_free_at (index pool) (free_at pool (index pool) + sz) pool))"

definition mp_open :: "mempool \<Rightarrow> addr \<Rightarrow> nat \<times> mempool" where
  "mp_open pool ptr = mp_open_fast pool ptr"

definition mp_realloc_fast ::
  "placement \<Rightarrow> mempool \<Rightarrow> addr \<Rightarrow> nat \<Rightarrow> mp_heap \<Rightarrow> (addr \<times> mempool \<times> mp_heap) option"
where
  "mp_realloc_fast A pool ptr sz h =
     (let (_, pool) = mp_open_fast pool ptr in
      Option.bind (mp_grow A pool sz h) (\<lambda>(ptr, pool, h).
        let (_, pool) = mp_end pool (ptr + sz) in Some (ptr, pool, h)))"

definition mp_realloc ::
  "placement \<Rightarrow> mempool \<Rightarrow> addr \<Rightarrow> nat \<Rightarrow> mp_heap \<Rightarrow> (addr \<times> mempool \<times> mp_heap) option"
where
  "mp_realloc A pool ptr sz h = mp_realloc_fast A pool ptr sz h"

definition mp_realloc_zero ::
  "placement \<Rightarrow> mempool \<Rightarrow> addr \<Rightarrow> nat \<Rightarrow> mp_heap \<Rightarrow> (addr \<times> mempool \<times> mp_heap) option"
where
  "mp_realloc_zero A pool ptr sz h =
     (let (old_size, pool) = mp_open_fast pool ptr in
      Option.bind (mp_grow A pool sz h) (\<lambda>(ptr, pool, h).
        let h = (if sz > old_size then store_bytes (ptr + old_size) (replicate (sz - old_size) 0) h else h);
            (_, pool) = mp_end pool (ptr + sz)
        in Some (ptr, pool, h)))"

section \<open>Saved states\<close>

partial_function (option) mp_restore_chunks ::
  "mempool \<Rightarrow> addr \<Rightarrow> addr \<Rightarrow> mp_heap \<Rightarrow> (mempool \<times> mp_heap) option"
where
  "mp_restore_chunks pool chunk stop h =
     (if chunk \<noteq> stop
      then let nx = c_next h chunk; h = set_c_next chunk (unused pool) h
           in mp_restore_chunks (pool\<lparr>unused := chunk\<rparr>) nx stop h
      else Some (pool, h))"

partial_function (option) mp_restore_big :: "addr \<Rightarrow> addr \<Rightarrow> mp_heap \<Rightarrow> mp_heap option" where
  "mp_restore_big chunk stop h =
     (if chunk \<noteq> stop
      then let nx = c_next h chunk
           in Option.bind (mp_free_big_chunk chunk h) (mp_restore_big nx stop)
      else Some h)"

definition mp_restore :: "mempool \<Rightarrow> mempool_state \<Rightarrow> mp_heap \<Rightarrow> (mempool \<times> mp_heap) option" where
  "mp_restore pool s h =
     Option.bind (mp_restore_chunks pool (last0 (state pool)) (last0 s) h) (\<lambda>(pool, h).
     Option.bind (mp_restore_big (last1 (state pool)) (last1 s) h) (\<lambda>h.
     Some (pool\<lparr>state := s, last_big := addr_last_big pool\<rparr>, h)))"

definition mp_restore_fast :: "mempool \<Rightarrow> mempool_state \<Rightarrow> mp_heap \<Rightarrow> (mempool \<times> mp_heap) option" where
  "mp_restore_fast pool s h =
     (if last0 (state pool) \<noteq> last0 s \<or> last1 (state pool) \<noteq> last1 s
      then mp_restore pool s h
      else Some (pool\<lparr>state := s, last_big := addr_last_big pool\<rparr>, h))"

definition mp_save :: "mempool \<Rightarrow> addr \<Rightarrow> mp_heap \<Rightarrow> mempool \<times> mp_heap" where
  "mp_save pool st h =
     (pool\<lparr>state := (state pool)\<lparr>state_next := st\<rparr>\<rparr>, h\<lparr>saved := (saved h)(st := state pool)\<rparr>)"

definition mp_push :: "placement \<Rightarrow> mempool \<Rightarrow> mp_heap \<Rightarrow> (addr \<times> mempool \<times> mp_heap) option" where
  "mp_push A pool h =
     (let st = state pool in
      Option.bind (mp_alloc_fast A pool sizeof_mempool_state h) (\<lambda>(p, pool, h).
        Some (p, pool\<lparr>state := (state pool)\<lparr>state_next := p\<rparr>\<rparr>, h\<lparr>saved := (saved h)(p := st)\<rparr>)))"

definition mp_pop :: "mempool \<Rightarrow> mp_heap \<Rightarrow> (mempool \<times> mp_heap) option" where
  "mp_pop pool h =
     (if state_next (state pool) = ADDR_NULL then None
      else mp_restore pool (saved h (state_next (state pool))) h)"

section \<open>Strings\<close>

text \<open>
  The strings passed in are values, lists of bytes without the terminating zero; the copies
  are made in the pool.
\<close>

definition mp_memdup ::
  "placement \<Rightarrow> mempool \<Rightarrow> byte list \<Rightarrow> mp_heap \<Rightarrow> (addr \<times> mempool \<times> mp_heap) option"
where
  "mp_memdup A pool s h =
     Option.bind (mp_alloc_fast A pool (length s) h) (\<lambda>(t, pool, h). Some (t, pool, store_bytes t s h))"

definition mp_strdup ::
  "placement \<Rightarrow> mempool \<Rightarrow> byte list option \<Rightarrow> mp_heap \<Rightarrow> (addr \<times> mempool \<times> mp_heap) option"
where
  "mp_strdup A pool s h =
     (case s of
        None \<Rightarrow> Some (ADDR_NULL, pool, h)
      | Some s \<Rightarrow>
          let l = (length s + 1) mod 2 ^ 32 in
          Option.bind (mp_alloc_fast_noalign A pool l h) (\<lambda>(t, pool, h).
            Some (t, pool, store_bytes t (take l (s @ [0])) h)))"

fun store_all :: "addr \<Rightarrow> byte list list \<Rightarrow> mp_heap \<Rightarrow> addr \<times> mp_heap" where
  "store_all y [] h = (y, h)"
| "store_all y (x # xs) h = store_all (y + length x) xs (store_bytes y x h)"

definition mp_multicat ::
  "placement \<Rightarrow> mempool \<Rightarrow> byte list list \<Rightarrow> mp_heap \<Rightarrow> (addr \<times> mempool \<times> mp_heap) option"
where
  "mp_multicat A pool xs h =
     (let len = fold (\<lambda>x len. (len + length x) mod 2 ^ 32) xs 1 in
      Option.bind (mp_alloc_fast_noalign A pool len h) (\<lambda>(buf, pool, h).
        let (y, h) = store_all buf xs h in Some (buf, pool, store_bytes y [0] h)))"

definition mp_strcat ::
  "placement \<Rightarrow> mempool \<Rightarrow> byte list \<Rightarrow> byte list \<Rightarrow> mp_heap \<Rightarrow> (addr \<times> mempool \<times> mp_heap) option"
where
  "mp_strcat A pool x y h = mp_multicat A pool [x, y] h"

text \<open>The loop of \<^verbatim>\<open>mp_strjoin\<close>; the separator comes before every string but the first.\<close>

fun join_loop :: "u32 \<Rightarrow> bool \<Rightarrow> addr \<Rightarrow> byte list list \<Rightarrow> mp_heap \<Rightarrow> addr \<times> mp_heap" where
  "join_loop sep i d [] h = (d, h)"
| "join_loop sep i d (a # as) h =
     (let (d, h) = (if sep \<noteq> 0 \<and> i then (d + 1, store_bytes d [ucast sep] h) else (d, h))
      in join_loop sep True (d + length a) as (store_bytes d a h))"

definition mp_strjoin ::
  "placement \<Rightarrow> mempool \<Rightarrow> byte list list \<Rightarrow> u32 \<Rightarrow> mp_heap \<Rightarrow> (addr \<times> mempool \<times> mp_heap) option"
where
  "mp_strjoin A pool as sep h =
     (let len = fold (\<lambda>x len. (len + length x) mod 2 ^ 32) as 1;
          len = (if sep \<noteq> 0 \<and> as \<noteq> [] then (len + (length as - 1)) mod 2 ^ 32 else len) in
      Option.bind (mp_alloc_fast_noalign A pool len h) (\<lambda>(dest, pool, h).
        let (d, h) = join_loop sep False dest as h in Some (dest, pool, store_bytes d [0] h)))"

definition mp_strmem ::
  "placement \<Rightarrow> mempool \<Rightarrow> byte list \<Rightarrow> mp_heap \<Rightarrow> (addr \<times> mempool \<times> mp_heap) option"
where
  "mp_strmem A pool m h =
     Option.bind (mp_alloc_noalign A pool ((length m + 1) mod 2 ^ 32) h) (\<lambda>(str, pool, h).
       Some (str, pool, store_bytes (str + length m) [0] (store_bytes str m h)))"

end
