(* ===== verification/Mempool_Inv.thy ===== *)
theory Mempool_Inv
  imports Mempool
begin

text \<open>
  The invariant of memory pools, and its preservation by the allocation functions: the three
  chains of chunks, what of them is in use, and that an allocation returns memory that was not.
\<close>

section \<open>Chunks\<close>

fun chunks :: "mp_heap \<Rightarrow> addr \<Rightarrow> addr list \<Rightarrow> bool" where
  "chunks h p [] = (p = ADDR_NULL)"
| "chunks h p (c # cs) = (p = c \<and> c \<noteq> ADDR_NULL \<and> chunks h (c_next h c) cs)"

text \<open>A chunk is a live block of its data and its header behind it.\<close>

definition chunk_base :: "mp_heap \<Rightarrow> addr \<Rightarrow> addr" where
  "chunk_base h c = c - c_size h c"

definition chunk_data :: "mp_heap \<Rightarrow> addr \<Rightarrow> addr set" where
  "chunk_data h c = {chunk_base h c..<c}"

definition chunk_ok :: "mp_heap \<Rightarrow> addr \<Rightarrow> bool" where
  "chunk_ok h c \<longleftrightarrow> c_size h c \<le> c \<and> 8 dvd c_size h c \<and> 8 dvd c \<and>
     (chunk_base h c, c_size h c + MP_CHUNK_TAIL) \<in> set (live h)"

lemma chunk_block: "chunk_ok h c \<Longrightarrow> block (chunk_base h c, c_size h c + MP_CHUNK_TAIL) = {chunk_base h c..<c + MP_CHUNK_TAIL}"
  by (auto simp: block_def chunk_ok_def chunk_base_def)

lemma chunks_cong:
  "(\<And>c. c \<in> set cs \<Longrightarrow> c_next h' c = c_next h c) \<Longrightarrow> chunks h' p cs = chunks h p cs"
  by (induction cs arbitrary: p) auto

lemma chunks_append:
  "chunks h p (xs @ c # ys) \<Longrightarrow> chunks h c (c # ys)"
  by (induction xs arbitrary: p) auto

text \<open>Different chunks have different, hence disjoint, blocks.\<close>

lemma chunks_disjoint:
  assumes "live_ok (live h)" "chunk_ok h c" "chunk_ok h d" "c \<noteq> d"
  shows "{chunk_base h c..<c + MP_CHUNK_TAIL} \<inter> {chunk_base h d..<d + MP_CHUNK_TAIL} = {}"
proof -
  let ?b = "\<lambda>c. (chunk_base h c, c_size h c + MP_CHUNK_TAIL)"
  have "?b c \<noteq> ?b d" using assms by (auto simp: chunk_ok_def chunk_base_def)
  moreover have "?b c \<in> set (live h)" "?b d \<in> set (live h)" using assms by (auto simp: chunk_ok_def)
  ultimately have "block (?b c) \<inter> block (?b d) = {}" using assms(1) by (auto simp: live_ok_def)
  then show ?thesis using assms by (simp add: chunk_block)
qed

lemma new_chunk:
  assumes A: "allocator_ok A" and L: "live_ok (live h)" and sz: "8 dvd sz"
  obtains c h' where "mp_new_big_chunk A sz h = Some (c, h')"
    and "h' = h\<lparr>live := (c - sz, sz + MP_CHUNK_TAIL) # live h, c_size := (c_size h)(c := sz)\<rparr>"
    and "chunk_ok h' c" and "c_size h' c = sz" and "c \<noteq> ADDR_NULL" and "live_ok (live h')"
    and "\<And>d. chunk_ok h d \<Longrightarrow> d \<noteq> c \<and> chunk_ok h' d"
proof -
  let ?b = "A (live h) (sz + MP_CHUNK_TAIL)"
  let ?c = "?b + sz"
  let ?h = "h\<lparr>live := (?c - sz, sz + MP_CHUNK_TAIL) # live h, c_size := (c_size h)(?c := sz)\<rparr>"
  note b = allocator_okD [OF A, where L = "live h" and n = "sz + MP_CHUNK_TAIL"]
  have "8 dvd ?b" using b(2) by presburger
  then have ok: "chunk_ok ?h ?c" using sz by (simp add: chunk_ok_def chunk_base_def)
  have old: "d \<noteq> ?c \<and> chunk_ok ?h d" if d: "chunk_ok h d" for d
  proof -
    have "(chunk_base h d, c_size h d + MP_CHUNK_TAIL) \<in> set (live h)" using d by (simp add: chunk_ok_def)
    from b(3) [OF this] have "d \<noteq> ?c"
      using chunk_block [OF d] d by (auto simp: block_def chunk_ok_def chunk_base_def MP_CHUNK_TAIL_def disjoint_iff)
    then show ?thesis using d by (auto simp: chunk_ok_def chunk_base_def)
  qed
  show ?thesis
  proof (rule that [of ?c ?h])
    show "mp_new_big_chunk A sz h = Some (?c, ?h)"
      using b(1) by (simp add: mp_new_big_chunk_def xmalloc_def malloc_def Let_def)
    show "live_ok (live ?h)" using live_ok_Cons [OF L A, of "sz + MP_CHUNK_TAIL"] by simp
    show "?c \<noteq> ADDR_NULL" using b(1) by (simp add: ADDR_NULL_def)
  qed (use ok old in auto)
qed

section \<open>The invariant\<close>

definition mp_shape :: "mempool \<Rightarrow> mp_heap \<Rightarrow> addr list \<Rightarrow> addr list \<Rightarrow> addr list \<Rightarrow> bool" where
  "mp_shape pool h cs bs us \<longleftrightarrow>
     chunks h (last0 (state pool)) cs \<and> chunks h (last1 (state pool)) bs \<and> chunks h (unused pool) us \<and>
     distinct (cs @ bs @ us) \<and> (\<forall>c \<in> set (cs @ bs @ us). chunk_ok h c) \<and>
     (\<forall>c \<in> set (cs @ us). c_size h c = chunk_size pool) \<and> (\<forall>c \<in> set bs. c_size h c < 2 ^ 32) \<and> live_ok (live h) \<and>
     free0 (state pool) \<le> (if cs = [] then 0 else chunk_size pool) \<and>
     free1 (state pool) \<le> (if bs = [] then 0 else c_size h (hd bs)) \<and>
     8 dvd chunk_size pool \<and> sizeof_mempool \<le> chunk_size pool \<and> chunk_size pool < 2 ^ 32 \<and>
     threshold pool = chunk_size pool div 2"

text \<open>The bytes in use: the data of the chunks of the two chains, without their free ends.\<close>

definition mp_used :: "mempool \<Rightarrow> mp_heap \<Rightarrow> addr list \<Rightarrow> addr list \<Rightarrow> addr set" where
  "mp_used pool h cs bs =
     (\<Union>c \<in> set (cs @ bs). chunk_data h c) -
     {last0 (state pool) - free0 (state pool)..<last0 (state pool)} -
     {last1 (state pool) - free1 (state pool)..<last1 (state pool)}"

lemma mp_align_size_small:
  assumes "sz \<le> 2 ^ 32 - 8"
  shows "sz \<le> mp_align_size sz" and "mp_align_size sz < sz + 8" and "8 dvd mp_align_size sz"
proof -
  have "(sz + 7) mod 2 ^ 32 = sz + 7" using assms by simp
  then have eq: "mp_align_size sz = (sz + 7) div 8 * 8" by (simp add: mp_align_size_def CPU_STRUCT_ALIGN_def)
  show "sz \<le> mp_align_size sz" and "mp_align_size sz < sz + 8" and "8 dvd mp_align_size sz"
    unfolding eq by presburger+
qed

text \<open>The free ends lie in the data of the first chunks of their chains.\<close>

lemma free0_in:
  assumes "mp_shape pool h cs bs us" and "a \<in> {last0 (state pool) - free0 (state pool)..<last0 (state pool)}"
  shows "cs \<noteq> [] \<and> last0 (state pool) = hd cs \<and> a \<in> chunk_data h (hd cs)"
  using assms by (cases cs) (auto simp: mp_shape_def chunk_data_def chunk_base_def)

lemma free1_in:
  assumes "mp_shape pool h cs bs us" and "a \<in> {last1 (state pool) - free1 (state pool)..<last1 (state pool)}"
  shows "bs \<noteq> [] \<and> last1 (state pool) = hd bs \<and> a \<in> chunk_data h (hd bs)"
  using assms by (cases bs) (auto simp: mp_shape_def chunk_data_def chunk_base_def)

lemma shape_disjoint:
  assumes "mp_shape pool h cs bs us" and "c \<in> set (cs @ bs @ us)" "d \<in> set (cs @ bs @ us)" "c \<noteq> d"
  shows "chunk_data h c \<inter> chunk_data h d = {}"
proof -
  have "{chunk_base h c..<c + MP_CHUNK_TAIL} \<inter> {chunk_base h d..<d + MP_CHUNK_TAIL} = {}"
    using assms by (intro chunks_disjoint) (auto simp: mp_shape_def)
  then show ?thesis by (auto simp: chunk_data_def disjoint_iff)
qed

text \<open>What an allocation of \<open>sz\<close> bytes at \<open>p\<close> does to the bytes in use.\<close>

definition fresh_block :: "addr \<Rightarrow> nat \<Rightarrow> addr set \<Rightarrow> addr set \<Rightarrow> bool" where
  "fresh_block p sz U U' \<longleftrightarrow> {p..<p + sz} \<inter> U = {} \<and> {p..<p + sz} \<subseteq> U' \<and> U \<subseteq> U'"

text \<open>Allocation from the free end of the first chunk.\<close>

lemma take_free0:
  assumes sh: "mp_shape pool h cs bs us" and le: "sz \<le> avail" "avail \<le> free0 (state pool)"
  defines "pool' \<equiv> pool\<lparr>state := (state pool)\<lparr>free0 := avail - sz\<rparr>\<rparr>"
  shows "mp_shape pool' h cs bs us"
    and "fresh_block (last0 (state pool) - avail) sz (mp_used pool h cs bs) (mp_used pool' h cs bs)"
proof -
  show "mp_shape pool' h cs bs us" using sh le by (auto simp: mp_shape_def pool'_def split: if_splits)
  show "fresh_block (last0 (state pool) - avail) sz (mp_used pool h cs bs) (mp_used pool' h cs bs)"
  proof (cases cs)
    case Nil
    then have "sz = 0" "avail = 0" using sh le by (auto simp: mp_shape_def)
    then show ?thesis by (auto simp: fresh_block_def mp_used_def pool'_def)
  next
    case (Cons c cs')
    have l: "last0 (state pool) = c" "c_size h c = chunk_size pool" "c_size h c \<le> c"
      "free0 (state pool) \<le> chunk_size pool"
      using sh Cons by (auto simp: mp_shape_def chunk_ok_def)
    let ?R = "{last1 (state pool) - free1 (state pool)..<last1 (state pool)}"
    let ?D = "\<Union>c \<in> set (cs @ bs). chunk_data h c"
    have ne: "bs \<noteq> [] \<Longrightarrow> c \<noteq> hd bs" using sh Cons by (cases bs) (auto simp: mp_shape_def)
    have "a \<notin> ?R" if "a \<in> chunk_data h c" for a
      using free1_in [OF sh, of a] shape_disjoint [OF sh, of c "hd bs"] that Cons ne hd_in_set [of bs] by auto
    moreover have "{c - avail..<c - avail + sz} \<subseteq> chunk_data h c"
      using l le by (auto simp: chunk_data_def chunk_base_def)
    moreover have "chunk_data h c \<subseteq> ?D" using Cons by auto
    moreover have "{c - avail..<c - avail + sz} \<subseteq> {c - free0 (state pool)..<c}"
      "{c - avail..<c - avail + sz} \<inter> {c - (avail - sz)..<c} = {}"
      "{c - (avail - sz)..<c} \<subseteq> {c - free0 (state pool)..<c}"
      using l le by auto
    moreover have "mp_used pool h cs bs = ?D - {c - free0 (state pool)..<c} - ?R"
      "mp_used pool' h cs bs = ?D - {c - (avail - sz)..<c} - ?R"
      by (simp_all add: mp_used_def pool'_def l)
    ultimately show ?thesis unfolding fresh_block_def l(1) by blast
  qed
qed

lemma used_push:
  "C \<inter> R = {} \<Longrightarrow> C \<inter> D = {} \<Longrightarrow> B \<subseteq> C \<Longrightarrow> F \<subseteq> C \<Longrightarrow> B \<inter> F = {} \<Longrightarrow> U \<subseteq> D - R \<Longrightarrow>
   U' = (C \<union> D) - F - R \<Longrightarrow> B \<inter> U = {} \<and> B \<subseteq> U' \<and> U \<subseteq> U'"
  by blast

text \<open>A chunk from the unused chain, or a new one, becomes the first of its chain.\<close>

lemma push_chunk0:
  assumes sh: "mp_shape pool h cs bs us" and c: "chunk_ok h c" "c_size h c = chunk_size pool"
    "c \<notin> set (cs @ bs @ us)" "c \<noteq> ADDR_NULL" and sz: "sz \<le> chunk_size pool"
  defines "h' \<equiv> set_c_next c (last0 (state pool)) h"
    and "pool' \<equiv> pool\<lparr>state := (state pool)\<lparr>last0 := c, free0 := chunk_size pool - sz\<rparr>\<rparr>"
  shows "mp_shape pool' h' (c # cs) bs us"
    and "fresh_block (c - chunk_size pool) sz (mp_used pool h cs bs) (mp_used pool' h' (c # cs) bs)"
proof -
  have same: "chunk_ok h' d = chunk_ok h d" "c_size h' = c_size h" "live h' = live h" "chunk_data h' = chunk_data h" for d
    by (simp_all add: h'_def set_c_next_def chunk_ok_def chunk_base_def chunk_data_def fun_eq_iff)
  have nx: "c_next h' d = (if d = c then last0 (state pool) else c_next h d)" for d
    by (simp add: h'_def set_c_next_def)
  have "chunks h' p xs = chunks h p xs" if "c \<notin> set xs" for p xs
    using that by (intro chunks_cong) (auto simp: nx)
  then show sh': "mp_shape pool' h' (c # cs) bs us"
    using sh c by (simp add: mp_shape_def same nx pool'_def split: if_splits)
  have disj: "chunk_data h c \<inter> chunk_data h d = {}" if "d \<in> set (cs @ bs)" for d
    using shape_disjoint [OF sh', of c d] that c by (auto simp: same)
  let ?R = "{last1 (state pool) - free1 (state pool)..<last1 (state pool)}"
  let ?D = "\<Union>c \<in> set (cs @ bs). chunk_data h c" and ?n = "chunk_size pool"
  show "fresh_block (c - ?n) sz (mp_used pool h cs bs) (mp_used pool' h' (c # cs) bs)"
    unfolding fresh_block_def
  proof (rule used_push)
    show "chunk_data h c \<inter> ?R = {}"
    proof (rule equals0I)
      fix a assume "a \<in> chunk_data h c \<inter> ?R"
      with free1_in [OF sh, of a] disj [of "hd bs"] show False by (cases bs) auto
    qed
    show "chunk_data h c \<inter> ?D = {}" using disj by blast
    show "{c - ?n..<c - ?n + sz} \<subseteq> chunk_data h c" "{c - (?n - sz)..<c} \<subseteq> chunk_data h c"
      "{c - ?n..<c - ?n + sz} \<inter> {c - (?n - sz)..<c} = {}"
      using c sz by (auto simp: chunk_data_def chunk_base_def chunk_ok_def)
    show "mp_used pool h cs bs \<subseteq> ?D - ?R" unfolding mp_used_def by blast
    show "mp_used pool' h' (c # cs) bs = (chunk_data h c \<union> ?D) - {c - (?n - sz)..<c} - ?R"
      by (simp add: mp_used_def pool'_def same)
  qed
qed

lemma push_chunk1:
  assumes sh: "mp_shape pool h cs bs us" and c: "chunk_ok h c" "c_size h c = n"
    "c \<notin> set (cs @ bs @ us)" "c \<noteq> ADDR_NULL" and sz: "sz \<le> n" and n32: "n < 2 ^ 32"
  defines "h' \<equiv> set_c_next c (last1 (state pool)) h"
    and "pool' \<equiv> pool\<lparr>state := (state pool)\<lparr>last1 := c, free1 := n - sz\<rparr>\<rparr>"
  shows "mp_shape pool' h' cs (c # bs) us"
    and "fresh_block (c - n) sz (mp_used pool h cs bs) (mp_used pool' h' cs (c # bs))"
proof -
  have same: "chunk_ok h' d = chunk_ok h d" "c_size h' = c_size h" "live h' = live h" "chunk_data h' = chunk_data h" for d
    by (simp_all add: h'_def set_c_next_def chunk_ok_def chunk_base_def chunk_data_def fun_eq_iff)
  have nx: "c_next h' d = (if d = c then last1 (state pool) else c_next h d)" for d
    by (simp add: h'_def set_c_next_def)
  have "chunks h' p xs = chunks h p xs" if "c \<notin> set xs" for p xs
    using that by (intro chunks_cong) (auto simp: nx)
  then show sh': "mp_shape pool' h' cs (c # bs) us"
    using sh c n32 by (simp add: mp_shape_def same nx pool'_def split: if_splits)
  have disj: "chunk_data h c \<inter> chunk_data h d = {}" if "d \<in> set (cs @ bs)" for d
    using shape_disjoint [OF sh', of c d] that c by (auto simp: same)
  let ?R = "{last0 (state pool) - free0 (state pool)..<last0 (state pool)}"
  let ?D = "\<Union>c \<in> set (cs @ bs). chunk_data h c"
  show "fresh_block (c - n) sz (mp_used pool h cs bs) (mp_used pool' h' cs (c # bs))"
    unfolding fresh_block_def
  proof (rule used_push)
    show "chunk_data h c \<inter> ?R = {}"
    proof (rule equals0I)
      fix a assume "a \<in> chunk_data h c \<inter> ?R"
      with free0_in [OF sh, of a] disj [of "hd cs"] show False by (cases cs) auto
    qed
    show "chunk_data h c \<inter> ?D = {}" using disj by blast
    show "{c - n..<c - n + sz} \<subseteq> chunk_data h c" "{c - (n - sz)..<c} \<subseteq> chunk_data h c"
      "{c - n..<c - n + sz} \<inter> {c - (n - sz)..<c} = {}"
      using c sz by (auto simp: chunk_data_def chunk_base_def chunk_ok_def)
    show "mp_used pool h cs bs \<subseteq> ?D - ?R" unfolding mp_used_def by blast
    show "mp_used pool' h' cs (c # bs) = (chunk_data h c \<union> ?D) - {c - (n - sz)..<c} - ?R"
      by (auto simp: mp_used_def pool'_def same)
  qed
qed

text \<open>The live blocks that are no chunks of the pool.\<close>

definition outside :: "mp_heap \<Rightarrow> addr list \<Rightarrow> (addr \<times> nat) list" where
  "outside h xs = filter (\<lambda>b. fst b \<notin> chunk_base h ` set xs) (live h)"

lemma outside_cong:
  "live h' = live h \<Longrightarrow> c_size h' = c_size h \<Longrightarrow> set xs' = set xs \<Longrightarrow> outside h' xs' = outside h xs"
  by (simp add: outside_def chunk_base_def)

section \<open>Allocation\<close>

text \<open>
  A later state of a pool: its chains have grown at their heads, the chunks that were there
  are as they were, and so are the contents of the memory and the saved states.
\<close>

definition mp_extends ::
  "mempool \<Rightarrow> mp_heap \<Rightarrow> addr list \<Rightarrow> addr list \<Rightarrow> mempool \<Rightarrow> mp_heap \<Rightarrow> addr list \<Rightarrow> addr list \<Rightarrow> bool"
where
  "mp_extends pool h cs bs pool' h' cs' bs' \<longleftrightarrow>
     (\<exists>ds. cs' = ds @ cs) \<and> (\<exists>ds. bs' = ds @ bs) \<and>
     (\<forall>c \<in> set (cs @ bs). c_next h' c = c_next h c \<and> c_size h' c = c_size h c) \<and>
     mem h' = mem h \<and> saved h' = saved h \<and> self pool' = self pool \<and>
     chunk_size pool' = chunk_size pool \<and> state_next (state pool') = state_next (state pool)"

lemma mp_extends_refl:
  "mp_extends pool h cs bs pool h cs bs"
  by (simp add: mp_extends_def)

lemma mp_extends_trans:
  assumes "mp_extends p1 h1 c1 b1 p2 h2 c2 b2" and "mp_extends p2 h2 c2 b2 p3 h3 c3 b3"
  shows "mp_extends p1 h1 c1 b1 p3 h3 c3 b3"
proof -
  obtain ds es fs gs where "c2 = ds @ c1" "b2 = es @ b1" "c3 = fs @ c2" "b3 = gs @ b2"
    using assms unfolding mp_extends_def by blast
  with assms show ?thesis unfolding mp_extends_def by auto
qed

definition mp_result ::
  "nat \<Rightarrow> mempool \<Rightarrow> mp_heap \<Rightarrow> addr list \<Rightarrow> addr list \<Rightarrow> addr list \<Rightarrow> (addr \<times> mempool \<times> mp_heap) option \<Rightarrow> bool"
where
  "mp_result sz pool h cs bs us r \<longleftrightarrow>
     (\<exists>p pool' h' cs' bs' us'. r = Some (p, pool', h') \<and> mp_shape pool' h' cs' bs' us' \<and>
        mp_extends pool h cs bs pool' h' cs' bs' \<and> outside h' (cs' @ bs' @ us') = outside h (cs @ bs @ us) \<and>
        fresh_block p sz (mp_used pool h cs bs) (mp_used pool' h' cs' bs'))"

lemma mp_resultI:
  "r = Some (p, pool', h') \<Longrightarrow> mp_shape pool' h' cs' bs' us' \<Longrightarrow> mp_extends pool h cs bs pool' h' cs' bs' \<Longrightarrow>
   outside h' (cs' @ bs' @ us') = outside h (cs @ bs @ us) \<Longrightarrow>
   fresh_block p sz (mp_used pool h cs bs) (mp_used pool' h' cs' bs') \<Longrightarrow> mp_result sz pool h cs bs us r"
  unfolding mp_result_def by blast

lemma shape_index [simp]:
  "mp_shape (pool\<lparr>index := i\<rparr>) h cs bs us = mp_shape pool h cs bs us"
  "mp_shape (pool\<lparr>last_big := a\<rparr>) h cs bs us = mp_shape pool h cs bs us"
  by (simp_all add: mp_shape_def)

lemma used_index [simp]:
  "mp_used (pool\<lparr>index := i\<rparr>) h cs bs = mp_used pool h cs bs"
  "mp_used (pool\<lparr>last_big := a\<rparr>) h cs bs = mp_used pool h cs bs"
  "mp_used (pool\<lparr>unused := u\<rparr>) h cs bs = mp_used pool h cs bs"
  by (simp_all add: mp_used_def)

lemma base_aligned: "chunk_ok h c \<Longrightarrow> 8 dvd c - c_size h c"
  by (simp add: chunk_ok_def)

text \<open>A new chunk does not disturb the pool.\<close>

lemma new_chunk_shape:
  assumes A: "allocator_ok A" and sh: "mp_shape pool h cs bs us" and n: "8 dvd n"
  obtains c h' where "mp_new_big_chunk A n h = Some (c, h')" and "mp_shape pool h' cs bs us"
    and "chunk_ok h' c" "c_size h' c = n" "c \<notin> set (cs @ bs @ us)" "c \<noteq> ADDR_NULL"
    and "mp_used pool h' cs bs = mp_used pool h cs bs"
    and "mem h' = mem h" "saved h' = saved h" "c_next h' = c_next h"
    and "\<And>d. d \<in> set (cs @ bs) \<Longrightarrow> c_size h' d = c_size h d"
    and "outside h' (c # cs @ bs @ us) = outside h (cs @ bs @ us)"
proof -
  have L: "live_ok (live h)" using sh by (simp add: mp_shape_def)
  obtain c h' where c: "mp_new_big_chunk A n h = Some (c, h')"
    and h': "h' = h\<lparr>live := (c - n, n + MP_CHUNK_TAIL) # live h, c_size := (c_size h)(c := n)\<rparr>"
    and ok: "chunk_ok h' c" "c_size h' c = n" "c \<noteq> ADDR_NULL" "live_ok (live h')"
    and old: "\<And>d. chunk_ok h d \<Longrightarrow> d \<noteq> c \<and> chunk_ok h' d"
    by (rule new_chunk [OF A L n]) blast
  have ne: "d \<noteq> c \<and> chunk_ok h' d" if "d \<in> set (cs @ bs @ us)" for d
    using that sh by (intro old) (auto simp: mp_shape_def)
  then have fresh: "c \<notin> set (cs @ bs @ us)" by blast
  have sz: "c_size h' d = c_size h d" if "d \<noteq> c" for d using that by (simp add: h')
  have hd: "bs \<noteq> [] \<Longrightarrow> hd bs \<noteq> c" using ne hd_in_set [of bs] by auto
  have next': "c_next h' = c_next h" by (simp add: h')
  have "chunks h' p xs = chunks h p xs" for p xs by (rule chunks_cong) (simp add: next')
  then have "mp_shape pool h' cs bs us"
    using sh ne ok hd sz unfolding mp_shape_def by (auto split: if_splits)
  moreover have "mp_used pool h' cs bs = mp_used pool h cs bs"
    using ne sz by (auto simp: mp_used_def chunk_data_def chunk_base_def)
  moreover have "mem h' = mem h" "saved h' = saved h" by (simp_all add: h')
  moreover have "c_size h' d = c_size h d" if "d \<in> set (cs @ bs)" for d
    using ne [of d] that sz by auto
  moreover have "outside h' (c # cs @ bs @ us) = outside h (cs @ bs @ us)"
  proof -
    have base: "chunk_base h' ` set (c # cs @ bs @ us) = insert (c - n) (chunk_base h ` set (cs @ bs @ us))"
      using ne sz ok(2) by (auto simp: chunk_base_def image_iff)
    have "distinct (map fst (live h'))" using ok(4) by (simp add: live_ok_def)
    then have "c - n \<notin> fst ` set (live h)" by (simp add: h')
    then have "\<forall>b \<in> set (live h). fst b \<noteq> c - n" by force
    then have "filter (\<lambda>b. fst b \<notin> insert (c - n) X) (live h) = filter (\<lambda>b. fst b \<notin> X) (live h)" for X
      by (intro filter_cong) auto
    then show ?thesis unfolding outside_def base by (simp add: h')
  qed
  ultimately show ?thesis using that [OF c] ok fresh next' by blast
qed

lemma mp_alloc_internal_ok:
  assumes A: "allocator_ok A" and sh: "mp_shape pool h cs bs us" and sz: "sz \<le> MP_SIZE_MAX"
  shows "mp_result sz pool h cs bs us (mp_alloc_internal A pool sz h)"
    and "mp_alloc_internal A pool sz h = Some (p, pool', h') \<Longrightarrow> 8 dvd p"
proof -
  let ?n = "chunk_size pool"
  have n: "threshold pool = ?n div 2" "8 dvd ?n" using sh by (simp_all add: mp_shape_def)
  have "mp_result sz pool h cs bs us (mp_alloc_internal A pool sz h) \<and>
    (\<forall>p pool' h'. mp_alloc_internal A pool sz h = Some (p, pool', h') \<longrightarrow> 8 dvd p)"
  proof (cases "sz \<le> threshold pool")
    case small: True
    then have le: "sz \<le> ?n" using n by linarith
    show ?thesis
    proof (cases us)
      case Nil
      then have u: "unused pool = ADDR_NULL" using sh by (simp add: mp_shape_def)
      obtain c h1 where c: "mp_new_big_chunk A ?n h = Some (c, h1)" and sh1: "mp_shape pool h1 cs bs us"
        and ok: "chunk_ok h1 c" "c_size h1 c = ?n" "c \<notin> set (cs @ bs @ us)" "c \<noteq> ADDR_NULL"
        and used: "mp_used pool h1 cs bs = mp_used pool h cs bs"
        and same: "mem h1 = mem h" "saved h1 = saved h" "c_next h1 = c_next h"
          "\<And>d. d \<in> set (cs @ bs) \<Longrightarrow> c_size h1 d = c_size h d"
        and out: "outside h1 (c # cs @ bs @ us) = outside h (cs @ bs @ us)"
        by (rule new_chunk_shape [OF A sh n(2)]) blast
      let ?h = "set_c_next c (last0 (state pool)) h1"
      let ?p = "pool\<lparr>state := (state pool)\<lparr>last0 := c, free0 := ?n - sz\<rparr>\<rparr>"
      have eq: "mp_alloc_internal A pool sz h = Some (c - ?n, ?p\<lparr>index := 0\<rparr>, ?h)"
        using small u c by (simp add: mp_alloc_internal_def mp_new_chunk_def Let_def)
      note push = push_chunk0 [OF sh1 ok le]
      have "mp_extends pool h cs bs (?p\<lparr>index := 0\<rparr>) ?h (c # cs) bs"
        using same ok by (auto simp: mp_extends_def set_c_next_def)
      moreover have "mp_shape (?p\<lparr>index := 0\<rparr>) ?h (c # cs) bs us" unfolding shape_index by (rule push(1))
      moreover have "fresh_block (c - ?n) sz (mp_used pool h cs bs) (mp_used (?p\<lparr>index := 0\<rparr>) ?h (c # cs) bs)"
        using push(2) unfolding used_index used .
      moreover have "outside ?h ((c # cs) @ bs @ us) = outside h (cs @ bs @ us)"
        unfolding out [symmetric] by (rule outside_cong) (simp_all add: set_c_next_def)
      ultimately have "mp_result sz pool h cs bs us (mp_alloc_internal A pool sz h)"
        using mp_resultI [OF eq] by blast
      then show ?thesis using eq base_aligned [OF ok(1)] ok(2) by simp
    next
      case (Cons c us')
      have u: "unused pool = c" and ok: "chunk_ok h c" "c_size h c = ?n" "c \<notin> set (cs @ bs @ us')" "c \<noteq> ADDR_NULL"
        using sh Cons by (auto simp: mp_shape_def)
      let ?q = "pool\<lparr>unused := c_next h c\<rparr>"
      have sh1: "mp_shape ?q h cs bs us'" using sh Cons by (auto simp: mp_shape_def split: if_splits)
      let ?h = "set_c_next c (last0 (state ?q)) h"
      let ?p = "?q\<lparr>state := (state ?q)\<lparr>last0 := c, free0 := chunk_size ?q - sz\<rparr>\<rparr>"
      have eq: "mp_alloc_internal A pool sz h = Some (c - ?n, ?p\<lparr>index := 0\<rparr>, ?h)"
        using small u ok by (simp add: mp_alloc_internal_def Let_def)
      note push = push_chunk0 [OF sh1, of c sz]
      have "mp_extends pool h cs bs (?p\<lparr>index := 0\<rparr>) ?h (c # cs) bs"
        using ok by (auto simp: mp_extends_def set_c_next_def)
      moreover have "mp_shape (?p\<lparr>index := 0\<rparr>) ?h (c # cs) bs us'"
        unfolding shape_index by (rule push(1)) (use ok le in simp_all)
      moreover have "fresh_block (c - ?n) sz (mp_used pool h cs bs) (mp_used (?p\<lparr>index := 0\<rparr>) ?h (c # cs) bs)"
        using push(2) ok le unfolding used_index by simp
      moreover have "outside ?h ((c # cs) @ bs @ us') = outside h (cs @ bs @ us)"
        using Cons by (intro outside_cong) (auto simp: set_c_next_def)
      ultimately have "mp_result sz pool h cs bs us (mp_alloc_internal A pool sz h)"
        using mp_resultI [OF eq] by blast
      then show ?thesis using eq base_aligned [OF ok(1)] ok(2) by simp
    qed
  next
    case big: False
    let ?a = "mp_align_size sz"
    have "sz \<le> 2 ^ 32 - 8" using sz by (simp add: MP_SIZE_MAX_def MP_CHUNK_TAIL_def CPU_PAGE_SIZE_def)
    note a = mp_align_size_small [OF this]
    obtain c h1 where c: "mp_new_big_chunk A ?a h = Some (c, h1)" and sh1: "mp_shape pool h1 cs bs us"
      and ok: "chunk_ok h1 c" "c_size h1 c = ?a" "c \<notin> set (cs @ bs @ us)" "c \<noteq> ADDR_NULL"
      and used: "mp_used pool h1 cs bs = mp_used pool h cs bs"
      and same: "mem h1 = mem h" "saved h1 = saved h" "c_next h1 = c_next h"
        "\<And>d. d \<in> set (cs @ bs) \<Longrightarrow> c_size h1 d = c_size h d"
      and out: "outside h1 (c # cs @ bs @ us) = outside h (cs @ bs @ us)"
      by (rule new_chunk_shape [OF A sh a(3)]) blast
    let ?h = "set_c_next c (last1 (state pool)) h1"
    let ?p = "pool\<lparr>state := (state pool)\<lparr>last1 := c, free1 := ?a - sz\<rparr>\<rparr>"
    let ?q = "?p\<lparr>index := 1, last_big := c - ?a\<rparr>"
    have eq: "mp_alloc_internal A pool sz h = Some (c - ?a, ?q, ?h)"
      using big sz c by (simp add: mp_alloc_internal_def Let_def)
    have "?a < 2 ^ 32" using a(2) sz by (simp add: MP_SIZE_MAX_def MP_CHUNK_TAIL_def CPU_PAGE_SIZE_def)
    note push = push_chunk1 [OF sh1 ok a(1) this]
    have "mp_extends pool h cs bs ?q ?h cs (c # bs)" using same ok by (auto simp: mp_extends_def set_c_next_def)
    moreover have "mp_shape ?q ?h cs (c # bs) us" unfolding shape_index by (rule push(1))
    moreover have "fresh_block (c - ?a) sz (mp_used pool h cs bs) (mp_used ?q ?h cs (c # bs))"
      using push(2) unfolding used_index used .
    moreover have "outside ?h (cs @ (c # bs) @ us) = outside h (cs @ bs @ us)"
      unfolding out [symmetric] by (rule outside_cong) (auto simp: set_c_next_def)
    ultimately have "mp_result sz pool h cs bs us (mp_alloc_internal A pool sz h)"
      using mp_resultI [OF eq] by blast
    then show ?thesis using eq base_aligned [OF ok(1)] ok(2) by simp
  qed
  then show "mp_result sz pool h cs bs us (mp_alloc_internal A pool sz h)"
    and "mp_alloc_internal A pool sz h = Some (p, pool', h') \<Longrightarrow> 8 dvd p" by blast+
qed

lemma mp_alloc_fast_ok:
  assumes A: "allocator_ok A" and sh: "mp_shape pool h cs bs us" and sz: "sz \<le> MP_SIZE_MAX"
  shows "mp_result sz pool h cs bs us (mp_alloc_fast A pool sz h)"
    and "mp_alloc_fast A pool sz h = Some (p, pool', h') \<Longrightarrow> 8 dvd p"
proof -
  let ?a = "avail_aligned pool"
  have le: "?a \<le> free0 (state pool)" by (simp add: avail_aligned_def)
  have al: "8 dvd ?a" by (simp add: avail_aligned_def CPU_STRUCT_ALIGN_def)
  have l: "8 dvd last0 (state pool)" using sh by (cases cs) (auto simp: mp_shape_def chunk_ok_def ADDR_NULL_def)
  show "mp_result sz pool h cs bs us (mp_alloc_fast A pool sz h)"
  proof (cases "sz \<le> ?a")
    case True
    note t = take_free0 [OF sh True le]
    show ?thesis
      using True by (intro mp_resultI [OF _ t(1) _ _ t(2)]) (simp_all add: mp_alloc_fast_def Let_def mp_extends_def)
  next
    case False
    then show ?thesis using mp_alloc_internal_ok(1) [OF A sh sz] by (simp add: mp_alloc_fast_def)
  qed
  show "mp_alloc_fast A pool sz h = Some (p, pool', h') \<Longrightarrow> 8 dvd p"
    using al l mp_alloc_internal_ok(2) [OF A sh sz]
    by (auto simp: mp_alloc_fast_def Let_def split: if_splits)
qed

lemma mp_alloc_fast_noalign_ok:
  assumes A: "allocator_ok A" and sh: "mp_shape pool h cs bs us" and sz: "sz \<le> MP_SIZE_MAX"
  shows "mp_result sz pool h cs bs us (mp_alloc_fast_noalign A pool sz h)"
proof (cases "sz \<le> free0 (state pool)")
  case True
  note t = take_free0 [OF sh True order_refl]
  show ?thesis
    using True by (intro mp_resultI [OF _ t(1) _ _ t(2)]) (simp_all add: mp_alloc_fast_noalign_def mp_extends_def)
next
  case False
  then show ?thesis using mp_alloc_internal_ok(1) [OF A sh sz] by (simp add: mp_alloc_fast_noalign_def)
qed

section \<open>Sequences of allocations\<close>

text \<open>
  What a client may rely on: allocations within the limit succeed, and each returns memory
  that is not in use. \<open>ext\<close> relates a state to the later states of the same pool; \<open>'g\<close>
  is the ghost state, here the chains of chunks.
\<close>

fun alloc_all :: "('s \<Rightarrow> nat \<Rightarrow> (addr \<times> 's) option) \<Rightarrow> 's \<Rightarrow> nat list \<Rightarrow> (addr list \<times> 's) option" where
  "alloc_all alloc s [] = Some ([], s)"
| "alloc_all alloc s (n # ns) =
     Option.bind (alloc s n) (\<lambda>(p, s). map_option (\<lambda>(ps, s). (p # ps, s)) (alloc_all alloc s ns))"

locale arena =
  fixes alloc :: "'s \<Rightarrow> nat \<Rightarrow> (addr \<times> 's) option"
    and inv :: "'s \<Rightarrow> 'g \<Rightarrow> bool"
    and used :: "'s \<Rightarrow> 'g \<Rightarrow> addr set"
    and ext :: "'s \<Rightarrow> 'g \<Rightarrow> 's \<Rightarrow> 'g \<Rightarrow> bool"
    and fits :: "nat \<Rightarrow> bool"
    and good :: "addr \<Rightarrow> bool"
  assumes ext_refl: "ext s g s g"
    and ext_trans: "ext s g s' g' \<Longrightarrow> ext s' g' s'' g'' \<Longrightarrow> ext s g s'' g''"
    and alloc_fresh: "inv s g \<Longrightarrow> fits n \<Longrightarrow>
      \<exists>p s' g'. alloc s n = Some (p, s') \<and> good p \<and> inv s' g' \<and> ext s g s' g' \<and>
        fresh_block p n (used s g) (used s' g')"
begin

lemma alloc_all_fresh:
  "inv s g \<Longrightarrow> list_all fits ns \<Longrightarrow>
   \<exists>ps s' g'. alloc_all alloc s ns = Some (ps, s') \<and> inv s' g' \<and> ext s g s' g' \<and> length ps = length ns \<and>
     list_all good ps \<and> used s g \<subseteq> used s' g' \<and>
     sorted_wrt (\<lambda>a b. block a \<inter> block b = {}) (zip ps ns) \<and>
     (\<forall>b \<in> set (zip ps ns). block b \<inter> used s g = {} \<and> block b \<subseteq> used s' g')"
proof (induction ns arbitrary: s g)
  case Nil
  then show ?case using ext_refl [of s g] by auto
next
  case (Cons n ns)
  obtain p s1 g1 where 1: "alloc s n = Some (p, s1)" "good p" "inv s1 g1" "ext s g s1 g1"
    and f: "fresh_block p n (used s g) (used s1 g1)"
    using alloc_fresh [of s g n] Cons.prems by auto
  obtain ps s2 g2 where 2: "alloc_all alloc s1 ns = Some (ps, s2)" "inv s2 g2" "ext s1 g1 s2 g2"
    "length ps = length ns" "list_all good ps" "used s1 g1 \<subseteq> used s2 g2"
    "sorted_wrt (\<lambda>a b. block a \<inter> block b = {}) (zip ps ns)"
    "\<forall>b \<in> set (zip ps ns). block b \<inter> used s1 g1 = {} \<and> block b \<subseteq> used s2 g2"
    using Cons.IH [OF 1(3)] Cons.prems by auto
  have b: "block (p, n) \<inter> used s g = {}" "block (p, n) \<subseteq> used s1 g1" "used s g \<subseteq> used s1 g1"
    using f by (auto simp: fresh_block_def block_def)
  have "\<forall>b \<in> set (zip ps ns). block (p, n) \<inter> block b = {}" using b 2 by blast
  moreover have "\<forall>b \<in> set (zip (p # ps) (n # ns)). block b \<inter> used s g = {} \<and> block b \<subseteq> used s2 g2"
  proof
    fix c assume "c \<in> set (zip (p # ps) (n # ns))"
    then have "c = (p, n) \<or> c \<in> set (zip ps ns)" by simp
    then show "block c \<inter> used s g = {} \<and> block c \<subseteq> used s2 g2" using b 2 by blast
  qed
  ultimately show ?case
    using 1 2 b ext_trans [OF 1(4) 2(3)]
    by (intro exI [of _ "p # ps"] exI [of _ s2] exI [of _ g2]) auto
qed

end

definition pool_alloc ::
  "(placement \<Rightarrow> mempool \<Rightarrow> nat \<Rightarrow> mp_heap \<Rightarrow> (addr \<times> mempool \<times> mp_heap) option) \<Rightarrow> placement \<Rightarrow>
   mempool \<times> mp_heap \<Rightarrow> nat \<Rightarrow> (addr \<times> mempool \<times> mp_heap) option"
where
  "pool_alloc f A s n = (case s of (pool, h) \<Rightarrow> f A pool n h)"

type_synonym chains = "addr list \<times> addr list \<times> addr list"

definition pool_inv :: "mempool \<times> mp_heap \<Rightarrow> chains \<Rightarrow> bool" where
  "pool_inv s g = (case (s, g) of ((pool, h), (cs, bs, us)) \<Rightarrow> mp_shape pool h cs bs us)"

definition pool_used :: "mempool \<times> mp_heap \<Rightarrow> chains \<Rightarrow> addr set" where
  "pool_used s g = (case (s, g) of ((pool, h), (cs, bs, us)) \<Rightarrow> mp_used pool h cs bs)"

definition pool_ext :: "mempool \<times> mp_heap \<Rightarrow> chains \<Rightarrow> mempool \<times> mp_heap \<Rightarrow> chains \<Rightarrow> bool" where
  "pool_ext s g s' g' =
     (case (s, g, s', g') of ((pool, h), (cs, bs, us), (pool', h'), (cs', bs', us')) \<Rightarrow>
        mp_extends pool h cs bs pool' h' cs' bs' \<and> outside h' (cs' @ bs' @ us') = outside h (cs @ bs @ us))"

lemma pool_ext_refl: "pool_ext s g s g"
  by (simp add: pool_ext_def mp_extends_refl split: prod.splits)

lemma pool_ext_trans: "pool_ext s g s' g' \<Longrightarrow> pool_ext s' g' s'' g'' \<Longrightarrow> pool_ext s g s'' g''"
  by (auto simp: pool_ext_def intro: mp_extends_trans)

lemma pool_result:
  assumes "mp_result n pool h cs bs us (f A pool n h)"
    and "\<And>p pool' h'. f A pool n h = Some (p, pool', h') \<Longrightarrow> good p"
  shows "\<exists>p s' g'. pool_alloc f A (pool, h) n = Some (p, s') \<and> good p \<and> pool_inv s' g' \<and> pool_ext (pool, h) (cs, bs, us) s' g' \<and>
      fresh_block p n (pool_used (pool, h) (cs, bs, us)) (pool_used s' g')"
proof -
  obtain p pool' h' cs' bs' us' where "f A pool n h = Some (p, pool', h')" "mp_shape pool' h' cs' bs' us'"
    "mp_extends pool h cs bs pool' h' cs' bs'" "outside h' (cs' @ bs' @ us') = outside h (cs @ bs @ us)" "fresh_block p n (mp_used pool h cs bs) (mp_used pool' h' cs' bs')"
    using assms(1) unfolding mp_result_def by blast
  then show ?thesis
    using assms(2) by (intro exI [of _ p] exI [of _ "(pool', h')"] exI [of _ "(cs', bs', us')"])
      (simp add: pool_alloc_def pool_inv_def pool_used_def pool_ext_def)
qed

interpretation mp: arena "pool_alloc mp_alloc A" pool_inv pool_used pool_ext
  "\<lambda>n. allocator_ok A \<and> n \<le> MP_SIZE_MAX" "\<lambda>p. 8 dvd p" for A
proof unfold_locales
  fix s g n assume inv: "pool_inv s g" and fits: "allocator_ok A \<and> n \<le> MP_SIZE_MAX"
  obtain pool h cs bs us where s: "s = (pool, h)" "g = (cs, bs, us)" by (metis prod_cases3 surj_pair)
  have sh: "mp_shape pool h cs bs us" using inv by (simp add: pool_inv_def s)
  have ok: "mp_result n pool h cs bs us (mp_alloc A pool n h)"
    "\<And>p pool' h'. mp_alloc A pool n h = Some (p, pool', h') \<Longrightarrow> 8 dvd p"
    using mp_alloc_fast_ok [OF _ sh, of A n] fits by (simp_all add: mp_alloc_def)
  show "\<exists>p s' g'. pool_alloc mp_alloc A s n = Some (p, s') \<and> 8 dvd p \<and> pool_inv s' g' \<and> pool_ext s g s' g' \<and>
      fresh_block p n (pool_used s g) (pool_used s' g')"
    unfolding s by (rule pool_result [where f = mp_alloc and good = "\<lambda>p. 8 dvd p"]) (fact ok)+
qed (rule pool_ext_refl, erule (1) pool_ext_trans)

interpretation mp_noalign: arena "pool_alloc mp_alloc_noalign A" pool_inv pool_used pool_ext
  "\<lambda>n. allocator_ok A \<and> n \<le> MP_SIZE_MAX" "\<lambda>p. True" for A
proof unfold_locales
  fix s g n assume inv: "pool_inv s g" and fits: "allocator_ok A \<and> n \<le> MP_SIZE_MAX"
  obtain pool h cs bs us where s: "s = (pool, h)" "g = (cs, bs, us)" by (metis prod_cases3 surj_pair)
  have sh: "mp_shape pool h cs bs us" using inv by (simp add: pool_inv_def s)
  have ok: "mp_result n pool h cs bs us (mp_alloc_noalign A pool n h)"
    using mp_alloc_fast_noalign_ok [OF _ sh, of A n] fits by (simp add: mp_alloc_noalign_def)
  show "\<exists>p s' g'. pool_alloc mp_alloc_noalign A s n = Some (p, s') \<and> True \<and> pool_inv s' g' \<and>
      pool_ext s g s' g' \<and> fresh_block p n (pool_used s g) (pool_used s' g')"
    unfolding s using ok by (rule pool_result [where f = mp_alloc_noalign and good = "\<lambda>p. True"]) simp
qed (rule pool_ext_refl, erule (1) pool_ext_trans)

section \<open>Giving chunks back\<close>

lemma free_chunk:
  assumes c: "chunk_ok h c" and L: "live_ok (live h)"
  defines "h' \<equiv> h\<lparr>live := release (chunk_base h c) (live h)\<rparr>"
  shows "mp_free_big_chunk c h = Some h'" and "live_ok (live h')"
    and "chunk_ok h d \<Longrightarrow> d \<noteq> c \<Longrightarrow> chunk_ok h' d"
proof -
  have in_live: "(chunk_base h c, c_size h c + MP_CHUNK_TAIL) \<in> set (live h)" using c by (simp add: chunk_ok_def)
  moreover have "chunk_base h c \<noteq> ADDR_NULL" using L in_live by (auto simp: live_ok_def)
  ultimately show "mp_free_big_chunk c h = Some h'"
    by (force simp: mp_free_big_chunk_def xfree_def c_free_def h'_def chunk_base_def)
  show "live_ok (live h')" using live_ok_release [OF L] by (simp add: h'_def)
  show "chunk_ok h' d" if d: "chunk_ok h d" "d \<noteq> c"
  proof -
    have "chunk_base h d \<noteq> chunk_base h c"
    proof
      assume eq: "chunk_base h d = chunk_base h c"
      have "chunk_base h d \<in> {chunk_base h d..<d + MP_CHUNK_TAIL}" "chunk_base h c \<in> {chunk_base h c..<c + MP_CHUNK_TAIL}"
        by (auto simp: chunk_base_def MP_CHUNK_TAIL_def)
      then show False using chunks_disjoint [OF L d(1) c d(2)] eq by auto
    qed
    then show ?thesis using d by (simp add: chunk_ok_def h'_def release_def chunk_base_def)
  qed
qed

definition first_of :: "addr list \<Rightarrow> addr" where
  "first_of cs = (case cs of [] \<Rightarrow> ADDR_NULL | c # _ \<Rightarrow> c)"

lemma chunks_first: "chunks h p cs \<Longrightarrow> p = first_of cs"
  by (cases cs) (auto simp: first_of_def)

lemma first_of_notin: "chunks h p (c # ds @ cs) \<Longrightarrow> distinct (c # ds @ cs) \<Longrightarrow> c \<noteq> first_of cs"
  by (cases cs) (auto simp: first_of_def)

lemma chunks_live [simp]: "chunks (h\<lparr>live := L\<rparr>) p cs = chunks h p cs"
  by (rule chunks_cong) simp

text \<open>Freeing the front of a chain.\<close>

lemma mp_restore_big_ok:
  assumes "chunks h p (ds @ bs)" "distinct (ds @ bs @ rest)" "\<forall>c \<in> set (ds @ bs @ rest). chunk_ok h c" "live_ok (live h)"
  shows "\<exists>L. mp_restore_big p (first_of bs) h = Some (h\<lparr>live := L\<rparr>) \<and> live_ok L \<and>
    (\<forall>c \<in> set (bs @ rest). chunk_ok (h\<lparr>live := L\<rparr>) c) \<and>
    L = filter (\<lambda>b. fst b \<notin> chunk_base h ` set ds) (live h)"
  using assms
proof (induction ds arbitrary: h p)
  case Nil
  then have "p = first_of bs" using chunks_first by simp
  then show ?case using Nil by (subst mp_restore_big.simps) auto
next
  case (Cons c ds)
  let ?h = "h\<lparr>live := release (chunk_base h c) (live h)\<rparr>"
  have p: "p = c" and ne: "c \<noteq> first_of bs" using Cons.prems first_of_notin [of h p c ds bs] by auto
  have ok: "chunk_ok h c" using Cons.prems by simp
  note free = free_chunk [OF ok Cons.prems(4)]
  have "\<forall>d \<in> set (ds @ bs @ rest). chunk_ok ?h d" using Cons.prems free(3) by auto
  then obtain L where L: "mp_restore_big (c_next h c) (first_of bs) ?h = Some (?h\<lparr>live := L\<rparr>)" "live_ok L"
    "\<forall>c \<in> set (bs @ rest). chunk_ok (?h\<lparr>live := L\<rparr>) c" "L = filter (\<lambda>b. fst b \<notin> chunk_base ?h ` set ds) (live ?h)"
    using Cons.IH [of ?h "c_next h c"] Cons.prems free(2) by auto
  moreover have "chunk_base ?h = chunk_base h" by (simp add: fun_eq_iff chunk_base_def)
  moreover have "mp_restore_big p (first_of bs) h = Some (h\<lparr>live := L\<rparr>)"
    using ne p free(1) L(1) by (subst mp_restore_big.simps) (simp add: Let_def)
  ultimately show ?case by (auto simp: release_def intro: filter_cong)
qed

lemma c_free_next: "mp_free_big_chunk c h = Some h' \<Longrightarrow> c_next h' = c_next h"
  by (auto simp: mp_free_big_chunk_def xfree_def c_free_def split: if_splits)

lemma free_chain_restore:
  "chunks h p ds \<Longrightarrow> mp_free_big_chain p h = mp_restore_big p ADDR_NULL h \<and>
     mp_free_chain p h = mp_restore_big p ADDR_NULL h"
proof (induction ds arbitrary: h p)
  case Nil
  then show ?case
    by (subst mp_free_big_chain.simps, subst mp_free_chain.simps, subst (1 2) mp_restore_big.simps) simp
next
  case (Cons c ds)
  have "mp_free_big_chain (c_next h c) h' = mp_restore_big (c_next h c) ADDR_NULL h' \<and>
      mp_free_chain (c_next h c) h' = mp_restore_big (c_next h c) ADDR_NULL h'"
    if "mp_free_big_chunk c h = Some h'" for h'
    using Cons.prems c_free_next [OF that] chunks_cong [of ds h' h] by (intro Cons.IH) simp
  then show ?case
    using Cons.prems
    by (subst mp_free_big_chain.simps, subst mp_free_chain.simps, subst (1 2) mp_restore_big.simps)
      (auto simp: Let_def mp_free_chunk_def intro!: Option.bind_cong)
qed

text \<open>Moving the front of a chain to the unused chunks.\<close>

lemma mp_restore_chunks_ok:
  assumes "chunks h p (ds @ cs)" "distinct (ds @ cs @ us)" "chunks h (unused pool) us"
  shows "\<exists>u N. mp_restore_chunks pool p (first_of cs) h = Some (pool\<lparr>unused := u\<rparr>, h\<lparr>c_next := N\<rparr>) \<and>
    chunks (h\<lparr>c_next := N\<rparr>) u (rev ds @ us) \<and> (\<forall>c. c \<notin> set ds \<longrightarrow> N c = c_next h c)"
  using assms
proof (induction ds arbitrary: h p pool us)
  case Nil
  then have "p = first_of cs" using chunks_first by simp
  then show ?case
    using Nil by (subst mp_restore_chunks.simps) (auto intro!: exI [of _ "unused pool"] exI [of _ "c_next h"])
next
  case (Cons c ds)
  let ?h = "set_c_next c (unused pool) h" and ?p = "pool\<lparr>unused := c\<rparr>"
  have p: "p = c" and ne: "c \<noteq> first_of cs" using Cons.prems first_of_notin [of h p c ds cs] by auto
  have 1: "chunks ?h (c_next h c) (ds @ cs)"
    using Cons.prems by (subst chunks_cong [of _ ?h h]) (auto simp: set_c_next_def)
  have "chunks ?h (unused pool) us"
    using Cons.prems by (subst chunks_cong [of _ ?h h]) (auto simp: set_c_next_def)
  then have 2: "chunks ?h (unused ?p) (c # us)" using Cons.prems by (simp add: set_c_next_def)
  have 3: "distinct (ds @ cs @ c # us)" using Cons.prems by auto
  obtain u N where N: "mp_restore_chunks ?p (c_next h c) (first_of cs) ?h = Some (?p\<lparr>unused := u\<rparr>, ?h\<lparr>c_next := N\<rparr>)"
    "chunks (?h\<lparr>c_next := N\<rparr>) u (rev ds @ c # us)" "\<forall>d. d \<notin> set ds \<longrightarrow> N d = c_next ?h d"
    using Cons.IH [OF 1 3 2] by blast
  have "mp_restore_chunks pool p (first_of cs) h = Some (pool\<lparr>unused := u\<rparr>, h\<lparr>c_next := N\<rparr>)"
    using ne p N(1) by (subst mp_restore_chunks.simps) (simp add: Let_def set_c_next_def)
  moreover have "chunks (h\<lparr>c_next := N\<rparr>) u (rev (c # ds) @ us)"
    using N(2) by (simp add: set_c_next_def)
  moreover have "\<forall>d. d \<notin> set (c # ds) \<longrightarrow> N d = c_next h d" using N(3) by (simp add: set_c_next_def)
  ultimately show ?case by blast
qed

lemma mp_restore_ok:
  assumes old: "mp_shape pool h cs bs us" and new: "mp_shape pool' h' (ds @ cs) (es @ bs) us'"
    and ext: "\<forall>c \<in> set (cs @ bs). c_next h' c = c_next h c \<and> c_size h' c = c_size h c"
      "chunk_size pool' = chunk_size pool"
  shows "\<exists>pool'' h''. mp_restore pool' (state pool) h' = Some (pool'', h'') \<and> state pool'' = state pool \<and>
    mp_shape pool'' h'' cs bs (rev ds @ us') \<and> mp_used pool'' h'' cs bs = mp_used pool h cs bs \<and>
    mem h'' = mem h' \<and> saved h'' = saved h' \<and> self pool'' = self pool' \<and> chunk_size pool'' = chunk_size pool'"
proof -
  let ?s = "state pool"
  have s: "last0 ?s = first_of cs" "last1 ?s = first_of bs" "chunks h (last0 ?s) cs" "chunks h (last1 ?s) bs"
    using old chunks_first unfolding mp_shape_def by blast+
  have "chunks h' (last0 (state pool')) (ds @ cs)" "distinct (ds @ cs @ us')" "chunks h' (unused pool') us'"
    using new by (auto simp: mp_shape_def)
  from mp_restore_chunks_ok [OF this] obtain u N where
    N: "mp_restore_chunks pool' (last0 (state pool')) (last0 ?s) h' = Some (pool'\<lparr>unused := u\<rparr>, h'\<lparr>c_next := N\<rparr>)"
    "chunks (h'\<lparr>c_next := N\<rparr>) u (rev ds @ us')" "\<forall>c. c \<notin> set ds \<longrightarrow> N c = c_next h' c"
    unfolding s by blast
  let ?h = "h'\<lparr>c_next := N\<rparr>"
  have N': "N c = c_next h' c" if "c \<in> set (cs @ es @ bs @ us')" for c
    using that new N(3) by (auto simp: mp_shape_def)
  have chb: "chunks ?h (last1 (state pool')) (es @ bs)"
    using new N' by (subst chunks_cong [of _ ?h h']) (auto simp: mp_shape_def)
  have ok: "chunk_ok ?h c = chunk_ok h' c" for c by (simp add: chunk_ok_def chunk_base_def)
  have "distinct (es @ bs @ cs @ rev ds @ us')" "\<forall>c \<in> set (es @ bs @ cs @ rev ds @ us'). chunk_ok ?h c" "live_ok (live ?h)"
    using new by (auto simp: mp_shape_def ok)
  from mp_restore_big_ok [OF chb this] obtain L where
    L: "mp_restore_big (last1 (state pool')) (last1 ?s) ?h = Some (?h\<lparr>live := L\<rparr>)" "live_ok L"
    "\<forall>c \<in> set (bs @ cs @ rev ds @ us'). chunk_ok (?h\<lparr>live := L\<rparr>) c"
    unfolding s by blast
  let ?h2 = "?h\<lparr>live := L\<rparr>" and ?p2 = "pool'\<lparr>unused := u, state := ?s, last_big := addr_last_big pool'\<rparr>"
  have "mp_restore pool' ?s h' = Some (?p2, ?h2)"
    using N(1) L(1) by (simp add: mp_restore_def addr_last_big_def)
  moreover have chs: "chunks ?h2 (last0 ?s) cs" "chunks ?h2 (last1 ?s) bs"
    using s(3,4) ext(1) N' chunks_cong [of cs ?h2 h] chunks_cong [of bs ?h2 h] by simp_all
  moreover have "hd bs \<in> set bs" if "bs \<noteq> []" using that by simp
  then have "mp_shape ?p2 ?h2 cs bs (rev ds @ us')"
    using old new chs N(2) L(2,3) ext unfolding mp_shape_def by (auto split: if_splits)
  moreover have "mp_used ?p2 ?h2 cs bs = mp_used pool h cs bs"
    using ext(1) by (auto simp: mp_used_def chunk_data_def chunk_base_def)
  ultimately show ?thesis by (intro exI [of _ ?p2] exI [of _ ?h2]) simp
qed

section \<open>New pools\<close>

lemma mp_init_shape:
  assumes "live_ok (live h)" and "sz \<le> 2 ^ 31"
  shows "mp_shape (mp_init a sz) h [] [] []"
proof -
  let ?sz = "max sizeof_mempool sz"
  have le: "?sz \<le> 2 ^ 31" using assms by (simp add: sizeof_mempool_def)
  have "?sz \<le> 2 ^ 32 - 8" by (rule order_trans [OF le]) simp
  note al = mp_align_size_small [OF this]
  have "mp_align_size ?sz < 2 ^ 31 + 8" by (rule order_less_le_trans [OF al(2)]) (use le in linarith)
  then have "mp_align_size ?sz < 2 ^ 32" by simp
  then show ?thesis
    using al assms by (auto simp: mp_shape_def mp_init_def Let_def intro: order_trans)
qed

lemma mp_new_shape:
  assumes A: "allocator_ok A" and L: "live_ok (live h)" and sz: "sz \<le> 2 ^ 31"
  obtains pool h' c where "mp_new A sz h = Some (pool, h')" and "mp_shape pool h' [c] [] []"
    and "mp_used pool h' [c] [] = {self pool..<self pool + sizeof_mempool}"
    and "live h' = (self pool, chunk_size pool + MP_CHUNK_TAIL) # live h"
    and "chunk_base h' c = self pool"
proof -
  let ?m = "max sizeof_mempool sz"
  have le: "?m \<le> 2 ^ 31" using sz by (simp add: sizeof_mempool_def)
  have "?m \<le> 2 ^ 32 - 8" by (rule order_trans [OF le]) simp
  note al = mp_align_size_small [OF this]
  let ?n = "mp_align_size ?m"
  have "?n < 2 ^ 31 + 8" by (rule order_less_le_trans [OF al(2)]) (use le in linarith)
  moreover have "sizeof_mempool \<le> ?n" by (rule order_trans [OF _ al(1)]) simp
  ultimately have n: "?n < 2 ^ 32" "sizeof_mempool \<le> ?n" by simp_all
  obtain c h1 where c: "mp_new_big_chunk A ?n h = Some (c, h1)"
    and h1: "h1 = h\<lparr>live := (c - ?n, ?n + MP_CHUNK_TAIL) # live h, c_size := (c_size h)(c := ?n)\<rparr>"
    and ok: "chunk_ok h1 c" "c_size h1 c = ?n" "c \<noteq> ADDR_NULL" "live_ok (live h1)"
    by (rule new_chunk [OF A L al(3)]) blast
  have cn: "?n \<le> c" using ok by (simp add: chunk_ok_def)
  let ?h = "set_c_next c ADDR_NULL h1"
  let ?pool = "\<lparr>self = c - ?n,
     state = \<lparr>free0 = ?n - sizeof_mempool, free1 = 0, last0 = c, last1 = ADDR_NULL, state_next = ADDR_NULL\<rparr>,
     unused = ADDR_NULL, last_big = c - ?n + 40, chunk_size = ?n, threshold = ?n div 2, index = 0\<rparr>"
  have "chunk_ok ?h c" using ok(1) by (simp add: chunk_ok_def chunk_base_def set_c_next_def)
  moreover have "c_size ?h c = ?n" "live ?h = live h1" "c_next ?h c = ADDR_NULL"
    using ok(2) by (simp_all add: set_c_next_def)
  ultimately have "mp_shape ?pool ?h [c] [] []" using n al(3) ok(3,4) by (simp add: mp_shape_def)
  moreover have "mp_used ?pool ?h [c] [] = {c - ?n..<c - ?n + sizeof_mempool}"
    using cn n ok(2) by (auto simp: mp_used_def chunk_data_def chunk_base_def set_c_next_def)
  moreover have "mp_new A sz h = Some (?pool, ?h)" by (simp add: mp_new_def mp_new_chunk_def c Let_def)
  ultimately show ?thesis using ok(2) by (intro that [of ?pool ?h c]) (simp_all add: h1 set_c_next_def chunk_base_def)
qed

lemma used_live:
  assumes "mp_shape pool h cs bs us"
  shows "mp_used pool h cs bs \<subseteq> \<Union> (block ` set (live h))"
proof
  fix a assume "a \<in> mp_used pool h cs bs"
  then obtain c where c: "c \<in> set (cs @ bs)" "a \<in> chunk_data h c" unfolding mp_used_def by blast
  then have ok: "chunk_ok h c" using assms by (auto simp: mp_shape_def)
  have "a \<in> block (chunk_base h c, c_size h c + MP_CHUNK_TAIL)"
    using c(2) unfolding chunk_block [OF ok] by (simp add: chunk_data_def)
  then show "a \<in> \<Union> (block ` set (live h))" using ok by (auto simp: chunk_ok_def)
qed

section \<open>Correctness of memory pools\<close>

text \<open>
  C4: All allocations made from a new pool, in any number and of any admissible sizes, succeed;
  they are aligned, pairwise disjoint, disjoint from the \<^verbatim>\<open>struct mempool\<close> that lives in
  the first chunk, and inside memory the pool has from \<^verbatim>\<open>malloc\<close>; nothing is written to
  the memory in use.
\<close>

theorem mp_alloc_sequence_disjoint:
  assumes "allocator_ok A" and "live_ok (live h)" and "sz \<le> 2 ^ 31" and "list_all (\<lambda>n. n \<le> MP_SIZE_MAX) ns"
  shows "\<exists>pool h1 ps pool' h'. mp_new A sz h = Some (pool, h1) \<and>
    alloc_all (pool_alloc mp_alloc A) (pool, h1) ns = Some (ps, pool', h') \<and> length ps = length ns \<and>
    list_all (\<lambda>p. 8 dvd p) ps \<and> sorted_wrt (\<lambda>a b. block a \<inter> block b = {}) (zip ps ns) \<and>
    (\<forall>b \<in> set (zip ps ns). block b \<inter> {self pool..<self pool + sizeof_mempool} = {} \<and>
       block b \<subseteq> \<Union> (block ` set (live h'))) \<and> mem h' = mem h1"
proof -
  obtain pool h1 c where new: "mp_new A sz h = Some (pool, h1)" and sh: "mp_shape pool h1 [c] [] []"
    and used: "mp_used pool h1 [c] [] = {self pool..<self pool + sizeof_mempool}"
    by (rule mp_new_shape [OF assms(1-3)]) blast
  have inv: "pool_inv (pool, h1) ([c], [], [])" using sh by (simp add: pool_inv_def)
  have u: "pool_used (pool, h1) ([c], [], []) = {self pool..<self pool + sizeof_mempool}"
    using used by (simp add: pool_used_def)
  have fits: "list_all (\<lambda>n. allocator_ok A \<and> n \<le> MP_SIZE_MAX) ns" using assms(1,4) by (simp add: list_all_iff)
  obtain ps s' g' where r: "alloc_all (pool_alloc mp_alloc A) (pool, h1) ns = Some (ps, s')" "pool_inv s' g'"
    "pool_ext (pool, h1) ([c], [], []) s' g'" "length ps = length ns" "list_all (\<lambda>p. 8 dvd p) ps"
    "sorted_wrt (\<lambda>a b. block a \<inter> block b = {}) (zip ps ns)"
    "\<forall>b \<in> set (zip ps ns). block b \<inter> pool_used (pool, h1) ([c], [], []) = {} \<and> block b \<subseteq> pool_used s' g'"
    using mp.alloc_all_fresh [OF inv fits] by blast
  obtain pool' h' cs bs us where s': "s' = (pool', h')" "g' = (cs, bs, us)" by (metis prod_cases3 surj_pair)
  have live: "mp_used pool' h' cs bs \<subseteq> \<Union> (block ` set (live h'))" and m: "mem h' = mem h1"
    using r(2,3) used_live by (auto simp: s' pool_inv_def pool_ext_def mp_extends_def)
  have "\<forall>b \<in> set (zip ps ns). block b \<inter> {self pool..<self pool + sizeof_mempool} = {} \<and>
      block b \<subseteq> \<Union> (block ` set (live h'))"
  proof
    fix b assume b: "b \<in> set (zip ps ns)"
    have "block b \<subseteq> mp_used pool' h' cs bs" using r(7) b by (simp add: s' pool_used_def)
    then show "block b \<inter> {self pool..<self pool + sizeof_mempool} = {} \<and> block b \<subseteq> \<Union> (block ` set (live h'))"
      using r(7) b u subset_trans [OF _ live] by simp
  qed
  then show ?thesis using new r(1,4-6) m unfolding s' by blast
qed

definition empty_heap :: mp_heap where
  "empty_heap = \<lparr>mem = \<lambda>a. 0, live = [], c_next = \<lambda>a. 0, c_size = \<lambda>a. 0,
     saved = \<lambda>a. \<lparr>free0 = 0, free1 = 0, last0 = 0, last1 = 0, state_next = 0\<rparr>\<rparr>"

theorem mp_alloc_sequence_disjoint_witness:
  "\<exists>pool h1 ps pool' h'. mp_new bump 4096 empty_heap = Some (pool, h1) \<and>
    alloc_all (pool_alloc mp_alloc bump) (pool, h1) [10, 100, 5000, 4000] = Some (ps, pool', h') \<and>
    sorted_wrt (\<lambda>a b. block a \<inter> block b = {}) (zip ps [10, 100, 5000, 4000])"
proof -
  have "live_ok (live empty_heap)" by (simp add: empty_heap_def live_ok_def)
  from mp_alloc_sequence_disjoint [OF bump_ok this, of 4096 "[10, 100, 5000, 4000]"]
  show ?thesis by (fastforce simp: MP_SIZE_MAX_def MP_CHUNK_TAIL_def CPU_PAGE_SIZE_def)
qed

text \<open>Blocks in use do not contain the null address.\<close>

lemma used_not_null:
  assumes "mp_shape pool h cs bs us" and "fresh_block p n U (mp_used pool h cs bs)" and "0 < n"
  shows "p \<noteq> ADDR_NULL"
proof -
  have "p \<in> mp_used pool h cs bs" using assms(2,3) by (auto simp: fresh_block_def)
  then obtain b where "b \<in> set (live h)" "p \<in> block b" using used_live [OF assms(1)] by blast
  moreover have "live_ok (live h)" using assms(1) by (simp add: mp_shape_def)
  ultimately show ?thesis by (auto simp: live_ok_def block_def ADDR_NULL_def)
qed

lemma shape_state_next:
  "mp_shape (pool\<lparr>state := (state pool)\<lparr>state_next := p\<rparr>\<rparr>) (h\<lparr>saved := S\<rparr>) cs bs us = mp_shape pool h cs bs us"
  "mp_used (pool\<lparr>state := (state pool)\<lparr>state_next := p\<rparr>\<rparr>) (h\<lparr>saved := S\<rparr>) cs bs = mp_used pool h cs bs"
proof -
  have "chunk_ok (h\<lparr>saved := S\<rparr>) c = chunk_ok h c" "chunk_data (h\<lparr>saved := S\<rparr>) c = chunk_data h c"
    for c by (simp_all add: chunk_ok_def chunk_base_def chunk_data_def)
  moreover have "chunks (h\<lparr>saved := S\<rparr>) q xs = chunks h q xs" for q xs by (rule chunks_cong) simp
  ultimately show "mp_shape (pool\<lparr>state := (state pool)\<lparr>state_next := p\<rparr>\<rparr>) (h\<lparr>saved := S\<rparr>) cs bs us = mp_shape pool h cs bs us"
    "mp_used (pool\<lparr>state := (state pool)\<lparr>state_next := p\<rparr>\<rparr>) (h\<lparr>saved := S\<rparr>) cs bs = mp_used pool h cs bs"
    by (simp_all add: mp_shape_def mp_used_def)
qed

text \<open>
  C5: \<^verbatim>\<open>mp_push\<close> and \<^verbatim>\<open>mp_pop\<close> bracket a temporary use of a pool: after any number
  of allocations in between, popping succeeds and brings back the state at the push, with the
  same bytes in use, and the pool is again well formed; it writes to no memory.
\<close>

theorem mp_push_pop_restores:
  assumes "allocator_ok A" and "mp_shape pool h cs bs us" and "list_all (\<lambda>n. n \<le> MP_SIZE_MAX) ns"
  shows "\<exists>st p1 h1 ps p2 h2 p3 h3 us'. mp_push A pool h = Some (st, p1, h1) \<and>
    alloc_all (pool_alloc mp_alloc A) (p1, h1) ns = Some (ps, p2, h2) \<and> mp_pop p2 h2 = Some (p3, h3) \<and>
    state p3 = state pool \<and> mp_shape p3 h3 cs bs us' \<and> mp_used p3 h3 cs bs = mp_used pool h cs bs \<and>
    mem h3 = mem h"
proof -
  have "sizeof_mempool_state \<le> MP_SIZE_MAX"
    by (simp add: sizeof_mempool_state_def MP_SIZE_MAX_def MP_CHUNK_TAIL_def CPU_PAGE_SIZE_def)
  from mp_alloc_fast_ok(1) [OF assms(1,2) this] obtain st q g cs1 bs1 us1 where
    q: "mp_alloc_fast A pool sizeof_mempool_state h = Some (st, q, g)" "mp_shape q g cs1 bs1 us1"
    "mp_extends pool h cs bs q g cs1 bs1"
    and fresh: "fresh_block st sizeof_mempool_state (mp_used pool h cs bs) (mp_used q g cs1 bs1)"
    unfolding mp_result_def by blast
  let ?p1 = "q\<lparr>state := (state q)\<lparr>state_next := st\<rparr>\<rparr>" and ?h1 = "g\<lparr>saved := (saved g)(st := state pool)\<rparr>"
  have push: "mp_push A pool h = Some (st, ?p1, ?h1)" using q(1) by (simp add: mp_push_def Let_def)
  have nn: "st \<noteq> ADDR_NULL" using used_not_null [OF q(2) fresh] by (simp add: sizeof_mempool_state_def)
  have inv: "pool_inv (?p1, ?h1) (cs1, bs1, us1)" using q(2) by (simp add: pool_inv_def shape_state_next)
  have fits: "list_all (\<lambda>n. allocator_ok A \<and> n \<le> MP_SIZE_MAX) ns" using assms(1,3) by (simp add: list_all_iff)
  obtain ps s2 g2 where r: "alloc_all (pool_alloc mp_alloc A) (?p1, ?h1) ns = Some (ps, s2)" "pool_inv s2 g2"
    "pool_ext (?p1, ?h1) (cs1, bs1, us1) s2 g2"
    using mp.alloc_all_fresh [OF inv fits] by blast
  obtain p2 h2 cs2 bs2 us2 where s2: "s2 = (p2, h2)" "g2 = (cs2, bs2, us2)" by (metis prod_cases3 surj_pair)
  have sh2: "mp_shape p2 h2 cs2 bs2 us2" and ext2: "mp_extends ?p1 ?h1 cs1 bs1 p2 h2 cs2 bs2"
    using r(2,3) by (simp_all add: s2 pool_inv_def pool_ext_def)
  have st2: "state_next (state p2) = st" "saved h2 st = state pool" "mem h2 = mem h"
    "chunk_size p2 = chunk_size pool"
    using ext2 q(3) by (simp_all add: mp_extends_def)
  obtain ds es where de: "cs2 = ds @ cs" "bs2 = es @ bs"
    using ext2 q(3) unfolding mp_extends_def by auto
  have "\<forall>c \<in> set (cs @ bs). c_next h2 c = c_next h c \<and> c_size h2 c = c_size h c"
  proof
    fix c assume c: "c \<in> set (cs @ bs)"
    have same: "c_next g c = c_next h c \<and> c_size g c = c_size h c" using q(3) c unfolding mp_extends_def by blast
    have "c \<in> set (cs1 @ bs1)" using c q(3) unfolding mp_extends_def by auto
    then have "c_next h2 c = c_next ?h1 c \<and> c_size h2 c = c_size ?h1 c" using ext2 unfolding mp_extends_def by blast
    with same show "c_next h2 c = c_next h c \<and> c_size h2 c = c_size h c" by simp
  qed
  from mp_restore_ok [OF assms(2) sh2 [unfolded de] this st2(4)] obtain p3 h3 where
    "mp_restore p2 (state pool) h2 = Some (p3, h3)" "state p3 = state pool" "mp_shape p3 h3 cs bs (rev ds @ us2)"
    "mp_used p3 h3 cs bs = mp_used pool h cs bs" "mem h3 = mem h2" by blast
  moreover from this have "mp_pop p2 h2 = Some (p3, h3)" using st2 nn by (simp add: mp_pop_def)
  ultimately show ?thesis using push r(1) st2(3) unfolding s2 by metis
qed

theorem mp_push_pop_restores_witness:
  "\<exists>st p1 h1 ps p2 h2 p3 h3. mp_push bump (mp_init 16 4096) empty_heap = Some (st, p1, h1) \<and>
    alloc_all (pool_alloc mp_alloc bump) (p1, h1) [100, 9000, 4000] = Some (ps, p2, h2) \<and>
    mp_pop p2 h2 = Some (p3, h3) \<and> state p3 = state (mp_init 16 4096)"
proof -
  have "mp_shape (mp_init 16 4096) empty_heap [] [] []"
    by (rule mp_init_shape) (simp_all add: empty_heap_def live_ok_def)
  from mp_push_pop_restores [OF bump_ok this, of "[100, 9000, 4000]"] show ?thesis
    by (fastforce simp: MP_SIZE_MAX_def MP_CHUNK_TAIL_def CPU_PAGE_SIZE_def)
qed

section \<open>Deleting a pool\<close>

lemma mp_delete_frees:
  assumes sh: "mp_shape pool h cs bs us"
  shows "mp_delete pool h = Some (h\<lparr>live := outside h (cs @ bs @ us)\<rparr>)"
proof -
  have 1: "chunks h (last1 (state pool)) (bs @ [])" "distinct (bs @ [] @ us @ cs)"
    "\<forall>c \<in> set (bs @ [] @ us @ cs). chunk_ok h c" "live_ok (live h)"
    using sh by (auto simp: mp_shape_def)
  from mp_restore_big_ok [OF this] obtain L where L: "mp_restore_big (last1 (state pool)) ADDR_NULL h = Some (h\<lparr>live := L\<rparr>)"
    "live_ok L" "\<forall>c \<in> set (us @ cs). chunk_ok (h\<lparr>live := L\<rparr>) c"
    "L = filter (\<lambda>b. fst b \<notin> chunk_base h ` set bs) (live h)"
    by (auto simp: first_of_def)
  let ?h = "h\<lparr>live := L\<rparr>"
  have base: "chunk_base (h\<lparr>live := X\<rparr>) = chunk_base h" for X by (simp add: fun_eq_iff chunk_base_def)
  have 2: "chunks ?h (unused pool) (us @ [])" "distinct (us @ [] @ cs)" "\<forall>c \<in> set (us @ [] @ cs). chunk_ok ?h c"
    "live_ok (live ?h)" using sh L by (auto simp: mp_shape_def)
  from mp_restore_big_ok [OF this] obtain M where M: "mp_restore_big (unused pool) ADDR_NULL ?h = Some (?h\<lparr>live := M\<rparr>)"
    "live_ok M" "\<forall>c \<in> set cs. chunk_ok (?h\<lparr>live := M\<rparr>) c" "M = filter (\<lambda>b. fst b \<notin> chunk_base h ` set us) L"
    by (auto simp: first_of_def base)
  have 3: "chunks (h\<lparr>live := M\<rparr>) (last0 (state pool)) (cs @ [])" "distinct (cs @ [] @ [])"
    "\<forall>c \<in> set (cs @ [] @ []). chunk_ok (h\<lparr>live := M\<rparr>) c" "live_ok (live (h\<lparr>live := M\<rparr>))"
    using sh M by (auto simp: mp_shape_def)
  from mp_restore_big_ok [OF this] obtain N where N: "mp_restore_big (last0 (state pool)) ADDR_NULL (h\<lparr>live := M\<rparr>) = Some (h\<lparr>live := N\<rparr>)"
    "N = filter (\<lambda>b. fst b \<notin> chunk_base h ` set cs) M"
    by (auto simp: first_of_def base)
  have "mp_free_big_chain (last1 (state pool)) h = Some ?h"
    "mp_free_chain (unused pool) ?h = Some (h\<lparr>live := M\<rparr>)"
    "mp_free_chain (last0 (state pool)) (h\<lparr>live := M\<rparr>) = Some (h\<lparr>live := N\<rparr>)"
    using free_chain_restore [OF 1(1) [unfolded append_Nil2]] free_chain_restore [OF 2(1) [unfolded append_Nil2]]
      free_chain_restore [OF 3(1) [unfolded append_Nil2]] L(1) M(1) N(1) by simp_all
  then have "mp_delete pool h = Some (h\<lparr>live := N\<rparr>)" by (simp add: mp_delete_def)
  moreover have "N = outside h (cs @ bs @ us)"
    unfolding N(2) M(4) L(4) outside_def by (auto intro: filter_cong)
  ultimately show ?thesis by simp
qed

text \<open>
  C6: A pool leaks nothing and frees nothing that is not its own: creating a pool, allocating
  from it any number of times, and deleting it leaves exactly the live blocks there were.
\<close>

theorem mp_delete_no_leak:
  assumes "allocator_ok A" and "live_ok (live h)" and "sz \<le> 2 ^ 31" and "list_all (\<lambda>n. n \<le> MP_SIZE_MAX) ns"
  shows "\<exists>pool h1 ps pool' h2 h3. mp_new A sz h = Some (pool, h1) \<and>
    alloc_all (pool_alloc mp_alloc A) (pool, h1) ns = Some (ps, pool', h2) \<and>
    mp_delete pool' h2 = Some h3 \<and> live h3 = live h \<and> mem h3 = mem h1"
proof -
  obtain pool h1 c where new: "mp_new A sz h = Some (pool, h1)" and sh: "mp_shape pool h1 [c] [] []"
    and live: "live h1 = (self pool, chunk_size pool + MP_CHUNK_TAIL) # live h" and base: "chunk_base h1 c = self pool"
    by (rule mp_new_shape [OF assms(1-3)]) blast
  have inv: "pool_inv (pool, h1) ([c], [], [])" using sh by (simp add: pool_inv_def)
  have fits: "list_all (\<lambda>n. allocator_ok A \<and> n \<le> MP_SIZE_MAX) ns" using assms(1,4) by (simp add: list_all_iff)
  obtain ps s' g' where r: "alloc_all (pool_alloc mp_alloc A) (pool, h1) ns = Some (ps, s')" "pool_inv s' g'"
    "pool_ext (pool, h1) ([c], [], []) s' g'"
    using mp.alloc_all_fresh [OF inv fits] by blast
  obtain pool' h2 cs bs us where s': "s' = (pool', h2)" "g' = (cs, bs, us)" by (metis prod_cases3 surj_pair)
  have sh2: "mp_shape pool' h2 cs bs us" and out: "outside h2 (cs @ bs @ us) = outside h1 [c]" and "mem h2 = mem h1"
    using r(2,3) by (simp_all add: s' pool_inv_def pool_ext_def mp_extends_def)
  have "live_ok (live h1)" using sh by (simp add: mp_shape_def)
  then have "self pool \<notin> fst ` set (live h)" by (simp add: live live_ok_def)
  then have "\<forall>b \<in> set (live h). fst b \<noteq> self pool" by force
  then have "outside h1 [c] = live h" by (simp add: outside_def live base)
  then show ?thesis using new r(1) mp_delete_frees [OF sh2] out \<open>mem h2 = mem h1\<close> by (auto simp: s')
qed

theorem mp_delete_no_leak_witness:
  "\<exists>pool h1 ps pool' h2 h3. mp_new bump 4096 empty_heap = Some (pool, h1) \<and>
    alloc_all (pool_alloc mp_alloc bump) (pool, h1) [10, 5000] = Some (ps, pool', h2) \<and>
    mp_delete pool' h2 = Some h3 \<and> live h3 = []"
proof -
  have "live_ok (live empty_heap)" by (simp add: empty_heap_def live_ok_def)
  from mp_delete_no_leak [OF bump_ok this, of 4096 "[10, 5000]"] show ?thesis
    by (fastforce simp: MP_SIZE_MAX_def MP_CHUNK_TAIL_def CPU_PAGE_SIZE_def empty_heap_def)
qed

end
