(* ===== verification/Mempool_Ops.thy ===== *)
theory Mempool_Ops
  imports Mempool_Inv
begin

text \<open>
  The operations of memory pools beyond plain allocation: copies of strings, the statistics,
  flushing, and growing the last block.
\<close>

section \<open>Strings in pools\<close>

lemma shape_store [simp]:
  "mp_shape pool (store_bytes p xs h) cs bs us = mp_shape pool h cs bs us"
  "mp_used pool (store_bytes p xs h) cs bs = mp_used pool h cs bs"
  "outside (store_bytes p xs h) ds = outside h ds"
proof -
  let ?h = "store_bytes p xs h"
  have f: "c_next ?h = c_next h" "c_size ?h = c_size h" "live ?h = live h" by (simp_all add: store_bytes_def)
  have "chunks ?h q ys = chunks h q ys" for q ys by (rule chunks_cong) (simp add: f)
  moreover have "chunk_ok ?h c = chunk_ok h c" "chunk_data ?h c = chunk_data h c" "chunk_base ?h = chunk_base h" for c
    by (simp_all add: chunk_ok_def chunk_base_def chunk_data_def fun_eq_iff f)
  ultimately show "mp_shape pool ?h cs bs us = mp_shape pool h cs bs us" "mp_used pool ?h cs bs = mp_used pool h cs bs"
    "outside ?h ds = outside h ds"
    by (simp_all add: mp_shape_def mp_used_def outside_def f)
qed

text \<open>
  The result of an operation that puts the bytes \<open>xs\<close> into new memory of the pool and leaves
  the memory in use alone.
\<close>

definition mp_stored ::
  "byte list \<Rightarrow> mempool \<Rightarrow> mp_heap \<Rightarrow> addr list \<Rightarrow> addr list \<Rightarrow> (addr \<times> mempool \<times> mp_heap) option \<Rightarrow> bool"
where
  "mp_stored xs pool h cs bs r \<longleftrightarrow>
     (\<exists>p pool' h' cs' bs' us'. r = Some (p, pool', h') \<and> mp_shape pool' h' cs' bs' us' \<and>
        load_bytes p (length xs) h' = xs \<and>
        fresh_block p (length xs) (mp_used pool h cs bs) (mp_used pool' h' cs' bs') \<and>
        (\<forall>a \<in> mp_used pool h cs bs. mem h' a = mem h a))"

lemma mp_store_result:
  assumes "mp_result (length xs) pool h cs bs us r"
  shows "mp_stored xs pool h cs bs (Option.bind r (\<lambda>(p, pool, h). Some (p, pool, store_bytes p xs h)))"
proof -
  obtain p pool' h' cs' bs' us' where r: "r = Some (p, pool', h')" "mp_shape pool' h' cs' bs' us'"
    "mp_extends pool h cs bs pool' h' cs' bs'"
    and f: "fresh_block p (length xs) (mp_used pool h cs bs) (mp_used pool' h' cs' bs')"
    using assms unfolding mp_result_def by blast
  have "mem (store_bytes p xs h') a = mem h a" if "a \<in> mp_used pool h cs bs" for a
  proof -
    have "a \<notin> {p..<p + length xs}" using f that by (auto simp: fresh_block_def)
    then show ?thesis using r(3) by (simp add: mem_store_other mp_extends_def)
  qed
  then show ?thesis
    using r(2) f unfolding mp_stored_def r(1)
    by (intro exI [of _ p] exI [of _ pool'] exI [of _ "store_bytes p xs h'"] exI [of _ cs'] exI [of _ bs'] exI [of _ us'])
      simp
qed

lemma store_all_concat:
  "store_all y xs h = (y + length (concat xs), store_bytes y (concat xs) h)"
  by (induction xs arbitrary: y h) (simp_all add: store_append add.assoc)

text \<open>The text that \<^verbatim>\<open>mp_strjoin\<close> builds.\<close>

definition sep_before :: "u32 \<Rightarrow> byte list \<Rightarrow> byte list" where
  "sep_before sep a = (if sep \<noteq> 0 then ucast sep # a else a)"

fun joined :: "u32 \<Rightarrow> byte list list \<Rightarrow> byte list" where
  "joined sep [] = []"
| "joined sep (a # as) = a @ concat (map (sep_before sep) as)"

lemma join_loop_rest:
  "join_loop sep True d as h =
    (d + length (concat (map (sep_before sep) as)), store_bytes d (concat (map (sep_before sep) as)) h)"
proof (induction as arbitrary: d h)
  case (Cons a as)
  have "store_bytes (Suc d) ys (store_bytes d [ucast sep] h) = store_bytes d (ucast sep # ys) h" for ys
    using store_append [of d "[ucast sep]" ys h] by simp
  then show ?case by (simp add: Cons.IH sep_before_def store_append add.assoc)
qed simp

lemma join_loop_joined:
  "join_loop sep False d as h = (d + length (joined sep as), store_bytes d (joined sep as) h)"
  by (cases as) (simp_all add: join_loop_rest store_append add.assoc)

lemma joined_length:
  "length (joined sep as) = length (concat as) + (if sep \<noteq> 0 \<and> as \<noteq> [] then length as - 1 else 0)"
proof (cases as)
  case (Cons a as')
  have "length (concat (map (sep_before sep) xs)) = length (concat xs) + (if sep \<noteq> 0 then length xs else 0)" for xs
    by (induction xs) (simp_all add: sep_before_def)
  then show ?thesis by (simp add: Cons)
qed simp

lemma fold_length:
  "k + length (concat xs) < 2 ^ 32 \<Longrightarrow>
   fold (\<lambda>x len. (len + length x) mod 2 ^ 32) xs k = k + length (concat xs)"
  by (induction xs arbitrary: k) (simp_all add: add.assoc)

lemma MP_SIZE_MAX_less: "MP_SIZE_MAX < 2 ^ 32"
  by (simp add: MP_SIZE_MAX_def MP_CHUNK_TAIL_def CPU_PAGE_SIZE_def)

lemma bind_store_snoc:
  "Option.bind r (\<lambda>(p, pool, h). Some (p, pool, store_bytes (p + length xs) [z] (store_bytes p xs h))) =
   Option.bind r (\<lambda>(p, pool, h). Some (p, pool, store_bytes p (xs @ [z]) h))"
  by (simp add: store_append)

text \<open>
  C8: The copying functions build the strings they promise in new memory of the pool, with the
  terminating zero: a duplicated block or string, a bounded copy, the concatenation of any
  number of strings, and their join with a separator (none for separator zero). Memory in use
  keeps its contents, and the pool stays well formed.
\<close>

theorem mp_strings_correct:
  assumes A: "allocator_ok A" and sh: "mp_shape pool h cs bs us"
    and len: "length (joined sep xs) < MP_SIZE_MAX" and s: "length s < MP_SIZE_MAX"
  shows "mp_stored (joined sep xs @ [0]) pool h cs bs (mp_strjoin A pool xs sep h) \<and>
    mp_stored (concat xs @ [0]) pool h cs bs (mp_multicat A pool xs h) \<and>
    mp_stored (s @ [0]) pool h cs bs (mp_strdup A pool (Some s) h) \<and>
    mp_stored (s @ [0]) pool h cs bs (mp_strmem A pool s h) \<and>
    mp_stored s pool h cs bs (mp_memdup A pool s h) \<and>
    mp_stored (replicate (length s) 0) pool h cs bs (mp_alloc_zero A pool (length s) h)"
proof (intro conjI)
  note lim = MP_SIZE_MAX_less
  note fast = mp_alloc_fast_ok(1) [OF A sh] and noalign = mp_alloc_fast_noalign_ok [OF A sh]
  have c: "length (concat xs) \<le> length (joined sep xs)" using joined_length [of sep xs] by simp
  have fl: "fold (\<lambda>x len. (len + length x) mod 2 ^ 32) xs 1 = 1 + length (concat xs)"
    using len lim c by (intro fold_length) linarith
  have jl: "(if sep \<noteq> 0 \<and> xs \<noteq> [] then (1 + length (concat xs) + (length xs - 1)) mod 2 ^ 32 else 1 + length (concat xs)) =
      length (joined sep xs @ [0])"
    using len lim joined_length [of sep xs] by (auto split: if_splits)
  have "mp_strjoin A pool xs sep h = Option.bind (mp_alloc_fast_noalign A pool (length (joined sep xs @ [0])) h)
      (\<lambda>(p, pool, h). Some (p, pool, store_bytes p (joined sep xs @ [0]) h))"
    unfolding mp_strjoin_def Let_def fl jl by (simp add: join_loop_joined store_append)
  then show "mp_stored (joined sep xs @ [0]) pool h cs bs (mp_strjoin A pool xs sep h)"
    using mp_store_result [OF noalign, of "joined sep xs @ [0]"] len by simp
  have "mp_multicat A pool xs h = Option.bind (mp_alloc_fast_noalign A pool (length (concat xs @ [0])) h)
      (\<lambda>(p, pool, h). Some (p, pool, store_bytes p (concat xs @ [0]) h))"
    unfolding mp_multicat_def Let_def fl by (simp add: store_all_concat store_append)
  then show "mp_stored (concat xs @ [0]) pool h cs bs (mp_multicat A pool xs h)"
    using mp_store_result [OF noalign, of "concat xs @ [0]"] len c by simp
  show "mp_stored (s @ [0]) pool h cs bs (mp_strdup A pool (Some s) h)"
    using mp_store_result [OF noalign, of "s @ [0]"] s lim by (simp add: mp_strdup_def Let_def)
  show "mp_stored (s @ [0]) pool h cs bs (mp_strmem A pool s h)"
    using mp_store_result [OF noalign, of "s @ [0]"] s lim
    by (simp add: mp_strmem_def mp_alloc_noalign_def store_append)
  show "mp_stored s pool h cs bs (mp_memdup A pool s h)"
    using mp_store_result [OF fast, of s] s by (simp add: mp_memdup_def)
  show "mp_stored (replicate (length s) 0) pool h cs bs (mp_alloc_zero A pool (length s) h)"
    using mp_store_result [OF fast, of "replicate (length s) 0"] s by (simp add: mp_alloc_zero_def)
qed

theorem mp_strings_correct_witness:
  "mp_stored [97, 44, 98, 99, 0] (mp_init 16 4096) empty_heap [] []
     (mp_strjoin bump (mp_init 16 4096) [[97], [98, 99]] 44 empty_heap)"
proof -
  have sh: "mp_shape (mp_init 16 4096) empty_heap [] [] []"
    by (rule mp_init_shape) (simp_all add: empty_heap_def live_ok_def)
  have "joined 44 [[97], [98, 99]] = [97, 44, 98, 99]" by (simp add: sep_before_def)
  with mp_strings_correct [OF bump_ok sh, of 44 "[[97], [98, 99]]" "[]"] show ?thesis
    by (simp add: MP_SIZE_MAX_def MP_CHUNK_TAIL_def CPU_PAGE_SIZE_def)
qed

section \<open>Statistics\<close>

definition chunk_bytes :: "mp_heap \<Rightarrow> addr list \<Rightarrow> nat" where
  "chunk_bytes h xs = (\<Sum>c \<leftarrow> xs. c_size h c + sizeof_mempool_chunk)"

lemma chunk_bytes_simps [simp]:
  "chunk_bytes h [] = 0" "chunk_bytes h (c # xs) = c_size h c + sizeof_mempool_chunk + chunk_bytes h xs"
  by (simp_all add: chunk_bytes_def)

lemma length_chunk_bytes: "length xs \<le> chunk_bytes h xs"
  by (induction xs) (simp_all add: sizeof_mempool_chunk_def)

lemma mp_stats_chain_ok:
  assumes "chunks h p xs" and "idx < length (chain_size st)" "idx < length (chain_count st)"
    and "chain_size st ! idx + chunk_bytes h xs < 2 ^ 32" "chain_count st ! idx + length xs < 2 ^ 32"
  shows "mp_stats_chain p idx h st =
    Some (st\<lparr>chain_size := (chain_size st)[idx := chain_size st ! idx + chunk_bytes h xs],
             chain_count := (chain_count st)[idx := chain_count st ! idx + length xs],
             total_size := (total_size st + (chain_size st ! idx + chunk_bytes h xs)) mod 2 ^ 64\<rparr>)"
  using assms
proof (induction xs arbitrary: p st)
  case Nil
  then show ?case by (subst mp_stats_chain.simps) simp
next
  case (Cons c xs)
  let ?st = "st\<lparr>chain_size := (chain_size st)
      [idx := (chain_size st ! idx + c_size h c + sizeof_mempool_chunk) mod 2 ^ 32],
    chain_count := (chain_count st)[idx := (chain_count st ! idx + 1) mod 2 ^ 32]\<rparr>"
  have "(chain_size st ! idx + c_size h c + sizeof_mempool_chunk) mod 2 ^ 32 =
      chain_size st ! idx + c_size h c + sizeof_mempool_chunk" "(chain_count st ! idx + 1) mod 2 ^ 32 = chain_count st ! idx + 1"
    using Cons.prems by simp_all
  moreover have "mp_stats_chain p idx h st = mp_stats_chain (c_next h c) idx h ?st"
    using Cons.prems(1) by (subst mp_stats_chain.simps) simp
  ultimately show ?case
    using Cons.IH [of "c_next h c" ?st] Cons.prems by (simp add: algebra_simps)
qed

text \<open>
  \<^verbatim>\<open>mp_stats\<close> returns, and counts the chunks of each of the three chains and their
  bytes, headers included; \<^verbatim>\<open>mp_total_size\<close> is their sum. Each chain must stay below
  4 GiB, because the sizes per chain are 32 bits wide.
\<close>

theorem mp_stats_correct:
  assumes "mp_shape pool h cs bs us"
    and "chunk_bytes h cs < 2 ^ 32" "chunk_bytes h bs < 2 ^ 32" "chunk_bytes h us < 2 ^ 32"
  shows "mp_stats pool h =
      Some \<lparr>total_size = chunk_bytes h (cs @ bs @ us), chain_count = [length cs, length bs, length us],
            chain_size = [chunk_bytes h cs, chunk_bytes h bs, chunk_bytes h us]\<rparr> \<and>
    mp_total_size pool h = Some (chunk_bytes h (cs @ bs @ us))"
proof -
  have ch: "chunks h (last0 (state pool)) cs" "chunks h (last1 (state pool)) bs" "chunks h (unused pool) us"
    using assms(1) by (auto simp: mp_shape_def)
  have l: "length cs < 2 ^ 32" "length bs < 2 ^ 32" "length us < 2 ^ 32"
    using assms(2-4) length_chunk_bytes [of cs h] length_chunk_bytes [of bs h] length_chunk_bytes [of us h] by simp_all
  have st: "mp_stats pool h =
      Some \<lparr>total_size = chunk_bytes h (cs @ bs @ us), chain_count = [length cs, length bs, length us],
            chain_size = [chunk_bytes h cs, chunk_bytes h bs, chunk_bytes h us]\<rparr>"
    using assms(2-4) l mp_stats_chain_ok [OF ch(1)] mp_stats_chain_ok [OF ch(2)] mp_stats_chain_ok [OF ch(3)]
    by (simp add: mp_stats_def chunk_bytes_def)
  then show ?thesis by (simp add: mp_total_size_def)
qed

theorem mp_stats_correct_witness:
  "mp_total_size (mp_init 16 4096) empty_heap = Some 0"
proof -
  have "mp_shape (mp_init 16 4096) empty_heap [] [] []"
    by (rule mp_init_shape) (simp_all add: empty_heap_def live_ok_def)
  from mp_stats_correct [OF this] show ?thesis by simp
qed

section \<open>Flushing\<close>

lemma flush_loop_restore:
  assumes "chunks h p (ds @ ts)" "distinct (ds @ ts)" "\<forall>d \<in> set ds. chunk_base h d \<noteq> self pool"
    "ts = [] \<or> (\<exists>c. ts = [c] \<and> chunk_base h c = self pool)"
  shows "mp_flush_loop pool p h =
    Option.bind (mp_restore_chunks pool p (first_of ts) h) (\<lambda>(pool, h). Some (first_of ts, pool, h))"
  using assms
proof (induction ds arbitrary: h p pool)
  case Nil
  then have "p = first_of ts" using chunks_first by simp
  then show ?case
    using Nil by (subst mp_flush_loop.simps, subst mp_restore_chunks.simps)
      (auto simp: first_of_def chunk_base_def)
next
  case (Cons c ds)
  have p: "p = c" and ne: "c \<noteq> first_of ts" "c \<noteq> ADDR_NULL" "chunk_base h c \<noteq> self pool"
    using Cons.prems first_of_notin [of h p c ds ts] by auto
  let ?h = "set_c_next c (unused pool) h" and ?p = "pool\<lparr>unused := c\<rparr>"
  have base: "chunk_base ?h = chunk_base h" by (simp add: fun_eq_iff chunk_base_def set_c_next_def)
  have "chunks ?h (c_next h c) (ds @ ts)"
    using Cons.prems by (subst chunks_cong [of _ ?h h]) (auto simp: set_c_next_def)
  then have "mp_flush_loop ?p (c_next h c) ?h =
    Option.bind (mp_restore_chunks ?p (c_next h c) (first_of ts) ?h) (\<lambda>(pool, h). Some (first_of ts, pool, h))"
    using Cons.prems by (intro Cons.IH) (auto simp: base)
  then show ?case
    using p ne by (subst mp_flush_loop.simps, subst mp_restore_chunks.simps) (simp add: Let_def chunk_base_def)
qed

text \<open>
  \<^verbatim>\<open>mp_flush\<close> empties a pool: the big chunks are given back to \<^verbatim>\<open>free\<close>, all
  other chunks but the one that holds the pool itself wait in the unused chain, and of the
  pool's memory only the \<^verbatim>\<open>struct mempool\<close>, if it lives in the pool, is in use.
\<close>

theorem mp_flush_empties:
  assumes sh: "mp_shape pool h (ds @ ts) bs us" and ds: "\<forall>d \<in> set ds. chunk_base h d \<noteq> self pool"
    and ts: "ts = [] \<or> (\<exists>c. ts = [c] \<and> chunk_base h c = self pool)"
  shows "\<exists>pool' h'. mp_flush pool h = Some (pool', h') \<and> mp_shape pool' h' ts [] (rev ds @ us) \<and>
    mp_used pool' h' ts [] = (if ts = [] then {} else {self pool..<self pool + sizeof_mempool}) \<and>
    live h' = outside h bs \<and> mem h' = mem h \<and> state_next (state pool') = ADDR_NULL"
proof -
  have s: "chunks h (last0 (state pool)) (ds @ ts)" "distinct (ds @ ts @ us)" "chunks h (unused pool) us"
    "chunks h (last1 (state pool)) bs" "live_ok (live h)"
    using sh by (auto simp: mp_shape_def)
  have "chunks h (last1 (state pool)) (bs @ [])" "distinct (bs @ [] @ (ts @ ds @ us))"
    "\<forall>c \<in> set (bs @ [] @ (ts @ ds @ us)). chunk_ok h c"
    using sh by (auto simp: mp_shape_def)
  from mp_restore_big_ok [OF this s(5)] obtain L where
    L: "mp_restore_big (last1 (state pool)) ADDR_NULL h = Some (h\<lparr>live := L\<rparr>)" "live_ok L"
    "\<forall>c \<in> set (ts @ ds @ us). chunk_ok (h\<lparr>live := L\<rparr>) c" "L = outside h bs"
    by (auto simp: first_of_def outside_def)
  let ?h = "h\<lparr>live := L\<rparr>"
  have base: "chunk_base ?h = chunk_base h" by (simp add: fun_eq_iff chunk_base_def)
  have "chunks ?h (last0 (state pool)) (ds @ ts)" "chunks ?h (unused pool) us" using s by simp_all
  from mp_restore_chunks_ok [OF this(1) s(2) this(2)] obtain u N where
    N: "mp_restore_chunks pool (last0 (state pool)) (first_of ts) ?h = Some (pool\<lparr>unused := u\<rparr>, ?h\<lparr>c_next := N\<rparr>)"
    "chunks (?h\<lparr>c_next := N\<rparr>) u (rev ds @ us)" "\<forall>c. c \<notin> set ds \<longrightarrow> N c = c_next ?h c"
    by blast
  let ?g = "?h\<lparr>c_next := N\<rparr>"
  let ?st = "\<lparr>free0 = (if first_of ts \<noteq> ADDR_NULL then c_size h (first_of ts) - sizeof_mempool else 0), free1 = 0,
      last0 = first_of ts, last1 = ADDR_NULL, state_next = ADDR_NULL\<rparr>"
  let ?p = "pool\<lparr>unused := u, state := ?st, last_big := addr_last_big pool\<rparr>"
  have "mp_flush_loop pool (last0 (state pool)) ?h = Some (first_of ts, pool\<lparr>unused := u\<rparr>, ?g)"
    using s ds ts N(1) by (subst flush_loop_restore [where ds = ds and ts = ts]) (auto simp: base)
  then have fl: "mp_flush pool h = Some (?p, ?g)"
    using free_chain_restore [OF s(4)] L(1) by (simp add: mp_flush_def addr_last_big_def)
  have ok: "chunk_ok ?g c = chunk_ok ?h c" for c by (simp add: chunk_ok_def chunk_base_def)
  have cts: "chunks ?g (first_of ts) ts \<and> (ts \<noteq> [] \<longrightarrow> first_of ts = hd ts \<and> first_of ts \<noteq> ADDR_NULL)"
  proof (cases ts)
    case (Cons c rest)
    then have "rest = []" using ts by auto
    moreover have "c \<noteq> ADDR_NULL" "c_next h c = ADDR_NULL" "c \<notin> set ds"
      using s(1,2) chunks_append [of h _ ds c rest] Cons \<open>rest = []\<close> by auto
    ultimately show ?thesis using N(3) by (simp add: Cons first_of_def)
  qed (simp add: first_of_def)
  have "mp_shape ?p ?g ts [] (rev ds @ us)"
    using sh cts N(2) L(2,3) by (auto simp: mp_shape_def ok first_of_def)
  moreover have "mp_used ?p ?g ts [] = (if ts = [] then {} else {self pool..<self pool + sizeof_mempool})"
  proof (cases ts)
    case (Cons c rest)
    then have "ts = [c]" "chunk_base h c = self pool" "c \<noteq> ADDR_NULL" using ts cts by (auto simp: first_of_def)
    moreover from this have "c_size h c = chunk_size pool" "sizeof_mempool \<le> chunk_size pool" "c_size h c \<le> c"
      using sh by (auto simp: mp_shape_def chunk_ok_def)
    ultimately show ?thesis by (auto simp: mp_used_def chunk_data_def chunk_base_def first_of_def)
  qed (simp add: mp_used_def)
  ultimately show ?thesis using fl L(4) by (intro exI [of _ ?p] exI [of _ ?g]) simp
qed

theorem mp_flush_empties_witness:
  "\<exists>pool h pool' h'. mp_new bump 4096 empty_heap = Some (pool, h) \<and> mp_flush pool h = Some (pool', h') \<and>
     live h' = live h \<and> state_next (state pool') = ADDR_NULL"
proof -
  have "live_ok (live empty_heap)" by (simp add: empty_heap_def live_ok_def)
  then obtain pool h c where p: "mp_new bump 4096 empty_heap = Some (pool, h)" "mp_shape pool h [c] [] []"
    "chunk_base h c = self pool"
    by (rule mp_new_shape [OF bump_ok, of empty_heap 4096]) simp_all
  from mp_flush_empties [of pool h "[]" "[c]" "[]" "[]"] p show ?thesis by (auto simp: outside_def)
qed

section \<open>Reallocation of the last block\<close>

text \<open>The block at \<open>ptr\<close>, of \<open>n\<close> bytes, is the last one of its chain.\<close>

definition mp_last_block :: "mempool \<Rightarrow> mp_heap \<Rightarrow> addr list \<Rightarrow> addr list \<Rightarrow> addr \<Rightarrow> nat \<Rightarrow> bool" where
  "mp_last_block pool h cs bs ptr n \<longleftrightarrow>
     (if ptr = last_big pool
      then bs \<noteq> [] \<and> ptr = chunk_base h (hd bs) \<and> n + free1 (state pool) = c_size h (hd bs)
      else cs \<noteq> [] \<and> chunk_base h (hd cs) \<le> ptr \<and> ptr + n + free0 (state pool) = hd cs)"

text \<open>The pool in which the last block has been opened, so that its bytes are free again.\<close>

definition opened :: "mempool \<Rightarrow> addr \<Rightarrow> nat \<Rightarrow> mempool" where
  "opened pool ptr n =
     (if ptr = last_big pool
      then pool\<lparr>index := 1, state := (state pool)\<lparr>free1 := free1 (state pool) + n\<rparr>\<rparr>
      else pool\<lparr>index := 0, state := (state pool)\<lparr>free0 := free0 (state pool) + n\<rparr>\<rparr>)"

lemma opened_ok:
  assumes sh: "mp_shape pool h cs bs us" and last: "mp_last_block pool h cs bs ptr n"
  shows "mp_open_fast pool ptr = (n, opened pool ptr n)" and "mp_shape (opened pool ptr n) h cs bs us"
    and "mp_used (opened pool ptr n) h cs bs = mp_used pool h cs bs - {ptr..<ptr + n}"
    and "mp_ptr (opened pool ptr n) = ptr" and "n \<le> mp_avail (opened pool ptr n)"
    and "mp_avail (opened pool ptr n) = last_at (opened pool ptr n) (index (opened pool ptr n)) - ptr"
    and "ptr \<le> last_at (opened pool ptr n) (index (opened pool ptr n))"
proof -
  have "mp_open_fast pool ptr = (n, opened pool ptr n) \<and> mp_shape (opened pool ptr n) h cs bs us \<and>
    mp_used (opened pool ptr n) h cs bs = mp_used pool h cs bs - {ptr..<ptr + n} \<and>
    mp_ptr (opened pool ptr n) = ptr \<and> n \<le> mp_avail (opened pool ptr n) \<and>
    mp_avail (opened pool ptr n) = last_at (opened pool ptr n) (index (opened pool ptr n)) - ptr \<and>
    ptr \<le> last_at (opened pool ptr n) (index (opened pool ptr n))"
  proof (cases "ptr = last_big pool")
    case True
    then obtain c bs' where bs: "bs = c # bs'" using last by (cases bs) (auto simp: mp_last_block_def)
    have l: "last1 (state pool) = c" "ptr + c_size h c = c" "n + free1 (state pool) = c_size h c"
      using sh last True by (auto simp: bs mp_shape_def chunk_ok_def chunk_base_def mp_last_block_def)
    have "{c - (free1 (state pool) + n)..<c} = {ptr..<ptr + n} \<union> {c - free1 (state pool)..<c}" using l by auto
    moreover have "mp_shape (opened pool ptr n) h cs bs us"
      using sh l True by (auto simp: opened_def mp_shape_def bs split: if_splits)
    ultimately show ?thesis
      using True l by (auto simp: opened_def mp_used_def mp_open_fast_def mp_idx_def last_at_def free_at_def
        set_free_at_def Let_def mp_ptr_def mp_avail_def)
  next
    case False
    then obtain c cs' where cs: "cs = c # cs'" using last by (cases cs) (auto simp: mp_last_block_def)
    have l: "last0 (state pool) = c" "ptr + n + free0 (state pool) = c" "c_size h c = chunk_size pool"
      "c_size h c \<le> c" "c - c_size h c \<le> ptr"
      using sh last False by (auto simp: cs mp_shape_def chunk_ok_def chunk_base_def mp_last_block_def)
    have "{c - (free0 (state pool) + n)..<c} = {ptr..<ptr + n} \<union> {c - free0 (state pool)..<c}" using l by auto
    moreover have "mp_shape (opened pool ptr n) h cs bs us"
      using sh l False by (auto simp: opened_def mp_shape_def cs split: if_splits)
    ultimately show ?thesis
      using False l by (auto simp: opened_def mp_used_def mp_open_fast_def mp_idx_def last_at_def free_at_def
        set_free_at_def Let_def mp_ptr_def mp_avail_def)
  qed
  then show "mp_open_fast pool ptr = (n, opened pool ptr n)" "mp_shape (opened pool ptr n) h cs bs us"
    "mp_used (opened pool ptr n) h cs bs = mp_used pool h cs bs - {ptr..<ptr + n}"
    "mp_ptr (opened pool ptr n) = ptr" "n \<le> mp_avail (opened pool ptr n)"
    "mp_avail (opened pool ptr n) = last_at (opened pool ptr n) (index (opened pool ptr n)) - ptr"
    "ptr \<le> last_at (opened pool ptr n) (index (opened pool ptr n))" by blast+
qed

text \<open>Taking bytes from the free end of the first big chunk.\<close>

lemma take_free1:
  assumes sh: "mp_shape pool h cs bs us" and le: "sz \<le> free1 (state pool)"
  defines "pool' \<equiv> pool\<lparr>state := (state pool)\<lparr>free1 := free1 (state pool) - sz\<rparr>\<rparr>"
  shows "mp_shape pool' h cs bs us"
    and "fresh_block (last1 (state pool) - free1 (state pool)) sz (mp_used pool h cs bs) (mp_used pool' h cs bs)"
proof -
  show "mp_shape pool' h cs bs us" using sh le by (auto simp: mp_shape_def pool'_def split: if_splits)
  show "fresh_block (last1 (state pool) - free1 (state pool)) sz (mp_used pool h cs bs) (mp_used pool' h cs bs)"
  proof (cases bs)
    case Nil
    then have "sz = 0" using sh le by (auto simp: mp_shape_def)
    then show ?thesis by (simp add: fresh_block_def pool'_def)
  next
    case (Cons c bs')
    let ?f = "free1 (state pool)" and ?R = "{last0 (state pool) - free0 (state pool)..<last0 (state pool)}"
    let ?D = "\<Union>c \<in> set (cs @ bs). chunk_data h c"
    have l: "last1 (state pool) = c" "c_size h c \<le> c" "?f \<le> c_size h c"
      using sh Cons by (auto simp: mp_shape_def chunk_ok_def)
    have ne: "cs \<noteq> [] \<Longrightarrow> c \<noteq> hd cs" using sh Cons by (cases cs) (auto simp: mp_shape_def)
    have "a \<notin> ?R" if "a \<in> chunk_data h c" for a
      using free0_in [OF sh, of a] shape_disjoint [OF sh, of c "hd cs"] that Cons ne hd_in_set [of cs] by auto
    moreover have "{c - ?f..<c - ?f + sz} \<subseteq> chunk_data h c"
      using l le by (auto simp: chunk_data_def chunk_base_def)
    moreover have "chunk_data h c \<subseteq> ?D" using Cons by auto
    moreover have "{c - ?f..<c - ?f + sz} \<subseteq> {c - ?f..<c}" "{c - ?f..<c - ?f + sz} \<inter> {c - (?f - sz)..<c} = {}"
      "{c - (?f - sz)..<c} \<subseteq> {c - ?f..<c}"
      using l le by auto
    moreover have "mp_used pool h cs bs = ?D - ?R - {c - ?f..<c}" "mp_used pool' h cs bs = ?D - ?R - {c - (?f - sz)..<c}"
      by (simp_all add: mp_used_def pool'_def l)
    ultimately show ?thesis unfolding fresh_block_def l(1) by blast
  qed
qed

text \<open>An allocation ends where the free end of its chain begins.\<close>

lemma new_big_chunk_ge: "mp_new_big_chunk A n h = Some (c, h') \<Longrightarrow> n \<le> c"
  by (auto simp: mp_new_big_chunk_def Let_def split: prod.splits if_splits)

lemma mp_alloc_internal_end:
  assumes sh: "mp_shape pool h cs bs us" and sz: "sz \<le> MP_SIZE_MAX"
    and r: "mp_alloc_internal A pool sz h = Some (p, pool', h')"
  shows "p + sz + free_at pool' (index pool') = last_at pool' (index pool')"
    and "free_at pool' (index pool') + sz < 2 ^ 32"
proof -
  let ?n = "chunk_size pool"
  have "p + sz + free_at pool' (index pool') = last_at pool' (index pool') \<and> free_at pool' (index pool') + sz < 2 ^ 32"
  proof (cases "sz \<le> threshold pool")
    case True
    have n: "sz \<le> ?n" "?n < 2 ^ 32" using sh True by (auto simp: mp_shape_def)
    have "unused pool \<noteq> ADDR_NULL \<Longrightarrow> ?n \<le> unused pool"
      using sh by (cases us) (auto simp: mp_shape_def chunk_ok_def)
    then obtain c where "?n \<le> c" "p = c - ?n" "free_at pool' (index pool') = ?n - sz" "last_at pool' (index pool') = c"
      using r True new_big_chunk_ge [of A ?n h]
      by (auto simp: mp_alloc_internal_def mp_new_chunk_def Let_def free_at_def last_at_def split: if_splits Option.bind_splits)
    then show ?thesis using n by auto
  next
    case False
    let ?a = "mp_align_size sz"
    have "sz \<le> 2 ^ 32 - 8" using sz by (simp add: MP_SIZE_MAX_def MP_CHUNK_TAIL_def CPU_PAGE_SIZE_def)
    note a = mp_align_size_small [OF this]
    have "?a < 2 ^ 32" using a(2) sz by (simp add: MP_SIZE_MAX_def MP_CHUNK_TAIL_def CPU_PAGE_SIZE_def)
    moreover obtain c where "?a \<le> c" "p = c - ?a" "free_at pool' (index pool') = ?a - sz" "last_at pool' (index pool') = c"
      using r False sz new_big_chunk_ge [of A ?a h]
      by (auto simp: mp_alloc_internal_def Let_def free_at_def last_at_def split: if_splits Option.bind_splits)
    ultimately show ?thesis using a(1) by auto
  qed
  then show "p + sz + free_at pool' (index pool') = last_at pool' (index pool')"
    "free_at pool' (index pool') + sz < 2 ^ 32" by blast+
qed

lemma set_free_at_simps [simp]:
  "index (set_free_at i v pool) = index pool" "last_at (set_free_at i v pool) j = last_at pool j"
  "free_at (set_free_at i v pool) i = v" "set_free_at i w (set_free_at i v pool) = set_free_at i w pool"
  "set_free_at i (free_at pool i) pool = pool"
  by (simp_all add: set_free_at_def last_at_def free_at_def)

text \<open>
  The result of moving the last block, \<open>n\<close> bytes at \<open>ptr\<close>, to \<open>sz\<close> bytes: the contents go
  along, and the rest of the memory in use, \<open>U\<close>, is left alone.
\<close>

definition mp_moved ::
  "addr set \<Rightarrow> addr \<Rightarrow> nat \<Rightarrow> nat \<Rightarrow> mp_heap \<Rightarrow> (addr \<times> mempool \<times> mp_heap) option \<Rightarrow> bool"
where
  "mp_moved U ptr n sz h r \<longleftrightarrow>
     (\<exists>p pool' h' cs' bs' us'. r = Some (p, pool', h') \<and> mp_shape pool' h' cs' bs' us' \<and>
        load_bytes p (min n sz) h' = load_bytes ptr (min n sz) h \<and>
        fresh_block p sz U (mp_used pool' h' cs' bs') \<and> (\<forall>a \<in> U. mem h' a = mem h a))"

lemma mp_movedI:
  "r = Some (p, pool', h') \<Longrightarrow> mp_shape pool' h' cs' bs' us' \<Longrightarrow>
   load_bytes p (min n sz) h' = load_bytes ptr (min n sz) h \<Longrightarrow> fresh_block p sz U (mp_used pool' h' cs' bs') \<Longrightarrow>
   (\<And>a. a \<in> U \<Longrightarrow> mem h' a = mem h a) \<Longrightarrow> mp_moved U ptr n sz h r"
  unfolding mp_moved_def by blast

lemma free_at_bound:
  assumes "mp_shape pool h cs bs us"
  shows "free_at pool i < 2 ^ 32"
proof -
  have "free0 (state pool) \<le> chunk_size pool" "chunk_size pool < 2 ^ 32"
    using assms by (auto simp: mp_shape_def split: if_splits)
  moreover have "free1 (state pool) < 2 ^ 32" using assms by (cases bs) (auto simp: mp_shape_def)
  ultimately show ?thesis by (simp add: free_at_def)
qed

lemma moved_in_place:
  assumes sh: "mp_shape pool h cs bs us" and last: "mp_last_block pool h cs bs ptr n"
    and sz: "sz \<le> mp_avail (opened pool ptr n)"
  shows "mp_moved (mp_used (opened pool ptr n) h cs bs) ptr n sz h (mp_realloc A pool ptr sz h)"
proof -
  let ?q = "opened pool ptr n"
  let ?r = "set_free_at (index ?q) (free_at ?q (index ?q) - sz) ?q"
  note o = opened_ok [OF sh last]
  have ix: "index ?q = (if ptr = last_big pool then 1 else 0)" by (simp add: opened_def)
  have av: "free_at ?q (index ?q) = last_at ?q (index ?q) - ptr" "sz \<le> free_at ?q (index ?q)"
    using o(6) sz by (simp_all add: mp_avail_def)
  have "free_at ?q (index ?q) < 2 ^ 32" using o(2) by (rule free_at_bound)
  then have "(last_at ?q (index ?q) - (ptr + sz)) mod 2 ^ 32 = free_at ?q (index ?q) - sz" using av by simp
  then have eq: "mp_realloc A pool ptr sz h = Some (ptr, ?r, h)"
    using sz by (simp add: mp_realloc_def mp_realloc_fast_def o(1) mp_grow_def mp_end_def o(4))
  have "mp_shape ?r h cs bs us \<and> fresh_block ptr sz (mp_used ?q h cs bs) (mp_used ?r h cs bs)"
  proof (cases "ptr = last_big pool")
    case True
    then show ?thesis
      using take_free1 [OF o(2), of sz] av o(4) ix by (simp add: mp_ptr_def set_free_at_def free_at_def last_at_def)
  next
    case False
    then show ?thesis
      using take_free0 [OF o(2), of sz "free0 (state ?q)"] av o(4) ix
      by (simp add: mp_ptr_def set_free_at_def free_at_def last_at_def)
  qed
  then show ?thesis by (intro mp_movedI [OF eq, where cs' = cs and bs' = bs and us' = us]) simp_all
qed

lemma moved_to_new:
  assumes A: "allocator_ok A" and sh: "mp_shape pool h cs bs us" and last: "mp_last_block pool h cs bs ptr n"
    and sz: "mp_avail (opened pool ptr n) < sz" "sz \<le> MP_SIZE_MAX" and small: "ptr \<noteq> last_big pool"
  shows "mp_moved (mp_used (opened pool ptr n) h cs bs) ptr n sz h (mp_realloc A pool ptr sz h)"
proof -
  let ?q = "opened pool ptr n"
  note o = opened_ok [OF sh last]
  have ix: "index ?q = 0" using small by (simp add: opened_def)
  obtain p q1 h1 cs1 bs1 us1 where r: "mp_alloc_internal A ?q sz h = Some (p, q1, h1)" "mp_shape q1 h1 cs1 bs1 us1"
    "mp_extends ?q h cs bs q1 h1 cs1 bs1" and f: "fresh_block p sz (mp_used ?q h cs bs) (mp_used q1 h1 cs1 bs1)"
    using mp_alloc_internal_ok(1) [OF A o(2) sz(2)] unfolding mp_result_def by blast
  note e = mp_alloc_internal_end [OF o(2) sz(2) r(1)]
  let ?i = "index q1" and ?h = "store_bytes p (load_bytes ptr (mp_avail ?q) h1) h1"
  have "mp_grow A ?q sz h = Some (p, set_free_at ?i (free_at q1 ?i + sz) q1, ?h)"
    using sz ix e(2) by (simp add: mp_grow_def mp_grow_internal_def mp_start_internal_def r(1) o(4))
  moreover have "(last_at q1 ?i - (p + sz)) mod 2 ^ 32 = free_at q1 ?i" using e by simp
  ultimately have eq: "mp_realloc A pool ptr sz h = Some (p, q1, ?h)"
    by (simp add: mp_realloc_def mp_realloc_fast_def o(1) mp_end_def)
  have m: "mem h1 = mem h" using r(3) by (simp add: mp_extends_def)
  have "load_bytes p n ?h = take n (load_bytes p (mp_avail ?q) ?h)" using o(5) by (rule load_prefix)
  also have "load_bytes p (mp_avail ?q) ?h = load_bytes ptr (mp_avail ?q) h1"
    using load_store_same [of p "load_bytes ptr (mp_avail ?q) h1" h1] by simp
  also have "take n (load_bytes ptr (mp_avail ?q) h1) = load_bytes ptr n h1"
    using load_prefix [OF o(5), symmetric] .
  also have "load_bytes ptr n h1 = load_bytes ptr n h" by (simp add: load_bytes_def m)
  finally have "load_bytes p (min n sz) ?h = load_bytes ptr (min n sz) h" using o(5) sz(1) by (simp add: min_absorb1)
  moreover have "mem ?h a = mem h a" if "a \<in> mp_used ?q h cs bs" for a
  proof -
    have "a \<notin> {p..<p + sz}" using f that by (auto simp: fresh_block_def)
    then have "a \<notin> {p..<p + length (load_bytes ptr (mp_avail ?q) h1)}" using sz(1) by auto
    then show ?thesis by (simp add: mem_store_other m)
  qed
  ultimately show ?thesis
    using r(2) f by (intro mp_movedI [OF eq, where cs' = cs1 and bs' = bs1 and us' = us1]) simp_all
qed

text \<open>The pool without its first big chunk, which has been given back.\<close>

lemma drop_big:
  assumes sh: "mp_shape pool h cs (c # bs) us"
  defines "h0 \<equiv> h\<lparr>live := release (chunk_base h c) (live h)\<rparr>"
    and "pool0 \<equiv> pool\<lparr>state := (state pool)\<lparr>last1 := c_next h c, free1 := 0\<rparr>\<rparr>"
  shows "mp_shape pool0 h0 cs bs us" and "mp_used pool0 h0 cs bs = mp_used (pool\<lparr>state := (state pool)\<lparr>free1 := c_size h c\<rparr>\<rparr>) h cs (c # bs)"
proof -
  have c: "chunk_ok h c" "live_ok (live h)" "last1 (state pool) = c" using sh by (auto simp: mp_shape_def)
  note free = free_chunk [OF c(1,2), folded h0_def]
  have ok: "chunk_ok h0 d" if "d \<in> set (cs @ bs @ us)" for d
    using sh that by (intro free(3)) (auto simp: mp_shape_def)
  have same: "c_next h0 = c_next h" "c_size h0 = c_size h" "chunk_data h0 = chunk_data h" "chunks h0 = chunks h"
    by (auto simp: h0_def chunk_data_def chunk_base_def fun_eq_iff)
  have hd: "bs \<noteq> [] \<Longrightarrow> hd bs \<in> set bs" by simp
  show "mp_shape pool0 h0 cs bs us"
    using sh ok free(2) by (auto simp: mp_shape_def pool0_def same split: if_splits)
  have "chunk_data h c \<inter> chunk_data h d = {}" if "d \<in> set (cs @ bs)" for d
    using sh that by (intro shape_disjoint [OF sh]) (auto simp: mp_shape_def)
  then have "(\<Union>d \<in> set (cs @ c # bs). chunk_data h d) - chunk_data h c = (\<Union>d \<in> set (cs @ bs). chunk_data h d)" by auto
  then show "mp_used pool0 h0 cs bs = mp_used (pool\<lparr>state := (state pool)\<lparr>free1 := c_size h c\<rparr>\<rparr>) h cs (c # bs)"
    unfolding mp_used_def pool0_def same using c(3) by (auto simp: chunk_data_def chunk_base_def)
qed

lemma store_commute:
  "set_c_next c v (store_bytes p xs h) = store_bytes p xs (set_c_next c v h)"
  "(store_bytes p xs h)\<lparr>c_size := S\<rparr> = store_bytes p xs (h\<lparr>c_size := S\<rparr>)"
  "c_size (store_bytes p xs h) = c_size h"
  "set_c_next c v (h\<lparr>c_size := S\<rparr>) = (set_c_next c v h)\<lparr>c_size := S\<rparr>" for h :: mp_heap
  by (simp_all add: store_bytes_def set_c_next_def cong: if_cong)

lemma mp_grow_internal_big:
  assumes "index pool = 1" "sz \<le> MP_SIZE_MAX" "b \<noteq> ADDR_NULL"
    and "a = mp_align_size (max (if mp_avail pool \<le> MP_SIZE_MAX div 2 then mp_avail pool * 2 else MP_SIZE_MAX) sz)"
    and "c_realloc A (mp_ptr pool) (a + MP_CHUNK_TAIL) h = Some (b, store_bytes b xs g)"
  shows "mp_grow_internal A pool sz h =
    Some (b, pool\<lparr>state := (state pool)\<lparr>last1 := b + a, free1 := a\<rparr>, last_big := b\<rparr>,
      store_bytes b xs (set_c_next (b + a) (c_next h (last1 (state pool))) (g\<lparr>c_size := (c_size g)(b + a := a)\<rparr>)))"
proof -
  have "mp_grow_internal A pool sz h = Option.bind (c_realloc A (mp_ptr pool) (a + MP_CHUNK_TAIL) h) (\<lambda>(ptr, h').
     if ptr = ADDR_NULL then None
     else Some (ptr, pool\<lparr>state := (state pool)\<lparr>last1 := ptr + a, free1 := a\<rparr>, last_big := ptr\<rparr>,
       (set_c_next (ptr + a) (c_next h (last1 (state pool))) h')\<lparr>c_size := (c_size h')(ptr + a := a)\<rparr>))"
    unfolding assms(4) mp_grow_internal_def Let_def using assms(1,2) by (simp add: set_c_next_def cong: if_cong)
  then show ?thesis using assms(3,5) by (simp add: store_commute)
qed

lemma moved_by_realloc:
  assumes A: "allocator_ok A" and sh: "mp_shape pool h cs bs us" and last: "mp_last_block pool h cs bs ptr n"
    and sz: "mp_avail (opened pool ptr n) < sz" "sz \<le> MP_SIZE_MAX" and big: "ptr = last_big pool"
  shows "mp_moved (mp_used (opened pool ptr n) h cs bs) ptr n sz h (mp_realloc A pool ptr sz h)"
proof -
  let ?q = "opened pool ptr n"
  note o = opened_ok [OF sh last]
  obtain c bs' where bs: "bs = c # bs'" using last big by (cases bs) (auto simp: mp_last_block_def)
  have q: "?q = pool\<lparr>index := 1, state := (state pool)\<lparr>free1 := c_size h c\<rparr>\<rparr>"
    using last big by (simp add: opened_def mp_last_block_def bs add.commute)
  have ptr: "ptr = chunk_base h c" "last1 (state pool) = c" using sh last big by (auto simp: bs mp_last_block_def mp_shape_def)
  have ok: "chunk_ok h c" "live_ok (live h)" using sh by (auto simp: mp_shape_def bs)
  have av: "mp_avail ?q = c_size h c" by (simp add: q mp_avail_def free_at_def)
  define m where "m = max (if c_size h c \<le> MP_SIZE_MAX div 2 then c_size h c * 2 else MP_SIZE_MAX) sz"
  define a where "a = mp_align_size m"
  let ?h0 = "h\<lparr>live := release ptr (live h)\<rparr>"
  let ?pool0 = "?q\<lparr>state := (state ?q)\<lparr>last1 := c_next h c, free1 := 0\<rparr>\<rparr>"
  have m: "m \<le> MP_SIZE_MAX" "sz \<le> m" using sz(2) by (auto simp: m_def)
  then have "m \<le> 2 ^ 32 - 8" by (simp add: MP_SIZE_MAX_def MP_CHUNK_TAIL_def CPU_PAGE_SIZE_def)
  note al = mp_align_size_small [OF this, folded a_def]
  have a32: "a < 2 ^ 32" and sza: "sz \<le> a"
    using al(1,2) m by (simp_all add: MP_SIZE_MAX_def MP_CHUNK_TAIL_def CPU_PAGE_SIZE_def)
  note d = drop_big [OF o(2) [unfolded bs], folded ptr(1)]
  obtain c1 h1 where c1: "mp_new_big_chunk A a ?h0 = Some (c1, h1)" and sh1: "mp_shape ?pool0 h1 cs bs' us"
    and ok1: "chunk_ok h1 c1" "c_size h1 c1 = a" "c1 \<notin> set (cs @ bs' @ us)" "c1 \<noteq> ADDR_NULL"
    and used: "mp_used ?pool0 h1 cs bs' = mp_used ?pool0 ?h0 cs bs'"
    by (rule new_chunk_shape [OF A d(1) al(3)]) blast
  define b where "b = A (release ptr (live h)) (a + MP_CHUNK_TAIL)"
  have b0: "b \<noteq> ADDR_NULL" unfolding b_def using A by (rule allocator_okD)
  have new: "c1 = b + a" "h1 = ?h0\<lparr>live := (b, a + MP_CHUNK_TAIL) # release ptr (live h), c_size := (c_size h)(c1 := a)\<rparr>"
    using c1 b0 by (auto simp: mp_new_big_chunk_def xmalloc_def malloc_def Let_def b_def)
  note push = push_chunk1 [OF sh1 ok1 sza a32]
  have in_live: "map_of (live h) ptr = Some (c_size h c + MP_CHUNK_TAIL)" "ptr \<noteq> ADDR_NULL"
    using ok ptr(1) live_ok_map_of [OF ok(2)] by (auto simp: chunk_ok_def live_ok_def)
  let ?xs = "load_bytes ptr (c_size h c + MP_CHUNK_TAIL) h"
  let ?h2 = "store_bytes b ?xs (set_c_next c1 (c_next h c) h1)"
  let ?q1 = "?q\<lparr>state := (state ?q)\<lparr>last1 := c1, free1 := a - sz\<rparr>\<rparr>\<lparr>last_big := b\<rparr>"
  have "c_realloc A ptr (a + MP_CHUNK_TAIL) h =
      Some (b, store_bytes b ?xs (h\<lparr>live := (b, a + MP_CHUNK_TAIL) # release ptr (live h)\<rparr>))"
    using in_live b0 sz(1) sza av by (simp add: c_realloc_def Let_def b_def min_absorb1)
  then have "mp_grow_internal A ?q sz h = Some (b, ?q\<lparr>state := (state ?q)\<lparr>last1 := c1, free1 := a\<rparr>, last_big := b\<rparr>, ?h2)"
    using sz(2) b0 a_def m_def
    by (subst mp_grow_internal_big [where a = a]) (simp_all add: av o(4), simp_all add: q ptr(2) new set_c_next_def)
  moreover have "(c1 - (b + sz)) mod 2 ^ 32 = a - sz" using a32 by (simp add: new(1))
  ultimately have eq: "mp_realloc A pool ptr sz h = Some (b, ?q1, ?h2)"
    using sz by (simp add: mp_realloc_def mp_realloc_fast_def o(1) mp_grow_def mp_end_def last_at_def q set_free_at_def)
  have live0: "mp_used ?pool0 ?h0 cs bs' \<subseteq> \<Union> (block ` set (release ptr (live h)))" using used_live [OF d(1)] by simp
  have dis: "{b..<b + (a + MP_CHUNK_TAIL)} \<inter> mp_used ?pool0 ?h0 cs bs' = {}"
    using allocator_okD(3) [OF A, where L = "release ptr (live h)" and n = "a + MP_CHUNK_TAIL"] live0
    by (fastforce simp: block_def b_def)
  have used0: "mp_used ?pool0 ?h0 cs bs' = mp_used ?q h cs bs" using d(2) by (simp add: q bs)
  have "mp_shape (?q1\<lparr>last_big := b\<rparr>) ?h2 cs (c1 # bs') us" using push(1) by simp
  moreover have "fresh_block b sz (mp_used ?q h cs bs) (mp_used ?q1 ?h2 cs (c1 # bs'))"
    using push(2) used used0 by (simp add: new(1))
  moreover have "mem ?h2 x = mem h x" if "x \<in> mp_used ?q h cs bs" for x
  proof -
    have "x \<notin> {b..<b + (a + MP_CHUNK_TAIL)}" using dis that unfolding used0 by blast
    then have "x \<notin> {b..<b + length ?xs}" using sza sz(1) av by auto
    then show ?thesis by (simp add: mem_store_other new(2) set_c_next_def)
  qed
  moreover have "load_bytes b (min n sz) ?h2 = load_bytes ptr (min n sz) h"
  proof -
    have le: "min n sz \<le> c_size h c + MP_CHUNK_TAIL" using o(5) av by simp
    show ?thesis
      using load_prefix [OF le, of b ?h2] load_prefix [OF le, of ptr h]
        load_store_same [of b ?xs "set_c_next c1 (c_next h c) h1"] by simp
  qed
  ultimately show ?thesis by (intro mp_movedI [OF eq, where cs' = cs and bs' = "c1 # bs'" and us' = us]) simp_all
qed

text \<open>
  C7: Reallocation of the last block of a pool succeeds and keeps the contents up to the smaller
  of the two sizes, whether the block stays in its chunk, moves to a new chunk, or is a big
  chunk that \<^verbatim>\<open>realloc\<close> moves. The new block overlaps nothing that is in use, all other
  memory in use keeps its contents, and the pool stays well formed. The zeroing variant clears
  the added bytes.
\<close>

theorem mp_realloc_correct:
  assumes A: "allocator_ok A" and sh: "mp_shape pool h cs bs us" and last: "mp_last_block pool h cs bs ptr n"
    and sz: "sz \<le> MP_SIZE_MAX"
  shows "mp_moved (mp_used pool h cs bs - {ptr..<ptr + n}) ptr n sz h (mp_realloc A pool ptr sz h) \<and>
    (\<exists>p pool' h'. mp_realloc_zero A pool ptr sz h = Some (p, pool', h') \<and>
      load_bytes p sz h' = take sz (load_bytes ptr n h @ replicate (sz - n) 0) \<and>
      (\<forall>a \<in> mp_used pool h cs bs - {ptr..<ptr + n}. mem h' a = mem h a))"
proof -
  let ?U = "mp_used pool h cs bs - {ptr..<ptr + n}"
  note o = opened_ok [OF sh last]
  have moved: "mp_moved ?U ptr n sz h (mp_realloc A pool ptr sz h)"
    unfolding o(3) [symmetric]
    using moved_in_place [OF sh last] moved_to_new [OF A sh last] moved_by_realloc [OF A sh last] sz
    by (metis linorder_not_less)
  then obtain p pool' h' cs' bs' us' where r: "mp_realloc A pool ptr sz h = Some (p, pool', h')"
    "load_bytes p (min n sz) h' = load_bytes ptr (min n sz) h" "fresh_block p sz ?U (mp_used pool' h' cs' bs')"
    "\<forall>a \<in> ?U. mem h' a = mem h a"
    unfolding mp_moved_def by blast
  let ?h = "store_bytes (p + n) (replicate (sz - n) 0) h'"
  have "mp_realloc_zero A pool ptr sz h = Some (p, pool', ?h)"
    using r(1) by (auto simp: mp_realloc_def mp_realloc_fast_def mp_realloc_zero_def o(1) Let_def split_def
      split: Option.bind_splits)
  moreover have "load_bytes p sz ?h = take sz (load_bytes ptr n h @ replicate (sz - n) 0)"
  proof (cases "n \<le> sz")
    case True
    have "load_bytes p n ?h = load_bytes ptr n h"
      using r(2) True by (subst load_store_disjoint) (auto simp: min_absorb1)
    moreover have "load_bytes (p + n) (sz - n) ?h = replicate (sz - n) 0"
      using load_store_same [of "p + n" "replicate (sz - n) 0" h'] by simp
    ultimately show ?thesis using load_append [of p n "sz - n" ?h] True by simp
  next
    case False
    then show ?thesis using r(2) load_prefix [of sz n ptr h] by (simp add: min_absorb2)
  qed
  moreover have "mem ?h a = mem h a" if "a \<in> ?U" for a
  proof -
    have "a \<notin> {p..<p + sz}" using r(3) that by (auto simp: fresh_block_def)
    then have "a \<notin> {p + n..<p + n + length (replicate (sz - n) (0 :: byte))}" by auto
    then show ?thesis using r(4) that by (simp add: mem_store_other)
  qed
  ultimately show ?thesis using moved by blast
qed

theorem mp_realloc_correct_witness:
  "\<exists>pool h p pool' h' q pool'' h''. mp_new bump 4096 empty_heap = Some (pool, h) \<and>
     mp_alloc bump pool 10 h = Some (p, pool', h') \<and> mp_realloc bump pool' p 9000 h' = Some (q, pool'', h'') \<and>
     load_bytes q 10 h'' = load_bytes p 10 h'"
proof -
  have "live_ok (live empty_heap)" by (simp add: empty_heap_def live_ok_def)
  then obtain pool h c where new: "mp_new bump 4096 empty_heap = Some (pool, h)" and sh: "mp_shape pool h [c] [] []"
    and base: "chunk_base h c = self pool"
    by (rule mp_new_shape [OF bump_ok, of empty_heap 4096]) simp_all
  have ev: "self pool = 16" "free0 (state pool) = 4032" "last0 (state pool) = 4112" "last_big pool = 56"
    using new by (auto simp: mp_new_def mp_new_chunk_def mp_new_big_chunk_def xmalloc_def malloc_def bump_def Let_def
      empty_heap_def mp_align_size_def CPU_STRUCT_ALIGN_def sizeof_mempool_def ADDR_NULL_def)
  let ?p = "pool\<lparr>state := (state pool)\<lparr>free0 := 4022\<rparr>\<rparr>"
  have al: "mp_alloc bump pool 10 h = Some (80, ?p, h)"
    by (simp add: mp_alloc_def mp_alloc_fast_def avail_aligned_def ev CPU_STRUCT_ALIGN_def Let_def)
  have sh': "mp_shape ?p h [c] [] []" using take_free0(1) [OF sh, of 10 4032] by (simp add: ev)
  have "c = 4112" using sh ev by (simp add: mp_shape_def)
  then have last: "mp_last_block ?p h [c] [] 80 10" using base ev by (simp add: mp_last_block_def)
  have "mp_moved (mp_used ?p h [c] [] - {80..<80 + 10}) 80 10 9000 h (mp_realloc bump ?p 80 9000 h)"
    using mp_realloc_correct [OF bump_ok sh' last, of 9000]
    by (simp add: MP_SIZE_MAX_def MP_CHUNK_TAIL_def CPU_PAGE_SIZE_def)
  then obtain q pool'' h'' where "mp_realloc bump ?p 80 9000 h = Some (q, pool'', h'')"
    "load_bytes q 10 h'' = load_bytes 80 10 h"
    unfolding mp_moved_def by auto
  then show ?thesis using new al by blast
qed

end
