(* ===== verification/Asort.thy ===== *)
theory Asort
  imports Main "HOL-Library.Multiset" "HOL-Library.Monad_Syntax"
begin

text \<open>
  Model of \<^verbatim>\<open>generic/sorter/array-simple.h\<close>, the generator of array sorters: quicksort with
  a median of three and an explicit stack, down to ranges of at most eight elements, finished
  by an insertion sort that relies on a barrier at the start of the array. The comparison
  \<^verbatim>\<open>ASORT_LT\<close> is a parameter. Indices are signed; an access outside the array, a signed
  overflow of an index and an overflow of the stack give \<open>None\<close>.
\<close>

section \<open>Array access\<close>

definition elt :: "'a list \<Rightarrow> int \<Rightarrow> 'a option" where
  "elt a i = (if 0 \<le> i \<and> i < int (length a) then Some (a ! nat i) else None)"

definition asort_swap :: "int \<Rightarrow> int \<Rightarrow> 'a list \<Rightarrow> 'a list option" where
  "asort_swap i j a = do {
     tmp \<leftarrow> elt a i;
     x \<leftarrow> elt a j;
     Some (a[nat i := x, nat j := tmp])
   }"

definition ASORT_THRESHOLD :: int where
  "ASORT_THRESHOLD = 8"

definition STACK_SIZE :: nat where
  "STACK_SIZE = 32"

section \<open>Quicksort\<close>

definition median3 :: "('a \<Rightarrow> 'a \<Rightarrow> bool) \<Rightarrow> int \<Rightarrow> int \<Rightarrow> int \<Rightarrow> 'a list \<Rightarrow> 'a list option" where
  "median3 lt l m r a = do {
     x \<leftarrow> elt a m;
     y \<leftarrow> elt a l;
     a \<leftarrow> if lt x y then asort_swap l m a else Some a;
     x \<leftarrow> elt a r;
     y \<leftarrow> elt a m;
     if lt x y then do {
       a \<leftarrow> asort_swap m r a;
       x \<leftarrow> elt a m;
       y \<leftarrow> elt a l;
       if lt x y then asort_swap l m a else Some a
     } else Some a
   }"

partial_function (option) scan_up :: "('a \<Rightarrow> 'a \<Rightarrow> bool) \<Rightarrow> 'a \<Rightarrow> 'a list \<Rightarrow> int \<Rightarrow> int option" where
  "scan_up lt pivot a l = do {
     x \<leftarrow> elt a l;
     if lt x pivot then scan_up lt pivot a (l + 1) else Some l
   }"

partial_function (option) scan_down :: "('a \<Rightarrow> 'a \<Rightarrow> bool) \<Rightarrow> 'a \<Rightarrow> 'a list \<Rightarrow> int \<Rightarrow> int option" where
  "scan_down lt pivot a r = do {
     x \<leftarrow> elt a r;
     if lt pivot x then scan_down lt pivot a (r - 1) else Some r
   }"

definition exchange :: "int \<Rightarrow> int \<Rightarrow> 'a list \<Rightarrow> (int \<times> int \<times> 'a list) option" where
  "exchange l r a =
     (if l < r then do { a \<leftarrow> asort_swap l r a; Some (l + 1, r - 1, a) }
      else if l = r then Some (l + 1, r - 1, a) else Some (l, r, a))"

partial_function (option) partition_loop ::
  "('a \<Rightarrow> 'a \<Rightarrow> bool) \<Rightarrow> 'a \<Rightarrow> int \<Rightarrow> int \<Rightarrow> 'a list \<Rightarrow> (int \<times> int \<times> 'a list) option"
where
  "partition_loop lt pivot l r a = do {
     l \<leftarrow> scan_up lt pivot a l;
     r \<leftarrow> scan_down lt pivot a r;
     (l, r, a) \<leftarrow> exchange l r a;
     if l \<le> r then partition_loop lt pivot l r a else Some (l, r, a)
   }"

text \<open>\<^verbatim>\<open>(l + r) / 2\<close> of two indices, undefined on overflow.\<close>

definition middle :: "int \<Rightarrow> int \<Rightarrow> int option" where
  "middle l r = (if l + r < 2 ^ 31 then Some ((l + r) div 2) else None)"

definition split_range :: "('a \<Rightarrow> 'a \<Rightarrow> bool) \<Rightarrow> int \<Rightarrow> int \<Rightarrow> 'a list \<Rightarrow> (int \<times> int \<times> 'a list) option" where
  "split_range lt left right a = do {
     m \<leftarrow> middle left right;
     a \<leftarrow> median3 lt left m right a;
     pivot \<leftarrow> elt a m;
     partition_loop lt pivot left right a
   }"

definition push :: "int \<times> int \<Rightarrow> (int \<times> int) list \<Rightarrow> (int \<times> int) list option" where
  "push x stack = (if length stack < STACK_SIZE then Some (x # stack) else None)"

partial_function (option) qsort_loop ::
  "('a \<Rightarrow> 'a \<Rightarrow> bool) \<Rightarrow> int \<Rightarrow> int \<Rightarrow> (int \<times> int) list \<Rightarrow> 'a list \<Rightarrow> 'a list option"
where
  "qsort_loop lt left right stack a = do {
     (l, r, a) \<leftarrow> split_range lt left right a;
     if ASORT_THRESHOLD \<le> r - left \<and> ASORT_THRESHOLD \<le> right - l then
       if r - left > right - l then do {
         stack \<leftarrow> push (left, r) stack;
         qsort_loop lt l right stack a
       } else do {
         stack \<leftarrow> push (l, right) stack;
         qsort_loop lt left r stack a
       }
     else if ASORT_THRESHOLD \<le> r - left then qsort_loop lt left r stack a
     else if ASORT_THRESHOLD \<le> right - l then qsort_loop lt l right stack a
     else case stack of
       [] \<Rightarrow> Some a
     | (left, right) # stack \<Rightarrow> qsort_loop lt left right stack a
   }"

section \<open>Insertion sort\<close>

partial_function (option) find_min :: "('a \<Rightarrow> 'a \<Rightarrow> bool) \<Rightarrow> 'a list \<Rightarrow> int \<Rightarrow> int \<Rightarrow> int \<Rightarrow> int option" where
  "find_min lt a l r m =
     (if l < r then do {
        x \<leftarrow> elt a l;
        y \<leftarrow> elt a m;
        find_min lt a (l + 1) r (if lt x y then l else m)
      } else Some m)"

partial_function (option) insert_pos :: "('a \<Rightarrow> 'a \<Rightarrow> bool) \<Rightarrow> 'a list \<Rightarrow> int \<Rightarrow> int \<Rightarrow> int option" where
  "insert_pos lt a m l = do {
     x \<leftarrow> elt a m;
     y \<leftarrow> elt a (l - 1);
     if lt x y then insert_pos lt a m (l - 1) else Some l
   }"

partial_function (option) shift_loop :: "int \<Rightarrow> int \<Rightarrow> 'a list \<Rightarrow> 'a list option" where
  "shift_loop l m a =
     (if l < m then do { a \<leftarrow> asort_swap l m a; shift_loop (l + 1) m a } else Some a)"

partial_function (option) insert_loop :: "('a \<Rightarrow> 'a \<Rightarrow> bool) \<Rightarrow> int \<Rightarrow> int \<Rightarrow> 'a list \<Rightarrow> 'a list option" where
  "insert_loop lt m n a =
     (if m < n then do {
        l \<leftarrow> insert_pos lt a m m;
        a \<leftarrow> shift_loop l m a;
        insert_loop lt (m + 1) n a
      } else Some a)"

definition asort_sort :: "('a \<Rightarrow> 'a \<Rightarrow> bool) \<Rightarrow> 'a list \<Rightarrow> 'a list option" where
  "asort_sort lt a =
     (let array_size = int (length a) in
      if array_size \<le> 1 then Some a
      else do {
        a \<leftarrow> qsort_loop lt 0 (array_size - 1) [] a;
        m \<leftarrow> find_min lt a 1 (min array_size ASORT_THRESHOLD) 0;
        a \<leftarrow> asort_swap 0 m a;
        insert_loop lt 1 array_size a
      })"

section \<open>Rearrangement within a range\<close>

lemma elt_Some [simp]: "0 \<le> i \<Longrightarrow> i < int (length a) \<Longrightarrow> elt a i = Some (a ! nat i)"
  by (simp add: elt_def)

text \<open>\<open>b\<close> comes from \<open>a\<close> by moving elements inside the range from \<open>l\<close> to \<open>r\<close>.\<close>

definition moved_in :: "int \<Rightarrow> int \<Rightarrow> 'a list \<Rightarrow> 'a list \<Rightarrow> bool" where
  "moved_in l r a b \<longleftrightarrow> mset b = mset a \<and> length b = length a \<and>
     (\<forall>i. 0 \<le> i \<and> i < int (length a) \<and> (i < l \<or> r < i) \<longrightarrow> b ! nat i = a ! nat i) \<and>
     (\<forall>i. l \<le> i \<and> i \<le> r \<longrightarrow> (\<exists>k. l \<le> k \<and> k \<le> r \<and> b ! nat i = a ! nat k))"

lemma moved_refl [simp]: "moved_in l r a a"
  by (auto simp: moved_in_def)

lemma moved_trans: "moved_in l r a b \<Longrightarrow> moved_in l r b c \<Longrightarrow> moved_in l r a c"
  unfolding moved_in_def by (intro conjI allI impI) (simp_all, metis+)

lemma swap_Some:
  assumes "0 \<le> i" "i < int (length a)" "0 \<le> j" "j < int (length a)"
  shows "asort_swap i j a = Some (a[nat i := a ! nat j, nat j := a ! nat i])"
  using assms by (simp add: asort_swap_def)

lemma swap_moved:
  assumes "0 \<le> l" "r < int (length a)" "l \<le> i" "i \<le> r" "l \<le> j" "j \<le> r"
  shows "moved_in l r a (a[nat i := a ! nat j, nat j := a ! nat i])"
proof -
  let ?b = "a[nat i := a ! nat j, nat j := a ! nat i]"
  have "mset ?b = mset a" using assms by (intro mset_swap) auto
  moreover have "?b ! nat k = (if k = j then a ! nat i else if k = i then a ! nat j else a ! nat k)"
    if "0 \<le> k" for k
    using assms that by (auto simp: nth_list_update nat_eq_iff)
  ultimately show ?thesis using assms unfolding moved_in_def by auto
qed

lemma cond_swap:
  assumes "0 \<le> l" "r < int (length a)" "l \<le> i" "i \<le> r" "l \<le> j" "j \<le> r"
  obtains b where "(if P then asort_swap i j a else Some a) = Some b" and "moved_in l r a b"
  using assms swap_Some [of i a j] swap_moved [of l r a i j] by (cases P) auto

lemma moved_length: "moved_in l r a b \<Longrightarrow> length b = length a"
  by (simp add: moved_in_def)

lemma median3_moved:
  assumes "0 \<le> l" "l \<le> m" "m \<le> r" "r < int (length a)"
  obtains b where "median3 lt l m r a = Some b" and "moved_in l r a b"
proof -
  obtain b where b: "(if lt (a ! nat m) (a ! nat l) then asort_swap l m a else Some a) = Some b" "moved_in l r a b"
    by (rule cond_swap [of l r a l m "lt (a ! nat m) (a ! nat l)"]) (use assms in auto)
  have lb: "length b = length a" using b(2) by (rule moved_length)
  have eq: "median3 lt l m r a =
      (if lt (b ! nat r) (b ! nat m) then do {
         c \<leftarrow> asort_swap m r b; x \<leftarrow> elt c m; y \<leftarrow> elt c l; if lt x y then asort_swap l m c else Some c }
       else Some b)"
    using assms b(1) lb by (simp add: median3_def)
  show ?thesis
  proof (cases "lt (b ! nat r) (b ! nat m)")
    case True
    obtain c where c: "asort_swap m r b = Some c" "moved_in l r b c"
      by (rule cond_swap [of l r b m r True]) (use assms lb in auto)
    have lc: "length c = length a" using c(2) lb by (simp add: moved_length)
    obtain d where d: "(if lt (c ! nat m) (c ! nat l) then asort_swap l m c else Some c) = Some d" "moved_in l r c d"
      by (rule cond_swap [of l r c l m "lt (c ! nat m) (c ! nat l)"]) (use assms lc in auto)
    have "median3 lt l m r a = Some d" using eq True c(1) d(1) assms lc by simp
    then show ?thesis using that b(2) c(2) d(2) moved_trans by blast
  next
    case False
    then show ?thesis using that eq b(2) by simp
  qed
qed

section \<open>The scans\<close>

lemma scan_up_ok:
  assumes "0 \<le> l" "l \<le> j" "j < int (length a)" "\<not> lt (a ! nat j) p"
  shows "\<exists>l'. scan_up lt p a l = Some l' \<and> l \<le> l' \<and> l' \<le> j \<and> \<not> lt (a ! nat l') p \<and>
    (\<forall>i. l \<le> i \<and> i < l' \<longrightarrow> lt (a ! nat i) p)"
  using assms
proof (induction "nat (j - l)" arbitrary: l)
  case 0
  then show ?case by (subst scan_up.simps) auto
next
  case (Suc k)
  show ?case
  proof (cases "lt (a ! nat l) p")
    case True
    then have "l \<noteq> j" using Suc.prems by auto
    then have "\<exists>l'. scan_up lt p a (l + 1) = Some l' \<and> l + 1 \<le> l' \<and> l' \<le> j \<and> \<not> lt (a ! nat l') p \<and>
        (\<forall>i. l + 1 \<le> i \<and> i < l' \<longrightarrow> lt (a ! nat i) p)"
      using Suc.prems Suc.hyps(2) by (intro Suc.hyps(1)) auto
    then obtain l' where l': "scan_up lt p a (l + 1) = Some l'" "l + 1 \<le> l'" "l' \<le> j" "\<not> lt (a ! nat l') p"
      "\<forall>i. l + 1 \<le> i \<and> i < l' \<longrightarrow> lt (a ! nat i) p" by blast
    have "\<forall>i. l \<le> i \<and> i < l' \<longrightarrow> lt (a ! nat i) p"
    proof (intro allI impI)
      fix i assume "l \<le> i \<and> i < l'"
      then show "lt (a ! nat i) p" using True l'(5) by (cases "i = l") auto
    qed
    then show ?thesis using True l' Suc.prems by (subst scan_up.simps) auto
  next
    case False
    then show ?thesis using Suc.prems by (subst scan_up.simps) auto
  qed
qed

lemma scan_down_ok:
  assumes "0 \<le> i" "i \<le> r" "r < int (length a)" "\<not> lt p (a ! nat i)"
  shows "\<exists>r'. scan_down lt p a r = Some r' \<and> i \<le> r' \<and> r' \<le> r \<and> \<not> lt p (a ! nat r') \<and>
    (\<forall>j. r' < j \<and> j \<le> r \<longrightarrow> lt p (a ! nat j))"
  using assms
proof (induction "nat (r - i)" arbitrary: r)
  case 0
  then show ?case by (subst scan_down.simps) auto
next
  case (Suc k)
  show ?case
  proof (cases "lt p (a ! nat r)")
    case True
    then have "r \<noteq> i" using Suc.prems by auto
    then have "\<exists>r'. scan_down lt p a (r - 1) = Some r' \<and> i \<le> r' \<and> r' \<le> r - 1 \<and> \<not> lt p (a ! nat r') \<and>
        (\<forall>j. r' < j \<and> j \<le> r - 1 \<longrightarrow> lt p (a ! nat j))"
      using Suc.prems Suc.hyps(2) by (intro Suc.hyps(1)) auto
    then obtain r' where r': "scan_down lt p a (r - 1) = Some r'" "i \<le> r'" "r' \<le> r - 1" "\<not> lt p (a ! nat r')"
      "\<forall>j. r' < j \<and> j \<le> r - 1 \<longrightarrow> lt p (a ! nat j)" by blast
    have "\<forall>j. r' < j \<and> j \<le> r \<longrightarrow> lt p (a ! nat j)"
    proof (intro allI impI)
      fix j assume "r' < j \<and> j \<le> r"
      then show "lt p (a ! nat j)" using True r'(5) by (cases "j = r") auto
    qed
    then show ?thesis using True r' Suc.prems by (subst scan_down.simps) auto
  next
    case False
    then show ?thesis using Suc.prems by (subst scan_down.simps) auto
  qed
qed

section \<open>Partitioning\<close>

text \<open>What the sorter needs of \<^verbatim>\<open>ASORT_LT\<close>: a strict weak order.\<close>

locale strict_weak =
  fixes lt :: "'a \<Rightarrow> 'a \<Rightarrow> bool"
  assumes asym: "lt x y \<Longrightarrow> \<not> lt y x"
    and split: "lt x z \<Longrightarrow> lt x y \<or> lt y z"
begin

text \<open>A range of \<open>b\<close> is split by the pivot \<open>p\<close>, with \<open>l\<close> and \<open>r\<close> where the scans met.\<close>

definition parted :: "int \<Rightarrow> int \<Rightarrow> 'a \<Rightarrow> int \<Rightarrow> int \<Rightarrow> 'a list \<Rightarrow> bool" where
  "parted left right p l r b \<longleftrightarrow>
     (\<forall>i. left \<le> i \<and> i < l \<longrightarrow> \<not> lt p (b ! nat i)) \<and> (\<forall>j. r < j \<and> j \<le> right \<longrightarrow> \<not> lt (b ! nat j) p)"

lemma partition_loop_ok:
  assumes "0 \<le> left" "right < int (length a)" "left \<le> l" "l \<le> r" "r \<le> right" "parted left right p l r a"
    and "\<exists>j. l \<le> j \<and> j \<le> right \<and> \<not> lt (a ! nat j) p" "\<exists>i. left \<le> i \<and> i \<le> r \<and> \<not> lt p (a ! nat i)"
  shows "\<exists>l' r' b. partition_loop lt p l r a = Some (l', r', b) \<and> moved_in left right a b \<and> r' < l' \<and>
    left < l' \<and> l' \<le> right + 1 \<and> left - 1 \<le> r' \<and> r' < right \<and> parted left right p l' r' b"
  using assms
proof (induction "nat (r - l)" arbitrary: l r a rule: less_induct)
  case less
  obtain j0 i0 where s: "l \<le> j0" "j0 \<le> right" "\<not> lt (a ! nat j0) p" "left \<le> i0" "i0 \<le> r" "\<not> lt p (a ! nat i0)"
    using less.prems by blast
  obtain l1 where l1: "scan_up lt p a l = Some l1" "l \<le> l1" "l1 \<le> j0" "\<not> lt (a ! nat l1) p"
    "\<forall>i. l \<le> i \<and> i < l1 \<longrightarrow> lt (a ! nat i) p"
    using scan_up_ok [of l j0 a lt p] less.prems s by auto
  obtain r1 where r1: "scan_down lt p a r = Some r1" "i0 \<le> r1" "r1 \<le> r" "\<not> lt p (a ! nat r1)"
    "\<forall>j. r1 < j \<and> j \<le> r \<longrightarrow> lt p (a ! nat j)"
    using scan_down_ok [of i0 r a lt p] less.prems s by auto
  have low: "\<not> lt p (a ! nat i)" if "left \<le> i" "i < l1" for i
    using that less.prems(6) l1(5) asym by (cases "i < l") (auto simp: parted_def)
  have high: "\<not> lt (a ! nat j) p" if "r1 < j" "j \<le> right" for j
    using that less.prems(6) r1(5) asym by (cases "r < j") (auto simp: parted_def)
  show ?case
  proof (cases "l1 < r1")
    case True
    let ?b = "a[nat l1 := a ! nat r1, nat r1 := a ! nat l1]"
    have bd: "0 \<le> l1" "l1 < int (length a)" "0 \<le> r1" "r1 < int (length a)" using less.prems l1 r1 s by auto
    have b: "?b ! nat k = (if k = r1 then a ! nat l1 else if k = l1 then a ! nat r1 else a ! nat k)" if "0 \<le> k" for k
      using bd that by (auto simp: nth_list_update nat_eq_iff)
    have mv: "moved_in left right a ?b" using less.prems l1 r1 s by (intro swap_moved) auto
    have part: "parted left right p (l1 + 1) (r1 - 1) ?b"
      using low high l1(4) r1(4) less.prems(1) bd True b by (auto simp: parted_def)
    have step: "partition_loop lt p l r a =
        (if l1 + 1 \<le> r1 - 1 then partition_loop lt p (l1 + 1) (r1 - 1) ?b else Some (l1 + 1, r1 - 1, ?b))"
      using l1(1) r1(1) True bd by (subst partition_loop.simps) (simp add: exchange_def swap_Some)
    show ?thesis
    proof (cases "l1 + 1 \<le> r1 - 1")
      case again: True
      have "\<exists>j. l1 + 1 \<le> j \<and> j \<le> right \<and> \<not> lt (?b ! nat j) p"
        using b bd l1(4) True r1(3) less.prems(5) by (intro exI [of _ r1]) auto
      moreover have "\<exists>i. left \<le> i \<and> i \<le> r1 - 1 \<and> \<not> lt p (?b ! nat i)"
        using b bd r1(4) True l1(2) less.prems(3) by (intro exI [of _ l1]) auto
      ultimately have "\<exists>l' r' c. partition_loop lt p (l1 + 1) (r1 - 1) ?b = Some (l', r', c) \<and> moved_in left right ?b c \<and> r' < l' \<and>
        left < l' \<and> l' \<le> right + 1 \<and> left - 1 \<le> r' \<and> r' < right \<and> parted left right p l' r' c"
        using less.prems(1-5) l1(2) r1(3) True again part by (intro less.hyps) simp_all
      then show ?thesis using again step mv moved_trans [OF mv] by auto
    next
      case False
      then show ?thesis using step mv part True less.prems l1 r1 s by auto
    qed
  next
    case False
    have ex: "exchange l1 r1 a = Some (if l1 = r1 then l1 + 1 else l1, if l1 = r1 then r1 - 1 else r1, a)"
      using False by (simp add: exchange_def)
    have "parted left right p (l1 + 1) (r1 - 1) a" if "l1 = r1"
    proof -
      have "\<not> lt p (a ! nat i)" if "left \<le> i" "i \<le> l1" for i
        using low [of i] that r1(4) \<open>l1 = r1\<close> by (cases "i = l1") auto
      moreover have "\<not> lt (a ! nat j) p" if "r1 \<le> j" "j \<le> right" for j
        using high [of j] that l1(4) \<open>l1 = r1\<close> by (cases "j = r1") auto
      ultimately show ?thesis by (simp add: parted_def)
    qed
    moreover have "parted left right p l1 r1 a" using low high by (auto simp: parted_def)
    ultimately show ?thesis
      using l1 r1 s ex False less.prems by (subst partition_loop.simps) auto
  qed
qed

lemma split_range_ok:
  assumes "0 \<le> left" "left \<le> right" "right < int (length a)" "left + right < 2 ^ 31"
  obtains l r b p where "split_range lt left right a = Some (l, r, b)" and "moved_in left right a b" and "r < l"
    and "left < l" and "l \<le> right + 1" and "left - 1 \<le> r" and "r < right" and "parted left right p l r b"
proof -
  let ?m = "(left + right) div 2"
  have m: "left \<le> ?m" "?m \<le> right" using assms by auto
  obtain b where b: "median3 lt left ?m right a = Some b" "moved_in left right a b"
    using median3_moved [of left ?m right a lt] assms m by blast
  have len: "length b = length a" using b(2) by (rule moved_length)
  have irrefl: "\<not> lt x x" for x using asym by blast
  then have "\<exists>l' r' c. partition_loop lt (b ! nat ?m) left right b = Some (l', r', c) \<and> moved_in left right b c \<and> r' < l' \<and>
    left < l' \<and> l' \<le> right + 1 \<and> left - 1 \<le> r' \<and> r' < right \<and> parted left right (b ! nat ?m) l' r' c"
    using assms m len by (intro partition_loop_ok) (auto simp: parted_def intro!: exI [of _ ?m])
  then obtain l' r' c where c: "partition_loop lt (b ! nat ?m) left right b = Some (l', r', c)" "moved_in left right b c"
    "r' < l'" "left < l'" "l' \<le> right + 1" "left - 1 \<le> r'" "r' < right" "parted left right (b ! nat ?m) l' r' c"
    by blast
  have "split_range lt left right a = Some (l', r', c)"
    using assms m b(1) c(1) len by (simp add: split_range_def middle_def)
  then show ?thesis using that c moved_trans [OF b(2) c(2)] by blast
qed

end

section \<open>The quicksort loop\<close>

definition apart :: "int \<times> int \<Rightarrow> int \<times> int \<Rightarrow> bool" where
  "apart p q \<longleftrightarrow> snd p < fst q \<or> snd q < fst p"

text \<open>
  Along the stack the ranges halve: a range with \<open>k\<close> ranges below it has at most
  \<open>2 ^ 30 / 2 ^ k\<close> elements.
\<close>

fun depth_ok :: "(int \<times> int) list \<Rightarrow> bool" where
  "depth_ok [] = True"
| "depth_ok (q # qs) = ((snd q - fst q + 1) * 2 ^ length qs \<le> 2 ^ 30 \<and> depth_ok qs)"

definition weight :: "(int \<times> int) list \<Rightarrow> nat" where
  "weight qs = (\<Sum>q \<leftarrow> qs. nat (2 * (snd q - fst q) + 1))"

lemma weight_simps [simp]: "weight [] = 0" "weight (q # qs) = nat (2 * (snd q - fst q) + 1) + weight qs"
  by (simp_all add: weight_def)

lemma depth_bound:
  assumes "depth_ok (q # qs)" "fst q \<le> snd q"
  shows "length qs < STACK_SIZE"
proof (rule ccontr)
  assume "\<not> length qs < STACK_SIZE"
  then have "(2 :: int) ^ 32 \<le> 2 ^ length qs" by (intro power_increasing) (simp_all add: STACK_SIZE_def)
  also have "(2 :: int) ^ length qs \<le> (snd q - fst q + 1) * 2 ^ length qs" using assms(2) by simp
  finally show False using assms(1) by simp
qed

lemma depth_sub:
  assumes "depth_ok ((u, v) # qs)"
  shows "v' - u' \<le> v - u \<Longrightarrow> depth_ok ((u', v') # qs)"
    and "2 * (v' - u' + 1) \<le> v - u + 1 \<Longrightarrow> v'' - u'' \<le> v - u \<Longrightarrow> depth_ok ((u', v') # (u'', v'') # qs)"
proof -
  have le: "s * 2 ^ length qs \<le> 2 ^ 30" if "s \<le> v - u + 1" for s
  proof -
    have "s * 2 ^ length qs \<le> (v - u + 1) * 2 ^ length qs" using that by (rule mult_right_mono) simp
    also have "(v - u + 1) * 2 ^ length qs \<le> 2 ^ 30" using assms by simp
    finally show ?thesis .
  qed
  show "v' - u' \<le> v - u \<Longrightarrow> depth_ok ((u', v') # qs)" using le [of "v' - u' + 1"] assms by simp
  show "2 * (v' - u' + 1) \<le> v - u + 1 \<Longrightarrow> v'' - u'' \<le> v - u \<Longrightarrow> depth_ok ((u', v') # (u'', v'') # qs)"
    using le [of "2 * (v' - u' + 1)"] le [of "v'' - u'' + 1"] assms by (simp add: algebra_simps)
qed

context strict_weak
begin

text \<open>The elements up to \<open>x\<close> are not above the others.\<close>

definition low :: "int \<Rightarrow> 'a list \<Rightarrow> bool" where
  "low x a \<longleftrightarrow> (\<forall>i j. 0 \<le> i \<and> i \<le> x \<and> x < j \<and> j < int (length a) \<longrightarrow> \<not> lt (a ! nat j) (a ! nat i))"

definition ranges_ok :: "int \<Rightarrow> 'a list \<Rightarrow> (int \<times> int) list \<Rightarrow> bool" where
  "ranges_ok x a qs \<longleftrightarrow> 0 \<le> x \<and> x < int (length a) \<and> low x a \<and> sorted_wrt apart qs \<and>
     (\<forall>q \<in> set qs. 0 \<le> fst q \<and> fst q \<le> snd q \<and> snd q < int (length a) \<and> (x < fst q \<or> q = (0, x))) \<and>
     (x < ASORT_THRESHOLD \<or> (0, x) \<in> set qs)"

lemma low_moved_above:
  assumes "low x a" "moved_in l r a b" "x < l" "r < int (length a)" "0 \<le> x"
  shows "low x b"
  unfolding low_def
proof (intro allI impI)
  fix i j assume ij: "0 \<le> i \<and> i \<le> x \<and> x < j \<and> j < int (length b)"
  have len: "length b = length a" using assms(2) by (rule moved_length)
  have "b ! nat i = a ! nat i" using assms ij len by (auto simp: moved_in_def)
  moreover have "\<exists>k. x < k \<and> k < int (length a) \<and> b ! nat j = a ! nat k"
  proof (cases "l \<le> j \<and> j \<le> r")
    case True
    then obtain k where "l \<le> k" "k \<le> r" "b ! nat j = a ! nat k" using assms(2) by (auto simp: moved_in_def)
    then show ?thesis using assms by (intro exI [of _ k]) auto
  next
    case False
    then show ?thesis using assms ij len by (intro exI [of _ j]) (auto simp: moved_in_def)
  qed
  ultimately show "\<not> lt (b ! nat j) (b ! nat i)" using assms(1) ij unfolding low_def by metis
qed

lemma low_parted:
  assumes "low right a" "moved_in 0 right a b" "parted 0 right p l r b" "r < l" "0 < l" "- 1 \<le> r" "r < right"
    "right < int (length a)"
  shows "low (max r 0) b"
  unfolding low_def
proof (intro allI impI)
  fix i j assume ij: "0 \<le> i \<and> i \<le> max r 0 \<and> max r 0 < j \<and> j < int (length b)"
  have len: "length b = length a" using assms(2) by (rule moved_length)
  show "\<not> lt (b ! nat j) (b ! nat i)"
  proof (cases "j \<le> right")
    case True
    have "\<not> lt p (b ! nat i)" "\<not> lt (b ! nat j) p" using assms(3-5) ij True unfolding parted_def by auto
    then show ?thesis using split [of "b ! nat j" "b ! nat i" p] by blast
  next
    case False
    have "b ! nat j = a ! nat j" using assms(2) ij False len by (auto simp: moved_in_def)
    moreover have "0 \<le> i \<and> i \<le> right" using assms(5-7) ij by auto
    then obtain k where "0 \<le> k" "k \<le> right" "b ! nat i = a ! nat k"
      using assms(2) unfolding moved_in_def by blast
    ultimately show ?thesis using assms(1) ij False len unfolding low_def by auto
  qed
qed

lemma ranges_split:
  assumes ok: "ranges_ok x a ((left, right) # qs)" and mv: "moved_in left right a b" and part: "parted left right p l r b"
    and b: "r < l" "left < l" "l \<le> right + 1" "left - 1 \<le> r" "r < right"
    and subs: "sorted_wrt apart subs" "set subs \<subseteq> {(left, r), (l, right)}" "\<forall>q \<in> set subs. fst q \<le> snd q"
      "ASORT_THRESHOLD \<le> r - left \<Longrightarrow> (left, r) \<in> set subs"
  shows "\<exists>y. ranges_ok y b (subs @ qs)"
proof -
  have len: "length b = length a" using mv by (rule moved_length)
  have o: "0 \<le> x" "x < int (length a)" "low x a" "0 \<le> left" "left \<le> right" "right < int (length a)"
    "x < left \<or> left = 0 \<and> right = x" using ok by (auto simp: ranges_ok_def)
  have dis: "apart s q" if "s \<in> set subs" "q \<in> set qs" for s q
    using subs(2,3) that ok b by (fastforce simp: ranges_ok_def apart_def)
  have sorted: "sorted_wrt apart (subs @ qs)" using subs(1) ok dis by (simp add: sorted_wrt_append ranges_ok_def)
  show ?thesis
  proof (cases "x < left")
    case True
    have "low x b" using low_moved_above [OF o(3) mv] True o by simp
    moreover have "x < ASORT_THRESHOLD \<or> (0, x) \<in> set qs" using ok True o by (auto simp: ranges_ok_def)
    moreover have "\<forall>q \<in> set subs. 0 \<le> fst q \<and> fst q \<le> snd q \<and> snd q < int (length a) \<and> x < fst q"
      using subs(2,3) True o b by auto
    ultimately have "ranges_ok x b (subs @ qs)" using ok sorted o len by (auto simp: ranges_ok_def)
    then show ?thesis ..
  next
    case False
    then have lr: "left = 0" "right = x" using o(7) by auto
    let ?y = "max r 0"
    have low: "low ?y b" using o mv part b by (intro low_parted) (auto simp: lr)
    have above: "x < fst q" if "q \<in> set qs" for q using ok that lr by (fastforce simp: ranges_ok_def apart_def)
    have "\<forall>q \<in> set subs. 0 \<le> fst q \<and> fst q \<le> snd q \<and> snd q < int (length a) \<and> (?y < fst q \<or> q = (0, ?y))"
    proof
      fix q assume q: "q \<in> set subs"
      then consider "q = (0, r)" "0 \<le> r" | "q = (l, right)" using subs(2,3) lr by fastforce
      then show "0 \<le> fst q \<and> fst q \<le> snd q \<and> snd q < int (length a) \<and> (?y < fst q \<or> q = (0, ?y))"
        using q subs(3) o b lr by cases (auto simp: max_def)
    qed
    moreover have "\<forall>q \<in> set qs. 0 \<le> fst q \<and> fst q \<le> snd q \<and> snd q < int (length a) \<and> ?y < fst q"
      using above ok b lr o by (fastforce simp: ranges_ok_def)
    moreover have "?y < ASORT_THRESHOLD \<or> (0, ?y) \<in> set (subs @ qs)"
      using subs(4) lr by (auto simp: max_def ASORT_THRESHOLD_def)
    ultimately have "ranges_ok ?y b (subs @ qs)" using low sorted o b lr len by (auto simp: ranges_ok_def)
    then show ?thesis ..
  qed
qed

lemma qsort_loop_ok:
  assumes "ranges_ok x a ((left, right) # qs)" "depth_ok ((left, right) # qs)" "length a \<le> 2 ^ 30"
  shows "\<exists>b y. qsort_loop lt left right qs a = Some b \<and> mset b = mset a \<and> ranges_ok y b []"
  using assms
proof (induction "weight ((left, right) # qs)" arbitrary: x a left right qs rule: less_induct)
  case less
  have o: "0 \<le> left" "left \<le> right" "right < int (length a)" using less.prems(1) by (auto simp: ranges_ok_def)
  then have "left + right < 2 ^ 31" using less.prems(3) by simp
  with o obtain l r b p where sp: "split_range lt left right a = Some (l, r, b)" and mv: "moved_in left right a b"
    and lr: "r < l" "left < l" "l \<le> right + 1" "left - 1 \<le> r" "r < right" and part: "parted left right p l r b"
    by (rule split_range_ok)
  have mb: "mset b = mset a" "length b = length a" using mv by (simp_all add: moved_in_def)
  note step = ranges_split [OF less.prems(1) mv part lr]
  note depth = depth_sub [OF less.prems(2)]
  have run: "\<exists>c y. qsort_loop lt u v qs' b = Some c \<and> mset c = mset a \<and> ranges_ok y c []"
    if "ranges_ok y b ((u, v) # qs')" "depth_ok ((u, v) # qs')" "weight ((u, v) # qs') < weight ((left, right) # qs)"
    for y u v qs'
    using less.hyps [OF that(3) that(1) that(2)] less.prems(3) mb by auto
  let ?L = "ASORT_THRESHOLD \<le> r - left" and ?R = "ASORT_THRESHOLD \<le> right - l"
  have th: "?L \<Longrightarrow> left \<le> r" "?R \<Longrightarrow> l \<le> right" by (simp_all add: ASORT_THRESHOLD_def)
  have stack: "length qs < STACK_SIZE" using depth_bound [OF less.prems(2)] o by simp
  show ?case
  proof (cases ?L; cases ?R)
    assume c: ?L ?R
    show ?thesis
    proof (cases "r - left > right - l")
      case True
      obtain y where "ranges_ok y b ([(l, right), (left, r)] @ qs)"
        using step [of "[(l, right), (left, r)]"] c th lr by (auto simp: apart_def)
      moreover have "depth_ok ((l, right) # (left, r) # qs)" using True lr by (intro depth(2)) auto
      ultimately have "\<exists>d z. qsort_loop lt l right ((left, r) # qs) b = Some d \<and> mset d = mset a \<and> ranges_ok z d []"
        using c th lr by (intro run) auto
      then show ?thesis using sp c True stack by (subst qsort_loop.simps) (simp add: push_def)
    next
      case False
      obtain y where "ranges_ok y b ([(left, r), (l, right)] @ qs)"
        using step [of "[(left, r), (l, right)]"] c th lr by (auto simp: apart_def)
      moreover have "depth_ok ((left, r) # (l, right) # qs)" using False lr by (intro depth(2)) auto
      ultimately have "\<exists>d z. qsort_loop lt left r ((l, right) # qs) b = Some d \<and> mset d = mset a \<and> ranges_ok z d []"
        using c th lr by (intro run) auto
      then show ?thesis using sp c False stack by (subst qsort_loop.simps) (simp add: push_def)
    qed
  next
    assume c: ?L "\<not> ?R"
    obtain y where "ranges_ok y b ([(left, r)] @ qs)" using step [of "[(left, r)]"] c th by auto
    moreover have "depth_ok ((left, r) # qs)" using lr by (intro depth(1)) auto
    ultimately have "\<exists>d z. qsort_loop lt left r qs b = Some d \<and> mset d = mset a \<and> ranges_ok z d []"
      using c th lr by (intro run) auto
    then show ?thesis using sp c by (subst qsort_loop.simps) simp
  next
    assume c: "\<not> ?L" ?R
    obtain y where "ranges_ok y b ([(l, right)] @ qs)" using step [of "[(l, right)]"] c th by auto
    moreover have "depth_ok ((l, right) # qs)" using lr by (intro depth(1)) auto
    ultimately have "\<exists>d z. qsort_loop lt l right qs b = Some d \<and> mset d = mset a \<and> ranges_ok z d []"
      using c th lr by (intro run) auto
    then show ?thesis using sp c by (subst qsort_loop.simps) simp
  next
    assume c: "\<not> ?L" "\<not> ?R"
    obtain y where y: "ranges_ok y b qs" using step [of "[]"] c by auto
    show ?thesis
    proof (cases qs)
      case Nil
      then show ?thesis using sp c y mb by (subst qsort_loop.simps) auto
    next
      case (Cons q qs')
      obtain u v where q: "q = (u, v)" by fastforce
      have "\<exists>d z. qsort_loop lt u v qs' b = Some d \<and> mset d = mset a \<and> ranges_ok z d []"
        using y less.prems(2) o by (intro run) (auto simp: Cons q)
      then show ?thesis using sp c by (subst qsort_loop.simps) (simp add: Cons q)
    qed
  qed
qed

end

section \<open>The insertion sort\<close>

lemma shift_loop_ok:
  assumes "l \<le> m" "m < length a"
  shows "shift_loop (int l) (int m) a = Some (take l a @ a ! m # take (m - l) (drop l a) @ drop (Suc m) a)"
  using assms
proof (induction "m - l" arbitrary: l a)
  case 0
  then show ?case by (subst shift_loop.simps) (simp add: id_take_nth_drop [symmetric])
next
  case (Suc k)
  let ?b = "a[l := a ! m, m := a ! l]"
  have lm: "l < m" using Suc by simp
  have "shift_loop (int l) (int m) a = shift_loop (int (Suc l)) (int m) ?b"
    using lm Suc.prems by (subst shift_loop.simps) (simp add: swap_Some add.commute)
  also have "\<dots> = Some (take (Suc l) ?b @ ?b ! m # take (m - Suc l) (drop (Suc l) ?b) @ drop (Suc m) ?b)"
    using Suc lm by (intro Suc.hyps(1)) auto
  also have "take (Suc l) ?b = take l a @ [a ! m]"
    using lm Suc.prems by (subst take_Suc_conv_app_nth) auto
  also have "?b ! m = a ! l" using Suc.prems by simp
  also have "take (m - Suc l) (drop (Suc l) ?b) = take (m - Suc l) (drop (Suc l) a)"
    using lm by (intro nth_equalityI) auto
  also have "drop (Suc m) ?b = drop (Suc m) a" using lm by simp
  also have "(take l a @ [a ! m]) @ a ! l # take (m - Suc l) (drop (Suc l) a) @ drop (Suc m) a =
      take l a @ a ! m # take (m - l) (drop l a) @ drop (Suc m) a"
    using lm Suc.prems by (simp add: Cons_nth_drop_Suc [symmetric, of l a] take_Cons' )
  finally show ?case .
qed

context strict_weak
begin

abbreviation "le x y \<equiv> \<not> lt y x"

lemma le_trans: "le x y \<Longrightarrow> le y z \<Longrightarrow> le x z"
  using split by blast

lemma le_refl: "le x x"
  using asym by blast

lemma insert_pos_ok:
  assumes "1 \<le> l" "l \<le> m" "m < length a" "le (a ! 0) (a ! m)"
  shows "\<exists>k. insert_pos lt a (int m) (int l) = Some (int k) \<and> 1 \<le> k \<and> k \<le> l \<and> le (a ! (k - 1)) (a ! m) \<and>
    (\<forall>i. k \<le> i \<and> i < l \<longrightarrow> le (a ! m) (a ! i))"
  using assms
proof (induction l)
  case (Suc l)
  have step: "insert_pos lt a (int m) (int (Suc l)) =
      (if lt (a ! m) (a ! l) then insert_pos lt a (int m) (int l) else Some (int (Suc l)))"
    using Suc.prems by (subst insert_pos.simps) simp
  show ?case
  proof (cases "lt (a ! m) (a ! l)")
    case True
    then have "1 \<le> l" using Suc.prems by (cases l) auto
    then obtain k where k: "insert_pos lt a (int m) (int l) = Some (int k)" "1 \<le> k" "k \<le> l" "le (a ! (k - 1)) (a ! m)"
      "\<forall>i. k \<le> i \<and> i < l \<longrightarrow> le (a ! m) (a ! i)"
      using Suc by auto
    have "\<forall>i. k \<le> i \<and> i < Suc l \<longrightarrow> le (a ! m) (a ! i)" using k(5) asym [OF True] by (auto simp: less_Suc_eq)
    then show ?thesis using step True k by auto
  next
    case False
    then show ?thesis using step Suc.prems by (intro exI [of _ "Suc l"]) auto
  qed
qed simp

lemma insert_step:
  assumes m: "1 \<le> m" "m < length a" and srt: "sorted_wrt le (take m a)" and min: "\<forall>x \<in> set a. le (a ! 0) x"
  shows "\<exists>k b. insert_pos lt a (int m) (int m) = Some k \<and> shift_loop k (int m) a = Some b \<and> mset b = mset a \<and>
    sorted_wrt le (take (Suc m) b) \<and> (\<forall>x \<in> set b. le (b ! 0) x)"
proof -
  have "le (a ! 0) (a ! m)" using min m by simp
  then obtain k where k: "insert_pos lt a (int m) (int m) = Some (int k)" "1 \<le> k" "k \<le> m" "le (a ! (k - 1)) (a ! m)"
    "\<forall>i. k \<le> i \<and> i < m \<longrightarrow> le (a ! m) (a ! i)"
    using insert_pos_ok [of m m a] m by auto
  let ?b = "take k a @ a ! m # take (m - k) (drop k a) @ drop (Suc m) a"
  have tk: "take m a = take k a @ take (m - k) (drop k a)" using k(3) by (metis le_add_diff_inverse take_add)
  have a: "a = take m a @ a ! m # drop (Suc m) a" using m(2) by (rule id_take_nth_drop)
  have "mset ?b = mset (take m a @ a ! m # drop (Suc m) a)" unfolding tk by simp
  then have ms: "mset ?b = mset a" using a by simp
  have tb: "take (Suc m) ?b = take k a @ a ! m # take (m - k) (drop k a)" using k(3) m by (simp add: Suc_diff_le)
  have "le (a ! i) (a ! m)" if i: "i < k" for i
  proof (cases "i = k - 1")
    case False
    then have "le (take m a ! i) (take m a ! (k - 1))" using i k(3) m by (intro sorted_wrt_nth_less [OF srt]) auto
    then show ?thesis using i k(3,4) le_trans [where x = "a ! i" and y = "a ! (k - 1)"] by simp
  qed (use k(4) in simp)
  then have lo: "\<forall>x \<in> set (take k a). le x (a ! m)" by (auto simp: set_conv_nth)
  have "le (a ! m) (a ! (k + i))" if "i < m - k" for i using k(3,5) that by simp
  then have hi: "\<forall>x \<in> set (take (m - k) (drop k a)). le (a ! m) x" using m by (auto simp: set_conv_nth)
  have "sorted_wrt le (take (Suc m) ?b)"
    unfolding tb using srt lo hi unfolding tk by (auto simp: sorted_wrt_append intro: le_trans)
  moreover have "\<forall>x \<in> set ?b. le (?b ! 0) x"
  proof -
    have "?b ! 0 = a ! 0" using k(2,3) m by (cases a) (auto simp: nth_append)
    moreover have "set ?b = set a" using ms by (rule mset_eq_setD)
    ultimately show ?thesis using min by simp
  qed
  moreover have "shift_loop (int k) (int m) a = Some ?b" using k(3) m(2) by (rule shift_loop_ok)
  ultimately show ?thesis using k(1) ms by blast
qed

lemma insert_loop_ok:
  assumes "1 \<le> m" "m \<le> length a" "sorted_wrt le (take m a)" "\<forall>x \<in> set a. le (a ! 0) x"
  shows "\<exists>b. insert_loop lt (int m) (int (length a)) a = Some b \<and> mset b = mset a \<and> sorted_wrt le b"
  using assms
proof (induction "length a - m" arbitrary: m a)
  case 0
  then show ?case by (subst insert_loop.simps) simp
next
  case (Suc n)
  have ml: "m < length a" using Suc.hyps(2) by simp
  obtain k b where b: "insert_pos lt a (int m) (int m) = Some k" "shift_loop k (int m) a = Some b" "mset b = mset a"
    "sorted_wrt le (take (Suc m) b)" "\<forall>x \<in> set b. le (b ! 0) x"
    using insert_step [OF Suc.prems(1) ml Suc.prems(3,4)] by blast
  have len: "length b = length a" using b(3) by (rule mset_eq_length)
  have "\<exists>c. insert_loop lt (int (Suc m)) (int (length b)) b = Some c \<and> mset c = mset b \<and> sorted_wrt le c"
    using Suc b len by (intro Suc.hyps(1)) auto
  then show ?case using b Suc len by (subst insert_loop.simps) (auto simp: add.commute)
qed

lemma find_min_ok:
  assumes "l \<le> r" "r \<le> length a" "m < l" "\<forall>i < l. le (a ! m) (a ! i)"
  shows "\<exists>k. find_min lt a (int l) (int r) (int m) = Some (int k) \<and> k < r \<and> (\<forall>i < r. le (a ! k) (a ! i))"
  using assms
proof (induction "r - l" arbitrary: l m)
  case 0
  then show ?case by (subst find_min.simps) auto
next
  case (Suc n)
  let ?m = "if lt (a ! l) (a ! m) then l else m"
  have "le (a ! ?m) (a ! i)" if "i < Suc l" for i
  proof (cases "lt (a ! l) (a ! m)")
    case True
    then show ?thesis using that Suc.prems(4) le_trans [OF asym [OF True], of "a ! i"] le_refl by (auto simp: less_Suc_eq)
  next
    case False
    then show ?thesis using that Suc.prems(4) by (auto simp: less_Suc_eq)
  qed
  then have "\<exists>k. find_min lt a (int (Suc l)) (int r) (int ?m) = Some (int k) \<and> k < r \<and> (\<forall>i < r. le (a ! k) (a ! i))"
    using Suc by (intro Suc.hyps(1)) auto
  moreover have "find_min lt a (int l) (int r) (int m) = find_min lt a (int (Suc l)) (int r) (int ?m)"
    using Suc by (subst find_min.simps) (auto simp: add.commute)
  ultimately show ?case by simp
qed

lemma barrier_ok:
  assumes "ranges_ok y a []" "2 \<le> length a"
  shows "\<exists>m b. find_min lt a 1 (min (int (length a)) ASORT_THRESHOLD) 0 = Some m \<and> asort_swap 0 m a = Some b \<and>
    mset b = mset a \<and> (\<forall>x \<in> set b. le (b ! 0) x)"
proof -
  let ?r = "min (length a) 8"
  obtain k where k: "find_min lt a (int 1) (int ?r) (int 0) = Some (int k)" "k < ?r" "\<forall>i < ?r. le (a ! k) (a ! i)"
    using find_min_ok [of 1 ?r a 0] assms(2) le_refl by auto
  let ?b = "a[0 := a ! k, k := a ! 0]"
  have y: "0 \<le> y" "y < 8" "low y a" using assms(1) by (auto simp: ranges_ok_def ASORT_THRESHOLD_def)
  have "le (a ! k) (a ! i)" if i: "i < length a" for i
  proof (cases "int i \<le> y")
    case True
    then show ?thesis using k(3) y i by simp
  next
    case False
    then have "le (a ! nat 0) (a ! nat (int i))" using y i unfolding low_def by (metis int_nat_eq less_le_not_le linorder_not_less of_nat_less_iff order_refl)
    moreover have "le (a ! k) (a ! 0)" using k(2,3) by fastforce
    ultimately show ?thesis using le_trans [of "a ! 0" "a ! k"] by simp
  qed
  then have min: "\<forall>x \<in> set a. le (a ! k) x" by (auto simp: set_conv_nth)
  have ms: "mset ?b = mset a" using k(2) assms(2) by (intro mset_swap) auto
  have "?b ! 0 = a ! k" using k(2) by (cases k; cases a) auto
  moreover have "set ?b = set a" using ms by (rule mset_eq_setD)
  ultimately have "\<forall>x \<in> set ?b. le (?b ! 0) x" using min by simp
  moreover have "asort_swap 0 (int k) a = Some ?b" using k(2) swap_Some [of 0 a "int k"] by fastforce
  moreover have "int ?r = min (int (length a)) ASORT_THRESHOLD" by (simp add: ASORT_THRESHOLD_def)
  ultimately show ?thesis using k(1) ms by auto
qed

lemma sort_ok:
  assumes "length a \<le> 2 ^ 30"
  shows "\<exists>b. asort_sort lt a = Some b \<and> mset b = mset a \<and> sorted_wrt le b"
proof (cases "length a \<le> 1")
  case True
  then have "sorted_wrt le a" by (cases a) auto
  then show ?thesis using True by (simp add: asort_sort_def)
next
  case False
  let ?n = "int (length a)"
  have "ranges_ok (?n - 1) a [(0, ?n - 1)]" using False by (auto simp: ranges_ok_def low_def)
  moreover have "depth_ok [(0, ?n - 1)]" using assms by simp
  ultimately obtain b y where b: "qsort_loop lt 0 (?n - 1) [] a = Some b" "mset b = mset a" "ranges_ok y b []"
    using qsort_loop_ok assms by blast
  have lb: "length b = length a" using b(2) by (rule mset_eq_length)
  obtain m c where c: "find_min lt b 1 (min (int (length b)) ASORT_THRESHOLD) 0 = Some m" "asort_swap 0 m b = Some c"
    "mset c = mset b" "\<forall>x \<in> set c. le (c ! 0) x"
    using barrier_ok [OF b(3)] False lb by auto
  have lc: "length c = length b" using c(3) by (rule mset_eq_length)
  have "sorted_wrt le (take 1 c)" by (cases c) auto
  then obtain d where "insert_loop lt (int 1) (int (length c)) c = Some d" "mset d = mset c" "sorted_wrt le d"
    using insert_loop_ok [of 1 c] c(4) lb lc False by auto
  then show ?thesis using False b c lb lc by (auto simp: asort_sort_def Let_def)
qed

end

section \<open>Correctness of the sorter\<close>

interpretation num: strict_weak "(<) :: 'k :: linorder \<Rightarrow> 'k \<Rightarrow> bool"
  by unfold_locales auto

text \<open>
  C17: The generated sorter sorts. For every comparison that is a strict weak order and every
  array of at most \<open>2 ^ 30\<close> elements it returns, without leaving the array, without
  overflowing an index or its fixed stack of 32 ranges, and the result is a rearrangement of
  the input in which no element is less than one before it.
\<close>

theorem asort_sort_correct:
  assumes "strict_weak lt" and "length a \<le> 2 ^ 30"
  shows "\<exists>b. asort_sort lt a = Some b \<and> mset b = mset a \<and> sorted_wrt (\<lambda>x y. \<not> lt y x) b"
  using strict_weak.sort_ok [OF assms] .

theorem asort_sort_correct_witness:
  "\<exists>b. asort_sort (<) [5, 3, 9, 1, 1, 7, 2, 8, 6, 4, 0 :: int] = Some b \<and> sorted b"
  using asort_sort_correct [OF num.strict_weak_axioms, of "[5, 3, 9, 1, 1, 7, 2, 8, 6, 4, 0 :: int]"]
  by (auto simp: not_less)

end
