(* ===== verification/Conf_Units.thy ===== *)
theory Conf_Units
  imports Prelude
begin

text \<open>
  Model of \<^verbatim>\<open>generic/opt/units.c\<close>, the parsers of the configuration system for numbers with
  units and for IP addresses. C strings are lists of characters without the terminating zero.
  A parser gives back its message (\<open>None\<close> is the null pointer) and what it stores through
  its pointer argument, if it stores at all. \<^verbatim>\<open>strtoul\<close> and \<^verbatim>\<open>strtoull\<close> of the C
  library are modelled as the standard describes them, for 64-bit results.
\<close>

section \<open>The C library\<close>

abbreviation (input) "LF \<equiv> CHR 0x0A"
abbreviation (input) "NUL \<equiv> CHR 0x00"

text \<open>The string that starts an array of characters.\<close>

definition cstr :: "string \<Rightarrow> string" where
  "cstr s = takeWhile (\<lambda>c. c \<noteq> NUL) s"

lemma cstr_plain: "NUL \<notin> set s \<Longrightarrow> cstr s = s"
  by (auto simp: cstr_def takeWhile_eq_all_conv)

lemma cstr_append: "NUL \<notin> set s \<Longrightarrow> cstr (s @ NUL # t) = s"
  by (induction s) (auto simp: cstr_def)

lemma cstr_no_nul: "NUL \<notin> set (cstr s)"
  by (auto simp: cstr_def dest: set_takeWhileD)

definition is_space :: "char \<Rightarrow> bool" where
  "is_space c \<longleftrightarrow> of_char c = (32 :: nat) \<or> 9 \<le> (of_char c :: nat) \<and> of_char c \<le> (13 :: nat)"

definition is_digit :: "char \<Rightarrow> bool" where
  "is_digit c \<longleftrightarrow> 48 \<le> (of_char c :: nat) \<and> of_char c \<le> (57 :: nat)"

text \<open>The value of a letter or digit; 36 for other characters.\<close>

definition digit_val :: "char \<Rightarrow> nat" where
  "digit_val c =
     (let n = of_char c in
      if 48 \<le> n \<and> n \<le> 57 then n - 48
      else if 97 \<le> n \<and> n \<le> 122 then n - 87
      else if 65 \<le> n \<and> n \<le> 90 then n - 55
      else 36)"

definition in_base :: "nat \<Rightarrow> char \<Rightarrow> bool" where
  "in_base b c \<longleftrightarrow> digit_val c < b"

definition number :: "nat \<Rightarrow> string \<Rightarrow> nat" where
  "number b s = fold (\<lambda>c v. v * b + digit_val c) s 0"

definition hex_prefix :: "string \<Rightarrow> bool" where
  "hex_prefix s \<longleftrightarrow> (case s of z # x # d # _ \<Rightarrow> z = CHR ''0'' \<and> x \<in> {CHR ''x'', CHR ''X''} \<and> in_base 16 d | _ \<Rightarrow> False)"

text \<open>The base in use and the text after the prefix, for the base argument \<open>b\<close>.\<close>

definition base_of :: "nat \<Rightarrow> string \<Rightarrow> nat \<times> string" where
  "base_of b s =
     (if (b = 0 \<or> b = 16) \<and> hex_prefix s then (16, drop 2 s)
      else if b = 0 then (if s \<noteq> [] \<and> hd s = CHR ''0'' then 8 else 10, s)
      else (b, s))"

text \<open>Value, rest of the string, and whether \<^verbatim>\<open>errno\<close> is \<^verbatim>\<open>ERANGE\<close>.\<close>

definition strtoul :: "nat \<Rightarrow> string \<Rightarrow> nat \<times> string \<times> bool" where
  "strtoul b s =
     (let t = dropWhile is_space s;
          neg = (t \<noteq> [] \<and> hd t = CHR ''-'');
          t = (if t \<noteq> [] \<and> hd t \<in> {CHR ''-'', CHR ''+''} then tl t else t);
          (b, t) = base_of b t;
          ds = takeWhile (in_base b) t;
          v = number b ds
      in if ds = [] then (0, s, False)
         else (if 2 ^ 64 \<le> v then 2 ^ 64 - 1 else if neg then (2 ^ 64 - v) mod 2 ^ 64 else v,
               dropWhile (in_base b) t, 2 ^ 64 \<le> v))"

section \<open>Units\<close>

record unit_entry =
  u_name :: char
  u_num :: nat
  u_den :: nat

definition units :: "unit_entry list" where
  "units =
    [\<lparr>u_name = CHR ''d'', u_num = 86400, u_den = 1\<rparr>, \<lparr>u_name = CHR ''h'', u_num = 3600, u_den = 1\<rparr>,
     \<lparr>u_name = CHR ''k'', u_num = 1000, u_den = 1\<rparr>, \<lparr>u_name = CHR ''m'', u_num = 1000000, u_den = 1\<rparr>,
     \<lparr>u_name = CHR ''g'', u_num = 1000000000, u_den = 1\<rparr>, \<lparr>u_name = CHR ''K'', u_num = 1024, u_den = 1\<rparr>,
     \<lparr>u_name = CHR ''M'', u_num = 1048576, u_den = 1\<rparr>, \<lparr>u_name = CHR ''G'', u_num = 1073741824, u_den = 1\<rparr>,
     \<lparr>u_name = CHR ''%'', u_num = 1, u_den = 100\<rparr>]"

datatype conf_msg =
    Missing_number | Invalid_number | Invalid_unit | Out_of_range | Not_an_integer
  | Missing_IP | Invalid_IP | Trailing_characters

definition lookup_unit :: "string \<Rightarrow> string \<Rightarrow> unit_entry option \<times> conf_msg option" where
  "lookup_unit str rest =
     (case rest of
        [] \<Rightarrow> (None, None)
      | c # tail \<Rightarrow>
          if length rest = length str \<or> tail \<noteq> [] \<or> is_digit c then (None, Some Invalid_number)
          else case find (\<lambda>u. u_name u = c) units of
            Some u \<Rightarrow> (Some u, None)
          | None \<Rightarrow> (None, Some Invalid_unit))"

text \<open>What is stored is an \<^verbatim>\<open>int\<close>: the low 32 bits, read as a signed number.\<close>

definition cf_parse_int :: "string \<Rightarrow> conf_msg option \<times> int option" where
  "cf_parse_int str =
     (if str = [] then (Some Missing_number, None)
      else let (v, rest, erange) = strtoul 0 str; x = v mod 2 ^ 32 in
        if erange then (Some Out_of_range, None)
        else case lookup_unit str rest of
          (Some u, msg) \<Rightarrow>
            let y = x * u_num u mod 2 ^ 64 in
            if y mod u_den u \<noteq> 0 then (Some Not_an_integer, None)
            else let y = y div u_den u in
              (if 2 ^ 32 - 1 < y then Some Out_of_range else msg, Some (sint (of_nat y :: u32)))
        | (None, msg) \<Rightarrow> (msg, Some (sint (of_nat x :: u32))))"

definition cf_parse_u64 :: "string \<Rightarrow> conf_msg option \<times> u64 option" where
  "cf_parse_u64 str =
     (if str = [] then (Some Missing_number, None)
      else let (x, rest, erange) = strtoul 0 str in
        if erange then (Some Out_of_range, None)
        else case lookup_unit str rest of
          (Some u, msg) \<Rightarrow>
            if (2 ^ 64 - 1) div u_num u < x then (Some Out_of_range, None)
            else let x = x * u_num u mod 2 ^ 64 in
              if x mod u_den u \<noteq> 0 then (Some Not_an_integer, None) else (msg, Some (of_nat (x div u_den u)))
        | (None, msg) \<Rightarrow> (msg, Some (of_nat x)))"

section \<open>IP addresses\<close>

text \<open>The loop over the four parts; \<open>None\<close> is the jump to the error label.\<close>

fun ip_parts :: "nat \<Rightarrow> bool \<Rightarrow> string \<Rightarrow> nat \<Rightarrow> (nat \<times> string) option" where
  "ip_parts 0 dot p x = Some (x, p)"
| "ip_parts (Suc i) dot p x =
     (if dot \<and> (p = [] \<or> hd p \<noteq> CHR ''.'') then None
      else let p = (if dot then tl p else p) in
        if p = [] \<or> \<not> is_digit (hd p) then None
        else let (v, p2, erange) = strtoul 10 p; y = v mod 2 ^ 32 in
          if erange \<or> length p2 = length p \<or> 255 < y then None
          else ip_parts i True p2 ((x * 2 ^ 8 mod 2 ^ 32 + y) mod 2 ^ 32))"

definition cf_parse_ip :: "string \<Rightarrow> conf_msg option \<times> u32 option" where
  "cf_parse_ip p =
     (if p = [] then (Some Missing_IP, None)
      else case (if hd p = CHR ''0'' \<and> (length p > 1 \<and> p ! 1 \<in> {CHR ''x'', CHR ''X''}) \<and> (length p > 2 \<and> is_digit (p ! 2))
                 then let (v, p2, erange) = strtoul 16 p in
                   if erange then None else Some (v mod 2 ^ 32, p2)
                 else ip_parts 4 False p 0) of
        None \<Rightarrow> (Some Invalid_IP, None)
      | Some (x, rest) \<Rightarrow> (if rest \<noteq> [] then Some Trailing_characters else None, Some (of_nat x)))"

section \<open>Decimal numbers\<close>

text \<open>The decimal text of a number, the reference for the parsers.\<close>

definition digit_char :: "nat \<Rightarrow> char" where
  "digit_char d = char_of (48 + d)"

fun dec :: "nat \<Rightarrow> string" where
  "dec n = (if n < 10 then [digit_char n] else dec (n div 10) @ [digit_char (n mod 10)])"

declare dec.simps [simp del]

lemma of_digit_char: "d < 10 \<Longrightarrow> of_char (digit_char d) = (48 + d :: nat)"
  by (simp add: digit_char_def)

lemma digit_char_facts:
  assumes "d < 10"
  shows "digit_val (digit_char d) = d" and "is_digit (digit_char d)" and "\<not> is_space (digit_char d)"
  using assms by (simp_all add: digit_val_def is_digit_def is_space_def of_digit_char)

lemma is_digit_facts:
  assumes "is_digit c"
  shows "\<not> is_space c" and "in_base 10 c" and "c \<notin> {CHR ''-'', CHR ''+'', CHR ''x'', CHR ''X'', CHR ''.''}"
  using assms by (auto simp: is_digit_def is_space_def in_base_def digit_val_def Let_def)

lemma number_snoc: "number b (s @ [c]) = number b s * b + digit_val c"
  by (simp add: number_def)

lemma dec_digits: "list_all is_digit (dec n) \<and> dec n \<noteq> [] \<and> number 10 (dec n) = n"
proof (induction n rule: dec.induct)
  case (1 n)
  show ?case
  proof (cases "n < 10")
    case True
    then show ?thesis by (subst (1 2 3) dec.simps) (simp add: digit_char_facts number_def)
  next
    case False
    then show ?thesis using 1 by (subst (1 2 3) dec.simps) (simp add: digit_char_facts number_snoc)
  qed
qed

lemma dec_hd: "hd (dec n) = CHR ''0'' \<longleftrightarrow> n = 0"
proof (induction n rule: dec.induct)
  case (1 n)
  show ?case
  proof (cases "n < 10")
    case True
    have "digit_char n = CHR ''0'' \<longleftrightarrow> of_char (digit_char n) = (48 :: nat)"
      using of_char_eq_iff [of "digit_char n" "CHR ''0''", where 'a = nat] by simp
    then show ?thesis using True by (simp add: dec.simps [of n] of_digit_char)
  next
    case False
    then show ?thesis using 1 dec_digits [of "n div 10"] by (simp add: dec.simps [of n] hd_append)
  qed
qed

lemma dec_0: "dec 0 = ''0''"
  using dec_hd [of 0] by (simp add: dec.simps [of 0])

lemma dec_start:
  "dropWhile is_space (dec n @ t) = dec n @ t" "hd (dec n @ t) \<notin> {CHR ''-'', CHR ''+''}" "dec n @ t \<noteq> []"
  using dec_digits [of n] is_digit_facts [of "hd (dec n)"] by (cases "dec n"; simp)+

lemma digits_span:
  assumes "list_all (in_base b) s" and "t = [] \<or> \<not> in_base b (hd t)"
  shows "takeWhile (in_base b) (s @ t) = s" and "dropWhile (in_base b) (s @ t) = t"
  using assms by (cases t; induction s; simp)+

lemma strtoul_10:
  assumes "n < 2 ^ 64" and "t = [] \<or> \<not> in_base 10 (hd t)"
  shows "strtoul 10 (dec n @ t) = (n, t, False)"
proof -
  have ib: "list_all (in_base 10) (dec n)" using dec_digits [of n] is_digit_facts(2) by (auto simp: list_all_iff)
  note sp = digits_span [OF ib assms(2)]
  show ?thesis
    using dec_start [of n t] dec_digits [of n] assms(1) by (simp add: strtoul_def base_of_def sp Let_def)
qed

lemma strtoul_0_gen:
  assumes t: "t = [] \<or> length t = 1 \<and> \<not> in_base 10 (hd t)"
  shows "strtoul 0 (dec n @ t) = (if n < 2 ^ 64 then n else 2 ^ 64 - 1, t, 2 ^ 64 \<le> n)"
proof (cases "n = 0")
  case True
  have t8: "t = [] \<or> \<not> in_base 8 (hd t)" using t by (auto simp: in_base_def)
  have "list_all (in_base 8) ''0''" by (simp add: in_base_def digit_val_def)
  note sp = digits_span [OF this t8]
  have "\<not> hex_prefix (''0'' @ t)" using t by (auto simp: hex_prefix_def split: list.splits)
  then show ?thesis
    using sp dec_start [of 0 t]
    by (simp add: True dec_0 strtoul_def base_of_def Let_def number_def digit_val_def is_space_def)
next
  case False
  have ib: "list_all (in_base 10) (dec n)" using dec_digits [of n] is_digit_facts(2) by (auto simp: list_all_iff)
  have "t = [] \<or> \<not> in_base 10 (hd t)" using t by blast
  note sp = digits_span [OF ib this]
  have hd: "hd (dec n @ t) \<noteq> CHR ''0''" using False dec_hd [of n] dec_digits [of n] by (simp add: hd_append)
  then have "\<not> hex_prefix (dec n @ t)" by (auto simp: hex_prefix_def split: list.splits)
  then have "base_of 0 (dec n @ t) = (10, dec n @ t)" using hd by (simp add: base_of_def)
  then show ?thesis
    using dec_start [of n t] dec_digits [of n] by (simp add: strtoul_def sp Let_def)
qed

section \<open>Correctness of the number parsers\<close>

lemma find_unit:
  assumes "u \<in> set units"
  shows "find (\<lambda>v. u_name v = u_name u) units = Some u" and "\<not> is_digit (u_name u)" and "\<not> in_base 10 (u_name u)"
    and "0 < u_num u" and "u_num u < 2 ^ 31" and "0 < u_den u"
  using assms unfolding units_def set_simps insert_iff empty_iff
  by (elim disjE; simp add: is_digit_def in_base_def digit_val_def)+

lemma lookup_after_dec:
  "lookup_unit (dec n) [] = (None, None)"
  "u \<in> set units \<Longrightarrow> lookup_unit (dec n @ [u_name u]) [u_name u] = (Some u, None)"
  using find_unit [of u] dec_digits [of n] by (simp_all add: lookup_unit_def)

lemma word_of_mod: "of_nat (n mod 2 ^ 32) = (of_nat n :: u32)"
  by (simp add: word_of_nat_eq_iff take_bit_eq_mod)

lemma strtoul_unit:
  assumes "u \<in> set units"
  shows "strtoul 0 (dec n @ [u_name u]) = (if n < 2 ^ 64 then n else 2 ^ 64 - 1, [u_name u], 2 ^ 64 \<le> n)"
  using find_unit(3) [OF assms] by (intro strtoul_0_gen) simp

lemma cf_parse_plain:
  "cf_parse_int (dec n) = (if n < 2 ^ 64 then (None, Some (sint (of_nat n :: u32))) else (Some Out_of_range, None))"
  "cf_parse_u64 (dec n) = (if n < 2 ^ 64 then (None, Some (of_nat n)) else (Some Out_of_range, None))"
  using dec_digits [of n] strtoul_0_gen [of "[]" n] word_of_mod [of n]
  by (simp_all add: cf_parse_int_def cf_parse_u64_def lookup_after_dec)

lemma cf_parse_int_unit:
  assumes "u \<in> set units"
  shows "cf_parse_int (dec n @ [u_name u]) =
    (if 2 ^ 64 \<le> n then (Some Out_of_range, None)
     else if \<not> u_den u dvd n mod 2 ^ 32 * u_num u then (Some Not_an_integer, None)
     else (if n mod 2 ^ 32 * u_num u div u_den u < 2 ^ 32 then None else Some Out_of_range,
           Some (sint (of_nat (n mod 2 ^ 32 * u_num u div u_den u) :: u32))))"
proof (cases "n < 2 ^ 64")
  case True
  then have v: "strtoul 0 (dec n @ [u_name u]) = (n, [u_name u], False)" using strtoul_unit [OF assms, of n] by simp
  have "n mod 2 ^ 32 * u_num u < 2 ^ 32 * 2 ^ 31" using find_unit(4,5) [OF assms] by (intro mult_strict_mono) auto
  then have y: "n mod 2 ^ 32 * u_num u mod 2 ^ 64 = n mod 2 ^ 32 * u_num u" by simp
  have "2 ^ 32 - 1 < m \<longleftrightarrow> \<not> m < 2 ^ 32" for m :: nat by auto
  with True show ?thesis
    by (simp only: cf_parse_int_def v lookup_after_dec(2) [OF assms] Let_def prod.case option.case y dvd_eq_mod_eq_0
        if_False if_True simp_thms append_is_Nil_conv list.simps not_le [symmetric] if_not_P cong: if_cong) simp
next
  case False
  then show ?thesis using strtoul_unit [OF assms, of n] by (simp add: cf_parse_int_def)
qed

lemma cf_parse_u64_unit:
  assumes "u \<in> set units"
  shows "cf_parse_u64 (dec n @ [u_name u]) =
    (if 2 ^ 64 \<le> n * u_num u then (Some Out_of_range, None)
     else if \<not> u_den u dvd n * u_num u then (Some Not_an_integer, None)
     else (None, Some (of_nat (n * u_num u div u_den u))))"
proof (cases "n < 2 ^ 64")
  case True
  then have v: "strtoul 0 (dec n @ [u_name u]) = (n, [u_name u], False)" using strtoul_unit [OF assms, of n] by simp
  have "(2 ^ 64 - 1) div u_num u < n \<longleftrightarrow> 2 ^ 64 \<le> n * u_num u"
    using find_unit(4) [OF assms] div_less_iff_less_mult [of "u_num u" "2 ^ 64 - 1" n] by auto
  note fits = this [simplified]
  show ?thesis
    by (simp add: cf_parse_u64_def v lookup_after_dec(2) [OF assms] fits dvd_eq_mod_eq_0 Let_def)
next
  case False
  have "n \<le> n * u_num u" using find_unit(4) [OF assms] by simp
  then have "2 ^ 64 \<le> n * u_num u" using False by linarith
  then show ?thesis using False strtoul_unit [OF assms, of n] by (simp add: cf_parse_u64_def)
qed

text \<open>
  C30: The number parsers on every decimal number \<open>n\<close>, alone and followed by a unit.
  \<^verbatim>\<open>cf_parse_u64\<close> gives the number, or its product with the unit, if that is an integer (the
  percent sign divides by a hundred) and fits in 64 bits, and otherwise says why not.
  \<^verbatim>\<open>cf_parse_int\<close> reports a number that does not fit in 64 bits, but a smaller number is first cut to
  its low 32 bits with no message; the unit is applied to what is left, a product that
  is not an integer or does not fit in 32 bits is reported, and the 32 bits stored are
  a signed number, negative from \<open>2 ^ 31\<close> on.
\<close>

theorem cf_parse_decimal_correct:
  assumes "u \<in> set units"
  shows "cf_parse_int (dec n) = (if n < 2 ^ 64 then (None, Some (sint (of_nat n :: u32))) else (Some Out_of_range, None)) \<and>
    cf_parse_int (dec n @ [u_name u]) =
      (if 2 ^ 64 \<le> n then (Some Out_of_range, None)
       else if \<not> u_den u dvd n mod 2 ^ 32 * u_num u then (Some Not_an_integer, None)
       else (if n mod 2 ^ 32 * u_num u div u_den u < 2 ^ 32 then None else Some Out_of_range,
             Some (sint (of_nat (n mod 2 ^ 32 * u_num u div u_den u) :: u32)))) \<and>
    cf_parse_u64 (dec n) = (if n < 2 ^ 64 then (None, Some (of_nat n)) else (Some Out_of_range, None)) \<and>
    cf_parse_u64 (dec n @ [u_name u]) =
      (if 2 ^ 64 \<le> n * u_num u then (Some Out_of_range, None)
       else if \<not> u_den u dvd n * u_num u then (Some Not_an_integer, None)
       else (None, Some (of_nat (n * u_num u div u_den u))))"
  by (intro conjI cf_parse_plain cf_parse_int_unit [OF assms] cf_parse_u64_unit [OF assms])

theorem cf_parse_decimal_correct_witness:
  "cf_parse_int (dec 3 @ ''G'') = (None, Some (- 1073741824)) \<and> cf_parse_int (dec 250 @ ''%'') = (Some Not_an_integer, None) \<and>
   cf_parse_int (dec 4294967301) = (None, Some 5) \<and> cf_parse_int (dec 18446744073709551616) = (Some Out_of_range, None)"
proof -
  let ?G = "\<lparr>u_name = CHR ''G'', u_num = 1073741824, u_den = 1\<rparr>" and ?p = "\<lparr>u_name = CHR ''%'', u_num = 1, u_den = 100\<rparr>"
  have "?G \<in> set units" "?p \<in> set units" by (simp_all add: units_def)
  from cf_parse_decimal_correct [OF this(1), of 3] cf_parse_decimal_correct [OF this(2), of 250]
    cf_parse_decimal_correct [OF this(1), of 4294967301] cf_parse_decimal_correct [OF this(1), of 18446744073709551616]
  show ?thesis by simp
qed

section \<open>Correctness of the address parser\<close>

definition print_ip :: "u32 \<Rightarrow> string" where
  "print_ip x =
     dec (unat x div 2 ^ 24) @ ''.'' @ dec (unat x div 2 ^ 16 mod 2 ^ 8) @ ''.'' @
     dec (unat x div 2 ^ 8 mod 2 ^ 8) @ ''.'' @ dec (unat x mod 2 ^ 8)"

lemma ip_parts_step:
  assumes v: "v < 2 ^ 8" and t: "t = [] \<or> hd t = CHR ''.''"
  shows "ip_parts (Suc i) dot ((if dot then ''.'' else []) @ dec v @ t) x =
    ip_parts i True t ((x * 2 ^ 8 mod 2 ^ 32 + v) mod 2 ^ 32)"
proof -
  have "t = [] \<or> \<not> in_base 10 (hd t)" using t by (auto simp: in_base_def digit_val_def)
  then have st: "strtoul 10 (dec v @ t) = (v, t, False)" using v by (intro strtoul_10) auto
  have "dec v \<noteq> []" "is_digit (hd (dec v @ t))" using dec_digits [of v] by (cases "dec v"; simp)+
  moreover have "v mod 2 ^ 32 = v" "v \<le> 255" using v by simp_all
  ultimately show ?thesis using st by (cases dot) simp_all
qed

lemma ip_parts_four:
  assumes b: "a < 2 ^ 8" "b < 2 ^ 8" "c < 2 ^ 8" "d < 2 ^ 8"
  shows "ip_parts 4 False (dec a @ ''.'' @ dec b @ ''.'' @ dec c @ ''.'' @ dec d) 0 =
    Some (((a * 2 ^ 8 + b) * 2 ^ 8 + c) * 2 ^ 8 + d, [])"
proof -
  have four: "(4 :: nat) = Suc (Suc (Suc (Suc 0)))" by simp
  have m: "(0 * 2 ^ 8 mod 2 ^ 32 + a) mod 2 ^ 32 = a" "(a * 2 ^ 8 mod 2 ^ 32 + b) mod 2 ^ 32 = a * 2 ^ 8 + b"
    "((a * 2 ^ 8 + b) * 2 ^ 8 mod 2 ^ 32 + c) mod 2 ^ 32 = (a * 2 ^ 8 + b) * 2 ^ 8 + c"
    "(((a * 2 ^ 8 + b) * 2 ^ 8 + c) * 2 ^ 8 mod 2 ^ 32 + d) mod 2 ^ 32 = ((a * 2 ^ 8 + b) * 2 ^ 8 + c) * 2 ^ 8 + d"
    using b by simp_all
  note step = ip_parts_step [OF b(1), of _ "Suc (Suc (Suc 0))" False 0, unfolded m if_False append_Nil]
    ip_parts_step [OF b(2), of _ "Suc (Suc 0)" True a, unfolded m if_True]
    ip_parts_step [OF b(3), of _ "Suc 0" True "a * 2 ^ 8 + b", unfolded m if_True]
    ip_parts_step [OF b(4), of "[]" 0 True "(a * 2 ^ 8 + b) * 2 ^ 8 + c", unfolded m if_True append_Nil2]
  show ?thesis unfolding four by (subst step(1), simp, subst step(2), simp, subst step(3), simp, subst step(4)) simp_all
qed

lemma bytes_of_nat:
  fixes n :: nat
  assumes "n < 2 ^ 32"
  shows "n div 2 ^ 24 < 2 ^ 8"
    and "(((n div 2 ^ 24 * 2 ^ 8 + n div 2 ^ 16 mod 2 ^ 8) * 2 ^ 8 + n div 2 ^ 8 mod 2 ^ 8) * 2 ^ 8 + n mod 2 ^ 8) = n"
proof -
  have 1: "n div 2 ^ 24 * 2 ^ 8 + n div 2 ^ 16 mod 2 ^ 8 = n div 2 ^ 16"
    using div_mult_mod_eq [of "n div 2 ^ 16" "2 ^ 8"] by (simp add: div_mult2_eq [symmetric])
  have 2: "n div 2 ^ 16 * 2 ^ 8 + n div 2 ^ 8 mod 2 ^ 8 = n div 2 ^ 8"
    using div_mult_mod_eq [of "n div 2 ^ 8" "2 ^ 8"] by (simp add: div_mult2_eq [symmetric])
  show "n div 2 ^ 24 < 2 ^ 8" using assms by (simp add: less_mult_imp_div_less)
  show "(((n div 2 ^ 24 * 2 ^ 8 + n div 2 ^ 16 mod 2 ^ 8) * 2 ^ 8 + n div 2 ^ 8 mod 2 ^ 8) * 2 ^ 8 + n mod 2 ^ 8) = n"
    unfolding 1 2 by (rule div_mult_mod_eq)
qed

text \<open>
  C31: Every IPv4 address, printed in dotted decimal notation, is parsed back without a message.
\<close>

theorem cf_parse_ip_roundtrip: "cf_parse_ip (print_ip x) = (None, Some x)"
proof -
  let ?n = "unat x"
  have n: "?n < 2 ^ 32" by (rule order_less_le_trans [OF unsigned_less]) simp
  note b = bytes_of_nat [OF n]
  have parts: "ip_parts 4 False (print_ip x) 0 = Some (?n, [])"
    unfolding print_ip_def by (subst ip_parts_four) (use b in simp_all)
  have "\<forall>c \<in> set (print_ip x). is_digit c \<or> c = CHR ''.''"
    using dec_digits unfolding print_ip_def by (auto simp: list_all_iff)
  moreover have "print_ip x ! 1 \<in> set (print_ip x)" if "length (print_ip x) > 1" using that by (rule nth_mem)
  ultimately have "\<not> (length (print_ip x) > 1 \<and> print_ip x ! 1 \<in> {CHR ''x'', CHR ''X''})"
    using is_digit_facts(3) by fastforce
  moreover have "print_ip x \<noteq> []" by (simp add: print_ip_def)
  ultimately show ?thesis by (auto simp: cf_parse_ip_def parts simp del: One_nat_def)
qed

text \<open>In hexadecimal notation, addresses of more than 32 bits are cut off, and those that do
  not start with a decimal digit are refused.\<close>

lemma cf_parse_ip_hex:
  "cf_parse_ip ''0x100000001'' = (None, Some 1)" "cf_parse_ip ''0xff000001'' = (Some Invalid_IP, None)"
proof -
  note defs = strtoul_def base_of_def hex_prefix_def in_base_def digit_val_def number_def is_digit_def is_space_def
  show "cf_parse_ip ''0x100000001'' = (None, Some 1)" by (simp add: cf_parse_ip_def defs)
  have "ip_parts (Suc (Suc (Suc (Suc 0)))) False ''0xff000001'' 0 = None" by (simp add: defs)
  moreover have "(4 :: nat) = Suc (Suc (Suc (Suc 0)))" by simp
  ultimately have "ip_parts 4 False ''0xff000001'' 0 = None" by metis
  then show "cf_parse_ip ''0xff000001'' = (Some Invalid_IP, None)" by (simp add: cf_parse_ip_def defs)
qed

end
