(* ===== verification/Unesc.thy ===== *)
theory Unesc
  imports Conf_Units
begin

text \<open>
  Model of \<^verbatim>\<open>generic/string/unesc.c\<close>, the escape sequences of quoted words, and of the
  hexadecimal coding of \<^verbatim>\<open>mem/stack.h\<close>. A C string is the list of its characters without the
  final zero.
\<close>

section \<open>Escape sequences\<close>

abbreviation (input) "BSLASH \<equiv> CHR 0x5C"
abbreviation (input) "DQUOTE \<equiv> CHR 0x22"

text \<open>The sequences that stand for one character.\<close>

definition simple_escape :: "char \<Rightarrow> char option" where
  "simple_escape e =
     (if e = CHR ''a'' then Some (CHR 0x07) else if e = CHR ''b'' then Some (CHR 0x08)
      else if e = CHR ''f'' then Some (CHR 0x0C) else if e = CHR ''n'' then Some (CHR 0x0A)
      else if e = CHR ''r'' then Some (CHR 0x0D) else if e = CHR ''t'' then Some (CHR 0x09)
      else if e = CHR ''v'' then Some (CHR 0x0B)
      else if e \<in> {CHR ''?'', CHR 0x27, DQUOTE, BSLASH} then Some e
      else None)"

definition is_octal :: "char \<Rightarrow> bool" where
  "is_octal c \<longleftrightarrow> 48 \<le> (of_char c :: nat) \<and> of_char c \<le> (55 :: nat)"

text \<open>Up to two more octal digits; the value and the rest.\<close>

fun octal_tail :: "nat \<Rightarrow> nat \<Rightarrow> string \<Rightarrow> nat \<times> string" where
  "octal_tail 0 v s = (v, s)"
| "octal_tail (Suc i) v [] = (v, [])"
| "octal_tail (Suc i) v (c # s) =
     (if is_octal c then octal_tail i (v * 8 + (of_char c - 48)) s else (v, c # s))"

text \<open>A value out of range gives nothing; the value of \<^verbatim>\<open>strtoul\<close> is cut to 32 bits first.\<close>

definition put_code :: "nat \<Rightarrow> string" where
  "put_code v = (if v \<le> 255 then [char_of v] else [])"

text \<open>One step: the characters that are stored, and the rest of the string.\<close>

definition unesc_step :: "char \<Rightarrow> string \<Rightarrow> string \<times> string" where
  "unesc_step c s =
     (if c \<noteq> BSLASH then ([c], s)
      else case s of
        [] \<Rightarrow> ([c], s)
      | e # t \<Rightarrow>
          (case simple_escape e of
             Some x \<Rightarrow> ([x], t)
           | None \<Rightarrow>
               if e = CHR ''x'' then
                 (if t = [] \<or> \<not> is_digit (hd t) then ([], s)
                  else let (v, p, erange) = strtoul 16 t in (put_code (v mod 2 ^ 32), p))
               else if is_octal e then
                 (let (v, r) = octal_tail 2 (of_char e - 48) t in (put_code v, r))
               else ([c], s)))"

lemma octal_tail_length: "length (snd (octal_tail i v s)) \<le> length s"
  by (induction i v s rule: octal_tail.induct) auto

lemma base_of_length: "length (snd (base_of b s)) \<le> length s"
  by (simp add: base_of_def)

lemma strtoul_length: "length (fst (snd (strtoul b s))) \<le> length s"
proof -
  define t1 where "t1 = dropWhile is_space s"
  define t2 where "t2 = (if t1 \<noteq> [] \<and> hd t1 \<in> {CHR ''-'', CHR ''+''} then tl t1 else t1)"
  define t3 where "t3 = snd (base_of b t2)"
  have "length t1 \<le> length s" unfolding t1_def by (rule length_dropWhile_le)
  moreover have "length t2 \<le> length t1" by (simp add: t2_def)
  moreover have "length t3 \<le> length t2" unfolding t3_def by (rule base_of_length)
  moreover have "length (dropWhile (in_base k) t3) \<le> length t3" for k by (rule length_dropWhile_le)
  ultimately have "length (dropWhile (in_base k) t3) \<le> length s" for k by (meson le_trans)
  moreover have "fst (snd (strtoul b s)) = s \<or> (\<exists>k. fst (snd (strtoul b s)) = dropWhile (in_base k) t3)"
    unfolding strtoul_def t1_def [symmetric] Let_def t2_def [symmetric] t3_def by (auto split: prod.splits)
  ultimately show ?thesis by auto
qed

lemma unesc_step_length: "length (fst (unesc_step c s)) \<le> 1 \<and> length (snd (unesc_step c s)) \<le> length s"
proof (cases "c = BSLASH \<and> s \<noteq> [] \<and> simple_escape (hd s) = None \<and> (hd s = CHR ''x'' \<or> is_octal (hd s))")
  case False
  then show ?thesis by (cases s) (auto simp: unesc_step_def split: option.splits)
next
  case True
  then obtain e t where s: "s = e # t" by (cases s) auto
  show ?thesis
    using True s strtoul_length [of 16 t] octal_tail_length [of 2 "of_char e - 48" t]
    by (auto simp: unesc_step_def put_code_def Let_def split: prod.splits)
qed

function str_unesc :: "string \<Rightarrow> string" where
  "str_unesc [] = []"
| "str_unesc (c # s) = (case unesc_step c s of (d, r) \<Rightarrow> d @ str_unesc r)"
  by pat_completeness auto
termination
  by (relation "measure length") (simp_all, metis less_Suc_eq_le snd_conv unesc_step_length)

text \<open>\<^verbatim>\<open>stk_strunesc\<close>: the buffer that is allocated for the result, and the result with its zero.\<close>

definition stk_strunesc :: "string \<Rightarrow> string option" where
  "stk_strunesc s = (if length (str_unesc s) + 1 \<le> length s + 1 then Some (str_unesc s) else None)"

declare str_unesc.simps [simp del]

lemmas str_unesc_simps = str_unesc.simps(1) str_unesc.simps(2)

lemma str_unesc_length: "length (str_unesc s) \<le> length s"
proof (induction s rule: str_unesc.induct)
  case (2 c s)
  obtain d r where step: "unesc_step c s = (d, r)" by force
  then have "length d \<le> 1" "length r \<le> length s" using unesc_step_length [of c s] by auto
  then show ?case using 2 [OF step [symmetric]] step by (simp add: str_unesc.simps)
qed (simp add: str_unesc.simps)

section \<open>Writing escape sequences\<close>

text \<open>How a word is to be written between double quotes.\<close>

definition esc_char :: "char \<Rightarrow> string" where
  "esc_char c =
     (if c = BSLASH then [BSLASH, BSLASH] else if c = DQUOTE then [BSLASH, DQUOTE]
      else if c = LF then [BSLASH, CHR ''n''] else [c])"

definition str_esc :: "string \<Rightarrow> string" where
  "str_esc s = concat (map esc_char s)"

lemma str_unesc_esc_char: "str_unesc (esc_char c @ t) = c # str_unesc t"
  by (simp add: esc_char_def str_unesc.simps unesc_step_def simple_escape_def)

lemma str_unesc_esc: "str_unesc (str_esc s @ t) = s @ str_unesc t"
  by (induction s) (simp_all add: str_esc_def str_unesc_esc_char)

text \<open>
  C26: Unescaping undoes escaping, for strings of any characters, and the result of
  unescaping is never longer than its argument, so that the buffer that \<^verbatim>\<open>stk_strunesc\<close>
  allocates on the stack is always long enough.
\<close>

theorem str_unesc_roundtrip:
  "str_unesc (str_esc s @ t) = s @ str_unesc t \<and> stk_strunesc u = Some (str_unesc u)"
  using str_unesc_esc [of s t] str_unesc_length [of u] by (simp add: stk_strunesc_def)

text \<open>Every byte has an octal sequence of three digits.\<close>

lemma of_char_octal [simp]: "n < 8 \<Longrightarrow> of_char (char_of (48 + n)) = 48 + n" for n :: nat
  by simp

lemma str_unesc_octal:
  fixes a b c :: nat
  assumes "a < 4" "b < 8" "c < 8"
  shows "str_unesc (BSLASH # char_of (48 + a) # char_of (48 + b) # char_of (48 + c) # t) =
    char_of (64 * a + 8 * b + c) # str_unesc t"
proof -
  have oct: "is_octal (char_of (48 + n))" if "n < 8" for n :: nat using that by (simp add: is_octal_def)
  have "48 + a \<in> {48, 49, 50, 51}" using assms(1) by auto
  then have simple: "simple_escape (char_of (48 + a)) = None" "char_of (48 + a) \<noteq> CHR ''x''"
    by (auto simp: simple_escape_def char_of_eq_iff)
  have v: "64 * a + 8 * b + c \<le> 255" using assms by simp
  have "octal_tail 2 (of_char (char_of (48 + a)) - 48) (char_of (48 + b) # char_of (48 + c) # t) = (64 * a + 8 * b + c, t)"
    using assms oct by (simp add: numeral_2_eq_2)
  then show ?thesis
    using v simple oct [of a] assms by (simp add: str_unesc.simps unesc_step_def put_code_def)
qed

section \<open>Hexadecimal coding\<close>

definition hex_make :: "u32 \<Rightarrow> u32" where
  "hex_make x = (if x < 10 then x + 48 else x - 10 + 97)"

definition c_toupper :: "u32 \<Rightarrow> u32" where
  "c_toupper c = (if 97 \<le> c \<and> c \<le> 122 then c - 32 else c)"

definition hex_parse :: "u32 \<Rightarrow> u32" where
  "hex_parse c = (let c = c_toupper c - 48 in if c < 10 then c else c - 7)"

definition stk_hex_enc :: "byte list \<Rightarrow> byte list" where
  "stk_hex_enc src = concat (map (\<lambda>b. [ucast (hex_make (ucast (drop_bit 4 b))), ucast (hex_make (ucast (b AND 0x0f)))]) src)"

text \<open>The loop of the decoder, with the room that is left in the destination.\<close>

fun hex_dec_loop :: "nat \<Rightarrow> byte list \<Rightarrow> nat \<Rightarrow> byte list option" where
  "hex_dec_loop room src 0 = Some []"
| "hex_dec_loop room (a # b # src) (Suc n) =
     (if room = 0 then None
      else map_option (Cons (ucast (push_bit 4 (hex_parse (ucast a)) OR hex_parse (ucast b)))) (hex_dec_loop (room - 1) src n))"
| "hex_dec_loop room src (Suc n) = None"

definition stk_hex_dec :: "byte list \<Rightarrow> nat \<Rightarrow> byte list option" where
  "stk_hex_dec src n = hex_dec_loop (n div 2) src n"

lemma nibble_cases:
  assumes "x < (16 :: u32)"
  shows "x \<in> {0, 1, 2, 3, 4, 5, 6, 7, 8, 9, 10, 11, 12, 13, 14, 15}"
proof -
  have "unat x < 16" using assms by (simp add: word_less_nat_alt)
  then have "unat x \<in> {0, 1, 2, 3, 4, 5, 6, 7, 8, 9, 10, 11, 12, 13, 14, 15}" by (auto simp: numeral_eq_Suc less_Suc_eq)
  then show ?thesis by (auto simp: word_unat_eq_iff)
qed

lemma hex_parse_make: "x < 16 \<Longrightarrow> hex_parse (ucast (ucast (hex_make x) :: byte)) = x"
  using nibble_cases [of x] by (auto simp: hex_parse_def hex_make_def c_toupper_def Let_def)

lemma nibbles_join: "ucast (push_bit 4 (ucast (drop_bit 4 b)) OR ucast (b AND 0x0f) :: u32) = (b :: byte)"
  by (rule byte_eqI) (simp_all add: bit_simps)

lemma unat_ucast_byte: "unat (ucast b :: u32) = unat (b :: byte)"
  by (simp add: unsigned_ucast_eq take_bit_nat_eq_self_iff less_trans [OF unat_byte_less])

lemma hex_dec_loop_enc: "hex_dec_loop (length xs) (stk_hex_enc xs) (length xs) = Some xs"
proof (induction xs)
  case (Cons b xs)
  have hi: "(ucast (drop_bit 4 b) :: u32) < 16"
    by (simp add: word_less_nat_alt unat_ucast_byte unat_drop_bit_nat less_mult_imp_div_less)
  have lo: "(ucast (b AND 0x0f) :: u32) < 16"
    using word_and_mask_mod [of b 4] by (simp add: word_less_nat_alt unat_ucast_byte)
  show ?case
    using Cons nibbles_join [of b] by (simp add: stk_hex_enc_def hex_parse_make [OF hi] hex_parse_make [OF lo])
qed (simp add: stk_hex_enc_def)

lemma hex_dec_loop_overrun: "room < n \<Longrightarrow> hex_dec_loop room src n = None"
  by (induction room src n rule: hex_dec_loop.induct) auto

text \<open>
  The hexadecimal decoder is given the number of digits and allocates half as many bytes, but
  it stores a byte in every round of a loop over all digits: with any digit at all it writes behind
  its buffer. With as many rounds as there are bytes the same loop inverts the encoder.
\<close>

theorem stk_hex_dec_overruns:
  "stk_hex_dec src (Suc n) = None \<and> hex_dec_loop (length xs) (stk_hex_enc xs) (length xs) = Some xs"
  by (simp add: stk_hex_dec_def hex_dec_loop_overrun hex_dec_loop_enc)

end
