(* ===== verification/Conf_Lex.thy ===== *)
theory Conf_Lex
  imports Unesc
begin

text \<open>
  Model of the text file parser of \<^verbatim>\<open>generic/opt/input.c\<close>: lines, words, tokens and commands. The
  stream is the text that is still to be read; \<open>get_line\<close> is \<^verbatim>\<open>bgets_nodie\<close> on it, as the
  theories of the buffered streams describe it. The current line is what is left of it as a C
  string. The words are collected in one buffer, \<open>copy_buf\<close>, each with a final zero, and
  \<open>word_buf\<close> holds where they start.
\<close>

section \<open>Lines\<close>

definition MAX_LINE :: nat where
  "MAX_LINE = 4096"

record cf_parser =
  parse_fb :: string
  line_num :: nat
  line :: string
  word_buf :: "nat list"
  ends_by_brace :: bool
  copy_buf :: string

datatype lex_msg =
    Line_too_long | Unterminated_apostrophe | Unterminated_quoted | Assignment_without_variable
  | Last_line_backslash | Unexpected_brace

text \<open>Whether there is a line, and the message.\<close>

definition get_line :: "cf_parser \<Rightarrow> bool \<times> lex_msg option \<times> cf_parser" where
  "get_line p =
     (let text = takeWhile (\<lambda>c. c \<noteq> LF) (parse_fb p);
          p = p\<lparr>line_num := line_num p + 1\<rparr>
      in if parse_fb p = [] then (False, None, p)
         else if MAX_LINE \<le> length text then (False, Some Line_too_long, p\<lparr>parse_fb := drop MAX_LINE (parse_fb p)\<rparr>)
         else (True, None, p\<lparr>parse_fb := drop (length text + 1) (parse_fb p), line := dropWhile is_space (cstr text)\<rparr>))"

lemma get_line_shrinks: "get_line p = (True, m, q) \<Longrightarrow> length (parse_fb q) < length (parse_fb p)"
  by (auto simp: get_line_def Let_def split: if_splits)

lemma get_line_keeps:
  "get_line p = (b, m, q) \<Longrightarrow> word_buf q = word_buf p \<and> copy_buf q = copy_buf p \<and> ends_by_brace q = ends_by_brace p"
  by (auto simp: get_line_def Let_def split: if_splits)

section \<open>Words\<close>

definition append_word :: "cf_parser \<Rightarrow> string \<Rightarrow> cf_parser" where
  "append_word p s = p\<lparr>copy_buf := copy_buf p @ s @ [NUL]\<rparr>"

lemma append_word_simps [simp]:
  "parse_fb (append_word p s) = parse_fb p" "line (append_word p s) = line p" "line_num (append_word p s) = line_num p"
  "word_buf (append_word p s) = word_buf p" "ends_by_brace (append_word p s) = ends_by_brace p"
  "copy_buf (append_word p s) = copy_buf p @ s @ [NUL]"
  by (simp_all add: append_word_def)

text \<open>A word in apostrophes, after the first one; a line end in it is part of the word.\<close>

function apos_word :: "cf_parser \<Rightarrow> string \<Rightarrow> lex_msg option \<times> cf_parser" where
  "apos_word p l =
     (let part = takeWhile (\<lambda>c. c \<noteq> CHR 0x27) l; rest = dropWhile (\<lambda>c. c \<noteq> CHR 0x27) l;
          p = append_word p part
      in if rest \<noteq> [] then (None, p\<lparr>line := tl rest\<rparr>)
         else let p = p\<lparr>copy_buf := butlast (copy_buf p) @ [LF]\<rparr> in
           case get_line p of
             (True, _, p) \<Rightarrow> apos_word p (line p)
           | (False, m, p) \<Rightarrow> (Some (case m of Some e \<Rightarrow> e | None \<Rightarrow> Unterminated_apostrophe), p))"
  by auto
termination
  by (relation "measure (\<lambda>(p, l). length (parse_fb p))") (auto dest!: get_line_shrinks [OF sym])

text \<open>The part up to a double quote that is not escaped, the rest, and whether the last character escapes.\<close>

fun dq_scan :: "bool \<Rightarrow> string \<Rightarrow> string \<times> string \<times> bool" where
  "dq_scan esc [] = ([], [], esc)"
| "dq_scan esc (c # l) =
     (if c = DQUOTE \<and> \<not> esc then ([], c # l, esc)
      else case dq_scan (c = BSLASH \<and> \<not> esc) l of (part, rest, e) \<Rightarrow> (c # part, rest, e))"

function quoted_text :: "cf_parser \<Rightarrow> string \<Rightarrow> lex_msg option \<times> cf_parser" where
  "quoted_text p l =
     (let (part, rest, esc) = dq_scan False l; p = append_word p part in
      if rest \<noteq> [] then (None, p\<lparr>line := tl rest\<rparr>)
      else let p = p\<lparr>copy_buf := (if esc then butlast (butlast (copy_buf p)) else butlast (copy_buf p) @ [LF])\<rparr> in
        case get_line p of
          (True, _, p) \<Rightarrow> quoted_text p (line p)
        | (False, m, p) \<Rightarrow> (Some (case m of Some e \<Rightarrow> e | None \<Rightarrow> Unterminated_quoted), p))"
  by auto
termination
  by (relation "measure (\<lambda>(p, l). length (parse_fb p))") (auto dest!: get_line_shrinks [OF sym])

declare apos_word.simps [simp del] quoted_text.simps [simp del]

definition quoted_word :: "cf_parser \<Rightarrow> string \<Rightarrow> lex_msg option \<times> cf_parser" where
  "quoted_word p l =
     (let start_copy = length (copy_buf p) in
      case quoted_text p l of
        (Some e, p) \<Rightarrow> (Some e, p)
      | (None, p) \<Rightarrow>
          let tmp = str_unesc (cstr (drop start_copy (copy_buf p))) in
          (None, p\<lparr>copy_buf := take start_copy (copy_buf p) @ cstr tmp @ [NUL]\<rparr>))"

definition word_char :: "bool \<Rightarrow> char \<Rightarrow> bool" where
  "word_char cmd c \<longleftrightarrow> \<not> is_space c \<and> c \<notin> {CHR ''{'', CHR ''}'', CHR '';''} \<and> \<not> (c = CHR ''='' \<and> cmd)"

definition bare_word :: "cf_parser \<Rightarrow> bool \<Rightarrow> lex_msg option \<times> cf_parser" where
  "bare_word p cmd =
     (let l = line p; word = takeWhile (word_char cmd) l; rest = dropWhile (word_char cmd) l in
      if rest \<noteq> [] \<and> hd rest = CHR ''='' \<and> word = [] then (Some Assignment_without_variable, p)
      else let rest = (if rest \<noteq> [] \<and> hd rest = CHR ''='' then CHR '' '' # tl rest else rest) in
        if word = [] then (None, append_word p (take 1 l)\<lparr>line := drop 1 l\<rparr>)
        else (None, append_word p word\<lparr>line := rest\<rparr>))"

definition get_word :: "cf_parser \<Rightarrow> bool \<Rightarrow> lex_msg option \<times> cf_parser" where
  "get_word p cmd =
     (case (if line p \<noteq> [] \<and> hd (line p) = CHR 0x27 then apos_word p (tl (line p))
            else if line p \<noteq> [] \<and> hd (line p) = DQUOTE then quoted_word p (tl (line p))
            else bare_word p cmd) of
        (Some e, p) \<Rightarrow> (Some e, p)
      | (None, p) \<Rightarrow> (None, p\<lparr>line := dropWhile is_space (line p)\<rparr>))"

text \<open>
  Every word consumes text: either lines are read, or the line gets shorter.
\<close>

definition consumed :: "cf_parser \<Rightarrow> cf_parser \<Rightarrow> bool" where
  "consumed p q \<longleftrightarrow> length (parse_fb q) < length (parse_fb p) \<or>
     parse_fb q = parse_fb p \<and> length (line q) < length (line p)"

lemma consumed_trans: "consumed p q \<Longrightarrow> consumed q r \<Longrightarrow> consumed p r"
  by (auto simp: consumed_def)

lemma consumed_dropWhile: "consumed p q \<Longrightarrow> consumed p (q\<lparr>line := dropWhile f (line q)\<rparr>)"
  using length_dropWhile_le [of f "line q"] by (auto simp: consumed_def)

lemma get_line_consumed: "get_line p = (True, m, q) \<Longrightarrow> consumed p q"
  using get_line_shrinks by (simp add: consumed_def)

lemma apos_word_end:
  "\<forall>c \<in> set part. c \<noteq> CHR 0x27 \<Longrightarrow>
   apos_word p (part @ CHR 0x27 # rest) = (None, append_word p part\<lparr>line := rest\<rparr>)"
  by (subst apos_word.simps) (simp add: takeWhile_append dropWhile_append)

lemma apos_word_more:
  "CHR 0x27 \<notin> set l \<Longrightarrow>
   apos_word p l =
     (case get_line (p\<lparr>copy_buf := copy_buf p @ l @ [LF]\<rparr>) of
        (True, _, p) \<Rightarrow> apos_word p (line p)
      | (False, m, p) \<Rightarrow> (Some (case m of Some e \<Rightarrow> e | None \<Rightarrow> Unterminated_apostrophe), p))"
proof -
  assume l: "CHR 0x27 \<notin> set l"
  then have tw: "takeWhile (\<lambda>c. c \<noteq> CHR 0x27) l = l" "dropWhile (\<lambda>c. c \<noteq> CHR 0x27) l = []" by (auto simp: takeWhile_eq_all_conv)
  show ?thesis by (subst apos_word.simps) (simp only: tw Let_def append_word_def butlast_append, simp add: butlast_append)
qed

lemma quoted_text_end:
  "dq_scan False l = (part, c # rest, esc) \<Longrightarrow> quoted_text p l = (None, append_word p part\<lparr>line := rest\<rparr>)"
  by (subst quoted_text.simps) simp

lemma dq_scan_all: "dq_scan e l = (part, [], esc) \<Longrightarrow> part = l \<and> (esc \<longrightarrow> l = [] \<and> e \<or> l \<noteq> [] \<and> last l = BSLASH)"
  by (induction e l arbitrary: part rule: dq_scan.induct) (auto split: if_splits prod.splits)

lemma dq_scan_append: "dq_scan e l = (part, rest, esc) \<Longrightarrow> part @ rest = l"
  by (induction e l arbitrary: part rule: dq_scan.induct) (auto split: if_splits prod.splits)

lemma quoted_text_more:
  "dq_scan False l = (part, [], esc) \<Longrightarrow>
   quoted_text p l =
     (case get_line (p\<lparr>copy_buf := copy_buf p @ (if esc then butlast l else l @ [LF])\<rparr>) of
        (True, _, p) \<Rightarrow> quoted_text p (line p)
      | (False, m, p) \<Rightarrow> (Some (case m of Some e \<Rightarrow> e | None \<Rightarrow> Unterminated_quoted), p))"
  using dq_scan_all [of False l part esc]
  by (subst quoted_text.simps) (cases esc; simp add: Let_def append_word_def butlast_append)

text \<open>Both loops either end in the line or go on with the next one.\<close>

lemma word_loop_consumed:
  assumes loop: "\<And>p l. (\<exists>part rest. length rest < length l \<and> f p l = (None, append_word p part\<lparr>line := rest\<rparr>)) \<or>
      (\<exists>b e. f p l = (case get_line (p\<lparr>copy_buf := b\<rparr>) of
        (True, _, p) \<Rightarrow> f p (line p) | (False, m, p) \<Rightarrow> (Some (case m of Some e \<Rightarrow> e | None \<Rightarrow> e), p)))"
    and res: "f p l = (None, q)"
  shows "length (parse_fb q) < length (parse_fb p) \<or> parse_fb q = parse_fb p \<and> length (line q) < length l"
  using res
proof (induction "length (parse_fb p)" arbitrary: p l rule: less_induct)
  case less
  show ?case
  proof (cases "\<exists>part rest. length rest < length l \<and> f p l = (None, append_word p part\<lparr>line := rest\<rparr>)")
    case True
    then show ?thesis using less(2) by auto
  next
    case False
    then obtain b e where go: "f p l = (case get_line (p\<lparr>copy_buf := b\<rparr>) of
        (True, _, p) \<Rightarrow> f p (line p) | (False, m, p) \<Rightarrow> (Some (case m of Some e \<Rightarrow> e | None \<Rightarrow> e), p))"
      using loop [of l p] by blast
    obtain g m p2 where g: "get_line (p\<lparr>copy_buf := b\<rparr>) = (g, m, p2)" by (metis prod_cases3)
    have "g" "f p2 (line p2) = (None, q)" using less(2) go g by (cases g; simp)+
    moreover have "length (parse_fb p2) < length (parse_fb p)" using get_line_shrinks [of "p\<lparr>copy_buf := b\<rparr>" m p2] g \<open>g\<close> by simp
    ultimately show ?thesis using less(1) [of p2 "line p2"] by auto
  qed
qed

lemma apos_word_consumed:
  "apos_word p l = (None, q) \<Longrightarrow> length (parse_fb q) < length (parse_fb p) \<or> parse_fb q = parse_fb p \<and> length (line q) < length l"
proof (rule word_loop_consumed [of apos_word])
  fix p l
  show "(\<exists>part rest. length rest < length l \<and> apos_word p l = (None, append_word p part\<lparr>line := rest\<rparr>)) \<or>
      (\<exists>b e. apos_word p l = (case get_line (p\<lparr>copy_buf := b\<rparr>) of
        (True, _, p) \<Rightarrow> apos_word p (line p) | (False, m, p) \<Rightarrow> (Some (case m of Some e \<Rightarrow> e | None \<Rightarrow> e), p)))"
  proof (cases "CHR 0x27 \<in> set l")
    case True
    then obtain part rest where "l = part @ CHR 0x27 # rest" "CHR 0x27 \<notin> set part" by (meson split_list_first)
    then have "length rest < length l \<and> apos_word p l = (None, append_word p part\<lparr>line := rest\<rparr>)"
      using apos_word_end [of part p rest] by fastforce
    then show ?thesis by blast
  next
    case False
    then show ?thesis by (intro disjI2 exI) (rule apos_word_more)
  qed
qed

lemma quoted_text_consumed:
  "quoted_text p l = (None, q) \<Longrightarrow> length (parse_fb q) < length (parse_fb p) \<or> parse_fb q = parse_fb p \<and> length (line q) < length l"
proof (rule word_loop_consumed [of quoted_text])
  fix p l
  obtain part rest esc where s: "dq_scan False l = (part, rest, esc)" by (metis prod_cases3)
  show "(\<exists>part rest. length rest < length l \<and> quoted_text p l = (None, append_word p part\<lparr>line := rest\<rparr>)) \<or>
      (\<exists>b e. quoted_text p l = (case get_line (p\<lparr>copy_buf := b\<rparr>) of
        (True, _, p) \<Rightarrow> quoted_text p (line p) | (False, m, p) \<Rightarrow> (Some (case m of Some e \<Rightarrow> e | None \<Rightarrow> e), p)))"
  proof (cases rest)
    case (Cons c r)
    then have "length r < length l \<and> quoted_text p l = (None, append_word p part\<lparr>line := r\<rparr>)"
      using quoted_text_end [of l part c r esc p] dq_scan_append [OF s] s by auto
    then show ?thesis by blast
  next
    case Nil
    then show ?thesis using s by (intro disjI2 exI) (rule quoted_text_more, simp)
  qed
qed

lemma get_word_consumed:
  assumes "get_word p cmd = (None, q)" "line p \<noteq> []"
  shows "consumed p q"
proof -
  define r where "r = (if line p \<noteq> [] \<and> hd (line p) = CHR 0x27 then apos_word p (tl (line p))
    else if line p \<noteq> [] \<and> hd (line p) = DQUOTE then quoted_word p (tl (line p)) else bare_word p cmd)"
  obtain q1 where q1: "r = (None, q1)" "q = q1\<lparr>line := dropWhile is_space (line q1)\<rparr>"
    using assms(1) unfolding get_word_def r_def [symmetric] by (cases r; cases "fst r") auto
  have len: "length (tl (line p)) < length (line p)" using assms(2) by simp
  have "r = apos_word p (tl (line p)) \<or> r = quoted_word p (tl (line p)) \<or> r = bare_word p cmd" by (simp add: r_def)
  then consider "r = apos_word p (tl (line p))" | "r = quoted_word p (tl (line p))" | "r = bare_word p cmd" by blast
  then have "consumed p q1"
  proof cases
    case 1
    then show ?thesis using apos_word_consumed [of p "tl (line p)" q1] q1(1) len by (auto simp: consumed_def)
  next
    case 2
    then obtain q0 where "quoted_text p (tl (line p)) = (None, q0)" "parse_fb q1 = parse_fb q0" "line q1 = line q0"
      using q1(1) unfolding quoted_word_def by (auto simp: Let_def split: prod.splits option.splits)
    then show ?thesis using quoted_text_consumed [of p "tl (line p)" q0] len by (auto simp: consumed_def)
  next
    case 3
    have split: "takeWhile (word_char cmd) (line p) @ dropWhile (word_char cmd) (line p) = line p" by simp
    then have "length (dropWhile (word_char cmd) (line p)) < length (line p)" if "takeWhile (word_char cmd) (line p) \<noteq> []"
      using that by (metis length_append length_greater_0_conv less_add_same_cancel2)
    then show ?thesis using 3 q1(1) assms(2) by (auto simp: bare_word_def consumed_def Let_def split: if_splits)
  qed
  then show ?thesis unfolding q1(2) by (rule consumed_dropWhile)
qed

section \<open>Tokens and commands\<close>

text \<open>Where the word starts, if there is one, and the message.\<close>

function get_token :: "cf_parser \<Rightarrow> bool \<Rightarrow> nat option \<times> lex_msg option \<times> cf_parser" where
  "get_token p cmd =
     (if line p = [] \<or> hd (line p) = CHR ''#'' then
        (if \<not> cmd then (None, None, p)
         else case get_line p of (True, _, p) \<Rightarrow> get_token p cmd | (False, m, p) \<Rightarrow> (None, m, p))
      else if hd (line p) = CHR '';'' then
        (case get_word p False of
           (Some e, p) \<Rightarrow> (None, Some e, p)
         | (None, p) \<Rightarrow> if \<not> cmd then (None, None, p) else get_token p cmd)
      else if hd (line p) = BSLASH \<and> tl (line p) = [] then
        (case get_line p of
           (True, _, p) \<Rightarrow> get_token p cmd
         | (False, m, p) \<Rightarrow> (None, Some (case m of Some e \<Rightarrow> e | None \<Rightarrow> Last_line_backslash), p))
      else let start = length (copy_buf p); p = p\<lparr>word_buf := word_buf p @ [start]\<rparr> in
        case get_word p cmd of (Some e, p) \<Rightarrow> (None, Some e, p) | (None, p) \<Rightarrow> (Some start, None, p))"
  by auto
termination
  by (relation "measures [\<lambda>(p, cmd). length (parse_fb p), \<lambda>(p, cmd). length (line p)]")
    (auto dest!: get_line_shrinks [OF sym] get_word_consumed [OF sym] simp: consumed_def)

declare get_token.simps [simp del]

lemma get_token_consumed: "get_token p cmd = (Some start, m, q) \<Longrightarrow> consumed p q"
proof (induction p cmd rule: get_token.induct)
  case (1 p cmd)
  note def = 1(4) [unfolded get_token.simps [of p cmd]]
  consider (line) "line p = [] \<or> hd (line p) = CHR ''#''"
    | (semi) "line p \<noteq> []" "hd (line p) \<noteq> CHR ''#''" "hd (line p) = CHR '';''"
    | (slash) "line p \<noteq> []" "hd (line p) \<noteq> CHR ''#''" "hd (line p) \<noteq> CHR '';''" "hd (line p) = BSLASH \<and> tl (line p) = []"
    | (word) "line p \<noteq> []" "hd (line p) \<noteq> CHR ''#''" "hd (line p) \<noteq> CHR '';''" "\<not> (hd (line p) = BSLASH \<and> tl (line p) = [])"
    by blast
  then show ?case
  proof cases
    case line
    then obtain m1 p1 where "cmd" "get_line p = (True, m1, p1)" "get_token p1 cmd = (Some start, m, q)"
      using def by (auto split: prod.splits bool.splits if_splits)
    then show ?thesis using 1(1) line get_line_consumed consumed_trans by metis
  next
    case semi
    then obtain p1 where "cmd" "get_word p False = (None, p1)" "get_token p1 cmd = (Some start, m, q)"
      using def by (auto split: prod.splits option.splits if_splits)
    then show ?thesis using 1(2) semi get_word_consumed [of p False p1] consumed_trans by metis
  next
    case slash
    then obtain m1 p1 where "get_line p = (True, m1, p1)" "get_token p1 cmd = (Some start, m, q)"
      using def by (auto split: prod.splits bool.splits if_splits)
    then show ?thesis using 1(3) slash get_line_consumed consumed_trans by metis
  next
    case word
    then have "get_word (p\<lparr>word_buf := word_buf p @ [length (copy_buf p)]\<rparr>) cmd = (None, q)"
      using def by (auto simp: Let_def split: prod.splits option.splits if_splits)
    then show ?thesis using get_word_consumed [of "p\<lparr>word_buf := word_buf p @ [length (copy_buf p)]\<rparr>" cmd q] word
      by (simp add: consumed_def)
  qed
qed

function split_words :: "cf_parser \<Rightarrow> lex_msg option \<times> cf_parser" where
  "split_words p =
     (if line p \<noteq> [] \<and> hd (line p) = CHR ''}'' then (None, p)
      else case get_token p False of
        (None, m, p) \<Rightarrow> (m, p)
      | (Some start, _, p) \<Rightarrow>
          if cstr (drop start (copy_buf p)) \<noteq> [] \<and> hd (cstr (drop start (copy_buf p))) = CHR ''{''
          then (None, p\<lparr>word_buf := butlast (word_buf p), ends_by_brace := True\<rparr>)
          else split_words p)"
  by auto
termination
  by (relation "measures [\<lambda>p. length (parse_fb p), \<lambda>p. length (line p)]")
    (auto dest!: get_token_consumed [OF sym] simp: consumed_def)

declare split_words.simps [simp del]

definition split_command :: "cf_parser \<Rightarrow> lex_msg option \<times> cf_parser" where
  "split_command p =
     (let p = p\<lparr>word_buf := [], copy_buf := [], ends_by_brace := False\<rparr> in
      case get_token p True of
        (None, m, p) \<Rightarrow> (m, p)
      | (Some start, _, p) \<Rightarrow>
          if cstr (drop start (copy_buf p)) \<noteq> [] \<and> hd (cstr (drop start (copy_buf p))) = CHR ''{''
          then (Some Unexpected_brace, p)
          else split_words p)"

text \<open>The words of a command.\<close>

definition words_of :: "cf_parser \<Rightarrow> string list" where
  "words_of p = map (\<lambda>i. cstr (drop i (copy_buf p))) (word_buf p)"

end
