(* ===== verification/Conf_Lex_Ops.thy ===== *)
theory Conf_Lex_Ops
  imports Conf_Lex
begin

text \<open>
  Correctness of the text file parser: it always returns, commands that are written with quoted
  words are split into exactly these words, and where quoting does not protect a word.
\<close>

section \<open>The buffer of words\<close>

definition terminated :: "cf_parser \<Rightarrow> bool" where
  "terminated p \<longleftrightarrow> (\<forall>i \<in> set (word_buf p). NUL \<in> set (drop i (copy_buf p)))"

definition with_word :: "string \<Rightarrow> string \<Rightarrow> cf_parser \<Rightarrow> cf_parser" where
  "with_word w l p = p\<lparr>word_buf := word_buf p @ [length (copy_buf p)], copy_buf := copy_buf p @ w @ [NUL], line := l\<rparr>"

lemma with_word_simps [simp]:
  "parse_fb (with_word w l p) = parse_fb p" "line (with_word w l p) = l" "line_num (with_word w l p) = line_num p"
  "ends_by_brace (with_word w l p) = ends_by_brace p"
  by (simp_all add: with_word_def)

lemma cstr_prefix: "NUL \<in> set s \<Longrightarrow> cstr (s @ t) = cstr s"
  by (induction s) (auto simp: cstr_def)

lemma terminated_prefix:
  assumes "terminated p" "i \<in> set (word_buf p)"
  shows "i \<le> length (copy_buf p)"
  using assms by (metis terminated_def drop_all empty_iff empty_set linear)

lemma with_word_ok:
  assumes "terminated p" "NUL \<notin> set w"
  shows "words_of (with_word w l p) = words_of p @ [w]" "terminated (with_word w l p)"
proof -
  have "cstr (drop i (copy_buf p @ w @ [NUL])) = cstr (drop i (copy_buf p))" if "i \<in> set (word_buf p)" for i
    using that assms(1) terminated_prefix [OF assms(1) that] cstr_prefix by (simp add: terminated_def)
  then show "words_of (with_word w l p) = words_of p @ [w]"
    using cstr_append [OF assms(2)] by (simp add: words_of_def with_word_def)
  show "terminated (with_word w l p)"
    using assms(1) terminated_prefix [OF assms(1)] by (auto simp: terminated_def with_word_def)
qed

section \<open>Quoted words\<close>

definition quote :: "string \<Rightarrow> string" where
  "quote w = DQUOTE # str_esc w @ [DQUOTE]"

lemma dq_scan_esc_char: "dq_scan False (esc_char c @ l) = (case dq_scan False l of (part, rest, e) \<Rightarrow> (esc_char c @ part, rest, e))"
  by (simp add: esc_char_def split: prod.splits)

lemma dq_scan_esc: "dq_scan False (str_esc w @ DQUOTE # rest) = (str_esc w, DQUOTE # rest, False)"
  by (induction w) (simp_all add: str_esc_def dq_scan_esc_char)

lemma str_esc_set: "set (str_esc w) \<subseteq> set w \<union> {BSLASH, DQUOTE, CHR ''n''} \<and> LF \<notin> set (str_esc w)"
  by (induction w) (auto simp: str_esc_def esc_char_def split: if_splits)

lemma str_esc_nul: "NUL \<notin> set w \<Longrightarrow> NUL \<notin> set (str_esc w)"
  using str_esc_set [of w] by auto

lemma get_token_quoted:
  assumes "line p = quote w @ rest" "NUL \<notin> set w"
  shows "get_token p False = (Some (length (copy_buf p)), None, with_word w (dropWhile is_space rest) p)"
proof -
  define p1 where "p1 = p\<lparr>word_buf := word_buf p @ [length (copy_buf p)]\<rparr>"
  have line: "line p = DQUOTE # str_esc w @ DQUOTE # rest" using assms(1) by (simp add: quote_def)
  have "quoted_text p1 (str_esc w @ DQUOTE # rest) = (None, append_word p1 (str_esc w)\<lparr>line := rest\<rparr>)"
    using dq_scan_esc by (rule quoted_text_end)
  moreover have "cstr (str_esc w @ [NUL]) = str_esc w" using cstr_append [OF str_esc_nul [OF assms(2)], of "[]"] by simp
  moreover have "str_unesc (str_esc w) = w" using str_unesc_esc [of w "[]"] by (simp add: str_unesc.simps)
  ultimately have "quoted_word p1 (str_esc w @ DQUOTE # rest) =
      (None, p1\<lparr>line := rest, copy_buf := copy_buf p @ w @ [NUL]\<rparr>)"
    using cstr_plain [OF assms(2)] by (simp add: quoted_word_def p1_def Let_def append_word_def)
  then have "get_word p1 False = (None, with_word w (dropWhile is_space rest) p)"
    using line by (simp add: get_word_def p1_def with_word_def)
  then show ?thesis using line by (subst get_token.simps) (simp add: Let_def p1_def)
qed

lemma quote_facts: "quote w @ rest \<noteq> []" "hd (quote w @ rest) = DQUOTE"
  by (simp_all add: quote_def)

text \<open>The words behind the name of a command.\<close>

definition params_text :: "string list \<Rightarrow> string" where
  "params_text ws = concat (map (\<lambda>w. CHR '' '' # quote w) ws)"

definition param_ok :: "string \<Rightarrow> bool" where
  "param_ok w \<longleftrightarrow> NUL \<notin> set w \<and> (w = [] \<or> hd w \<noteq> CHR ''{'')"

lemma params_line: "dropWhile is_space (params_text (w # ws)) = quote w @ params_text ws"
  by (simp add: params_text_def quote_def is_space_def)

lemma split_words_ok:
  assumes "terminated p" "line p = dropWhile is_space (params_text ws)" "\<forall>w \<in> set ws. param_ok w"
  shows "\<exists>q. split_words p = (None, q) \<and> words_of q = words_of p @ ws \<and> line q = [] \<and> parse_fb q = parse_fb p \<and>
    line_num q = line_num p \<and> ends_by_brace q = ends_by_brace p"
  using assms
proof (induction ws arbitrary: p)
  case Nil
  then have "get_token p False = (None, None, p)" by (subst get_token.simps) (simp add: params_text_def)
  then show ?case using Nil by (subst split_words.simps) (simp add: params_text_def)
next
  case (Cons w ws)
  define q where "q = with_word w (dropWhile is_space (params_text ws)) p"
  have line: "line p = quote w @ params_text ws" using Cons(3) by (simp only: params_line)
  have w: "NUL \<notin> set w" "w = [] \<or> hd w \<noteq> CHR ''{''" using Cons(4) by (auto simp: param_ok_def)
  have tok: "get_token p False = (Some (length (copy_buf p)), None, q)" unfolding q_def using line w(1) by (rule get_token_quoted)
  have "cstr (drop (length (copy_buf p)) (copy_buf q)) = w" using cstr_append [OF w(1), of "[]"] by (simp add: q_def with_word_def)
  then have "split_words p = split_words q" using line quote_facts [of w] tok w(2) by (subst split_words.simps) auto
  then show ?case using Cons(1) [of q] Cons(2,4) with_word_ok [OF Cons(2) w(1)] by (auto simp: q_def)
qed

section \<open>Commands\<close>

text \<open>A name that is read as one bare word.\<close>

definition name_ok :: "string \<Rightarrow> bool" where
  "name_ok n \<longleftrightarrow> n \<noteq> [] \<and> list_all (word_char True) n \<and> NUL \<notin> set n \<and>
     hd n \<notin> {CHR 0x27, DQUOTE, CHR ''#'', BSLASH}"

definition command_text :: "string \<Rightarrow> string list \<Rightarrow> string" where
  "command_text n ws = n @ params_text ws @ [LF]"

lemma params_text_set: "LF \<notin> set (params_text ws)" "\<forall>w \<in> set ws. param_ok w \<Longrightarrow> NUL \<notin> set (params_text ws)"
proof -
  show "LF \<notin> set (params_text ws)" using str_esc_set by (induction ws) (auto simp: params_text_def quote_def)
  show "\<forall>w \<in> set ws. param_ok w \<Longrightarrow> NUL \<notin> set (params_text ws)"
    using str_esc_nul by (induction ws) (auto simp: params_text_def quote_def param_ok_def)
qed

lemma name_chars: "name_ok n \<Longrightarrow> c \<in> set n \<Longrightarrow> word_char True c"
  by (simp add: name_ok_def list_all_iff)

lemma bare_word_name:
  assumes "name_ok n" "line p = n @ params_text ws"
  shows "bare_word p True = (None, append_word p n\<lparr>line := params_text ws\<rparr>)"
proof -
  have stop: "params_text ws = [] \<or> \<not> word_char True (hd (params_text ws)) \<and> hd (params_text ws) \<noteq> CHR ''=''"
    by (cases ws) (auto simp: params_text_def word_char_def is_space_def)
  have "takeWhile (word_char True) (line p) = n \<and> dropWhile (word_char True) (line p) = params_text ws"
    using name_chars [OF assms(1)] stop unfolding assms(2)
    by (cases "params_text ws") (auto simp: takeWhile_append dropWhile_append takeWhile_eq_all_conv)
  then show ?thesis using stop assms(1) by (auto simp: bare_word_def Let_def name_ok_def)
qed

lemma get_token_name:
  assumes "name_ok n" "line p = n @ params_text ws"
  shows "get_token p True = (Some (length (copy_buf p)), None, with_word n (dropWhile is_space (params_text ws)) p)"
proof -
  define p1 where "p1 = p\<lparr>word_buf := word_buf p @ [length (copy_buf p)]\<rparr>"
  have n: "n \<noteq> []" "hd n \<notin> {CHR 0x27, DQUOTE, CHR ''#'', BSLASH}" using assms(1) by (auto simp: name_ok_def)
  have "hd n \<noteq> CHR '';''" using name_chars [OF assms(1), of "hd n"] n(1) by (auto simp: word_char_def)
  moreover have "get_word p1 True = (None, with_word n (dropWhile is_space (params_text ws)) p)"
    using bare_word_name [OF assms(1), of p1 ws] n assms(2) by (simp add: get_word_def p1_def with_word_def append_word_def)
  ultimately show ?thesis using n assms(2) by (subst get_token.simps) (simp add: Let_def p1_def)
qed

text \<open>
  C25: Quoting round trip. A line that holds a name and any parameters, each between double quotes
  with its special characters escaped, is split into exactly that name and these parameters, and
  nothing of the next line is read. The parameters may contain blanks, quotes, backslashes, line
  ends and all other characters but a zero; they must not begin with an opening brace. The name is
  a bare word, and the line has at most 4096 characters.
\<close>

theorem split_command_roundtrip:
  assumes "name_ok n" "\<forall>w \<in> set ws. param_ok w" "length (command_text n ws) \<le> MAX_LINE" "line p = []"
  shows "\<exists>q. split_command (p\<lparr>parse_fb := command_text n ws @ rest\<rparr>) = (None, q) \<and> words_of q = n # ws \<and>
    ends_by_brace q = False \<and> parse_fb q = rest \<and> line q = [] \<and> line_num q = line_num p + 1"
proof -
  let ?t = "n @ params_text ws" and ?p = "p\<lparr>parse_fb := command_text n ws @ rest, word_buf := [], copy_buf := [], ends_by_brace := False\<rparr>"
  have n: "n \<noteq> []" "NUL \<notin> set n" using assms(1) by (auto simp: name_ok_def)
  have chars: "\<And>c. c \<in> set n \<Longrightarrow> \<not> is_space c" using name_chars [OF assms(1)] by (simp add: word_char_def)
  have "is_space LF" by (simp add: is_space_def)
  then have lf: "LF \<notin> set ?t" using params_text_set(1) chars by auto
  then have tw: "takeWhile (\<lambda>c. c \<noteq> LF) (command_text n ws @ rest) = ?t"
    by (auto simp: command_text_def takeWhile_append takeWhile_eq_all_conv)
  have line: "dropWhile is_space (cstr ?t) = ?t"
    using cstr_plain [of ?t] n params_text_set(2) [OF assms(2)] chars [of "hd n"] by (cases n) auto
  define p1 where "p1 = ?p\<lparr>line_num := line_num p + 1, parse_fb := rest, line := ?t\<rparr>"
  have "get_line ?p = (True, None, p1)"
    using tw line assms(3) by (simp add: get_line_def Let_def p1_def command_text_def)
  then have "get_token ?p True = get_token p1 True" using assms(4) by (subst get_token.simps) simp
  also have "\<dots> = (Some 0, None, with_word n (dropWhile is_space (params_text ws)) p1)"
    using get_token_name [OF assms(1), of p1 ws] by (simp add: p1_def)
  finally have tok: "get_token ?p True = (Some 0, None, with_word n (dropWhile is_space (params_text ws)) p1)" .
  have t0: "terminated p1" by (simp add: p1_def terminated_def)
  note w = with_word_ok [OF t0 n(2), of "dropWhile is_space (params_text ws)"]
  have "cstr (drop 0 (copy_buf (with_word n (dropWhile is_space (params_text ws)) p1))) = n"
    using cstr_append [OF n(2), of "[]"] by (simp add: with_word_def p1_def)
  moreover have "hd n \<noteq> CHR ''{''" using name_chars [OF assms(1), of "hd n"] n(1) by (auto simp: word_char_def)
  ultimately have "split_command (p\<lparr>parse_fb := command_text n ws @ rest\<rparr>) =
      split_words (with_word n (dropWhile is_space (params_text ws)) p1)"
    using tok by (simp add: split_command_def)
  then show ?thesis
    using split_words_ok [OF w(2) _ assms(2)] w(1) by (auto simp: p1_def words_of_def)
qed

definition new_parser :: "string \<Rightarrow> cf_parser" where
  "new_parser text = \<lparr>parse_fb = text, line_num = 0, line = [], word_buf = [], ends_by_brace = False, copy_buf = []\<rparr>"

theorem split_command_roundtrip_witness:
  "\<exists>q. split_command (new_parser []\<lparr>parse_fb := command_text ''Label'' [''a b'', [DQUOTE]] @ ''x''\<rparr>) = (None, q) \<and>
    words_of q = [''Label'', ''a b'', [DQUOTE]] \<and> parse_fb q = ''x''"
  using split_command_roundtrip [of "''Label''" "[''a b'', [DQUOTE]]" "new_parser []" "''x''"]
  by (auto simp: name_ok_def param_ok_def word_char_def is_space_def new_parser_def command_text_def params_text_def
      quote_def str_esc_def esc_char_def MAX_LINE_def)

text \<open>
  C32: Quoting does not protect a leading brace. A parameter that begins with an opening brace, even
  between quotes, is dropped and taken for the brace that opens a block; the rest of the line is
  left for the next command.
\<close>

theorem split_quoted_brace:
  assumes "terminated p" "line p = quote (CHR ''{'' # w) @ rest" "NUL \<notin> set w"
  shows "\<exists>q. split_words p = (None, q) \<and> ends_by_brace q \<and> words_of q = words_of p \<and> line q = dropWhile is_space rest"
proof -
  let ?w = "CHR ''{'' # w"
  define q where "q = with_word ?w (dropWhile is_space rest) p"
  have nul: "NUL \<notin> set ?w" using assms(3) by simp
  have tok: "get_token p False = (Some (length (copy_buf p)), None, q)" unfolding q_def using assms(2) nul by (rule get_token_quoted)
  have "cstr (drop (length (copy_buf p)) (copy_buf q)) = ?w" using cstr_append [OF nul, of "[]"] by (simp add: q_def with_word_def)
  then have "split_words p = (None, q\<lparr>word_buf := butlast (word_buf q), ends_by_brace := True\<rparr>)"
    using assms(2) quote_facts [of ?w] tok by (subst split_words.simps) auto
  moreover have "words_of (q\<lparr>word_buf := butlast (word_buf q), ends_by_brace := True\<rparr>) = words_of p"
    using with_word_ok(1) [OF assms(1) nul, of "dropWhile is_space rest"] by (simp add: q_def words_of_def with_word_def)
  ultimately show ?thesis by (simp add: q_def)
qed

theorem split_quoted_brace_witness:
  "\<exists>q. split_words (new_parser []\<lparr>line := quote ''{x}''\<rparr>) = (None, q) \<and> ends_by_brace q \<and> words_of q = []"
  using split_quoted_brace [of "new_parser []\<lparr>line := quote ''{x}''\<rparr>" "''x}''" "[]"]
  by (auto simp: new_parser_def terminated_def words_of_def)

end
