(* ===== verification/Sorter_Merge.thy ===== *)
theory Sorter_Merge
  imports Asort
begin

text \<open>
  Model of the merging modules of the external sorter: \<^verbatim>\<open>s-twoway.h\<close> and \<^verbatim>\<open>s-multiway.h\<close> of
  \<^verbatim>\<open>generic/sorter/\<close>, for records without data part and without unification, where
  \<^verbatim>\<open>LESS\<close> is \<^verbatim>\<open><=\<close>. A stream is the list of the records that are still to be read, or that
  have been written; the key that has been read ahead is its head. The comparison of keys is a
  parameter, as it is of the generator.
\<close>

section \<open>Comparison\<close>

text \<open>\<^verbatim>\<open>P(compare)\<close> for keys with a numeric value (\<^verbatim>\<open>SORT_INT\<close>).\<close>

definition int_compare :: "('k \<Rightarrow> nat) \<Rightarrow> 'k \<Rightarrow> 'k \<Rightarrow> int" where
  "int_compare v x y = (if v x < v y then - 1 else if v x > v y then 1 else 0)"

text \<open>What the sorter relies on: the sign of the comparison is that of a total preorder.\<close>

locale key_order =
  fixes compare :: "'k \<Rightarrow> 'k \<Rightarrow> int"
  assumes sign: "compare x y < 0 \<longleftrightarrow> 0 < compare y x"
    and trans: "compare x y \<le> 0 \<Longrightarrow> compare y z \<le> 0 \<Longrightarrow> compare x z \<le> 0"
begin

lemma total_le: "compare x y \<le> 0 \<or> compare y x \<le> 0"
  using sign [of y x] by linarith

lemma refl_le [simp]: "compare x x \<le> 0"
  using total_le [of x x] by simp

end

text \<open>The order that the array sorter takes.\<close>

sublocale key_order \<subseteq> strict: strict_weak "\<lambda>x y. compare x y < 0"
proof
  fix x y z
  show "\<not> compare y x < 0" if "compare x y < 0" using that sign [of x y] by simp
  show "compare x y < 0 \<or> compare y z < 0" if "compare x z < 0"
    using that trans [of z y x] sign [of x z] sign [of x y] sign [of y z] by linarith
qed

interpretation int_order: key_order "int_compare v" for v :: "'k \<Rightarrow> nat"
  by standard (auto simp: int_compare_def split: if_splits)

section \<open>Two-way merge\<close>

record 'k twoway =
  in1 :: "'k list"
  in2 :: "'k list"
  run1 :: bool
  run2 :: bool
  kout :: "'k option"
  fout1 :: "nat option"
  fout2 :: "nat option"
  out0 :: "'k list"
  out1 :: "'k list"
  run_count :: nat

text \<open>A new run goes to the other output; \<open>two\<close> tells whether there is a second one. Runs are counted in 32 bits.\<close>

definition tw_new_run :: "bool \<Rightarrow> 'k twoway \<Rightarrow> 'k twoway" where
  "tw_new_run two s =
     (let f1 = fout2 s; f2 = fout1 s;
          f1 = (case f1 of Some i \<Rightarrow> Some i | None \<Rightarrow> case f2 of None \<Rightarrow> Some 0 | Some _ \<Rightarrow> if two then Some 1 else f2)
      in s\<lparr>fout1 := f1, fout2 := f2, run_count := (run_count s + 1) mod 2 ^ 32\<rparr>)"

text \<open>\<^verbatim>\<open>P(copy_data)\<close> to the current output.\<close>

definition tw_write :: "'k \<Rightarrow> 'k twoway \<Rightarrow> 'k twoway" where
  "tw_write k s = (if fout1 s = Some 1 then s\<lparr>out1 := out1 s @ [k]\<rparr> else s\<lparr>out0 := out0 s @ [k]\<rparr>)"

definition tw_comp :: "('k \<Rightarrow> 'k \<Rightarrow> int) \<Rightarrow> 'k twoway \<Rightarrow> int" where
  "tw_comp compare s =
     (if \<not> run1 s then 1 else if \<not> run2 s then - 1 else compare (hd (in1 s)) (hd (in2 s)))"

text \<open>One round of the loop; there is no key to read where \<open>None\<close> is the result.\<close>

definition tw_step :: "('k \<Rightarrow> 'k \<Rightarrow> int) \<Rightarrow> bool \<Rightarrow> 'k twoway \<Rightarrow> 'k twoway option" where
  "tw_step compare two s =
     (let comp = tw_comp compare s in
      case (if comp \<le> 0 then in1 s else in2 s) of
        [] \<Rightarrow> None
      | k # rest \<Rightarrow>
          let s = (if (case kout s of None \<Rightarrow> True | Some p \<Rightarrow> \<not> compare p k \<le> 0) then tw_new_run two s else s);
              s = tw_write k s;
              run = (rest \<noteq> [] \<and> compare k (hd rest) \<le> 0);
              s = (if comp \<le> 0 then s\<lparr>in1 := rest, run1 := run, kout := Some k\<rparr>
                   else s\<lparr>in2 := rest, run2 := run, kout := Some k\<rparr>)
          in Some (if \<not> run1 s \<and> \<not> run2 s then s\<lparr>run1 := in1 s \<noteq> [], run2 := in2 s \<noteq> []\<rparr> else s))"

lemma tw_step_length:
  "tw_step compare two s = Some t \<Longrightarrow> length (in1 t) + length (in2 t) < length (in1 s) + length (in2 s)"
  by (auto simp: tw_step_def tw_write_def tw_new_run_def Let_def split: list.splits if_splits)

function tw_loop :: "('k \<Rightarrow> 'k \<Rightarrow> int) \<Rightarrow> bool \<Rightarrow> 'k twoway \<Rightarrow> 'k twoway option" where
  "tw_loop compare two s =
     (if in1 s = [] \<and> in2 s = [] then Some s
      else case tw_step compare two s of None \<Rightarrow> None | Some s \<Rightarrow> tw_loop compare two s)"
  by auto
termination
  by (relation "measure (\<lambda>(c, two, s). length (in1 s) + length (in2 s))") (auto dest: tw_step_length)

declare tw_loop.simps [simp del]

text \<open>
  The merge of two buckets into outputs that hold \<open>a\<close> and \<open>b\<close>: the new contents, and by how
  much their numbers of runs grow.
\<close>

definition twoway_merge ::
  "('k \<Rightarrow> 'k \<Rightarrow> int) \<Rightarrow> bool \<Rightarrow> 'k list \<Rightarrow> 'k list \<Rightarrow> 'k list \<Rightarrow> 'k list \<Rightarrow> (('k list \<times> nat) \<times> 'k list \<times> nat) option"
where
  "twoway_merge compare two xs ys a b =
     map_option (\<lambda>s.
       ((out0 s, if fout1 s \<noteq> None then (run_count s + 1) mod 2 ^ 32 div 2 else 0),
        (out1 s, if fout2 s \<noteq> None \<and> fout2 s \<noteq> fout1 s then run_count s div 2 else 0)))
     (tw_loop compare two
       \<lparr>in1 = xs, in2 = ys, run1 = xs \<noteq> [], run2 = ys \<noteq> [], kout = None, fout1 = None, fout2 = None,
        out0 = a, out1 = b, run_count = 0\<rparr>)"

section \<open>Runs\<close>

text \<open>The number of ascending runs of a list.\<close>

fun nruns :: "('k \<Rightarrow> 'k \<Rightarrow> int) \<Rightarrow> 'k list \<Rightarrow> nat" where
  "nruns compare [] = 0"
| "nruns compare [x] = 1"
| "nruns compare (x # y # ys) = (if compare x y \<le> 0 then 0 else 1) + nruns compare (y # ys)"

lemma nruns_pos: "xs \<noteq> [] \<Longrightarrow> 0 < nruns compare xs"
  by (induction xs rule: induct_list012) auto

lemma nruns_Cons:
  "nruns compare (x # xs) = (if xs \<noteq> [] \<and> compare x (hd xs) \<le> 0 then nruns compare xs else Suc (nruns compare xs))"
  by (cases xs) auto

lemma nruns_snoc:
  "nruns compare (xs @ [x]) = (if xs \<noteq> [] \<and> compare (last xs) x \<le> 0 then nruns compare xs else Suc (nruns compare xs))"
  by (induction xs rule: induct_list012) auto

context key_order
begin

lemma nruns_sorted: "nruns compare xs \<le> 1 \<longleftrightarrow> sorted_wrt (\<lambda>x y. compare x y \<le> 0) xs"
proof (induction xs rule: induct_list012)
  case (3 x y ys)
  have "0 < nruns compare (y # ys)" by (rule nruns_pos) simp
  then show ?case using 3 trans [of x y] by (auto split: if_splits)
qed auto

end

section \<open>Correctness of the two-way merge\<close>

text \<open>
  \<open>p\<close> and \<open>q\<close> have been written to the outputs, in \<open>run_count\<close> runs that alternate between
  the outputs.
\<close>

definition tw_outs :: "('k \<Rightarrow> 'k \<Rightarrow> int) \<Rightarrow> 'k list \<Rightarrow> 'k list \<Rightarrow> 'k twoway \<Rightarrow> 'k list \<Rightarrow> 'k list \<Rightarrow> bool" where
  "tw_outs compare a b s p q \<longleftrightarrow> out0 s = a @ p \<and> out1 s = b @ q \<and>
     nruns compare p \<le> (run_count s + 1) div 2 \<and> nruns compare q \<le> run_count s div 2 \<and>
     (p = [] \<longleftrightarrow> run_count s = 0) \<and> (q = [] \<longleftrightarrow> run_count s \<le> 1) \<and>
     kout s = (if run_count s = 0 then None else Some (last (if odd (run_count s) then p else q))) \<and>
     fout1 s = (if run_count s = 0 then None else Some (if odd (run_count s) then 0 else 1)) \<and>
     fout2 s = (if run_count s \<le> 1 then None else Some (if odd (run_count s) then 1 else 0))"

lemma tw_emit:
  assumes "tw_outs compare a b s p q"
    and "new \<longleftrightarrow> (case kout s of None \<Rightarrow> True | Some p \<Rightarrow> \<not> compare p k \<le> 0)" and "new \<Longrightarrow> 0 < run_count s \<Longrightarrow> two"
    and "new \<Longrightarrow> run_count s + 1 < 2 ^ 32"
  shows "\<exists>p' q'. tw_outs compare a b ((tw_write k (if new then tw_new_run two s else s))\<lparr>kout := Some k\<rparr>) p' q' \<and>
    mset p' + mset q' = add_mset k (mset p + mset q)"
proof -
  define R where "R = run_count s"
  note o = assms(1) [unfolded tw_outs_def, folded R_def]
  show ?thesis
  proof (cases new)
    case False
    then have R: "0 < R" "compare (last (if odd R then p else q)) k \<le> 0" using o assms(2) by (auto split: if_splits)
    show ?thesis
    proof (cases "odd R")
      case True
      then show ?thesis
        using False o R by (intro exI [of _ "p @ [k]"] exI [of _ q]) (auto simp: tw_outs_def tw_write_def nruns_snoc R_def)
    next
      case False
      then show ?thesis
        using \<open>\<not> new\<close> o R by (intro exI [of _ p] exI [of _ "q @ [k]"]) (auto simp: tw_outs_def tw_write_def nruns_snoc R_def)
    qed
  next
    case True
    have two: "0 < R \<Longrightarrow> two" using assms(3) True by (simp add: R_def)
    have R': "run_count (tw_new_run two s) = Suc R" "kout (tw_new_run two s) = kout s" "out0 (tw_new_run two s) = out0 s"
      "out1 (tw_new_run two s) = out1 s" using assms(4) True by (simp_all add: tw_new_run_def Let_def R_def)
    have f: "fout1 (tw_new_run two s) = Some (if odd (Suc R) then 0 else 1)"
      "fout2 (tw_new_run two s) = (if Suc R \<le> 1 then None else Some (if odd (Suc R) then 1 else 0))"
      using o two by (auto simp: tw_new_run_def Let_def elim: oddE evenE)
    show ?thesis
    proof (cases "odd R")
      case odd: True
      then show ?thesis
        using True o f R' by (intro exI [of _ p] exI [of _ "q @ [k]"]) (auto simp: tw_outs_def tw_write_def nruns_snoc elim!: oddE)
    next
      case False
      then show ?thesis
        using True o f R' by (intro exI [of _ "p @ [k]"] exI [of _ q]) (auto simp: tw_outs_def tw_write_def nruns_snoc elim!: evenE)
    qed
  qed
qed

text \<open>
  The flags say where the current runs of the inputs go on. \<open>tw_left\<close> bounds the runs that are
  still to come after the current ones, and \<open>tw_fresh\<close> is where a new run may begin.
\<close>

definition tw_flags :: "'k twoway \<Rightarrow> bool" where
  "tw_flags s \<longleftrightarrow> (run1 s \<longrightarrow> in1 s \<noteq> []) \<and> (run2 s \<longrightarrow> in2 s \<noteq> []) \<and> (in1 s \<noteq> [] \<or> in2 s \<noteq> [] \<longrightarrow> run1 s \<or> run2 s)"

definition tw_left :: "('k \<Rightarrow> 'k \<Rightarrow> int) \<Rightarrow> 'k twoway \<Rightarrow> nat" where
  "tw_left compare s = max (nruns compare (in1 s) - of_bool (run1 s)) (nruns compare (in2 s) - of_bool (run2 s))"

definition tw_fresh :: "('k \<Rightarrow> 'k \<Rightarrow> int) \<Rightarrow> 'k twoway \<Rightarrow> bool" where
  "tw_fresh compare s \<longleftrightarrow> (in1 s \<noteq> [] \<or> in2 s \<noteq> []) \<and>
     (case kout s of None \<Rightarrow> True
      | Some k \<Rightarrow> \<not> ((run1 s \<longrightarrow> compare k (hd (in1 s)) \<le> 0) \<and> (run2 s \<longrightarrow> compare k (hd (in2 s)) \<le> 0)))"

definition tw_bound :: "('k \<Rightarrow> 'k \<Rightarrow> int) \<Rightarrow> nat \<Rightarrow> 'k twoway \<Rightarrow> bool" where
  "tw_bound compare M s \<longleftrightarrow> run_count s + tw_left compare s + of_bool (tw_fresh compare s) \<le> M"

text \<open>Starting on the next runs of the inputs.\<close>

lemma tw_reset_ok:
  assumes "run1 s \<longrightarrow> in1 s \<noteq> []" and "run2 s \<longrightarrow> in2 s \<noteq> []" and "run_count s + tw_left compare s \<le> M" and "\<not> tw_fresh compare s"
    and "t = (if \<not> run1 s \<and> \<not> run2 s then s\<lparr>run1 := in1 s \<noteq> [], run2 := in2 s \<noteq> []\<rparr> else s)"
  shows "tw_flags t" and "tw_bound compare M t"
proof -
  show "tw_flags t" using assms(1,2,5) by (auto simp: tw_flags_def)
  show "tw_bound compare M t"
  proof (cases "\<not> run1 s \<and> \<not> run2 s \<and> (in1 s \<noteq> [] \<or> in2 s \<noteq> [])")
    case True
    have "tw_left compare t + 1 \<le> tw_left compare s"
      using True assms(5) nruns_pos [of "in1 s" compare] nruns_pos [of "in2 s" compare]
      by (cases "in1 s = []"; cases "in2 s = []") (auto simp: tw_left_def)
    then show ?thesis using assms(3,5) True by (auto simp: tw_bound_def of_bool_def)
  next
    case False
    then have "t = s" "tw_left compare t = tw_left compare s"
      using assms(1,2,5) by (cases s; auto)+
    then show ?thesis using assms(3,4) by (simp add: tw_bound_def)
  qed
qed

context key_order
begin

lemma tw_step_ok:
  assumes "tw_outs compare a b s p q" and "tw_flags s" and "tw_bound compare M s" and "in1 s \<noteq> [] \<or> in2 s \<noteq> []" and "two \<or> M \<le> 1" and "M < 2 ^ 32"
  shows "\<exists>t p' q'. tw_step compare two s = Some t \<and> tw_outs compare a b t p' q' \<and> tw_flags t \<and> tw_bound compare M t \<and>
    mset p' + mset q' + mset (in1 t) + mset (in2 t) = mset p + mset q + mset (in1 s) + mset (in2 s)"
proof -
  define first where "first \<longleftrightarrow> tw_comp compare s \<le> 0"
  define xs ys where "xs = (if first then in1 s else in2 s)" and "ys = (if first then in2 s else in1 s)"
  define yrun where "yrun = (if first then run2 s else run1 s)"
  have c: "(if first then run1 s else run2 s)" "yrun \<Longrightarrow> compare (hd xs) (hd ys) \<le> 0" "yrun \<Longrightarrow> ys \<noteq> []"
    using assms(2,4) sign [of "hd (in2 s)" "hd (in1 s)"]
    by (auto simp: first_def tw_comp_def tw_flags_def xs_def ys_def yrun_def split: if_splits)
  then have "xs \<noteq> []" using assms(2) by (auto simp: xs_def tw_flags_def split: if_splits)
  then obtain k rest where xs: "xs = k # rest" by (cases xs) auto
  define new where "new \<longleftrightarrow> (case kout s of None \<Rightarrow> True | Some p \<Rightarrow> \<not> compare p k \<le> 0)"
  have fresh: "new \<Longrightarrow> tw_fresh compare s"
    using assms(4) c(1) xs by (auto simp: new_def tw_fresh_def xs_def split: option.splits if_splits)
  then have two: "new \<Longrightarrow> 0 < run_count s \<Longrightarrow> two" using assms(3,5) by (auto simp: tw_bound_def)
  have small: "new \<Longrightarrow> run_count s + 1 < 2 ^ 32" using fresh assms(3,6) by (auto simp: tw_bound_def)
  from tw_emit [OF assms(1) new_def two small] obtain p' q' where
    o: "tw_outs compare a b ((tw_write k (if new then tw_new_run two s else s))\<lparr>kout := Some k\<rparr>) p' q'"
      "mset p' + mset q' = add_mset k (mset p + mset q)" by blast
  define run where "run \<longleftrightarrow> rest \<noteq> [] \<and> compare k (hd rest) \<le> 0"
  define u where "u = tw_write k (if new then tw_new_run two s else s)"
  have u: "run_count u = run_count s + of_bool new" "in1 u = in1 s" "in2 u = in2 s" "run1 u = run1 s" "run2 u = run2 s"
    using small by (simp_all add: u_def tw_write_def tw_new_run_def Let_def)
  define v where "v = (if first then u\<lparr>in1 := rest, run1 := run, kout := Some k\<rparr> else u\<lparr>in2 := rest, run2 := run, kout := Some k\<rparr>)"
  define t where "t = (if \<not> run1 v \<and> \<not> run2 v then v\<lparr>run1 := in1 v \<noteq> [], run2 := in2 v \<noteq> []\<rparr> else v)"
  have step: "tw_step compare two s = Some t"
    unfolding tw_step_def Let_def first_def [symmetric] xs_def [symmetric] xs list.case new_def [symmetric] run_def [symmetric]
      u_def [symmetric] v_def [symmetric] t_def [symmetric] ..
  have left: "tw_left compare v = tw_left compare s"
    using c(1) xs u by (auto simp: tw_left_def v_def xs_def run_def nruns_Cons)
  have "\<not> tw_fresh compare v"
    using c(2) xs u by (auto simp: tw_fresh_def v_def run_def xs_def ys_def yrun_def split: if_splits)
  moreover have "run_count v + tw_left compare v \<le> M" using assms(3) fresh u(1) left by (auto simp: tw_bound_def v_def)
  moreover have "run1 v \<longrightarrow> in1 v \<noteq> []" "run2 v \<longrightarrow> in2 v \<noteq> []"
    using assms(2) u by (auto simp: v_def run_def tw_flags_def split: if_splits)
  ultimately have "tw_flags t" "tw_bound compare M t" using tw_reset_ok [of v compare M t] t_def by blast+
  moreover have "tw_outs compare a b t p' q'"
    using o(1) unfolding u_def [symmetric] by (auto simp: tw_outs_def t_def v_def)
  moreover have "mset p' + mset q' + mset (in1 t) + mset (in2 t) = mset p + mset q + mset (in1 s) + mset (in2 s)"
    using o(2) xs u by (auto simp: t_def v_def xs_def split: if_splits)
  ultimately show ?thesis using step by blast
qed

lemma tw_loop_ok:
  "tw_outs compare a b s p q \<Longrightarrow> tw_flags s \<Longrightarrow> tw_bound compare M s \<Longrightarrow> two \<or> M \<le> 1 \<Longrightarrow> M < 2 ^ 32 \<Longrightarrow>
   \<exists>t p' q'. tw_loop compare two s = Some t \<and> tw_outs compare a b t p' q' \<and> run_count t \<le> M \<and>
     mset p' + mset q' = mset p + mset q + mset (in1 s) + mset (in2 s)"
proof (induction "length (in1 s) + length (in2 s)" arbitrary: s p q rule: less_induct)
  case less
  show ?case
  proof (cases "in1 s = [] \<and> in2 s = []")
    case True
    then show ?thesis using less.prems by (subst tw_loop.simps) (auto simp: tw_bound_def)
  next
    case False
    then obtain t p' q' where t: "tw_step compare two s = Some t" "tw_outs compare a b t p' q'" "tw_flags t" "tw_bound compare M t"
      "mset p' + mset q' + mset (in1 t) + mset (in2 t) = mset p + mset q + mset (in1 s) + mset (in2 s)"
      using tw_step_ok [OF less.prems(1-3) _ less.prems(4,5)] by blast
    have "tw_loop compare two s = tw_loop compare two t" using False t(1) by (subst tw_loop.simps) auto
    then show ?thesis using less.hyps [OF tw_step_length [OF t(1)] t(2-4) less.prems(4,5)] t(5) by simp
  qed
qed

text \<open>
  The merge keeps the records and makes at most as many runs as the longer of the inputs has,
  in turn in the two outputs.
\<close>

lemma twoway_merge_ok:
  assumes "two \<or> nruns compare xs \<le> 1 \<and> nruns compare ys \<le> 1"
    and "nruns compare xs + 1 < 2 ^ 32" "nruns compare ys + 1 < 2 ^ 32"
  shows "\<exists>p q R. twoway_merge compare two xs ys a b = Some ((a @ p, (R + 1) div 2), (b @ q, R div 2)) \<and>
    R \<le> max (nruns compare xs) (nruns compare ys) \<and> nruns compare p \<le> (R + 1) div 2 \<and> nruns compare q \<le> R div 2 \<and>
    (p = [] \<longleftrightarrow> R = 0) \<and> (q = [] \<longleftrightarrow> R \<le> 1) \<and> mset p + mset q = mset xs + mset ys"
proof -
  let ?M = "max (nruns compare xs) (nruns compare ys)"
  let ?s = "\<lparr>in1 = xs, in2 = ys, run1 = xs \<noteq> [], run2 = ys \<noteq> [], kout = None, fout1 = None, fout2 = None,
    out0 = a, out1 = b, run_count = 0\<rparr>"
  have "tw_outs compare a b ?s [] []" "tw_flags ?s" by (auto simp: tw_outs_def tw_flags_def)
  moreover have "tw_bound compare ?M ?s"
    using nruns_pos [of xs compare] nruns_pos [of ys compare]
    by (cases "xs = []"; cases "ys = []") (auto simp: tw_bound_def tw_left_def tw_fresh_def)
  moreover have "two \<or> ?M \<le> 1" "?M < 2 ^ 32" using assms by auto
  ultimately obtain t p q where t: "tw_loop compare two ?s = Some t" "tw_outs compare a b t p q" "run_count t \<le> ?M"
    "mset p + mset q = mset xs + mset ys" using tw_loop_ok [of a b ?s "[]" "[]" ?M two] by auto
  define R where "R = run_count t"
  have "twoway_merge compare two xs ys a b = Some ((a @ p, (R + 1) div 2), (b @ q, R div 2))"
    using t(1-3) assms(2,3) by (auto simp: twoway_merge_def tw_outs_def R_def)
  then show ?thesis using t(2-4) unfolding tw_outs_def R_def [symmetric] by blast
qed

end

end
