(* ===== verification/Attr.thy ===== *)
theory Attr
  imports Conf_Units Sorter_Merge
begin

text \<open>
  Model of the attribute store of \<^verbatim>\<open>generic/string/attr.c\<close> and of its textual form in
  \<^verbatim>\<open>generic/string/object.c\<close>. The list of attributes is the sequence of its nodes and a node is
  its position; strings that are copied to the memory pool are their characters.
\<close>

section \<open>Comparison of strings\<close>

text \<open>The sign of \<^verbatim>\<open>strcmp\<close>, which compares unsigned bytes up to the final zeros.\<close>

fun strcmp :: "string \<Rightarrow> string \<Rightarrow> int" where
  "strcmp [] [] = 0"
| "strcmp [] (b # t) = - 1"
| "strcmp (a # s) [] = 1"
| "strcmp (a # s) (b # t) =
     (if (of_char a :: nat) < of_char b then - 1 else if (of_char b :: nat) < of_char a then 1 else strcmp s t)"

lemma code_eq: "\<not> (of_char a :: nat) < of_char b \<Longrightarrow> \<not> (of_char b :: nat) < of_char a \<Longrightarrow> a = b"
  using of_char_eq_iff [where 'a = nat, of a b] by linarith

lemma strcmp_zero [simp]: "strcmp s t = 0 \<longleftrightarrow> s = t"
  by (induction s t rule: strcmp.induct) (auto dest: code_eq)

lemma strcmp_trans: "strcmp x y \<le> 0 \<Longrightarrow> strcmp y z \<le> 0 \<Longrightarrow> strcmp x z \<le> 0"
proof (induction x y arbitrary: z rule: strcmp.induct)
  case (4 a s b t z)
  show ?case
  proof (cases z)
    case (Cons c u)
    define i j k :: nat where "i = of_char a" and "j = of_char b" and "k = of_char c"
    have ij: "i \<le> j" "i = j \<Longrightarrow> strcmp s t \<le> 0" using 4(2) by (auto simp: i_def j_def split: if_splits)
    have jk: "j \<le> k" "j = k \<Longrightarrow> strcmp t u \<le> 0" using 4(3) Cons by (auto simp: j_def k_def split: if_splits)
    have "strcmp s u \<le> 0" if "i = k"
    proof -
      have "i = j" "j = k" using that ij(1) jk(1) by linarith+
      then show ?thesis using 4(1) ij(2) jk(2) unfolding i_def j_def by simp
    qed
    moreover have "i < k \<or> i = k" using ij(1) jk(1) by linarith
    ultimately show ?thesis using Cons unfolding i_def k_def by auto
  qed (use 4 in simp)
next
  case (1 z)
  then show ?case by (cases z) auto
next
  case (2 b t z)
  then show ?case by (cases z) auto
qed simp

interpretation strcmp_order: key_order strcmp
proof
  show "strcmp x y < 0 \<longleftrightarrow> 0 < strcmp y x" for x y by (induction x y rule: strcmp.induct) auto
qed (rule strcmp_trans)

section \<open>Attributes\<close>

record attr =
  a_key :: string
  a_val :: "string option"
  a_flags :: u32

definition ATTR_CHANGED :: u32 where
  "ATTR_CHANGED = 2"

fun attr_find :: "attr list \<Rightarrow> string \<Rightarrow> nat option" where
  "attr_find [] key = None"
| "attr_find (a # as) key = (if strcmp (a_key a) key = 0 then Some 0 else map_option Suc (attr_find as key))"

definition attr_lookup :: "attr list \<Rightarrow> string \<Rightarrow> bool \<Rightarrow> nat option \<times> attr list" where
  "attr_lookup as key create =
     (case attr_find as key of
        Some i \<Rightarrow> (Some i, as)
      | None \<Rightarrow>
          if \<not> create then (None, as)
          else (Some (length as), as @ [\<lparr>a_key = key, a_val = None, a_flags = 0\<rparr>]))"

definition attr_set :: "string \<Rightarrow> string option \<Rightarrow> attr list \<Rightarrow> attr list" where
  "attr_set key val as =
     (case attr_lookup as key True of
        (Some i, as) \<Rightarrow> as[i := (as ! i)\<lparr>a_val := val, a_flags := a_flags (as ! i) OR ATTR_CHANGED\<rparr>]
      | (None, as) \<Rightarrow> as)"

definition attr_raw_set :: "string \<Rightarrow> string option \<Rightarrow> attr list \<Rightarrow> attr list" where
  "attr_raw_set key val as =
     (case attr_lookup as key True of
        (Some i, as) \<Rightarrow> as[i := (as ! i)\<lparr>a_val := val\<rparr>]
      | (None, as) \<Rightarrow> as)"

definition attr_get :: "attr list \<Rightarrow> string \<Rightarrow> string option" where
  "attr_get as key = (case attr_lookup as key False of (Some i, _) \<Rightarrow> a_val (as ! i) | (None, _) \<Rightarrow> None)"

fun attr_list_merge :: "attr list \<Rightarrow> attr list \<Rightarrow> attr list" where
  "attr_list_merge [] to = to"
| "attr_list_merge (a # from) to = attr_list_merge from (attr_set (a_key a) (a_val a) to)"

text \<open>The least key behind \<open>y\<close>; then \<open>z\<close> moves before \<open>x\<close>, whose position grows by one.\<close>

function sort_scan :: "attr list \<Rightarrow> nat \<Rightarrow> nat \<Rightarrow> nat" where
  "sort_scan as y z =
     (if length as \<le> y then z
      else sort_scan as (y + 1) (if strcmp (a_key (as ! y)) (a_key (as ! z)) < 0 then y else z))"
  by auto
termination
  by (relation "measure (\<lambda>(as, y, z). length as - y)") auto

definition move_before :: "nat \<Rightarrow> nat \<Rightarrow> 'a list \<Rightarrow> 'a list" where
  "move_before z x as = (let r = take z as @ drop (Suc z) as in take x r @ [as ! z] @ drop x r)"

lemma move_before_length [simp]: "z < length as \<Longrightarrow> x \<le> z \<Longrightarrow> length (move_before z x as) = length as"
  by (simp add: move_before_def Let_def)

lemma sort_scan_bounds: "x \<le> z \<Longrightarrow> x \<le> y \<Longrightarrow> z < length as \<Longrightarrow> x \<le> sort_scan as y z \<and> sort_scan as y z < length as"
  by (induction as y z rule: sort_scan.induct) (subst sort_scan.simps, auto)

declare sort_scan.simps [simp del]

function sort_loop :: "attr list \<Rightarrow> nat \<Rightarrow> attr list" where
  "sort_loop as x =
     (if length as \<le> x then as
      else let z = sort_scan as (x + 1) x in
        if x = z then sort_loop as (x + 1) else sort_loop (move_before z x as) (x + 1))"
  by auto
termination
proof (relation "measure (\<lambda>(as, x). length as - x)")
  fix as :: "attr list" and x z
  assume x: "\<not> length as \<le> x"
  then show "((as, x + 1), (as, x)) \<in> measure (\<lambda>(as, x). length as - x)" by simp
  assume "z = sort_scan as (x + 1) x"
  then show "((move_before z x as, x + 1), (as, x)) \<in> measure (\<lambda>(as, x). length as - x)"
    using x sort_scan_bounds [of x x "x + 1" as] by (simp, linarith)
qed (rule wf_measure)

definition attr_list_sort :: "attr list \<Rightarrow> attr list" where
  "attr_list_sort as = sort_loop as 0"

declare sort_loop.simps [simp del]

section \<open>A dictionary\<close>

text \<open>What a client of the store relies on, and what follows for a sequence of assignments.\<close>

locale dictionary =
  fixes look :: "'d \<Rightarrow> 'k \<Rightarrow> 'v"
    and upd :: "'k \<Rightarrow> 'v \<Rightarrow> 'd \<Rightarrow> 'd"
    and wf :: "'d \<Rightarrow> bool"
  assumes look_upd: "wf d \<Longrightarrow> look (upd k v d) k' = (if k' = k then v else look d k')"
    and wf_upd: "wf d \<Longrightarrow> wf (upd k v d)"
begin

lemma wf_all: "wf d \<Longrightarrow> wf (fold (\<lambda>(k, v). upd k v) kvs d)"
  by (induction kvs arbitrary: d) (auto simp: wf_upd)

lemma look_all:
  "wf d \<Longrightarrow> look (fold (\<lambda>(k, v). upd k v) kvs d) k = (case map_of (rev kvs) k of Some v \<Rightarrow> v | None \<Rightarrow> look d k)"
  by (induction kvs arbitrary: d rule: rev_induct) (auto simp: look_upd wf_all)

end

text \<open>Every key at most once; the invariant of the store.\<close>

definition keys_distinct :: "attr list \<Rightarrow> bool" where
  "keys_distinct as \<longleftrightarrow> distinct (map a_key as)"

lemma attr_find_Some: "attr_find as key = Some i \<Longrightarrow> i < length as \<and> a_key (as ! i) = key"
  by (induction as arbitrary: i) (auto split: if_splits)

lemma attr_find_None: "attr_find as key = None \<longleftrightarrow> key \<notin> a_key ` set as"
  by (induction as) auto

lemma attr_find_update: "a_key x = a_key (as ! i) \<Longrightarrow> attr_find (as[i := x]) key = attr_find as key"
  by (induction as arbitrary: i) (auto split: nat.splits)

lemma attr_find_append: "attr_find (as @ bs) key = (case attr_find as key of Some i \<Rightarrow> Some i | None \<Rightarrow> map_option ((+) (length as)) (attr_find bs key))"
  by (induction as) (auto split: option.splits; cases "attr_find bs key"; simp)+

lemma attr_get_find: "attr_get as key = (case attr_find as key of Some i \<Rightarrow> a_val (as ! i) | None \<Rightarrow> None)"
  by (simp add: attr_get_def attr_lookup_def split: option.splits)

text \<open>Both ways of setting a value change only the value and the flags at the place of the key.\<close>

definition attr_put :: "(attr \<Rightarrow> attr) \<Rightarrow> string \<Rightarrow> attr list \<Rightarrow> attr list" where
  "attr_put f key as = (case attr_lookup as key True of (Some i, as) \<Rightarrow> as[i := f (as ! i)] | (None, as) \<Rightarrow> as)"

lemma attr_set_put: "attr_set key val = attr_put (\<lambda>a. a\<lparr>a_val := val, a_flags := a_flags a OR ATTR_CHANGED\<rparr>) key"
  by (simp add: fun_eq_iff attr_set_def attr_put_def)

lemma attr_raw_set_put: "attr_raw_set key val = attr_put (\<lambda>a. a\<lparr>a_val := val\<rparr>) key"
  by (simp add: fun_eq_iff attr_raw_set_def attr_put_def)

lemma attr_put_get:
  assumes "\<And>a. a_key (f a) = a_key a \<and> a_val (f a) = val"
  shows "attr_get (attr_put f key as) k = (if k = key then val else attr_get as k)"
proof (cases "attr_find as key")
  case None
  then show ?thesis
    using assms attr_find_Some [of as k]
    by (auto simp: attr_put_def attr_lookup_def attr_get_find attr_find_append attr_find_update nth_append split: option.splits)
next
  case (Some i)
  then show ?thesis
    using assms attr_find_Some [OF Some] attr_find_Some [of as k]
    by (auto simp: attr_put_def attr_lookup_def attr_get_find attr_find_update nth_list_update split: option.splits)
qed

lemma attr_put_keys:
  assumes "\<And>a. a_key (f a) = a_key a"
  shows "map a_key (attr_put f key as) = (if key \<in> a_key ` set as then map a_key as else map a_key as @ [key])"
proof (cases "attr_find as key")
  case None
  then show ?thesis using assms attr_find_None [of as key]
    by (simp add: attr_put_def attr_lookup_def list_update_append)
next
  case (Some i)
  have "map a_key (as[i := f (as ! i)]) = map a_key as"
    using attr_find_Some [OF Some] assms by (simp add: map_update) (metis list_update_id length_map nth_map)
  then show ?thesis using Some attr_find_None [of as key]
    by (simp add: attr_put_def attr_lookup_def split: if_splits)
qed

lemma attr_put_distinct:
  "(\<And>a. a_key (f a) = a_key a) \<Longrightarrow> keys_distinct as \<Longrightarrow> keys_distinct (attr_put f key as)"
  by (simp add: keys_distinct_def attr_put_keys)

interpretation attrs: dictionary attr_get attr_set keys_distinct
  by standard (auto simp: attr_set_put attr_put_get attr_put_distinct)

interpretation raw_attrs: dictionary attr_get attr_raw_set keys_distinct
  by standard (auto simp: attr_raw_set_put attr_put_get attr_put_distinct)

text \<open>The store as an association list.\<close>

definition pairs :: "attr list \<Rightarrow> (string \<times> string option) list" where
  "pairs as = map (\<lambda>a. (a_key a, a_val a)) as"

lemma pairs_distinct: "distinct (map fst (pairs as)) \<longleftrightarrow> keys_distinct as"
  by (simp add: pairs_def keys_distinct_def comp_def)

lemma attr_get_pairs: "attr_get as k = (case map_of (pairs as) k of Some v \<Rightarrow> v | None \<Rightarrow> None)"
  by (induction as) (auto simp: attr_get_find pairs_def split: option.splits)

lemma map_of_pairs_None: "map_of (pairs as) k = None \<longleftrightarrow> k \<notin> a_key ` set as"
  by (force simp: map_of_eq_None_iff pairs_def)

lemma attr_list_merge_fold: "attr_list_merge from to = fold (\<lambda>(k, v). attr_set k v) (pairs from) to"
  by (induction "from" to rule: attr_list_merge.induct) (auto simp: pairs_def)

section \<open>Sorting\<close>

abbreviation key_le :: "attr \<Rightarrow> attr \<Rightarrow> bool" where
  "key_le a b \<equiv> strcmp (a_key a) (a_key b) \<le> 0"

lemma sort_scan_min:
  "z < length as \<Longrightarrow> y \<le> length as \<Longrightarrow> \<forall>i. x \<le> i \<and> i < y \<longrightarrow> key_le (as ! z) (as ! i) \<Longrightarrow>
   \<forall>i. x \<le> i \<and> i < length as \<longrightarrow> key_le (as ! sort_scan as y z) (as ! i)"
proof (induction as y z rule: sort_scan.induct)
  case (1 as y z)
  show ?case
  proof (cases "length as \<le> y")
    case True
    then show ?thesis using 1 by (subst sort_scan.simps) auto
  next
    case False
    define w where "w = (if strcmp (a_key (as ! y)) (a_key (as ! z)) < 0 then y else z)"
    have w: "key_le (as ! w) (as ! z)" "key_le (as ! w) (as ! y)"
      using strcmp_order.sign [of "a_key (as ! y)" "a_key (as ! z)"] by (auto simp: w_def)
    have "\<forall>i. x \<le> i \<and> i < y + 1 \<longrightarrow> key_le (as ! w) (as ! i)"
      using 1(4) w strcmp_trans by (metis less_Suc_eq Suc_eq_plus1)
    moreover have "w < length as" using 1(2) False by (simp add: w_def)
    ultimately have "\<forall>i. x \<le> i \<and> i < length as \<longrightarrow> key_le (as ! sort_scan as (y + 1) w) (as ! i)"
      using 1(1) [OF False] False unfolding w_def by simp
    then show ?thesis using False by (subst sort_scan.simps) (simp add: w_def)
  qed
qed

lemma move_before_split:
  assumes "x \<le> z" "z < length as"
  shows "take (Suc x) (move_before z x as) = take x as @ [as ! z]" "mset (move_before z x as) = mset as"
    "set (drop (Suc x) (move_before z x as)) \<subseteq> set (drop x as)"
proof -
  let ?r = "take z as @ drop (Suc z) as"
  have r: "take x ?r = take x as" using assms by simp
  then show "take (Suc x) (move_before z x as) = take x as @ [as ! z]" using assms by (simp add: move_before_def Let_def)
  have "mset as = mset (take z as @ as ! z # drop (Suc z) as)" using assms by (simp add: id_take_nth_drop [symmetric])
  moreover have "mset (take x ?r) + mset (drop x ?r) = mset ?r" by (metis append_take_drop_id mset_append)
  ultimately show "mset (move_before z x as) = mset as" by (simp add: move_before_def Let_def ac_simps)
  have "drop x ?r = drop x (take z as) @ drop (Suc z) as" using assms by simp
  moreover have "set (drop x (take z as)) \<subseteq> set (drop x as)" by (simp add: drop_take set_take_subset)
  moreover have "set (drop (Suc z) as) \<subseteq> set (drop x as)" using assms by (simp add: set_drop_subset_set_drop)
  ultimately show "set (drop (Suc x) (move_before z x as)) \<subseteq> set (drop x as)"
    using assms by (simp add: move_before_def Let_def)
qed

lemma move_before_self: "x < length as \<Longrightarrow> move_before x x as = as"
  by (simp add: move_before_def Let_def id_take_nth_drop [symmetric])

text \<open>A selection sort: the attributes up to \<open>x\<close> are sorted and none behind is less.\<close>

lemma sort_loop_ok:
  assumes "sorted_wrt key_le (take x as)" "\<forall>a \<in> set (take x as). \<forall>b \<in> set (drop x as). key_le a b"
  shows "mset (sort_loop as x) = mset as \<and> sorted_wrt key_le (sort_loop as x)"
  using assms
proof (induction as x rule: sort_loop.induct)
  case (1 as x)
  show ?case
  proof (cases "length as \<le> x")
    case True
    then have "sort_loop as x = as" by (subst sort_loop.simps) simp
    then show ?thesis using 1(3) True by simp
  next
    case False
    define z where "z = sort_scan as (x + 1) x"
    have z: "x \<le> z" "z < length as" using sort_scan_bounds [of x x "x + 1" as] False by (auto simp: z_def)
    have m: "\<forall>i. x \<le> i \<and> i < length as \<longrightarrow> key_le (as ! z) (as ! i)"
      unfolding z_def by (rule sort_scan_min) (use False strcmp_order.refl_le in \<open>auto simp: less_Suc_eq_le\<close>)
    have least: "\<forall>b \<in> set (drop x as). key_le (as ! z) b" using m False by (auto simp: set_conv_nth)
    define bs where "bs = move_before z x as"
    note split = move_before_split [OF z, folded bs_def]
    have "as ! z \<in> set (drop x as)" using nth_mem [of "z - x" "drop x as"] z by simp
    then have "sorted_wrt key_le (take (Suc x) bs)" using 1(3,4) split(1) by (simp add: sorted_wrt_append)
    moreover have "\<forall>a \<in> set (take (Suc x) bs). \<forall>b \<in> set (drop (Suc x) bs). key_le a b"
      using 1(4) split(1,3) least by auto
    ultimately have "mset (sort_loop bs (x + 1)) = mset bs \<and> sorted_wrt key_le (sort_loop bs (x + 1))"
      using 1(1,2) [OF False z_def] unfolding bs_def by (cases "x = z") (simp_all add: move_before_self z)
    moreover have "sort_loop as x = sort_loop bs (x + 1)"
      using False move_before_self [OF z(2)] unfolding bs_def z_def by (subst sort_loop.simps) (auto simp: Let_def)
    ultimately show ?thesis using split(2) by simp
  qed
qed

text \<open>
  C27: The attribute store is a dictionary in the order of insertion. Setting a key gives it that
  value and leaves the values of all other keys; a key occurs once at most, and a new key comes
  last while an old one keeps its place. After merging, the attributes of the first list have
  their values from there and all others keep theirs.
\<close>

theorem attr_store_correct:
  assumes "keys_distinct as" "keys_distinct bs"
  shows "keys_distinct (attr_set k v as) \<and>
    attr_get (attr_set k v as) k' = (if k' = k then v else attr_get as k') \<and>
    map a_key (attr_set k v as) = (if k \<in> a_key ` set as then map a_key as else map a_key as @ [k]) \<and>
    keys_distinct (attr_list_merge bs as) \<and>
    attr_get (attr_list_merge bs as) k' = (if k' \<in> a_key ` set bs then attr_get bs k' else attr_get as k')"
proof (intro conjI)
  have "map_of (rev (pairs bs)) = map_of (pairs bs)"
    using assms(2) by (intro iffD2 [OF map_of_inject_set]) (simp_all add: pairs_distinct flip: rev_map)
  then show "attr_get (attr_list_merge bs as) k' = (if k' \<in> a_key ` set bs then attr_get bs k' else attr_get as k')"
    using map_of_pairs_None [of bs k'] attrs.look_all [OF assms(1), of "pairs bs" k'] attr_get_pairs [of bs k']
    by (auto simp: attr_list_merge_fold split: option.splits)
qed (use assms attrs.wf_upd attrs.look_upd attrs.wf_all in \<open>auto simp: attr_list_merge_fold attr_set_put attr_put_keys\<close>)

theorem attr_store_correct_witness:
  "attr_get (attr_list_merge [\<lparr>a_key = ''a'', a_val = Some ''1'', a_flags = 0\<rparr>] [\<lparr>a_key = ''b'', a_val = None, a_flags = 0\<rparr>]) ''a'' = Some ''1''"
  using attr_store_correct [of "[\<lparr>a_key = ''b'', a_val = None, a_flags = 0\<rparr>]" "[\<lparr>a_key = ''a'', a_val = Some ''1'', a_flags = 0\<rparr>]"]
  by (simp add: keys_distinct_def attr_get_find)

text \<open>
  C28: Sorting a list of attributes in place ends with the same attributes in the order of their
  keys, and does not change the value of any key.
\<close>

theorem attr_list_sort_correct:
  assumes "keys_distinct as"
  shows "mset (attr_list_sort as) = mset as \<and> sorted_wrt (\<lambda>a b. strcmp (a_key a) (a_key b) \<le> 0) (attr_list_sort as) \<and>
    keys_distinct (attr_list_sort as) \<and> attr_get (attr_list_sort as) k = attr_get as k"
proof -
  have sort: "mset (attr_list_sort as) = mset as" "sorted_wrt key_le (attr_list_sort as)"
    unfolding attr_list_sort_def using sort_loop_ok [of 0 as] by auto
  then have d: "keys_distinct (attr_list_sort as)"
    using assms by (metis keys_distinct_def mset_eq_imp_distinct_iff mset_map)
  have "set (pairs (attr_list_sort as)) = set (pairs as)" using sort(1) by (simp add: pairs_def) (metis set_mset_mset)
  then have "map_of (pairs (attr_list_sort as)) = map_of (pairs as)"
    using d assms by (intro iffD2 [OF map_of_inject_set]) (simp_all add: pairs_distinct)
  then have "attr_get (attr_list_sort as) k = attr_get as k" by (simp add: attr_get_pairs)
  then show ?thesis using sort d by simp
qed

theorem attr_list_sort_correct_witness:
  "sorted_wrt (\<lambda>a b. strcmp (a_key a) (a_key b) \<le> 0)
    (attr_list_sort [\<lparr>a_key = ''b'', a_val = None, a_flags = 0\<rparr>, \<lparr>a_key = ''a'', a_val = Some ''1'', a_flags = 0\<rparr>])"
  using attr_list_sort_correct [of "[\<lparr>a_key = ''b'', a_val = None, a_flags = 0\<rparr>, \<lparr>a_key = ''a'', a_val = Some ''1'', a_flags = 0\<rparr>]"]
  by (simp add: keys_distinct_def)

section \<open>The textual form\<close>

text \<open>The text of one attribute; a null value is no string for \<^verbatim>\<open>snprintf\<close>.\<close>

abbreviation (input) "COLON \<equiv> CHR '':''"

definition attr_text :: "attr \<Rightarrow> string option" where
  "attr_text a = map_option (\<lambda>v. a_key a @ '': '' @ v @ [LF]) (a_val a)"

text \<open>
  \<^verbatim>\<open>snprintf\<close> stores at most \<open>n\<close> characters with the final zero, and returns the length of the
  whole text; the loop goes on from there. \<open>None\<close> is a write behind the buffer.
\<close>

definition object_write_step :: "attr \<Rightarrow> nat \<Rightarrow> string \<Rightarrow> (nat \<times> string) option" where
  "object_write_step a len buf =
     (case attr_text a of
        None \<Rightarrow> None
      | Some t \<Rightarrow>
          let n = (2 ^ 32 + length buf - len - 1) mod 2 ^ 32;
              out = (if n = 0 then [] else take (n - 1) t @ [NUL])
          in if length buf < len + length out then None
             else let buf = write_at len out buf; len = len + length t in
               if length buf \<le> len then None else Some (len, buf[len := LF]))"

fun object_write_loop :: "attr list \<Rightarrow> nat \<Rightarrow> string \<Rightarrow> (nat \<times> string) option" where
  "object_write_loop [] len buf = Some (len, buf)"
| "object_write_loop (a # as) len buf =
     Option.bind (object_write_step a len buf) (\<lambda>(len, buf). object_write_loop as len buf)"

definition object_write :: "attr list \<Rightarrow> string \<Rightarrow> (nat \<times> string) option" where
  "object_write as buf = object_write_loop as 0 buf"




text \<open>The whole text, and which keys and values can be told apart in it.\<close>

definition attrs_text :: "attr list \<Rightarrow> string" where
  "attrs_text as = concat (map (\<lambda>a. a_key a @ '': '' @ the (a_val a) @ [LF]) as)"




lemma write_step_length:
  "object_write_step a len buf = Some (len', buf') \<Longrightarrow>
   len' = len + length (attrs_text [a]) \<and> len' < length buf' \<and> length buf' = length buf"
  by (auto simp: object_write_step_def attr_text_def attrs_text_def Let_def split: if_splits option.splits)

lemma object_write_loop_overrun:
  "len < length buf \<Longrightarrow> length buf \<le> len + length (attrs_text as) \<Longrightarrow> object_write_loop as len buf = None"
proof (induction as arbitrary: len buf)
  case (Cons a as)
  have "attrs_text (a # as) = attrs_text [a] @ attrs_text as" by (simp add: attrs_text_def)
  then show ?case using Cons write_step_length [of a len buf]
    by (cases "object_write_step a len buf") auto
qed (simp add: attrs_text_def)








text \<open>
  C33: Writing does not stop at the end of the buffer. When the text is at least as long as the
  buffer, the loop follows the length that \<^verbatim>\<open>snprintf\<close> would have needed, and stores a line end
  behind the buffer.
\<close>

theorem object_write_overruns:
  assumes "buf \<noteq> []" "length buf \<le> length (attrs_text as)"
  shows "object_write as buf = None"
  using object_write_loop_overrun [of 0 buf as] assms by (simp add: object_write_def)

theorem object_write_overruns_witness:
  "object_write [\<lparr>a_key = ''sess.id'', a_val = Some ''42'', a_flags = 0\<rparr>] (replicate 8 NUL) = None"
  by (rule object_write_overruns) (simp_all add: attrs_text_def)

end
