(* ===== verification/Page.thy ===== *)
theory Page
  imports Prelude
begin

text \<open>
  Model of \<^verbatim>\<open>mem/page.h\<close> and of the page map set-up of \<^verbatim>\<open>mem/map.c\<close>: an array of
  equally large pages behind a header, with the free pages linked through their \<^verbatim>\<open>avail\<close>
  fields. The pages are kept by address; a result \<open>None\<close> is an access outside the array.
  The system calls of \<^verbatim>\<open>map.c\<close> (\<^verbatim>\<open>open\<close>, \<^verbatim>\<open>ftruncate\<close>, \<^verbatim>\<open>mmap\<close>) are not
  modelled; the address they map the file to is a parameter.
\<close>

section \<open>Data\<close>

record pagemap =
  pm_size :: u64
  pm_magic :: u32
  pm_list :: u32
  pm_avail :: u32
  pm_parts :: u32
  pm_total :: u32
  pm_shift :: nat
  pm_parts_max :: u16
  pm_init :: u16
  pm_align :: u16
  pm_page :: addr

record page =
  pg_hdr :: u32
  pg_chk :: u32
  pg_rcu :: u64
  pg_avail :: u32
  pg_hash :: u32
  pg_part :: u32

record vm_area =
  pmap :: pagemap
  pages :: "addr \<Rightarrow> page"

definition PAGE_HDR_MAGIC :: u32 where
  "PAGE_HDR_MAGIC = 0x40000000"

definition NO_PAGE :: u32 where
  "NO_PAGE = NOT 0"

section \<open>Addresses of pages\<close>

definition get_page_size :: "pagemap \<Rightarrow> nat" where
  "get_page_size m = 2 ^ pm_shift m"

definition get_page :: "pagemap \<Rightarrow> u32 \<Rightarrow> addr" where
  "get_page m i = pm_page m + unat i * 2 ^ pm_shift m"

definition get_page_safe :: "pagemap \<Rightarrow> u32 \<Rightarrow> addr" where
  "get_page_safe m i = (if i > pm_total m \<or> i = NO_PAGE then ADDR_NULL else get_page m i)"

definition page_index :: "pagemap \<Rightarrow> addr \<Rightarrow> u32" where
  "page_index m a = of_nat ((a - pm_page m) div 2 ^ pm_shift m)"

definition page_offset :: "pagemap \<Rightarrow> addr \<Rightarrow> nat" where
  "page_offset m a = (a - pm_page m) div 2 ^ pm_shift m"

text \<open>The addresses at which the array has a page.\<close>

definition page_ok :: "pagemap \<Rightarrow> addr \<Rightarrow> bool" where
  "page_ok m a \<longleftrightarrow> pm_page m \<le> a \<and> 2 ^ pm_shift m dvd a - pm_page m \<and> (a - pm_page m) div 2 ^ pm_shift m < unat (pm_total m)"

definition read_page :: "addr \<Rightarrow> vm_area \<Rightarrow> page option" where
  "read_page a v = (if page_ok (pmap v) a then Some (pages v a) else None)"

definition write_page :: "addr \<Rightarrow> page \<Rightarrow> vm_area \<Rightarrow> vm_area option" where
  "write_page a p v = (if page_ok (pmap v) a then Some (v\<lparr>pages := (pages v)(a := p)\<rparr>) else None)"

section \<open>Allocation\<close>

definition page_avail :: "vm_area \<Rightarrow> bool" where
  "page_avail v \<longleftrightarrow> pm_list (pmap v) \<noteq> NO_PAGE"

text \<open>The common part of the allocation functions, for the page at \<open>a\<close>.\<close>

definition take_page :: "addr \<Rightarrow> vm_area \<Rightarrow> (addr \<times> vm_area) option" where
  "take_page a v =
     Option.bind (read_page a v) (\<lambda>p.
     Option.bind (write_page a (p\<lparr>pg_hdr := 0\<rparr>) v) (\<lambda>v.
     Some (a, v\<lparr>pmap := (pmap v)\<lparr>pm_list := pg_avail p, pm_avail := pm_avail (pmap v) - 1\<rparr>\<rparr>)))"

definition page_alloc :: "vm_area \<Rightarrow> (addr \<times> vm_area) option" where
  "page_alloc v = take_page (get_page (pmap v) (pm_list (pmap v))) v"

definition page_alloc_rcu :: "vm_area \<Rightarrow> (addr \<times> vm_area) option" where
  "page_alloc_rcu v = take_page (get_page (pmap v) (pm_list (pmap v))) v"

definition page_alloc_safe :: "vm_area \<Rightarrow> (addr \<times> vm_area) option" where
  "page_alloc_safe v =
     (let a = get_page_safe (pmap v) (pm_list (pmap v)) in
      if a = ADDR_NULL then Some (ADDR_NULL, v) else take_page a v)"

definition page_alloc_safe_rcu :: "vm_area \<Rightarrow> (addr \<times> vm_area) option" where
  "page_alloc_safe_rcu v =
     (let a = get_page_safe (pmap v) (pm_list (pmap v)) in
      if a = ADDR_NULL then Some (ADDR_NULL, v) else take_page a v)"

definition page_free :: "addr \<Rightarrow> vm_area \<Rightarrow> vm_area option" where
  "page_free a v =
     Option.bind (read_page a v) (\<lambda>p.
     Option.bind (write_page a (p\<lparr>pg_hdr := NO_PAGE, pg_avail := pm_list (pmap v)\<rparr>) v) (\<lambda>v.
     Some (v\<lparr>pmap := (pmap v)\<lparr>pm_list := page_index (pmap v) a, pm_avail := pm_avail (pmap v) + 1\<rparr>\<rparr>)))"

definition page_free_rcu :: "addr \<Rightarrow> vm_area \<Rightarrow> vm_area option" where
  "page_free_rcu a v = page_free a v"

section \<open>Set-up\<close>

text \<open>
  The loop of \<^verbatim>\<open>page_range_init\<close>, with the last page visited, and the loops of
  \<^verbatim>\<open>vm_area_init\<close> and \<^verbatim>\<open>mmap_pages_init\<close>, over the \<open>k\<close> pages from index \<open>i\<close>.
\<close>

fun range_loop :: "u32 \<Rightarrow> nat \<Rightarrow> addr \<Rightarrow> vm_area \<Rightarrow> (addr \<times> vm_area) option" where
  "range_loop i 0 b v = Some (b, v)"
| "range_loop i (Suc k) b v =
     (let a = get_page (pmap v) i in
      Option.bind (read_page a v) (\<lambda>p.
      Option.bind (write_page a (p\<lparr>pg_hdr := NO_PAGE, pg_part := NO_PAGE, pg_hash := NO_PAGE, pg_avail := i + 1\<rparr>) v)
        (range_loop (i + 1) k a)))"

definition page_range_init :: "u32 \<Rightarrow> u32 \<Rightarrow> vm_area \<Rightarrow> vm_area option" where
  "page_range_init base rng v =
     Option.bind (range_loop base (unat rng - unat base) ADDR_NULL v) (\<lambda>(a, v).
       if a \<noteq> ADDR_NULL
       then Option.bind (read_page a v) (\<lambda>p. write_page a (p\<lparr>pg_avail := NO_PAGE\<rparr>) v)
       else Some v)"

fun each_page_init :: "nat \<Rightarrow> addr \<Rightarrow> vm_area \<Rightarrow> vm_area option" where
  "each_page_init 0 a v = Some v"
| "each_page_init (Suc k) a v =
     (let i = page_index (pmap v) a;
          p = \<lparr>pg_hdr = NO_PAGE, pg_chk = 0, pg_rcu = 0,
               pg_avail = (if pm_total (pmap v) \<le> i then NO_PAGE else i + 1), pg_hash = NO_PAGE, pg_part = NO_PAGE\<rparr>
      in Option.bind (write_page a p v) (each_page_init k (a + 2 ^ pm_shift (pmap v))))"

definition mmap_pages_init :: "vm_area \<Rightarrow> vm_area option" where
  "mmap_pages_init v = each_page_init (unat (pm_total (pmap v))) (get_page (pmap v) 0) v"

definition vm_area_size :: "nat \<Rightarrow> u32 \<Rightarrow> u64" where
  "vm_area_size shift tot =
     ucast (of_nat CPU_PAGE_SIZE + align_to (push_bit shift 1 * tot) (of_nat CPU_PAGE_SIZE))"

definition vm_area_validate :: "pagemap \<Rightarrow> u64 \<Rightarrow> bool" where
  "vm_area_validate m file_size \<longleftrightarrow>
     pm_magic m \<noteq> PAGE_HDR_MAGIC \<or> pm_size m \<noteq> vm_area_size (pm_shift m) (pm_total m) \<or> pm_size m \<noteq> file_size"

text \<open>\<^verbatim>\<open>vm_area_init\<close> after the file has been mapped at \<open>a\<close>.\<close>

definition vm_area_init :: "addr \<Rightarrow> nat \<Rightarrow> u32 \<Rightarrow> (addr \<Rightarrow> page) \<Rightarrow> vm_area option" where
  "vm_area_init a shift tot mem =
     (let m = \<lparr>pm_size = vm_area_size shift tot, pm_magic = PAGE_HDR_MAGIC, pm_list = 0, pm_avail = tot, pm_parts = 0,
               pm_total = tot, pm_shift = shift, pm_parts_max = 0, pm_init = 1, pm_align = of_nat CPU_STRUCT_ALIGN,
               pm_page = a + CPU_PAGE_SIZE\<rparr>
      in mmap_pages_init \<lparr>pmap = m, pages = mem\<rparr>)"

text \<open>\<^verbatim>\<open>vm_area_open\<close> after the file of \<open>file_size\<close> bytes, with header \<open>m\<close>, has been mapped at \<open>a\<close>.\<close>

definition vm_area_open :: "addr \<Rightarrow> u64 \<Rightarrow> pagemap \<Rightarrow> pagemap option" where
  "vm_area_open a file_size m =
     (if vm_area_validate m file_size then None
      else Some \<lparr>pm_size = 0, pm_magic = 0, pm_list = 0, pm_avail = 0, pm_parts = 0, pm_total = 0, pm_shift = 0,
                 pm_parts_max = 0, pm_init = 0, pm_align = 0, pm_page = a + CPU_PAGE_SIZE\<rparr>)"

section \<open>Facts on page addresses\<close>

text \<open>The address of the page with number \<open>j\<close>.\<close>

definition nth_page :: "pagemap \<Rightarrow> nat \<Rightarrow> addr" where
  "nth_page m j = pm_page m + j * 2 ^ pm_shift m"

definition n_pages :: "vm_area \<Rightarrow> nat" where
  "n_pages v = unat (pm_total (pmap v))"

lemma nth_page_inj [simp]: "nth_page m i = nth_page m j \<longleftrightarrow> i = j"
  by (simp add: nth_page_def)

lemma page_ok_nth [simp]: "page_ok m (nth_page m j) \<longleftrightarrow> j < unat (pm_total m)"
  by (simp add: page_ok_def nth_page_def)

lemma get_page_nth: "j < 2 ^ 32 \<Longrightarrow> get_page m (of_nat j) = nth_page m j"
  by (simp add: get_page_def nth_page_def unat_of_nat)

lemma total_less: "unat (i :: u32) < 2 ^ 32"
  by (rule order_less_le_trans [OF unsigned_less]) simp

lemma n_pages_less: "n_pages v < 2 ^ 32"
  unfolding n_pages_def by (rule total_less)

lemma page_index_nth: "page_index m (nth_page m j) = of_nat j"
  by (simp add: page_index_def nth_page_def)

lemma page_okE: "page_ok m a \<Longrightarrow> (\<And>j. a = nth_page m j \<Longrightarrow> j < unat (pm_total m) \<Longrightarrow> P) \<Longrightarrow> P"
  unfolding page_ok_def nth_page_def by (metis dvd_div_mult_self le_add_diff_inverse)

text \<open>A list index below the number of pages is neither the end mark nor beyond the array.\<close>

lemma get_page_safe_nth:
  assumes "j < n_pages v" "pm_page (pmap v) \<noteq> 0"
  shows "get_page_safe (pmap v) (of_nat j) = nth_page (pmap v) j" and "nth_page (pmap v) j \<noteq> ADDR_NULL"
proof -
  have j: "j < 2 ^ 32" using assms(1) n_pages_less [of v] by simp
  then have u: "unat (of_nat j :: u32) = j" by (simp add: unat_of_nat)
  then have "(of_nat j :: u32) < pm_total (pmap v)" using assms(1) by (simp add: word_less_nat_alt n_pages_def)
  moreover from this have "of_nat j \<noteq> NO_PAGE" by (auto simp: NO_PAGE_def)
  ultimately show "get_page_safe (pmap v) (of_nat j) = nth_page (pmap v) j"
    using j by (auto simp: get_page_safe_def get_page_nth)
  show "nth_page (pmap v) j \<noteq> ADDR_NULL" using assms(2) by (simp add: nth_page_def ADDR_NULL_def)
qed

section \<open>The free list\<close>

fun fchain :: "vm_area \<Rightarrow> u32 \<Rightarrow> nat list \<Rightarrow> bool" where
  "fchain v l [] = (l = NO_PAGE)"
| "fchain v l (j # js) = (l = of_nat j \<and> j < n_pages v \<and> fchain v (pg_avail (pages v (nth_page (pmap v) j))) js)"

definition vm_inv :: "vm_area \<Rightarrow> nat list \<Rightarrow> bool" where
  "vm_inv v fs \<longleftrightarrow> fchain v (pm_list (pmap v)) fs \<and> distinct fs \<and> pm_avail (pmap v) = of_nat (length fs) \<and>
     pm_page (pmap v) \<noteq> 0"

lemma fchain_bound: "fchain v l fs \<Longrightarrow> set fs \<subseteq> {..<n_pages v}"
  by (induction fs arbitrary: l) auto

lemma fchain_cong:
  assumes "pm_total (pmap w) = pm_total (pmap v)" "pm_page (pmap w) = pm_page (pmap v)" "pm_shift (pmap w) = pm_shift (pmap v)"
    and "\<And>j. j \<in> set fs \<Longrightarrow> pg_avail (pages w (nth_page (pmap v) j)) = pg_avail (pages v (nth_page (pmap v) j))"
  shows "fchain w l fs = fchain v l fs"
  using assms by (induction fs arbitrary: l) (auto simp: n_pages_def nth_page_def)

lemma page_alloc_safe_Nil:
  assumes "vm_inv v []"
  shows "page_alloc_safe v = Some (ADDR_NULL, v)"
  using assms by (simp add: vm_inv_def page_alloc_safe_def get_page_safe_def)

lemma page_alloc_safe_Cons:
  assumes inv: "vm_inv v (j # fs)"
  obtains w where "page_alloc_safe v = Some (nth_page (pmap v) j, w)" and "page_alloc v = Some (nth_page (pmap v) j, w)"
    and "vm_inv w fs" and "nth_page (pmap w) = nth_page (pmap v)" and "n_pages w = n_pages v"
proof -
  let ?a = "nth_page (pmap v) j"
  let ?p = "pages v ?a"
  let ?w = "v\<lparr>pages := (pages v)(?a := ?p\<lparr>pg_hdr := 0\<rparr>),
    pmap := (pmap v)\<lparr>pm_list := pg_avail ?p, pm_avail := pm_avail (pmap v) - 1\<rparr>\<rparr>"
  have l: "pm_list (pmap v) = of_nat j" "j < n_pages v" "pm_page (pmap v) \<noteq> 0"
    using inv by (auto simp: vm_inv_def)
  note g = get_page_safe_nth [OF l(2,3)]
  have ok: "page_ok (pmap v) ?a" using l(2) by (simp add: n_pages_def)
  have take: "take_page ?a v = Some (?a, ?w)"
    using ok by (simp add: take_page_def read_page_def write_page_def)
  have "get_page (pmap v) (of_nat j) = ?a" using l(2) n_pages_less [of v] by (intro get_page_nth) simp
  then have "page_alloc v = Some (?a, ?w)" using take by (simp add: page_alloc_def l(1))
  moreover have "page_alloc_safe v = Some (?a, ?w)" using take g by (simp add: page_alloc_safe_def l(1) Let_def)
  moreover have "fchain ?w l fs = fchain v l fs" for l by (rule fchain_cong) auto
  then have "vm_inv ?w fs" using inv by (simp add: vm_inv_def)
  ultimately show ?thesis by (intro that [of ?w]) (auto simp: nth_page_def n_pages_def)
qed

lemma page_free_Cons:
  assumes inv: "vm_inv v fs" and j: "j < n_pages v" "j \<notin> set fs"
  obtains w where "page_free (nth_page (pmap v) j) v = Some w" and "vm_inv w (j # fs)"
    and "nth_page (pmap w) = nth_page (pmap v)" and "n_pages w = n_pages v"
proof -
  let ?a = "nth_page (pmap v) j"
  let ?w = "v\<lparr>pages := (pages v)(?a := (pages v ?a)\<lparr>pg_hdr := NO_PAGE, pg_avail := pm_list (pmap v)\<rparr>),
    pmap := (pmap v)\<lparr>pm_list := of_nat j, pm_avail := pm_avail (pmap v) + 1\<rparr>\<rparr>"
  have ok: "page_ok (pmap v) ?a" using j(1) by (simp add: n_pages_def)
  have free: "page_free ?a v = Some ?w"
    using ok by (simp add: page_free_def read_page_def write_page_def page_index_nth)
  have "fchain ?w l fs = fchain v l fs" for l using j(2) by (intro fchain_cong) auto
  moreover have "n_pages ?w = n_pages v" "nth_page (pmap ?w) = nth_page (pmap v)" by (simp_all add: n_pages_def nth_page_def fun_eq_iff)
  ultimately show ?thesis using free inv j by (intro that [of ?w]) (auto simp: vm_inv_def add.commute)
qed

section \<open>Set-up\<close>

lemma range_loop_ok:
  assumes "i + k \<le> n_pages v"
  shows "\<exists>w. range_loop (of_nat i) k b v = Some (if k = 0 then b else nth_page (pmap v) (i + k - 1), w) \<and> pmap w = pmap v \<and>
    (\<forall>j. i \<le> j \<and> j < i + k \<longrightarrow> pg_avail (pages w (nth_page (pmap v) j)) = of_nat (Suc j))
    \<and> (\<forall>j < i. pages w (nth_page (pmap v) j) = pages v (nth_page (pmap v) j))"
  using assms
proof (induction k arbitrary: i b v)
  case (Suc k)
  let ?a = "nth_page (pmap v) i"
  have i: "i < n_pages v" "i < 2 ^ 32" using Suc.prems n_pages_less [of v] by simp_all
  let ?v = "v\<lparr>pages := (pages v)(?a := (pages v ?a)\<lparr>pg_hdr := NO_PAGE, pg_part := NO_PAGE, pg_hash := NO_PAGE,
    pg_avail := of_nat i + 1\<rparr>)\<rparr>"
  have "range_loop (of_nat i) (Suc k) b v = range_loop (of_nat (Suc i)) k ?a ?v"
    using i by (simp add: get_page_nth read_page_def write_page_def n_pages_def Let_def add.commute)
  moreover obtain w where w: "range_loop (of_nat (Suc i)) k ?a ?v = Some (if k = 0 then ?a else nth_page (pmap v) (Suc i + k - 1), w)"
    "pmap w = pmap v" "\<forall>j. Suc i \<le> j \<and> j < Suc i + k \<longrightarrow> pg_avail (pages w (nth_page (pmap v) j)) = of_nat (Suc j)"
    "\<forall>j < Suc i. pages w (nth_page (pmap v) j) = pages ?v (nth_page (pmap v) j)"
    using Suc.IH [of "Suc i" ?v ?a] Suc.prems by (auto simp: n_pages_def)
  moreover have "pg_avail (pages w (nth_page (pmap v) j)) = of_nat (Suc j)" if "i \<le> j" "j < i + Suc k" for j
    using w(3,4) that by (cases "j = i") auto
  ultimately show ?case by auto
qed auto

lemma fchain_upto:
  assumes "\<forall>j. Suc j < n_pages v \<longrightarrow> pg_avail (pages v (nth_page (pmap v) j)) = of_nat (Suc j)"
    and "\<forall>j. Suc j = n_pages v \<longrightarrow> pg_avail (pages v (nth_page (pmap v) j)) = NO_PAGE"
  shows "k + i = n_pages v \<Longrightarrow> i < n_pages v \<Longrightarrow> fchain v (of_nat i) [i..<n_pages v]"
proof (induction k arbitrary: i)
  case (Suc k)
  show ?case
  proof (cases "Suc i = n_pages v")
    case True
    then show ?thesis using Suc assms by (simp add: upt_rec)
  next
    case False
    then have "fchain v (of_nat (Suc i)) [Suc i..<n_pages v]" using Suc by (intro Suc.IH) auto
    then show ?thesis using Suc.prems False assms(1) by (simp add: upt_conv_Cons)
  qed
qed simp

lemma page_range_init_ok:
  assumes "pm_list (pmap v) = 0" "pm_avail (pmap v) = pm_total (pmap v)" "pm_page (pmap v) \<noteq> 0" "0 < n_pages v"
  obtains w where "page_range_init 0 (pm_total (pmap v)) v = Some w" and "vm_inv w [0..<n_pages w]"
    and "n_pages w = n_pages v" and "nth_page (pmap w) = nth_page (pmap v)"
proof -
  let ?n = "n_pages v"
  obtain w where w: "range_loop (of_nat 0) ?n ADDR_NULL v = Some (if ?n = 0 then ADDR_NULL else nth_page (pmap v) (0 + ?n - 1), w)"
    "pmap w = pmap v" "\<forall>j. 0 \<le> j \<and> j < 0 + ?n \<longrightarrow> pg_avail (pages w (nth_page (pmap v) j)) = of_nat (Suc j)"
    using range_loop_ok [of 0 ?n v ADDR_NULL] by auto
  let ?a = "nth_page (pmap v) (?n - 1)"
  let ?w = "w\<lparr>pages := (pages w)(?a := (pages w ?a)\<lparr>pg_avail := NO_PAGE\<rparr>)\<rparr>"
  have nn: "?a \<noteq> ADDR_NULL" using assms(3) by (simp add: nth_page_def ADDR_NULL_def)
  have ok: "page_ok (pmap w) ?a" using assms(4) w(2) by (simp add: n_pages_def)
  have n: "n_pages ?w = ?n" "nth_page (pmap ?w) = nth_page (pmap v)" using w(2) by (simp_all add: n_pages_def)
  have "page_range_init 0 (pm_total (pmap v)) v = Some ?w"
    using w(1) assms(4) nn ok by (simp add: page_range_init_def n_pages_def read_page_def write_page_def)
  moreover have "fchain ?w (of_nat 0) [0..<n_pages ?w]"
    using w(2,3) assms(4) by (intro fchain_upto [where k = ?n]) (auto simp: n_pages_def)
  then have "vm_inv ?w [0..<n_pages ?w]"
    using assms w(2) n by (simp add: vm_inv_def n_pages_def)
  ultimately show ?thesis using that n by blast
qed

section \<open>Use of a page map\<close>

text \<open>
  The states of a page map together with the pages its clients hold: pages are handed out by
  \<^verbatim>\<open>page_alloc_safe\<close>, which may find none left, and held pages are given back.
\<close>

inductive page_step :: "vm_area \<times> addr set \<Rightarrow> vm_area \<times> addr set \<Rightarrow> bool" where
  alloc: "page_alloc_safe v = Some (a, w) \<Longrightarrow> a \<noteq> ADDR_NULL \<Longrightarrow> page_step (v, U) (w, insert a U)"
| none: "page_alloc_safe v = Some (ADDR_NULL, w) \<Longrightarrow> page_step (v, U) (w, U)"
| free: "a \<in> U \<Longrightarrow> page_free a v = Some w \<Longrightarrow> page_step (v, U) (w, U - {a})"

inductive_cases page_stepE: "page_step s t"

definition all_pages :: "vm_area \<Rightarrow> addr set" where
  "all_pages v = nth_page (pmap v) ` {..<n_pages v}"

definition held_inv :: "vm_area \<times> addr set \<Rightarrow> bool" where
  "held_inv s \<longleftrightarrow> (\<exists>fs. vm_inv (fst s) fs \<and> snd s = all_pages (fst s) - nth_page (pmap (fst s)) ` set fs)"

lemma held_inv_step:
  assumes "page_step s t" and "held_inv s"
  shows "held_inv t \<and> all_pages (fst t) = all_pages (fst s)"
  using assms
proof (cases rule: page_step.cases)
  case (alloc v a w U)
  obtain fs where inv: "vm_inv v fs" and U: "U = all_pages v - nth_page (pmap v) ` set fs"
    using assms(2) alloc by (auto simp: held_inv_def)
  obtain j gs where fs: "fs = j # gs" using inv alloc page_alloc_safe_Nil [of v] by (cases fs) auto
  from inv [unfolded fs] obtain w' where w: "page_alloc_safe v = Some (nth_page (pmap v) j, w')" "vm_inv w' gs"
    "nth_page (pmap w') = nth_page (pmap v)" "n_pages w' = n_pages v"
    by (rule page_alloc_safe_Cons) blast
  have "j < n_pages v" "j \<notin> set gs" using inv by (auto simp: fs vm_inv_def)
  then have "insert a U = all_pages w - nth_page (pmap w) ` set gs"
    using w alloc by (auto simp: U fs all_pages_def)
  then show ?thesis using w alloc by (auto simp: held_inv_def all_pages_def)
next
  case (none v w U)
  obtain fs where inv: "vm_inv v fs" and U: "U = all_pages v - nth_page (pmap v) ` set fs"
    using assms(2) none by (auto simp: held_inv_def)
  have "fs = []"
  proof (cases fs)
    case (Cons j gs)
    then have "j < n_pages v" "pm_page (pmap v) \<noteq> 0" using inv by (auto simp: vm_inv_def)
    moreover obtain w' where "page_alloc_safe v = Some (nth_page (pmap v) j, w')"
      using inv [unfolded Cons] by (rule page_alloc_safe_Cons) blast
    ultimately show ?thesis using get_page_safe_nth(2) [of j v] none by simp
  qed simp
  then show ?thesis using inv U none page_alloc_safe_Nil [of v] by (auto simp: held_inv_def)
next
  case (free a U v w)
  obtain fs where inv: "vm_inv v fs" and U: "U = all_pages v - nth_page (pmap v) ` set fs"
    using assms(2) free by (auto simp: held_inv_def)
  obtain j where j: "a = nth_page (pmap v) j" "j < n_pages v" "j \<notin> set fs"
    using free(3) U by (auto simp: all_pages_def)
  from inv j(2,3) obtain w' where w: "page_free (nth_page (pmap v) j) v = Some w'" "vm_inv w' (j # fs)"
    "nth_page (pmap w') = nth_page (pmap v)" "n_pages w' = n_pages v"
    by (rule page_free_Cons) blast
  have "U - {a} = all_pages w' - nth_page (pmap w') ` set (j # fs)" using w(3,4) by (auto simp: U all_pages_def j(1))
  then show ?thesis using w free j by (auto simp: held_inv_def all_pages_def)
qed

lemma held_inv_run:
  "page_step\<^sup>*\<^sup>* s t \<Longrightarrow> held_inv s \<Longrightarrow> held_inv t \<and> all_pages (fst t) = all_pages (fst s)"
  by (induction rule: rtranclp_induct) (auto dest: held_inv_step)

text \<open>
  C18: The page allocator hands out every page to one holder at a time. In every state that is
  reached from a map set up by \<^verbatim>\<open>page_range_init\<close>, by allocations and by giving held pages
  back, an allocation returns a page of the map that nobody holds, and the null pointer exactly
  when all pages are held; the count of available pages is right; and giving back a held page
  succeeds.
\<close>

theorem page_alloc_exclusive:
  assumes "pm_list (pmap v) = 0" and "pm_avail (pmap v) = pm_total (pmap v)" and "pm_page (pmap v) \<noteq> 0" and "0 < n_pages v"
    and "page_range_init 0 (pm_total (pmap v)) v = Some v0" and "page_step\<^sup>*\<^sup>* (v0, {}) (w, U)"
  shows "U \<subseteq> all_pages v \<and> unat (pm_avail (pmap w)) = n_pages v - card U \<and>
    (\<forall>a \<in> U. \<exists>w'. page_free a w = Some w') \<and>
    (\<exists>a w'. page_alloc_safe w = Some (a, w') \<and>
      (if U = all_pages v then a = ADDR_NULL \<and> w' = w else a \<in> all_pages v - U))"
proof -
  obtain v1 where v1: "page_range_init 0 (pm_total (pmap v)) v = Some v1" "vm_inv v1 [0..<n_pages v1]"
    "n_pages v1 = n_pages v" "nth_page (pmap v1) = nth_page (pmap v)"
    using assms(1-4) by (rule page_range_init_ok)
  then have v0: "v1 = v0" using assms(5) by simp
  have all0: "all_pages v0 = all_pages v" using v1 v0 by (simp add: all_pages_def)
  have "held_inv (v0, {})" using v1 by (auto simp: v0 held_inv_def all_pages_def)
  from held_inv_run [OF assms(6) this] obtain fs where inv: "vm_inv w fs" and all: "all_pages w = all_pages v"
    and U: "U = all_pages w - nth_page (pmap w) ` set fs"
    by (auto simp: held_inv_def all0)
  have sub: "set fs \<subseteq> {..<n_pages w}" and dist: "distinct fs" using inv fchain_bound by (auto simp: vm_inv_def)
  have inj: "inj_on (nth_page (pmap w)) A" for A by (simp add: inj_on_def)
  have nw: "n_pages w = n_pages v"
    using arg_cong [OF all, of card] by (simp add: all_pages_def card_image inj_on_def)
  have "card U = n_pages w - length fs"
  proof -
    have "U = nth_page (pmap w) ` ({..<n_pages w} - set fs)" unfolding U all_pages_def by auto
    then show ?thesis using sub dist by (simp add: card_image [OF inj] card_Diff_subset distinct_card)
  qed
  moreover have len: "length fs \<le> n_pages w" using sub dist distinct_card [OF dist] card_mono [OF _ sub] by simp
  moreover have "unat (pm_avail (pmap w)) = length fs"
    using inv len n_pages_less [of w] by (simp add: vm_inv_def unat_of_nat)
  ultimately have avail: "unat (pm_avail (pmap w)) = n_pages v - card U" using nw by simp
  have free: "\<exists>w'. page_free a w = Some w'" if "a \<in> U" for a
  proof -
    obtain j where "a = nth_page (pmap w) j" "j < n_pages w" "j \<notin> set fs" using \<open>a \<in> U\<close> by (auto simp: U all_pages_def)
    then show ?thesis using page_free_Cons [OF inv] by metis
  qed
  have "\<exists>a w'. page_alloc_safe w = Some (a, w') \<and> (if U = all_pages v then a = ADDR_NULL \<and> w' = w else a \<in> all_pages v - U)"
  proof (cases fs)
    case Nil
    then show ?thesis using page_alloc_safe_Nil [of w] inv U all by simp
  next
    case (Cons j gs)
    then have j: "nth_page (pmap w) j \<in> all_pages w - U" using sub by (auto simp: U all_pages_def)
    obtain w' where "page_alloc_safe w = Some (nth_page (pmap w) j, w')"
      using inv [unfolded Cons] by (rule page_alloc_safe_Cons) blast
    then show ?thesis using j all by auto
  qed
  then show ?thesis using avail free U all by auto
qed

definition blank_page :: page where
  "blank_page = \<lparr>pg_hdr = 0, pg_chk = 0, pg_rcu = 0, pg_avail = 0, pg_hash = 0, pg_part = 0\<rparr>"

definition small_map :: "u32 \<Rightarrow> vm_area" where
  "small_map n = \<lparr>pmap = \<lparr>pm_size = 0, pm_magic = PAGE_HDR_MAGIC, pm_list = 0, pm_avail = n, pm_parts = 0, pm_total = n,
      pm_shift = 12, pm_parts_max = 0, pm_init = 1, pm_align = 8, pm_page = 4096\<rparr>, pages = \<lambda>a. blank_page\<rparr>"

theorem page_alloc_exclusive_witness:
  "\<exists>v0 a w'. page_range_init 0 2 (small_map 2) = Some v0 \<and> page_alloc_safe v0 = Some (a, w') \<and> a \<in> {4096, 8192}"
proof -
  have v: "pm_list (pmap (small_map 2)) = 0" "pm_avail (pmap (small_map 2)) = pm_total (pmap (small_map 2))"
    "pm_page (pmap (small_map 2)) \<noteq> 0" "0 < n_pages (small_map 2)" "pm_total (pmap (small_map 2)) = 2"
    by (simp_all add: small_map_def n_pages_def)
  then obtain v0 where v0: "page_range_init 0 (pm_total (pmap (small_map 2))) (small_map 2) = Some v0"
    by (elim page_range_init_ok) auto
  have all: "all_pages (small_map 2) = {4096, 8192}"
  proof -
    have "n_pages (small_map 2) = 2" by (simp add: n_pages_def small_map_def)
    moreover have "{..<2 :: nat} = {0, 1}" by auto
    ultimately show ?thesis by (simp add: all_pages_def small_map_def nth_page_def)
  qed
  from page_alloc_exclusive [OF v(1-4) v0 rtranclp.rtrancl_refl] show ?thesis using v0 v(5) unfolding all by auto
qed

section \<open>The set-up of mapped files\<close>

lemma each_page_init_ok:
  assumes "i + k \<le> n_pages v"
  shows "\<exists>w. each_page_init k (nth_page (pmap v) i) v = Some w \<and> pmap w = pmap v \<and>
    (\<forall>j. i \<le> j \<and> j < i + k \<longrightarrow> pg_avail (pages w (nth_page (pmap v) j)) = of_nat (Suc j)) \<and>
    (\<forall>j < i. pages w (nth_page (pmap v) j) = pages v (nth_page (pmap v) j))"
  using assms
proof (induction k arbitrary: i v)
  case (Suc k)
  let ?a = "nth_page (pmap v) i"
  have i: "i < n_pages v" "i < 2 ^ 32" using Suc.prems n_pages_less [of v] by simp_all
  then have "\<not> pm_total (pmap v) \<le> of_nat i" by (simp add: word_le_nat_alt unat_of_nat n_pages_def)
  let ?v = "v\<lparr>pages := (pages v)(?a := \<lparr>pg_hdr = NO_PAGE, pg_chk = 0, pg_rcu = 0, pg_avail = of_nat i + 1,
    pg_hash = NO_PAGE, pg_part = NO_PAGE\<rparr>)\<rparr>"
  have "?a + 2 ^ pm_shift (pmap v) = nth_page (pmap v) (Suc i)" by (simp add: nth_page_def)
  then have "each_page_init (Suc k) ?a v = each_page_init k (nth_page (pmap ?v) (Suc i)) ?v"
    using i \<open>\<not> pm_total (pmap v) \<le> of_nat i\<close> by (simp add: page_index_nth write_page_def n_pages_def Let_def)
  moreover obtain w where w: "each_page_init k (nth_page (pmap ?v) (Suc i)) ?v = Some w" "pmap w = pmap v"
    "\<forall>j. Suc i \<le> j \<and> j < Suc i + k \<longrightarrow> pg_avail (pages w (nth_page (pmap v) j)) = of_nat (Suc j)"
    "\<forall>j < Suc i. pages w (nth_page (pmap v) j) = pages ?v (nth_page (pmap v) j)"
    using Suc.IH [of "Suc i" ?v] Suc.prems by (auto simp: n_pages_def)
  moreover have "pg_avail (pages w (nth_page (pmap v) j)) = of_nat (Suc j)" if "i \<le> j" "j < i + Suc k" for j
    using w(3,4) that by (cases "j = i") auto
  ultimately show ?case by auto
qed auto

fun alloc_times :: "nat \<Rightarrow> vm_area \<Rightarrow> (addr list \<times> vm_area) option" where
  "alloc_times 0 v = Some ([], v)"
| "alloc_times (Suc k) v =
     Option.bind (page_alloc_safe v) (\<lambda>(a, v). map_option (\<lambda>(as, v). (a # as, v)) (alloc_times k v))"

lemma alloc_times_ok:
  assumes "i + k = n_pages v" "pm_list (pmap v) = of_nat i" "pm_avail (pmap v) = of_nat k" "pm_page (pmap v) \<noteq> 0"
    and "\<forall>j. i \<le> j \<and> j < n_pages v \<longrightarrow> pg_avail (pages v (nth_page (pmap v) j)) = of_nat (Suc j)"
  shows "\<exists>w. alloc_times k v = Some (map (nth_page (pmap v)) [i..<n_pages v], w) \<and> pm_list (pmap w) = pm_total (pmap v) \<and>
    pm_avail (pmap w) = 0 \<and> pm_total (pmap w) = pm_total (pmap v) \<and> nth_page (pmap w) = nth_page (pmap v) \<and>
    pm_page (pmap w) = pm_page (pmap v)"
  using assms
proof (induction k arbitrary: i v)
  case 0
  then show ?case by (auto simp: n_pages_def)
next
  case (Suc k)
  let ?a = "nth_page (pmap v) i"
  have i: "i < n_pages v" using Suc.prems(1) by simp
  note g = get_page_safe_nth [OF i Suc.prems(4)]
  let ?w = "v\<lparr>pages := (pages v)(?a := (pages v ?a)\<lparr>pg_hdr := 0\<rparr>),
    pmap := (pmap v)\<lparr>pm_list := pg_avail (pages v ?a), pm_avail := pm_avail (pmap v) - 1\<rparr>\<rparr>"
  have al: "page_alloc_safe v = Some (?a, ?w)"
    using i g by (simp add: page_alloc_safe_def take_page_def read_page_def write_page_def Suc.prems(2) n_pages_def Let_def)
  have same: "nth_page (pmap ?w) = nth_page (pmap v)" "n_pages ?w = n_pages v" by (simp_all add: nth_page_def n_pages_def fun_eq_iff)
  have "\<exists>w'. alloc_times k ?w = Some (map (nth_page (pmap ?w)) [Suc i..<n_pages ?w], w') \<and> pm_list (pmap w') = pm_total (pmap ?w) \<and>
    pm_avail (pmap w') = 0 \<and> pm_total (pmap w') = pm_total (pmap ?w) \<and> nth_page (pmap w') = nth_page (pmap ?w) \<and>
    pm_page (pmap w') = pm_page (pmap ?w)"
    using Suc.prems i same by (intro Suc.IH) auto
  then show ?case using al same i by (auto simp: upt_conv_Cons)
qed

text \<open>
  C34: The set-up of mapped files does not end the free list: after all pages have been handed
  out, each once and in order, the map still seems to have one, the next \<^verbatim>\<open>page_alloc_safe\<close>
  does not return the null pointer but writes to the page behind the end of the array.
\<close>

theorem mmap_pages_init_overruns:
  assumes "pm_list (pmap v) = 0" and "pm_avail (pmap v) = pm_total (pmap v)" and "pm_page (pmap v) \<noteq> 0"
    and "pm_total (pmap v) \<noteq> NO_PAGE"
  shows "\<exists>v0 w. mmap_pages_init v = Some v0 \<and>
    alloc_times (n_pages v) v0 = Some (map (nth_page (pmap v)) [0..<n_pages v], w) \<and>
    pm_avail (pmap w) = 0 \<and> page_avail w \<and> page_alloc_safe w = None"
proof -
  let ?n = "n_pages v"
  have "get_page (pmap v) 0 = nth_page (pmap v) 0" by (simp add: get_page_def nth_page_def)
  moreover obtain v0 where v0: "each_page_init ?n (nth_page (pmap v) 0) v = Some v0" "pmap v0 = pmap v"
    "\<forall>j. 0 \<le> j \<and> j < 0 + ?n \<longrightarrow> pg_avail (pages v0 (nth_page (pmap v) j)) = of_nat (Suc j)"
    using each_page_init_ok [of 0 ?n v] by auto
  ultimately have init: "mmap_pages_init v = Some v0" by (simp add: mmap_pages_init_def n_pages_def)
  have n0: "n_pages v0 = ?n" using v0(2) by (simp add: n_pages_def)
  have "\<exists>w. alloc_times ?n v0 = Some (map (nth_page (pmap v0)) [0..<n_pages v0], w) \<and> pm_list (pmap w) = pm_total (pmap v0) \<and>
    pm_avail (pmap w) = 0 \<and> pm_total (pmap w) = pm_total (pmap v0) \<and> nth_page (pmap w) = nth_page (pmap v0) \<and>
    pm_page (pmap w) = pm_page (pmap v0)"
    using assms v0 n0 by (intro alloc_times_ok) (auto simp: n_pages_def)
  then obtain w where w: "alloc_times ?n v0 = Some (map (nth_page (pmap v)) [0..<?n], w)" "pm_list (pmap w) = pm_total (pmap v)"
    "pm_avail (pmap w) = 0" "pm_total (pmap w) = pm_total (pmap v)" "nth_page (pmap w) = nth_page (pmap v)" "pm_page (pmap w) = pm_page (pmap v)"
    using v0(2) n0 by auto
  have "get_page (pmap w) (pm_total (pmap w)) = nth_page (pmap w) ?n" by (simp add: get_page_def nth_page_def n_pages_def w(4))
  moreover have "nth_page (pmap w) ?n \<noteq> ADDR_NULL" using assms(3) w(6) by (simp add: nth_page_def ADDR_NULL_def)
  moreover have "\<not> page_ok (pmap w) (nth_page (pmap w) ?n)" using w(4) by (simp add: n_pages_def)
  ultimately have "page_alloc_safe w = None"
    using w(2,4) assms(4) by (simp add: page_alloc_safe_def get_page_safe_def take_page_def read_page_def Let_def)
  moreover have "page_avail w" using w(2) assms(4) by (simp add: page_avail_def)
  ultimately show ?thesis using init w by blast
qed

theorem mmap_pages_init_overruns_witness:
  "\<exists>v0 w. mmap_pages_init (small_map 2) = Some v0 \<and> alloc_times 2 v0 = Some ([4096, 8192], w) \<and> page_alloc_safe w = None"
proof -
  have "pm_list (pmap (small_map 2)) = 0" "pm_avail (pmap (small_map 2)) = pm_total (pmap (small_map 2))"
    "pm_page (pmap (small_map 2)) \<noteq> 0" "pm_total (pmap (small_map 2)) \<noteq> NO_PAGE"
    by (simp_all add: small_map_def NO_PAGE_def)
  from mmap_pages_init_overruns [OF this] show ?thesis
    by (auto simp: n_pages_def small_map_def nth_page_def upt_rec)
qed

end
