(* ===== verification/Hash.thy ===== *)
theory Hash
  imports Hlist Unaligned
begin

text \<open>
  Model of \<^verbatim>\<open>generic/hash/fn.h\<close>, the hash functions for integers, pointers and strings, and
  of the inline functions of \<^verbatim>\<open>generic/hash/table.h\<close>, on the 64-bit little-endian build. A
  shift by the full width of a word, which C leaves undefined, gives \<open>None\<close>.
\<close>

section \<open>Integers\<close>

definition HASH_SHIFT_BITS :: nat where
  "HASH_SHIFT_BITS = 7"

definition HASH_RATIO_PRIME_32 :: u32 where
  "HASH_RATIO_PRIME_32 = 0x9e370001"

definition HASH_RATIO_PRIME_64 :: u64 where
  "HASH_RATIO_PRIME_64 = 0x9e37fffffffc0001"

definition hash_64 :: "u64 \<Rightarrow> nat \<Rightarrow> u64 option" where
  "hash_64 val bits =
     (let hash = val;
          n = hash;
          n = push_bit 18 n;
          hash = hash - n;
          n = push_bit 33 n;
          hash = hash - n;
          n = push_bit 3 n;
          hash = hash + n;
          n = push_bit 3 n;
          hash = hash - n;
          n = push_bit 4 n;
          hash = hash + n;
          n = push_bit 2 n;
          hash = hash + n
      in if 0 < bits \<and> bits \<le> 64 then Some (drop_bit (64 - bits) hash) else None)"

definition hash_32 :: "u32 \<Rightarrow> nat \<Rightarrow> u32 option" where
  "hash_32 val bits =
     (let hash = val * HASH_RATIO_PRIME_32
      in if 0 < bits \<and> bits \<le> 32 then Some (drop_bit (32 - bits) hash) else None)"

definition hash_long :: "u64 \<Rightarrow> nat \<Rightarrow> u64 option" where
  "hash_long val bits = hash_64 val bits"

definition hash_ptr :: "addr \<Rightarrow> nat \<Rightarrow> u64 option" where
  "hash_ptr p bits = hash_long (of_nat p) bits"

section \<open>Strings\<close>

text \<open>A string is the memory from its first byte on; a read past the end gives \<open>None\<close>.\<close>

definition hash_string_len_uint :: "u32 \<Rightarrow> nat" where
  "hash_string_len_uint x =
     (let sub = NOT 0 div 0xff; an = sub * 0x80; a = NOT x AND (x - sub) AND an in
      if a = 0 then 4
      else length (takeWhile (\<lambda>i. (ucast (drop_bit (8 * i) x) :: byte) \<noteq> 0) [0..<4]))"

text \<open>The table \<^verbatim>\<open>mhb\<close> is static, never written, hence zero.\<close>

definition mhb :: "u32 list" where
  "mhb = [0, 0, 0, 0]"

function hash_string_aligned :: "byte list \<Rightarrow> u32 \<Rightarrow> u32 option" where
  "hash_string_aligned str hash =
     (if length str < 4 then None
      else let u = get_u32_le str;
               last_len = hash_string_len_uint u;
               hash = rol32 hash HASH_SHIFT_BITS
           in if last_len < 4 then Some (hash XOR (u AND mhb ! last_len))
              else hash_string_aligned (drop 4 str) (hash XOR u))"
  by pat_completeness auto
termination by (relation "measure (length \<circ> fst)") auto

fun hash_bytes :: "nat \<Rightarrow> byte list \<Rightarrow> u32 \<Rightarrow> u32 option" where
  "hash_bytes i [] hash = None"
| "hash_bytes i (c # s) hash =
     (let modulo = i mod 4;
          hash = (if modulo = 0 then rol32 hash HASH_SHIFT_BITS else hash)
      in if c = 0 then Some hash
         else hash_bytes (Suc i) s (hash XOR push_bit (8 * modulo) (ucast c)))"

definition hash_string :: "addr \<Rightarrow> byte list \<Rightarrow> u32 option" where
  "hash_string p str = (if p mod 4 = 0 then hash_string_aligned str 0 else hash_bytes 0 str 0)"

section \<open>Hash tables\<close>

definition hash_init :: "(nat \<Rightarrow> addr) \<Rightarrow> nat \<Rightarrow> hheap \<Rightarrow> hheap" where
  "hash_init bucket_at n h = fold (\<lambda>i h. init_hlist_head (bucket_at i) h) [0..<n] h"

definition hash_hashed :: "addr \<Rightarrow> hheap \<Rightarrow> bool" where
  "hash_hashed node h \<longleftrightarrow> \<not> hlist_unhashed node h"

definition hash_empty :: "(nat \<Rightarrow> addr) \<Rightarrow> nat \<Rightarrow> hheap \<Rightarrow> bool" where
  "hash_empty bucket_at n h = list_all (\<lambda>i. hlist_empty (bucket_at i) h) [0..<n]"

definition hash_del :: "addr \<Rightarrow> hheap \<Rightarrow> hheap option" where
  "hash_del node h = hlist_del_init node h"

section \<open>Correctness\<close>

lemma hash_init_empty: "hash_empty bucket_at n (hash_init bucket_at n h)"
proof -
  have "first (fold (\<lambda>i h. init_hlist_head (bucket_at i) h) is h) (bucket_at j) = ADDR_NULL" if "j \<in> set is" for "is" j
    using that
  proof (induction "is" arbitrary: h)
    case (Cons i "is")
    have keep: "first h (bucket_at j) = ADDR_NULL \<Longrightarrow>
        first (fold (\<lambda>i h. init_hlist_head (bucket_at i) h) js h) (bucket_at j) = ADDR_NULL" for js h
      by (induction js arbitrary: h) (auto simp: init_hlist_head_def)
    show ?case using Cons keep by (cases "j \<in> set is") (auto simp: init_hlist_head_def)
  qed simp
  then show ?thesis by (auto simp: hash_empty_def hash_init_def hlist_empty_def list_all_iff)
qed

text \<open>The reference for strings: little-endian words, the last one filled with zeros.\<close>

fun le_word :: "byte list \<Rightarrow> u32" where
  "le_word [] = 0"
| "le_word (b # bs) = ucast b XOR push_bit 8 (le_word bs)"

fun words_hash :: "byte list \<Rightarrow> u32 \<Rightarrow> u32" where
  "words_hash (a # b # c # d # s) hash = words_hash s (rol32 hash HASH_SHIFT_BITS XOR le_word [a, b, c, d])"
| "words_hash s hash = rol32 hash HASH_SHIFT_BITS XOR le_word s"

declare hash_string_aligned.simps [simp del]

lemma hash_bytes_words:
  assumes "0 \<notin> set s" "i mod 4 = 0"
  shows "hash_bytes i (s @ 0 # t) hash = Some (words_hash s hash)"
  using assms
proof (induction s hash arbitrary: i rule: words_hash.induct)
  case (1 a b c d s hash)
  have m: "Suc i mod 4 = 1" "Suc (Suc i) mod 4 = 2" "Suc (Suc (Suc i)) mod 4 = 3" "Suc (Suc (Suc (Suc i))) mod 4 = 0"
    using 1(3) by presburger+
  then have "hash_bytes (Suc (Suc (Suc (Suc i)))) (s @ 0 # t) (rol32 hash HASH_SHIFT_BITS XOR le_word [a, b, c, d]) =
      Some (words_hash s (rol32 hash HASH_SHIFT_BITS XOR le_word [a, b, c, d]))"
    using 1 by (intro 1(1)) auto
  then show ?case using 1(2,3) m by (simp add: Let_def push_bit_xor ac_simps)
qed (auto simp: Let_def push_bit_xor ac_simps mod_Suc)

lemma hash_64_mult:
  "0 < bits \<Longrightarrow> bits \<le> 64 \<Longrightarrow> hash_64 val bits = Some (drop_bit (64 - bits) (val * HASH_RATIO_PRIME_64))"
  by (simp add: hash_64_def HASH_RATIO_PRIME_64_def push_bit_eq_mult Let_def algebra_simps)

lemma drop_bit_bound:
  fixes w :: "'a::len word"
  assumes "bits \<le> LENGTH('a)"
  shows "unat (drop_bit (LENGTH('a) - bits) w) < 2 ^ bits"
proof -
  have "unat w < 2 ^ LENGTH('a)" by (rule unsigned_less)
  also have "(2 :: nat) ^ LENGTH('a) = 2 ^ bits * 2 ^ (LENGTH('a) - bits)" using assms by (simp flip: power_add)
  finally show ?thesis by (simp add: unat_drop_bit_nat less_mult_imp_div_less)
qed

text \<open>
  The hash functions: the shifts and additions of \<^verbatim>\<open>hash_64\<close> are the multiplication by
  the prime; both integer hashes give the top bits of the product, hence a bucket number of a
  table with as many bits; and the hash of an unaligned string combines its bytes to
  little-endian words, the last one filled with zeros.
\<close>

theorem hash_functions_correct:
  assumes "0 < bits" and "bits \<le> 32" and "0 \<notin> set s" and "p mod 4 \<noteq> 0"
  shows "(\<exists>k. hash_64 v bits = Some k \<and> k = drop_bit (64 - bits) (v * HASH_RATIO_PRIME_64) \<and> unat k < 2 ^ bits) \<and>
    (\<exists>k. hash_32 w bits = Some k \<and> unat k < 2 ^ bits) \<and> hash_string p (s @ 0 # t) = Some (words_hash s 0)"
proof -
  have "unat (drop_bit (64 - bits) x) < 2 ^ bits" for x :: u64 using drop_bit_bound [of bits x] assms by simp
  moreover have "unat (drop_bit (32 - bits) x) < 2 ^ bits" for x :: u32 using drop_bit_bound [of bits x] assms by simp
  ultimately show ?thesis
    using assms by (simp add: hash_64_mult hash_32_def Let_def hash_string_def hash_bytes_words)
qed

theorem hash_functions_correct_witness:
  "hash_string 1 ([97, 98, 99, 100, 101] @ 0 # []) = Some (words_hash [97, 98, 99, 100, 101] 0) \<and>
   (\<exists>k. hash_32 7 5 = Some k \<and> unat k < 2 ^ 5)"
  using hash_functions_correct [of 5 "[97, 98, 99, 100, 101]" 1 0 7 "[]"] by simp

text \<open>
  The aligned path masks the last word with a table of zeros, so the bytes after the last full
  word are lost: all short aligned strings collide, and the hash depends on the address.
\<close>

lemma hash_string_aligned_loses_tail:
  "hash_string 0 [97, 0, 0, 0] = Some 0" "hash_string 0 [98, 0, 0, 0] = Some 0" "hash_string 1 [97, 0, 0, 0] = Some 97"
  by (simp_all add: hash_string_def hash_string_aligned.simps get_u32_le_def hash_string_len_uint_def mhb_def Let_def
    HASH_SHIFT_BITS_def rol32_def upt_rec)

end
