(* ===== verification/Gary.thy ===== *)
theory Gary
  imports Alloc
begin

text \<open>
  Model of \<^verbatim>\<open>generic/gary.c\<close> and \<^verbatim>\<open>generic/gary.h\<close>, growing arrays with their header in front
  of the elements, of \<^verbatim>\<open>generic/gbuf.h\<close>, growing buffers, and of the binary search of
  \<^verbatim>\<open>generic/bsearch.h\<close>. The header of an array is kept by its address; it moves with the block
  it lives in. Sizes are 64-bit numbers with their wrap-around. A null pointer that is written
  through gives \<open>None\<close>.
\<close>

section \<open>Growing arrays\<close>

record gary =
  g_elts :: nat
  g_free :: nat
  g_size :: nat
  g_mem :: mem_ops

record gary_heap =
  ghp :: heap
  hdrs :: "addr \<Rightarrow> gary"

definition GARY_HDR_SIZE :: nat where
  "GARY_HDR_SIZE = 32"

definition gary_hdr :: "addr \<Rightarrow> addr" where
  "gary_hdr p = p - GARY_HDR_SIZE"

definition gary_body :: "addr \<Rightarrow> addr" where
  "gary_body h = h + GARY_HDR_SIZE"

definition wrap64 :: "nat \<Rightarrow> nat" where
  "wrap64 n = n mod 2 ^ 64"

definition set_hdr :: "addr \<Rightarrow> gary \<Rightarrow> gary_heap \<Rightarrow> gary_heap" where
  "set_hdr h g s = s\<lparr>hdrs := (hdrs s)(h := g)\<rparr>"

definition gary_init :: "placement \<Rightarrow> nat \<Rightarrow> nat \<Rightarrow> mem_ops \<Rightarrow> gary_heap \<Rightarrow> (addr \<times> gary_heap) option" where
  "gary_init A sz elts m s =
     Option.bind (m_alloc m A (wrap64 (GARY_HDR_SIZE + sz * elts)) (ghp s)) (\<lambda>(h, hp).
       if h = ADDR_NULL then None
       else Some (gary_body h,
         set_hdr h \<lparr>g_elts = elts, g_free = elts, g_size = sz, g_mem = m\<rparr> (s\<lparr>ghp := hp\<rparr>)))"

definition gary_realloc :: "placement \<Rightarrow> addr \<Rightarrow> nat \<Rightarrow> gary_heap \<Rightarrow> (addr \<times> gary_heap) option" where
  "gary_realloc A h n s =
     (let g = hdrs s h;
          old = g_free g;
          g = g\<lparr>g_free := (if n > wrap64 (2 * g_free g) then n else wrap64 (g_free g * 2))\<rparr>;
          x = wrap64 (GARY_HDR_SIZE + old * g_size g);
          y = wrap64 (GARY_HDR_SIZE + g_free g * g_size g)
      in Option.bind (m_realloc (g_mem g) A h x y (ghp s)) (\<lambda>(h', hp).
           Some (h', set_hdr h' g (s\<lparr>ghp := hp\<rparr>))))"

definition gary_set_size :: "placement \<Rightarrow> addr \<Rightarrow> nat \<Rightarrow> gary_heap \<Rightarrow> (addr \<times> gary_heap) option" where
  "gary_set_size A arr n s =
     (let h = gary_hdr arr; s = set_hdr h ((hdrs s h)\<lparr>g_elts := n\<rparr>) s in
      if n \<le> g_free (hdrs s h) then Some (arr, s)
      else Option.bind (gary_realloc A h n s) (\<lambda>(h, s). Some (gary_body h, s)))"

text \<open>The new array, and the address of the first of the \<open>n\<close> new elements.\<close>

definition gary_push_helper :: "placement \<Rightarrow> addr \<Rightarrow> nat \<Rightarrow> gary_heap \<Rightarrow> (addr \<times> addr \<times> gary_heap) option" where
  "gary_push_helper A arr n s =
     (let h = gary_hdr arr in
      Option.bind (gary_realloc A h (g_elts (hdrs s h)) s) (\<lambda>(h, s).
        Some (gary_body h, gary_body h + (g_elts (hdrs s h) - n) * g_size (hdrs s h), s)))"

definition GARY_PUSH_MULTI :: "placement \<Rightarrow> addr \<Rightarrow> nat \<Rightarrow> gary_heap \<Rightarrow> (addr \<times> addr \<times> gary_heap) option" where
  "GARY_PUSH_MULTI A ptr n s =
     (let h = gary_hdr ptr; g = hdrs s h; c = ptr + g_elts g * g_size g;
          s = set_hdr h (g\<lparr>g_elts := wrap64 (g_elts g + n)\<rparr>) s
      in if g_elts (hdrs s h) > g_free (hdrs s h) then gary_push_helper A ptr n s else Some (ptr, c, s))"

definition gary_fix :: "placement \<Rightarrow> addr \<Rightarrow> gary_heap \<Rightarrow> (addr \<times> gary_heap) option" where
  "gary_fix A arr s =
     (let h = gary_hdr arr; g = hdrs s h in
      if g_elts g \<noteq> g_free g
      then let x = wrap64 (GARY_HDR_SIZE + g_free g * g_size g); y = wrap64 (GARY_HDR_SIZE + g_elts g * g_size g) in
        Option.bind (m_realloc (g_mem g) A h x y (ghp s)) (\<lambda>(h, hp).
          if h = ADDR_NULL then None
          else Some (gary_body h, set_hdr h (g\<lparr>g_free := g_elts g\<rparr>) (s\<lparr>ghp := hp\<rparr>)))
      else Some (gary_body h, s))"

definition gary_free :: "addr \<Rightarrow> gary_heap \<Rightarrow> gary_heap option" where
  "gary_free ptr s =
     (let h = gary_hdr ptr in map_option (\<lambda>hp. s\<lparr>ghp := hp\<rparr>) (m_free (g_mem (hdrs s h)) h (ghp s)))"

section \<open>Growing buffers\<close>

record gbuf =
  b_len :: nat
  b_ptr :: addr

definition gbuf_init :: gbuf where
  "gbuf_init = \<lparr>b_len = 0, b_ptr = ADDR_NULL\<rparr>"

definition gbuf_done :: "gbuf \<Rightarrow> heap \<Rightarrow> (gbuf \<times> heap) option" where
  "gbuf_done b h =
     Option.bind (if b_ptr b \<noteq> ADDR_NULL then xfree (b_ptr b) h else Some h) (\<lambda>h. Some (gbuf_init, h))"

definition gbuf_set_size :: "placement \<Rightarrow> nat \<Rightarrow> gbuf \<Rightarrow> nat \<Rightarrow> heap \<Rightarrow> (gbuf \<times> heap) option" where
  "gbuf_set_size A sz b len h =
     Option.bind (xrealloc A (b_ptr b) (wrap64 (len * sz)) h) (\<lambda>(p, h). Some (\<lparr>b_len = len, b_ptr = p\<rparr>, h))"

definition gbuf_do_grow :: "placement \<Rightarrow> nat \<Rightarrow> gbuf \<Rightarrow> nat \<Rightarrow> heap \<Rightarrow> (gbuf \<times> heap) option" where
  "gbuf_do_grow A sz b len h =
     (let len = (if len < 2 * b_len b mod 2 ^ 32 then 2 * b_len b mod 2 ^ 32 else len)
      in gbuf_set_size A sz b len h)"

definition gbuf_grow :: "placement \<Rightarrow> nat \<Rightarrow> gbuf \<Rightarrow> nat \<Rightarrow> heap \<Rightarrow> (addr \<times> gbuf \<times> heap) option" where
  "gbuf_grow A sz b len h =
     Option.bind (if len > b_len b then gbuf_do_grow A sz b len h else Some (b, h)) (\<lambda>(b, h). Some (b_ptr b, b, h))"

section \<open>Binary search\<close>

text \<open>
  \<^verbatim>\<open>BIN_SEARCH_FIRST_GE_CMP\<close>; \<open>below m\<close> is \<^verbatim>\<open>ary_lt_x(ary, m, x)\<close>, \<open>None\<close> outside the array.
\<close>

partial_function (option) bin_search_loop :: "(u32 \<Rightarrow> bool option) \<Rightarrow> u32 \<Rightarrow> u32 \<Rightarrow> u32 option" where
  "bin_search_loop below l r =
     (if l < r
      then let m = (l + r) div 2 in
        Option.bind (below m) (\<lambda>b. if b then bin_search_loop below (m + 1) r else bin_search_loop below l m)
      else Some l)"

definition BIN_SEARCH_FIRST_GE_CMP :: "u32 \<Rightarrow> (u32 \<Rightarrow> bool option) \<Rightarrow> u32 option" where
  "BIN_SEARCH_FIRST_GE_CMP n below = bin_search_loop below 0 n"

definition ARY_LT_NUM :: "('a :: linorder) list \<Rightarrow> 'a \<Rightarrow> u32 \<Rightarrow> bool option" where
  "ARY_LT_NUM ary x i = (if unat i < length ary then Some (ary ! unat i < x) else None)"

definition BIN_SEARCH_FIRST_GE :: "('a :: linorder) list \<Rightarrow> u32 \<Rightarrow> 'a \<Rightarrow> u32 option" where
  "BIN_SEARCH_FIRST_GE ary n x = BIN_SEARCH_FIRST_GE_CMP n (ARY_LT_NUM ary x)"

text \<open>The index is an \<^verbatim>\<open>int\<close>; \<open>-1\<close> stands for no element.\<close>

definition BIN_SEARCH_EQ :: "('a :: linorder) list \<Rightarrow> u32 \<Rightarrow> 'a \<Rightarrow> int option" where
  "BIN_SEARCH_EQ ary n x =
     Option.bind (BIN_SEARCH_FIRST_GE ary n x) (\<lambda>i.
       if i \<ge> n then Some (- 1)
       else if unat i < length ary then Some (if ary ! unat i \<noteq> x then - 1 else sint i) else None)"

section \<open>Correctness of growing arrays\<close>

text \<open>What the arrays need of their allocator.\<close>

locale allocator =
  fixes m :: mem_ops
  assumes alloc_new: "allocator_ok A \<Longrightarrow> live_ok (live h) \<Longrightarrow> \<exists>q h'. m_alloc m A n h = Some (q, h') \<and> q \<noteq> ADDR_NULL \<and>
      live h' = (q, n) # live h \<and> live_ok (live h')"
    and realloc_grow: "allocator_ok A \<Longrightarrow> live_ok (live h) \<Longrightarrow> (p, x) \<in> set (live h) \<Longrightarrow> x \<le> y \<Longrightarrow>
      \<exists>q h'. m_realloc m A p x y h = Some (q, h') \<and> q \<noteq> ADDR_NULL \<and> live h' = (q, y) # release p (live h) \<and>
        live_ok (live h') \<and> load_bytes q x h' = load_bytes p x h"
begin

definition gary_ok :: "gary_heap \<Rightarrow> addr \<Rightarrow> bool" where
  "gary_ok s arr \<longleftrightarrow>
     (let h = gary_hdr arr; g = hdrs s h in
      GARY_HDR_SIZE \<le> arr \<and> g_mem g = m \<and> g_elts g \<le> g_free g \<and> live_ok (live (ghp s)) \<and>
      GARY_HDR_SIZE + g_free g * g_size g < 2 ^ 64 \<and> (h, GARY_HDR_SIZE + g_free g * g_size g) \<in> set (live (ghp s)))"

lemma init_ok:
  assumes A: "allocator_ok A" and L: "live_ok (live (ghp s))" and n: "GARY_HDR_SIZE + sz * n < 2 ^ 64"
  shows "\<exists>arr s'. gary_init A sz n m s = Some (arr, s') \<and> gary_ok s' arr \<and>
    hdrs s' (gary_hdr arr) = \<lparr>g_elts = n, g_free = n, g_size = sz, g_mem = m\<rparr>"
proof -
  obtain q h' where "m_alloc m A (GARY_HDR_SIZE + sz * n) (ghp s) = Some (q, h')" "q \<noteq> ADDR_NULL"
    "live h' = (q, GARY_HDR_SIZE + sz * n) # live (ghp s)" "live_ok (live h')"
    using alloc_new [OF A L] by blast
  then show ?thesis
    using n by (auto simp: gary_init_def wrap64_def gary_body_def set_hdr_def gary_ok_def gary_hdr_def Let_def mult.commute)
qed

text \<open>The array after a reallocation that makes room for \<open>n\<close> elements.\<close>

lemma realloc_ok:
  assumes A: "allocator_ok A" and L: "live_ok (live (ghp s))" and g: "g = hdrs s h" "g_mem g = m" "g_elts g = n"
    and blk: "(h, GARY_HDR_SIZE + g_free g * g_size g) \<in> set (live (ghp s))" and n: "g_free g < n"
    and lim: "GARY_HDR_SIZE + max n (2 * g_free g) * g_size g < 2 ^ 64" "max n (2 * g_free g) < 2 ^ 64"
  shows "\<exists>h' s'. gary_realloc A h n s = Some (h', s') \<and> gary_ok s' (gary_body h') \<and>
    hdrs s' h' = g\<lparr>g_free := max n (2 * g_free g)\<rparr> \<and>
    load_bytes (gary_body h') (g_free g * g_size g) (ghp s') = load_bytes (gary_body h) (g_free g * g_size g) (ghp s)"
proof -
  let ?f = "max n (2 * g_free g)" and ?x = "GARY_HDR_SIZE + g_free g * g_size g"
  let ?y = "GARY_HDR_SIZE + ?f * g_size g"
  have f: "(if n > wrap64 (2 * g_free g) then n else wrap64 (g_free g * 2)) = ?f"
    using lim(2) by (auto simp: wrap64_def mult.commute)
  have xy: "?x \<le> ?y" using n by (intro add_left_mono mult_right_mono) auto
  then have x64: "?x < 2 ^ 64" using lim(1) by (rule order_le_less_trans)
  obtain q h' where r: "m_realloc m A h ?x ?y (ghp s) = Some (q, h')" "live h' = (q, ?y) # release h (live (ghp s))"
    "live_ok (live h')" "load_bytes q ?x h' = load_bytes h ?x (ghp s)"
    using realloc_grow [OF A L blk xy] by blast
  let ?s = "set_hdr q (g\<lparr>g_free := ?f\<rparr>) (s\<lparr>ghp := h'\<rparr>)"
  have "gary_realloc A h n s = Some (q, ?s)"
    using r(1) f x64 lim(1) g(2) unfolding gary_realloc_def g(1) [symmetric] Let_def by (simp add: wrap64_def)
  moreover have "gary_ok ?s (gary_body q)"
    using r(2,3) g n lim(1) by (auto simp: gary_ok_def gary_body_def gary_hdr_def set_hdr_def Let_def)
  moreover have "load_bytes (q + GARY_HDR_SIZE) (g_free g * g_size g) h' = load_bytes (h + GARY_HDR_SIZE) (g_free g * g_size g) (ghp s)"
    using r(4) by (rule load_sub) simp
  ultimately show ?thesis by (simp add: set_hdr_def gary_body_def)
qed

lemma push_ok:
  assumes A: "allocator_ok A" and ok: "gary_ok s arr" and g: "g = hdrs s (gary_hdr arr)"
    and lim: "GARY_HDR_SIZE + max (g_elts g + n) (2 * g_free g) * g_size g < 2 ^ 64" "max (g_elts g + n) (2 * g_free g) < 2 ^ 64"
  shows "\<exists>arr' c s'. GARY_PUSH_MULTI A arr n s = Some (arr', c, s') \<and> gary_ok s' arr' \<and>
    g_elts (hdrs s' (gary_hdr arr')) = g_elts g + n \<and> g_size (hdrs s' (gary_hdr arr')) = g_size g \<and>
    c = arr' + g_elts g * g_size g \<and>
    load_bytes arr' (g_elts g * g_size g) (ghp s') = load_bytes arr (g_elts g * g_size g) (ghp s)"
proof -
  let ?h = "gary_hdr arr" and ?e = "g_elts g + n"
  let ?g = "g\<lparr>g_elts := ?e\<rparr>"
  let ?s = "set_hdr ?h ?g s"
  have o: "GARY_HDR_SIZE \<le> arr" "g_mem g = m" "g_elts g \<le> g_free g" "live_ok (live (ghp s))"
    "(?h, GARY_HDR_SIZE + g_free g * g_size g) \<in> set (live (ghp s))" "GARY_HDR_SIZE + g_free g * g_size g < 2 ^ 64"
    using ok by (auto simp: gary_ok_def g Let_def)
  have arr: "gary_body ?h = arr" using o(1) by (simp add: gary_body_def gary_hdr_def)
  have e: "wrap64 ?e = ?e" using lim(2) by (simp add: wrap64_def)
  have hdr: "hdrs ?s ?h = ?g" "ghp ?s = ghp s" by (simp_all add: set_hdr_def)
  show ?thesis
  proof (cases "?e \<le> g_free g")
    case True
    then have "GARY_PUSH_MULTI A arr n s = Some (arr, arr + g_elts g * g_size g, ?s)"
      unfolding GARY_PUSH_MULTI_def g [symmetric] Let_def e hdr by simp
    moreover have "gary_ok ?s arr" using o True by (simp add: gary_ok_def hdr Let_def)
    ultimately show ?thesis by (simp add: hdr)
  next
    case False
    obtain h' s' where r: "gary_realloc A ?h ?e ?s = Some (h', s')" "gary_ok s' (gary_body h')"
      "hdrs s' h' = ?g\<lparr>g_free := max ?e (2 * g_free g)\<rparr>"
      "load_bytes (gary_body h') (g_free g * g_size g) (ghp s') = load_bytes (gary_body ?h) (g_free g * g_size g) (ghp s)"
      using realloc_ok [OF A, of ?s ?g ?h ?e] o False lim by (auto simp: hdr)
    have "GARY_PUSH_MULTI A arr n s = Some (gary_body h', gary_body h' + g_elts g * g_size g, s')"
      unfolding GARY_PUSH_MULTI_def g [symmetric] Let_def e hdr using False r(1,3) by (simp add: gary_push_helper_def hdr)
    moreover have "gary_hdr (gary_body h') = h'" by (simp add: gary_hdr_def gary_body_def)
    moreover have "g_elts g * g_size g \<le> g_free g * g_size g" using o(3) by (rule mult_right_mono) simp
    then have "load_bytes (gary_body h') (g_elts g * g_size g) (ghp s') = load_bytes arr (g_elts g * g_size g) (ghp s)"
      using load_sub [OF r(4), of 0] by (simp add: arr)
    ultimately show ?thesis using r by simp
  qed
qed

end

lemma std_allocator: "allocator mem_std"
proof
  fix A n and h :: heap
  assume "allocator_ok A" "live_ok (live h)"
  then show "\<exists>q h'. m_alloc mem_std A n h = Some (q, h') \<and> q \<noteq> ADDR_NULL \<and> live h' = (q, n) # live h \<and> live_ok (live h')"
    using allocator_okD(1) [of A "live h" n] live_ok_Cons [of "live h" A n]
    by (simp add: mem_std_def std_alloc_def xmalloc_def malloc_def Let_def)
next
  fix A p x y and h :: heap
  assume A: "allocator_ok A" and L: "live_ok (live h)" and p: "(p, x) \<in> set (live h)" and le: "x \<le> y"
  let ?L = "release p (live h)"
  have "p \<noteq> ADDR_NULL" "map_of (live h) p = Some x" using L p live_ok_map_of [OF L] by (auto simp: live_ok_def)
  then have "m_realloc mem_std A p x y h =
      Some (A ?L y, store_bytes (A ?L y) (load_bytes p x h) (h\<lparr>live := (A ?L y, y) # ?L\<rparr>))"
    using allocator_okD(1) [OF A, of ?L y] le
    by (simp add: mem_std_def std_realloc_def xrealloc_def c_realloc_def Let_def min_absorb1)
  then show "\<exists>q h'. m_realloc mem_std A p x y h = Some (q, h') \<and> q \<noteq> ADDR_NULL \<and> live h' = (q, y) # ?L \<and>
      live_ok (live h') \<and> load_bytes q x h' = load_bytes p x h"
    using allocator_okD(1) [OF A, of ?L y] live_ok_Cons [OF live_ok_release [OF L, of p] A, of y]
      load_store_same [of "A ?L y" "load_bytes p x h"] by simp
qed

interpretation std: allocator mem_std
  by (rule std_allocator)

text \<open>
  Growing arrays: a new array has room for its elements; pushing any number of elements
  keeps all elements there were, gives the address behind the last of them, leaves room for
  the new ones, and keeps the array well formed, whether or not it has to move.
\<close>

theorem gary_push_keeps:
  assumes "allocator_ok A" and "std.gary_ok s arr" and "g = hdrs s (gary_hdr arr)"
    and "GARY_HDR_SIZE + max (g_elts g + n) (2 * g_free g) * g_size g < 2 ^ 64" and "max (g_elts g + n) (2 * g_free g) < 2 ^ 64"
  shows "\<exists>arr' c s'. GARY_PUSH_MULTI A arr n s = Some (arr', c, s') \<and> std.gary_ok s' arr' \<and>
    g_elts (hdrs s' (gary_hdr arr')) = g_elts g + n \<and> g_size (hdrs s' (gary_hdr arr')) = g_size g \<and>
    c = arr' + g_elts g * g_size g \<and>
    load_bytes arr' (g_elts g * g_size g) (ghp s') = load_bytes arr (g_elts g * g_size g) (ghp s)"
  using assms by (rule std.push_ok)

theorem gary_push_keeps_witness:
  "\<exists>arr s arr' c s'. gary_init bump 4 3 mem_std \<lparr>ghp = \<lparr>mem = \<lambda>a. 7, live = []\<rparr>,
      hdrs = \<lambda>a. \<lparr>g_elts = 0, g_free = 0, g_size = 0, g_mem = mem_std\<rparr>\<rparr> = Some (arr, s) \<and>
    GARY_PUSH_MULTI bump arr 5 s = Some (arr', c, s') \<and> load_bytes arr' 12 (ghp s') = load_bytes arr 12 (ghp s)"
proof -
  let ?s = "\<lparr>ghp = \<lparr>mem = \<lambda>a. 7, live = []\<rparr>, hdrs = \<lambda>a. \<lparr>g_elts = 0, g_free = 0, g_size = 0, g_mem = mem_std\<rparr>\<rparr>"
  have "live_ok (live (ghp ?s))" by (simp add: live_ok_def)
  from std.init_ok [OF bump_ok this, of 4 3] obtain arr s where i: "gary_init bump 4 3 mem_std ?s = Some (arr, s)"
    "std.gary_ok s arr" "hdrs s (gary_hdr arr) = \<lparr>g_elts = 3, g_free = 3, g_size = 4, g_mem = mem_std\<rparr>"
    by (auto simp: GARY_HDR_SIZE_def)
  from gary_push_keeps [OF bump_ok i(2) refl, of 5] i show ?thesis by (auto simp: GARY_HDR_SIZE_def)
qed

section \<open>Correctness of the binary search\<close>

lemma middle_unat:
  fixes l r :: u32
  assumes "unat l \<le> unat r" "unat r \<le> 2 ^ 31" "l < r"
  shows "unat ((l + r) div 2) = (unat l + unat r) div 2"
proof -
  have "unat l < unat r" using assms(3) by (simp add: word_less_nat_alt)
  then have "unat l + unat r < 2 ^ 32" using assms(1,2) by simp
  then have "unat (l + r) = unat l + unat r" by (simp add: unat_word_ariths)
  then show ?thesis by (simp add: unat_div_distrib)
qed

lemma bin_search_ok:
  assumes "unat l \<le> unat r" "unat r \<le> 2 ^ 31" "\<forall>i. unat i < N \<longrightarrow> below i = Some (P (unat i))" "unat r \<le> N" "N \<le> 2 ^ 31"
    and "\<forall>i j. i \<le> j \<and> j < N \<and> P j \<longrightarrow> P i" "\<forall>i < unat l. P i" "\<forall>i. unat r \<le> i \<and> i < N \<longrightarrow> \<not> P i"
  shows "\<exists>k. bin_search_loop below l r = Some k \<and> unat k \<le> unat r \<and> (\<forall>i < unat k. P i) \<and> (\<forall>i. unat k \<le> i \<and> i < N \<longrightarrow> \<not> P i)"
  using assms
proof (induction "unat r - unat l" arbitrary: l r rule: less_induct)
  case less
  show ?case
  proof (cases "l < r")
    case True
    let ?m = "(l + r) div 2"
    have lr: "unat l < unat r" using True by (simp add: word_less_nat_alt)
    have m: "unat ?m = (unat l + unat r) div 2" using less.prems(1,2) True by (rule middle_unat)
    then have mb: "unat l \<le> unat ?m" "unat ?m < unat r" using lr by auto
    then have "below ?m = Some (P (unat ?m))" using less.prems(3,4) by simp
    then have step: "bin_search_loop below l r =
        (if P (unat ?m) then bin_search_loop below (?m + 1) r else bin_search_loop below l ?m)"
      using True by (subst bin_search_loop.simps) (simp add: Let_def)
    show ?thesis
    proof (cases "P (unat ?m)")
      case P: True
      have "unat ?m + 1 \<le> 2 ^ 31" using mb(2) less.prems(2) by (simp del: One_nat_def)
      then have "unat ?m + 1 < 2 ^ 32" by simp
      then have m1: "unat (?m + 1) = unat ?m + 1" by (simp add: unat_word_ariths)
      have "\<forall>i < unat (?m + 1). P i" using less.prems(4,6) P mb m1 by (metis Suc_eq_plus1 less_Suc_eq_le order_less_le_trans)
      then have "\<exists>k. bin_search_loop below (?m + 1) r = Some k \<and> unat k \<le> unat r \<and> (\<forall>i < unat k. P i) \<and>
          (\<forall>i. unat k \<le> i \<and> i < N \<longrightarrow> \<not> P i)"
        using less.prems mb m1 lr by (intro less.hyps) auto
      then show ?thesis using step P by simp
    next
      case P: False
      have "\<forall>i. unat ?m \<le> i \<and> i < N \<longrightarrow> \<not> P i" using less.prems(6) P by blast
      then have "\<exists>k. bin_search_loop below l ?m = Some k \<and> unat k \<le> unat ?m \<and> (\<forall>i < unat k. P i) \<and>
          (\<forall>i. unat k \<le> i \<and> i < N \<longrightarrow> \<not> P i)"
        using less.prems mb lr by (intro less.hyps) auto
      then show ?thesis using step P mb by auto
    qed
  next
    case False
    then have "unat l = unat r" using less.prems(1) by (simp add: word_less_nat_alt)
    then show ?thesis using False less.prems by (subst bin_search_loop.simps) auto
  qed
qed

text \<open>
  C19: Binary search in a sorted array of fewer than \<open>2 ^ 31\<close> elements returns: the index of the
  first element that is not less than the key, or the size of the array; and, for the search
  for equality, the first index of the key, or \<open>-1\<close> if it does not occur.
\<close>

theorem bin_search_correct:
  assumes "sorted ary" and "length ary < 2 ^ 31"
  shows "\<exists>k. BIN_SEARCH_FIRST_GE ary (of_nat (length ary)) x = Some k \<and> unat k \<le> length ary \<and>
    (\<forall>i < length ary. ary ! i < x \<longleftrightarrow> i < unat k) \<and>
    BIN_SEARCH_EQ ary (of_nat (length ary)) x = Some (if x \<in> set ary then int (unat k) else - 1) \<and>
    (x \<in> set ary \<longrightarrow> ary ! unat k = x)"
proof -
  let ?N = "length ary" and ?P = "\<lambda>i. ary ! i < x"
  have n: "unat (of_nat ?N :: u32) = ?N" using assms(2) by (simp add: unat_of_nat)
  have mono: "\<forall>i j. i \<le> j \<and> j < ?N \<and> ?P j \<longrightarrow> ?P i" using sorted_nth_mono [OF assms(1)] by (meson order_le_less_trans)
  have "\<exists>k. bin_search_loop (ARY_LT_NUM ary x) 0 (of_nat ?N) = Some k \<and> unat k \<le> unat (of_nat ?N :: u32) \<and>
      (\<forall>i < unat k. ?P i) \<and> (\<forall>i. unat k \<le> i \<and> i < ?N \<longrightarrow> \<not> ?P i)"
    using assms(2) mono by (intro bin_search_ok) (auto simp: n ARY_LT_NUM_def)
  then obtain k where k: "BIN_SEARCH_FIRST_GE ary (of_nat ?N) x = Some k" "unat k \<le> ?N" "\<forall>i < unat k. ?P i"
    "\<forall>i. unat k \<le> i \<and> i < ?N \<longrightarrow> \<not> ?P i"
    by (auto simp: BIN_SEARCH_FIRST_GE_def BIN_SEARCH_FIRST_GE_CMP_def n)
  have iff: "\<forall>i < ?N. ?P i \<longleftrightarrow> i < unat k" using k(3,4) not_less by blast
  have ge: "k \<ge> of_nat ?N \<longleftrightarrow> unat k = ?N" using k(2) by (auto simp: word_le_nat_alt n)
  have at: "ary ! unat k = x \<longleftrightarrow> x \<in> set ary" if kl: "unat k < ?N"
  proof
    assume "x \<in> set ary"
    then obtain i where i: "i < ?N" "ary ! i = x" by (auto simp: in_set_conv_nth)
    then have "unat k \<le> i" using iff by (metis less_irrefl not_less)
    then have "ary ! unat k \<le> x" using sorted_nth_mono [OF assms(1)] i by auto
    then show "ary ! unat k = x" using k(4) kl by (auto simp: not_less)
  qed (use kl nth_mem in blast)
  have notin: "x \<notin> set ary" if "unat k = ?N" using k(3) that by (auto simp: in_set_conv_nth)
  have si: "sint k = int (unat k)"
  proof -
    have "unat k < 2 ^ 31" using k(2) assms(2) by (rule order_le_less_trans)
    then have "int (unat k) < int (2 ^ 31)" by (subst of_nat_less_iff)
    then have "uint k < 2 ^ 31" by simp
    moreover have "- (2 ^ 31) \<le> uint k" by (rule order_trans [OF _ uint_ge_0]) simp
    ultimately show ?thesis using signed_take_bit_int_eq_self [of 31 "uint k"] by (simp add: sint_uint)
  qed
  have "BIN_SEARCH_EQ ary (of_nat ?N) x = Some (if x \<in> set ary then int (unat k) else - 1)"
  proof (cases "unat k = ?N")
    case True
    then show ?thesis using k(1) ge notin by (simp add: BIN_SEARCH_EQ_def)
  next
    case False
    then have "unat k < ?N" using k(2) by simp
    then show ?thesis using k(1) ge at False si by (simp add: BIN_SEARCH_EQ_def del: of_nat_unat)
  qed
  moreover have "x \<in> set ary \<longrightarrow> ary ! unat k = x" using at notin k(2) le_neq_implies_less by blast
  ultimately show ?thesis using k(1,2) iff by blast
qed

theorem bin_search_correct_witness:
  "BIN_SEARCH_EQ [2, 3, 3, 7 :: nat] 4 5 = Some (- 1)"
  using bin_search_correct [of "[2, 3, 3, 7 :: nat]" 5] by auto

end
