(* ===== verification/Resource.thy ===== *)
theory Resource
  imports Mempool_Inv Mem_List
begin

text \<open>
  Model of the resource pools of \<^verbatim>\<open>generic/opt/resource.c\<close> and \<^verbatim>\<open>resource.h\<close>, with the
  resource classes of \<^verbatim>\<open>res-mem.c\<close>, \<^verbatim>\<open>res-subpool.c\<close> and \<^verbatim>\<open>res-mempool.c\<close>. The world
  holds the C heap, the memory pools, the two kinds of structures and the links of their list
  nodes, each by address, and the per-thread context. A structure may be accessed only inside a
  live block; anything else gives \<open>None\<close>, as do failed assertions. The callbacks of a class
  defined by a client are observed as events. The links of the lists are those of
  \<open>Mem_List\<close>: the node is the first member of \<^verbatim>\<open>struct resource\<close>, the list head the
  first of \<^verbatim>\<open>struct respool\<close>, so that their addresses are those of the structures.
\<close>

section \<open>Data\<close>

datatype detach_callback = Subpool_res_detach | User_detach nat

datatype free_callback = Mem_res_free | Subpool_res_free | Mp_res_free | User_free nat

record res_class =
  cl_name :: string
  cl_detach :: "detach_callback option"
  cl_free :: "free_callback option"
  cl_size :: nat

record resource =
  r_rpool :: addr
  r_flags :: u32
  r_class :: res_class
  r_priv :: addr
  r_size :: nat

record respool =
  rp_name :: string
  rp_mpool :: addr
  subpool_of :: addr
  default_res_flags :: u32

record ucwlib_context =
  current_respool :: addr
  trans_pool :: addr
  current_trans :: addr

datatype event = Freed nat addr | Detached nat addr

record world =
  hp :: mp_heap
  pools :: "addr \<Rightarrow> mempool"
  rps :: "addr \<Rightarrow> respool"
  ress :: "addr \<Rightarrow> resource"
  lnk :: links
  ctx :: ucwlib_context
  events :: "event list"

definition RES_FLAG_TEMP :: u32 where
  "RES_FLAG_TEMP = 1"

definition RES_FLAG_XFREE :: u32 where
  "RES_FLAG_XFREE = 2"

definition sizeof_respool :: nat where
  "sizeof_respool = 48"

definition sizeof_resource :: nat where
  "sizeof_resource = 48"

definition sizeof_res_mem :: nat where
  "sizeof_res_mem = 56"

section \<open>Access to the structures\<close>

definition obj_ok :: "addr \<Rightarrow> nat \<Rightarrow> mp_heap \<Rightarrow> bool" where
  "obj_ok a n h = list_ex (\<lambda>(p, m). p \<le> a \<and> a + n \<le> p + m) (live h)"

definition rp_get :: "addr \<Rightarrow> world \<Rightarrow> respool option" where
  "rp_get rp w = (if obj_ok rp sizeof_respool (hp w) then Some (rps w rp) else None)"

definition rp_put :: "addr \<Rightarrow> respool \<Rightarrow> world \<Rightarrow> world option" where
  "rp_put rp x w = (if obj_ok rp sizeof_respool (hp w) then Some (w\<lparr>rps := (rps w)(rp := x)\<rparr>) else None)"

definition res_get :: "addr \<Rightarrow> world \<Rightarrow> resource option" where
  "res_get r w = (if obj_ok r sizeof_resource (hp w) then Some (ress w r) else None)"

definition res_put :: "addr \<Rightarrow> resource \<Rightarrow> world \<Rightarrow> world option" where
  "res_put r x w = (if obj_ok r sizeof_resource (hp w) then Some (w\<lparr>ress := (ress w)(r := x)\<rparr>) else None)"

definition mpool_get :: "addr \<Rightarrow> world \<Rightarrow> mempool option" where
  "mpool_get mp w = (if obj_ok mp sizeof_mempool (hp w) then Some (pools w mp) else None)"

definition rp_current :: "world \<Rightarrow> addr" where
  "rp_current w = current_respool (ctx w)"

definition rp_switch :: "addr \<Rightarrow> world \<Rightarrow> addr \<times> world" where
  "rp_switch rp w = (current_respool (ctx w), w\<lparr>ctx := (ctx w)\<lparr>current_respool := rp\<rparr>\<rparr>)"

section \<open>Resources\<close>

definition res_drop :: "addr \<Rightarrow> world \<Rightarrow> world option" where
  "res_drop r w =
     Option.bind (res_get r w) (\<lambda>x.
     let w = w\<lparr>lnk := list_remove r (lnk w)\<rparr> in
     if r_flags x AND RES_FLAG_XFREE \<noteq> 0
     then Option.bind (xfree r (hp w)) (\<lambda>h. Some (w\<lparr>hp := h\<rparr>))
     else Some w)"

text \<open>\<^verbatim>\<open>subpool_res_detach\<close>, and the callbacks of other classes.\<close>

definition subpool_res_detach :: "addr \<Rightarrow> world \<Rightarrow> world option" where
  "subpool_res_detach r w =
     Option.bind (res_get r w) (\<lambda>x.
     Option.bind (rp_get (r_priv x) w) (\<lambda>p.
     rp_put (r_priv x) (p\<lparr>subpool_of := ADDR_NULL\<rparr>) w))"

fun run_detach :: "detach_callback \<Rightarrow> addr \<Rightarrow> world \<Rightarrow> world option" where
  "run_detach Subpool_res_detach r w = subpool_res_detach r w"
| "run_detach (User_detach n) r w =
     Option.bind (res_get r w) (\<lambda>x. Some (w\<lparr>events := events w @ [Detached n (r_priv x)]\<rparr>))"

definition res_detach :: "addr \<Rightarrow> world \<Rightarrow> world option" where
  "res_detach r w =
     (if r = ADDR_NULL then Some w
      else Option.bind (res_get r w) (\<lambda>x.
        Option.bind (case cl_detach (r_class x) of None \<Rightarrow> Some w | Some cb \<Rightarrow> run_detach cb r w)
          (res_drop r)))"

definition mem_res_free :: "addr \<Rightarrow> world \<Rightarrow> world option" where
  "mem_res_free r w =
     Option.bind (res_get r w) (\<lambda>x.
     Option.bind (xfree (r_priv x) (hp w)) (\<lambda>h. Some (w\<lparr>hp := h\<rparr>)))"

definition mp_res_free :: "addr \<Rightarrow> world \<Rightarrow> world option" where
  "mp_res_free r w =
     Option.bind (res_get r w) (\<lambda>x.
     Option.bind (mpool_get (r_priv x) w) (\<lambda>pool.
     Option.bind (mp_delete pool (hp w)) (\<lambda>h. Some (w\<lparr>hp := h\<rparr>))))"

text \<open>
  \<^verbatim>\<open>subpool_res_free\<close> and \<^verbatim>\<open>res_free\<close> are mutually recursive with \<^verbatim>\<open>rp_delete\<close>; here
  they take it as their first argument.
\<close>

definition subpool_res_free_with :: "(addr \<Rightarrow> world \<Rightarrow> world option) \<Rightarrow> addr \<Rightarrow> world \<Rightarrow> world option" where
  "subpool_res_free_with del r w =
     Option.bind (res_get r w) (\<lambda>x.
     Option.bind (rp_get (r_priv x) w) (\<lambda>p.
     Option.bind (rp_put (r_priv x) (p\<lparr>subpool_of := ADDR_NULL\<rparr>) w) (\<lambda>w. del (r_priv x) w)))"

definition run_free :: "(addr \<Rightarrow> world \<Rightarrow> world option) \<Rightarrow> free_callback \<Rightarrow> addr \<Rightarrow> world \<Rightarrow> world option" where
  "run_free del cb r w =
     (case cb of
        Mem_res_free \<Rightarrow> mem_res_free r w
      | Subpool_res_free \<Rightarrow> subpool_res_free_with del r w
      | Mp_res_free \<Rightarrow> mp_res_free r w
      | User_free n \<Rightarrow>
          Option.bind (res_get r w) (\<lambda>x. Some (w\<lparr>events := events w @ [Freed n (r_priv x)]\<rparr>)))"

definition res_free_with :: "(addr \<Rightarrow> world \<Rightarrow> world option) \<Rightarrow> addr \<Rightarrow> world \<Rightarrow> world option" where
  "res_free_with del r w =
     (if r = ADDR_NULL then Some w
      else Option.bind (res_get r w) (\<lambda>x.
        Option.bind (case cl_free (r_class x) of None \<Rightarrow> Some w | Some cb \<Rightarrow> run_free del cb r w)
          (res_drop r)))"

lemma res_free_with_mono [partial_function_mono]:
  assumes "\<And>q v. mono_option (\<lambda>f. del f q v)"
  shows "mono_option (\<lambda>f. res_free_with (del f) r w)"
proof -
  have sub: "mono_option (\<lambda>f. subpool_res_free_with (del f) r w)"
    unfolding subpool_res_free_with_def by (intro partial_function_mono assms)
  have "mono_option (\<lambda>f. run_free (del f) cb r w)" for cb
    by (cases cb) (simp_all add: run_free_def sub option.const_mono)
  then have "mono_option (\<lambda>f. case cb of None \<Rightarrow> Some w | Some cb \<Rightarrow> run_free (del f) cb r w)" for cb
    by (cases cb) (simp_all add: option.const_mono)
  then show ?thesis unfolding res_free_with_def by (intro partial_function_mono)
qed

section \<open>Resource pools\<close>

definition rp_new :: "placement \<Rightarrow> string \<Rightarrow> addr \<Rightarrow> world \<Rightarrow> (addr \<times> world) option" where
  "rp_new A name mp w =
     Option.bind
       (if mp \<noteq> ADDR_NULL
        then Option.bind (mpool_get mp w) (\<lambda>pool.
             Option.bind (mp_alloc_zero A pool sizeof_respool (hp w)) (\<lambda>(rp, pool, h).
               Some (rp, w\<lparr>hp := h, pools := (pools w)(mp := pool)\<rparr>)))
        else Option.bind (xmalloc_zero A sizeof_respool (hp w)) (\<lambda>(rp, h). Some (rp, w\<lparr>hp := h\<rparr>)))
       (\<lambda>(rp, w).
          let w = w\<lparr>lnk := list_init rp (lnk w)\<rparr> in
          Option.bind (rp_put rp \<lparr>rp_name = name, rp_mpool = mp, subpool_of = ADDR_NULL,
                                  default_res_flags = RES_FLAG_TEMP\<rparr> w) (\<lambda>w. Some (rp, w)))"

definition rp_free :: "addr \<Rightarrow> world \<Rightarrow> world option" where
  "rp_free rp w =
     Option.bind (rp_get rp w) (\<lambda>p.
     Option.bind (if subpool_of p \<noteq> ADDR_NULL then res_detach (subpool_of p) w else Some w) (\<lambda>w.
     Option.bind (rp_get rp w) (\<lambda>p.
     Option.bind (if rp_mpool p = ADDR_NULL
                  then Option.bind (xfree rp (hp w)) (\<lambda>h. Some (w\<lparr>hp := h\<rparr>)) else Some w) (\<lambda>w.
     Some (if rp_current w = rp then snd (rp_switch ADDR_NULL w) else w)))))"

partial_function (option) rp_delete :: "addr \<Rightarrow> world \<Rightarrow> world option" where
  "rp_delete rp w =
     Option.bind (rp_get rp w) (\<lambda>p.
     let r = list_tail rp (lnk w) in
     if r \<noteq> ADDR_NULL
     then Option.bind (res_get r w) (\<lambda>x.
          if r_rpool x \<noteq> rp then None
          else Option.bind (res_free_with rp_delete r w) (rp_delete rp))
     else rp_free rp w)"

definition res_free :: "addr \<Rightarrow> world \<Rightarrow> world option" where
  "res_free r w = res_free_with rp_delete r w"

partial_function (option) rp_detach :: "addr \<Rightarrow> world \<Rightarrow> world option" where
  "rp_detach rp w =
     Option.bind (rp_get rp w) (\<lambda>p.
     let r = list_head rp (lnk w) in
     if r \<noteq> ADDR_NULL
     then Option.bind (res_get r w) (\<lambda>x.
          if r_rpool x \<noteq> rp then None
          else Option.bind (res_detach r w) (rp_detach rp))
     else rp_free rp w)"

partial_function (option) rp_commit :: "addr \<Rightarrow> world \<Rightarrow> world option" where
  "rp_commit rp w =
     Option.bind (rp_get rp w) (\<lambda>p.
     let r = list_head rp (lnk w) in
     if r \<noteq> ADDR_NULL
     then Option.bind (res_get r w) (\<lambda>x.
          if r_rpool x \<noteq> rp then None
          else Option.bind (if r_flags x AND RES_FLAG_TEMP \<noteq> 0 then res_free r w else res_detach r w)
                 (rp_commit rp))
     else rp_free rp w)"

section \<open>New resources\<close>

definition res_add :: "addr \<Rightarrow> world \<Rightarrow> world option" where
  "res_add r w =
     (let rp = rp_current w in
      if rp = ADDR_NULL then None
      else Option.bind (rp_get rp w) (\<lambda>p.
           Option.bind (res_get r w) (\<lambda>x.
           let w = w\<lparr>lnk := list_add_tail rp r (lnk w)\<rparr>;
               flags = r_flags x AND NOT RES_FLAG_TEMP;
               flags = flags OR (default_res_flags p AND RES_FLAG_TEMP)
           in res_put r (x\<lparr>r_rpool := rp, r_flags := flags\<rparr>) w)))"

definition res_alloc :: "placement \<Rightarrow> res_class \<Rightarrow> world \<Rightarrow> (addr \<times> world) option" where
  "res_alloc A rc w =
     (let rp = rp_current w in
      if rp = ADDR_NULL then None
      else Option.bind (rp_get rp w) (\<lambda>p.
        let sz = (if cl_size rc \<noteq> 0 then cl_size rc else sizeof_resource) in
        Option.bind
          (if rp_mpool p \<noteq> ADDR_NULL
           then Option.bind (mpool_get (rp_mpool p) w) (\<lambda>pool.
                Option.bind (mp_alloc_fast A pool sz (hp w)) (\<lambda>(r, pool, h).
                  let w = w\<lparr>hp := h, pools := (pools w)(rp_mpool p := pool)\<rparr>
                  in map_option (\<lambda>w. (r, w)) (res_put r ((ress w r)\<lparr>r_flags := 0\<rparr>) w)))
           else let (r, h) = xmalloc A sz (hp w); w = w\<lparr>hp := h\<rparr>
                in map_option (\<lambda>w. (r, w)) (res_put r ((ress w r)\<lparr>r_flags := RES_FLAG_XFREE\<rparr>) w))
          (\<lambda>(r, w). map_option (\<lambda>w. (r, w)) (res_add r w))))"

definition res_init :: "addr \<Rightarrow> res_class \<Rightarrow> addr \<Rightarrow> world \<Rightarrow> world option" where
  "res_init r rc priv w =
     Option.bind (res_get r w) (\<lambda>x. res_put r (x\<lparr>r_flags := 0, r_class := rc, r_priv := priv\<rparr>) w)"

definition res_new :: "placement \<Rightarrow> res_class \<Rightarrow> addr \<Rightarrow> world \<Rightarrow> (addr \<times> world) option" where
  "res_new A rc priv w =
     Option.bind (res_alloc A rc w) (\<lambda>(r, w).
     Option.bind (res_get r w) (\<lambda>x.
     map_option (\<lambda>w. (r, w)) (res_put r (x\<lparr>r_class := rc, r_priv := priv\<rparr>) w)))"

definition res_temporary :: "addr \<Rightarrow> world \<Rightarrow> world option" where
  "res_temporary r w =
     Option.bind (res_get r w) (\<lambda>x. res_put r (x\<lparr>r_flags := r_flags x OR RES_FLAG_TEMP\<rparr>) w)"

definition res_permanent :: "addr \<Rightarrow> world \<Rightarrow> world option" where
  "res_permanent r w =
     Option.bind (res_get r w) (\<lambda>x. res_put r (x\<lparr>r_flags := r_flags x AND RES_FLAG_TEMP\<rparr>) w)"

section \<open>The classes of resources\<close>

definition mem_res_class :: res_class where
  "mem_res_class = \<lparr>cl_name = ''mem'', cl_detach = None, cl_free = Some Mem_res_free, cl_size = sizeof_res_mem\<rparr>"

definition subpool_res_class :: res_class where
  "subpool_res_class =
     \<lparr>cl_name = ''subpool'', cl_detach = Some Subpool_res_detach, cl_free = Some Subpool_res_free, cl_size = 0\<rparr>"

definition mp_res_class :: res_class where
  "mp_res_class = \<lparr>cl_name = ''mempool'', cl_detach = None, cl_free = Some Mp_res_free, cl_size = 0\<rparr>"

text \<open>The block, and the resource that is stored through \<^verbatim>\<open>ptr\<close>.\<close>

definition res_malloc :: "placement \<Rightarrow> nat \<Rightarrow> world \<Rightarrow> (addr \<times> addr \<times> world) option" where
  "res_malloc A sz w =
     (let (p, h) = xmalloc A sz (hp w) in
      Option.bind (res_new A mem_res_class p (w\<lparr>hp := h\<rparr>)) (\<lambda>(r, w).
      Option.bind (res_get r w) (\<lambda>x.
      map_option (\<lambda>w. (p, r, w)) (res_put r (x\<lparr>r_size := sz\<rparr>) w))))"

definition res_malloc_zero :: "placement \<Rightarrow> nat \<Rightarrow> world \<Rightarrow> (addr \<times> addr \<times> world) option" where
  "res_malloc_zero A sz w =
     Option.bind (res_malloc A sz w) (\<lambda>(p, r, w).
     Option.bind (memset0 p sz (hp w)) (\<lambda>h. Some (p, r, w\<lparr>hp := h\<rparr>)))"

definition res_realloc :: "placement \<Rightarrow> addr \<Rightarrow> nat \<Rightarrow> world \<Rightarrow> (addr \<times> world) option" where
  "res_realloc A r sz w =
     Option.bind (res_get r w) (\<lambda>x.
     Option.bind (xrealloc A (r_priv x) sz (hp w)) (\<lambda>(p, h).
     map_option (\<lambda>w. (p, w)) (res_put r (x\<lparr>r_priv := p, r_size := sz\<rparr>) (w\<lparr>hp := h\<rparr>))))"

definition res_subpool :: "placement \<Rightarrow> addr \<Rightarrow> world \<Rightarrow> (addr \<times> world) option" where
  "res_subpool A rp w =
     Option.bind (rp_get rp w) (\<lambda>p.
     if subpool_of p \<noteq> ADDR_NULL then None
     else Option.bind (res_new A subpool_res_class rp w) (\<lambda>(r, w).
          Option.bind (res_get r w) (\<lambda>x.
          if r_rpool x = rp then None
          else Option.bind (rp_get rp w) (\<lambda>p.
               map_option (\<lambda>w. (r, w)) (rp_put rp (p\<lparr>subpool_of := r\<rparr>) w)))))"

definition res_mempool :: "placement \<Rightarrow> addr \<Rightarrow> world \<Rightarrow> (addr \<times> world) option" where
  "res_mempool A mp w = res_new A mp_res_class mp w"

end
