(* ===== verification/Resource_Inv.thy ===== *)
theory Resource_Inv
  imports Resource
begin

text \<open>
  Deleting resource pools: the tree of the resources of a pool and of its sub-pools, and what
  freeing a part of it does to the world.
\<close>

section \<open>The tree of a pool\<close>

text \<open>
  A resource that is not a sub-pool comes with the addresses of the blocks that its class gives
  back; a sub-pool comes with the address of its pool and the resources in it.
\<close>

datatype rtree = Leaf addr "addr list" | Sub addr addr "rtree list"

fun node :: "rtree \<Rightarrow> addr" where
  "node (Leaf r D) = r"
| "node (Sub r q ts) = r"

fun inner :: "rtree \<Rightarrow> addr list" where
  "inner (Leaf r D) = []"
| "inner (Sub r q ts) = concat (map (\<lambda>t. node t # inner t) ts)"

abbreviation nodes :: "rtree \<Rightarrow> addr list" where
  "nodes t \<equiv> node t # inner t"

fun subs :: "rtree \<Rightarrow> addr list" where
  "subs (Leaf r D) = []"
| "subs (Sub r q ts) = q # concat (map subs ts)"

definition own_res :: "world \<Rightarrow> addr \<Rightarrow> bool" where
  "own_res w r \<longleftrightarrow> r_flags (ress w r) AND RES_FLAG_XFREE \<noteq> 0"

definition own_rp :: "world \<Rightarrow> addr \<Rightarrow> bool" where
  "own_rp w q \<longleftrightarrow> rp_mpool (rps w q) = ADDR_NULL"

fun frees :: "world \<Rightarrow> rtree \<Rightarrow> addr list" where
  "frees w (Leaf r D) = D @ (if own_res w r then [r] else [])"
| "frees w (Sub r q ts) =
     concat (map (frees w) ts) @ (if own_rp w q then [q] else []) @ (if own_res w r then [r] else [])"

text \<open>The callbacks of client classes, in the order in which freeing a tree calls them.\<close>

definition leaf_calls :: "world \<Rightarrow> addr \<Rightarrow> event list" where
  "leaf_calls w r = (case cl_free (r_class (ress w r)) of
     Some (User_free n) \<Rightarrow> [Freed n (r_priv (ress w r))] | _ \<Rightarrow> [])"

fun calls :: "world \<Rightarrow> rtree \<Rightarrow> event list" where
  "calls w (Leaf r D) = leaf_calls w r"
| "calls w (Sub r q ts) = concat (rev (map (calls w) ts))"

text \<open>A structure of \<open>n\<close> bytes at \<open>a\<close> in a block of its own, or in one outside \<open>F\<close>.\<close>

definition hut :: "mp_heap \<Rightarrow> addr set \<Rightarrow> bool \<Rightarrow> addr \<Rightarrow> nat \<Rightarrow> bool" where
  "hut h F own a n \<longleftrightarrow>
     (\<exists>p m. (p, m) \<in> set (live h) \<and> p \<le> a \<and> a + n \<le> p + m \<and> (if own then p = a else p \<notin> F))"

text \<open>A memory pool whose structure is in one of its chunks, which are the blocks \<open>D\<close>.\<close>

definition mp_owned :: "world \<Rightarrow> addr \<Rightarrow> addr list \<Rightarrow> bool" where
  "mp_owned w mp D \<longleftrightarrow> hut (hp w) (- set D) False mp sizeof_mempool \<and>
     (\<exists>cs bs us. mp_shape (pools w mp) (hp w) cs bs us \<and> D = map (chunk_base (hp w)) (cs @ bs @ us))"

definition leaf_ok :: "world \<Rightarrow> addr \<Rightarrow> addr list \<Rightarrow> bool" where
  "leaf_ok w r D \<longleftrightarrow> (case cl_free (r_class (ress w r)) of
     None \<Rightarrow> D = []
   | Some (User_free n) \<Rightarrow> D = []
   | Some Mem_res_free \<Rightarrow> D = (if r_priv (ress w r) = ADDR_NULL then [] else [r_priv (ress w r)])
   | Some Mp_res_free \<Rightarrow>
       mp_owned w (r_priv (ress w r)) D
   | Some Subpool_res_free \<Rightarrow> False)"

fun tshape :: "world \<Rightarrow> addr \<Rightarrow> rtree \<Rightarrow> bool" where
  "tshape w rp (Leaf r D) \<longleftrightarrow> r_rpool (ress w r) = rp \<and> leaf_ok w r D"
| "tshape w rp (Sub r q ts) \<longleftrightarrow>
     r_rpool (ress w r) = rp \<and> cl_free (r_class (ress w r)) = Some Subpool_res_free \<and>
     r_priv (ress w r) = q \<and> ring (lnk w) q (map node ts) \<and> (\<forall>t \<in> set ts. tshape w q t)"

definition forest :: "world \<Rightarrow> addr \<Rightarrow> rtree list \<Rightarrow> bool" where
  "forest w rp ts \<longleftrightarrow>
     (let N = concat (map nodes ts); Q = concat (map subs ts); F = concat (map (frees w) ts) in
      ring (lnk w) rp (map node ts) \<and> (\<forall>t \<in> set ts. tshape w rp t) \<and>
      distinct (rp # N @ Q) \<and> distinct F \<and> live_ok (live (hp w)) \<and> set F \<subseteq> fst ` set (live (hp w)) \<and>
      hut (hp w) (set F) False rp sizeof_respool \<and>
      (\<forall>r \<in> set N. hut (hp w) (set F) (own_res w r) r sizeof_resource) \<and>
      (\<forall>q \<in> set Q. hut (hp w) (set F) (own_rp w q) q sizeof_respool))"

section \<open>What freeing does\<close>

definition forget :: "addr set \<Rightarrow> mp_heap \<Rightarrow> mp_heap" where
  "forget F h = h\<lparr>live := filter (\<lambda>b. fst b \<notin> F) (live h)\<rparr>"

text \<open>
  Only the links in \<open>C\<close>, the pools in \<open>Q\<close> and the blocks in \<open>F\<close> are touched, and
  \<open>E\<close> is what the client observes.
\<close>

definition effect :: "addr set \<Rightarrow> addr set \<Rightarrow> addr set \<Rightarrow> event list \<Rightarrow> world \<Rightarrow> world \<Rightarrow> bool" where
  "effect C Q F E w w' \<longleftrightarrow>
     hp w' = forget F (hp w) \<and> pools w' = pools w \<and> ress w' = ress w \<and>
     (\<forall>a. a \<notin> Q \<longrightarrow> rps w' a = rps w a) \<and> (\<forall>a. rp_mpool (rps w' a) = rp_mpool (rps w a)) \<and>
     (\<forall>a. a \<notin> C \<longrightarrow> same_links (lnk w) (lnk w') a) \<and> events w' = events w @ E \<and>
     ctx w' = (ctx w)\<lparr>current_respool := if current_respool (ctx w) \<in> Q then ADDR_NULL else current_respool (ctx w)\<rparr>"

lemma forget_simps [simp]:
  "forget {} h = h" "forget F (forget G h) = forget (G \<union> F) h" "mem (forget F h) = mem h"
  "c_next (forget F h) = c_next h" "c_size (forget F h) = c_size h" "saved (forget F h) = saved h"
  "live (forget F h) = filter (\<lambda>b. fst b \<notin> F) (live h)"
  by (simp_all add: forget_def conj_commute cong: filter_cong)

lemma effect_refl: "effect C Q {} [] w w" if "current_respool (ctx w) \<notin> Q"
  using that by (simp add: effect_def same_links_def)

lemma effect_trans:
  assumes "effect C Q F E w w1" and "effect C' Q' F' E' w1 w2"
  shows "effect (C \<union> C') (Q \<union> Q') (F \<union> F') (E @ E') w w2"
  using assms unfolding effect_def by (auto simp: same_links_def)

lemma effect_mono:
  assumes "effect C Q F E w w'" "C \<subseteq> C'"
  shows "effect C' Q F E w w'"
  using assms unfolding effect_def by blast

lemma effect_own:
  assumes "effect C Q F E w w'"
  shows "own_res w' = own_res w" "own_rp w' = own_rp w" "leaf_calls w' = leaf_calls w"
proof -
  have eq: "ress w' = ress w" "\<And>a. rp_mpool (rps w' a) = rp_mpool (rps w a)" using assms by (simp_all add: effect_def)
  show "own_res w' = own_res w" "own_rp w' = own_rp w" "leaf_calls w' = leaf_calls w"
    unfolding own_res_def own_rp_def leaf_calls_def fun_eq_iff eq by simp_all
qed

lemma leaf_calls_cong: "ress w' = ress w \<Longrightarrow> leaf_calls w' = leaf_calls w"
  by (simp only: leaf_calls_def fun_eq_iff) simp

lemma frees_cong: "own_res w' = own_res w \<Longrightarrow> own_rp w' = own_rp w \<Longrightarrow> frees w' t = frees w t"
  by (induction t) (simp_all cong: map_cong)

lemma calls_cong: "leaf_calls w' = leaf_calls w \<Longrightarrow> calls w' t = calls w t"
  by (induction t) (simp_all cong: map_cong)

lemma effect_frees: "effect C Q F E w w' \<Longrightarrow> frees w' = frees w" "effect C Q F E w w' \<Longrightarrow> calls w' = calls w"
  by (simp_all add: fun_eq_iff effect_own frees_cong calls_cong)

lemma live_ok_filter: "live_ok L \<Longrightarrow> live_ok (filter P L)"
  by (auto simp: live_ok_def distinct_map_filter)

lemma hut_obj: "hut h F own a n \<Longrightarrow> obj_ok a n h"
  unfolding hut_def obj_ok_def by (auto simp: list_ex_iff intro!: bexI)

lemma hut_forget:
  assumes "hut h F own a n" and "own \<Longrightarrow> a \<notin> G" and "\<not> own \<Longrightarrow> G \<subseteq> F" and "F' \<subseteq> F"
  shows "hut (forget G h) F' own a n"
  using assms unfolding hut_def by (cases own) fastforce+

lemma hut_mono: "hut h F own a n \<Longrightarrow> F' \<subseteq> F \<Longrightarrow> hut h F' own a n"
  using hut_forget [of h F own a n "{}" F'] by simp

lemma hut_nn: "hut h F own a n \<Longrightarrow> live_ok (live h) \<Longrightarrow> a \<noteq> ADDR_NULL"
  by (auto simp: hut_def live_ok_def ADDR_NULL_def)

text \<open>A memory pool is not disturbed when other blocks are freed.\<close>

lemma shape_forget:
  assumes "mp_shape pool h cs bs us" and "F \<inter> chunk_base h ` set (cs @ bs @ us) = {}"
  shows "mp_shape pool (forget F h) cs bs us"
proof -
  have base: "chunk_base (forget F h) = chunk_base h" by (simp add: fun_eq_iff chunk_base_def)
  have "chunks (forget F h) p xs = chunks h p xs" for p xs by (rule chunks_cong) simp
  moreover have "chunk_ok (forget F h) c" if "c \<in> set (cs @ bs @ us)" for c
    using assms that by (auto simp: mp_shape_def chunk_ok_def base)
  moreover have "live_ok (live (forget F h))" using assms(1) by (simp add: mp_shape_def live_ok_filter)
  ultimately show ?thesis using assms(1) unfolding mp_shape_def by (simp add: base split: if_splits)
qed

lemma mp_owned_effect:
  assumes "effect C Q F E w w'" and "mp_owned w mp D" and "F \<inter> set D = {}"
  shows "mp_owned w' mp D"
proof -
  have eq: "pools w' = pools w" "hp w' = forget F (hp w)" using assms(1) by (simp_all add: effect_def)
  have base: "chunk_base (forget F h) = chunk_base h" for h by (simp add: fun_eq_iff chunk_base_def)
  obtain cs bs us where D: "hut (hp w) (- set D) False mp sizeof_mempool" "mp_shape (pools w mp) (hp w) cs bs us"
    "D = map (chunk_base (hp w)) (cs @ bs @ us)" using assms(2) unfolding mp_owned_def by blast
  then have "F \<inter> chunk_base (hp w) ` set (cs @ bs @ us) = {}" using assms(3) by (simp add: image_Un)
  moreover have "hut (forget F (hp w)) (- set D) False mp sizeof_mempool"
    using hut_forget [OF D(1), of F "- set D"] assms(3) by auto
  ultimately show ?thesis using D(2,3) shape_forget unfolding mp_owned_def eq base by blast
qed

lemma leaf_ok_effect:
  assumes "effect C Q F E w w'" and "leaf_ok w r D" and "F \<inter> set D = {}"
  shows "leaf_ok w' r D"
proof -
  have eq: "ress w' = ress w" using assms(1) by (simp add: effect_def)
  show ?thesis
    using assms(2) mp_owned_effect [OF assms(1) _ assms(3)]
    unfolding leaf_ok_def eq by (auto split: option.splits free_callback.splits)
qed

lemma tshape_effect:
  assumes "effect C Q F E w w'" and "tshape w rp t" and "C \<inter> set (inner t @ subs t) = {}" and "F \<inter> set (frees w t) = {}"
  shows "tshape w' rp t"
  using assms(2-)
proof (induction t arbitrary: rp)
  case (Leaf r D)
  then show ?case using leaf_ok_effect [OF assms(1), of r D] assms(1) by (auto simp: effect_def)
next
  case (Sub r q ts)
  have "tshape w' q t" if t: "t \<in> set ts" for t
  proof (rule Sub.IH [OF t])
    show "tshape w q t" "C \<inter> set (inner t @ subs t) = {}" "F \<inter> set (frees w t) = {}"
      using Sub.prems t by (simp_all, blast+)
  qed
  moreover have "ring (lnk w') q (map node ts)"
  proof (rule ring_frame [of "lnk w"])
    fix n assume "n \<in> insert q (set (map node ts))"
    then have "n \<notin> C" using Sub.prems(2) by (auto simp: disjoint_iff)
    then show "same_links (lnk w) (lnk w') n" using assms(1) by (simp add: effect_def)
  qed (use Sub.prems in simp)
  ultimately show ?case using Sub.prems assms(1) by (simp add: effect_def)
qed

section \<open>Freeing a resource of a pool\<close>

lemma forestD:
  assumes "forest w rp ts"
  shows "ring (lnk w) rp (map node ts)" "\<And>t. t \<in> set ts \<Longrightarrow> tshape w rp t"
    "distinct (rp # concat (map nodes ts) @ concat (map subs ts))" "distinct (concat (map (frees w) ts))"
    "live_ok (live (hp w))" "set (concat (map (frees w) ts)) \<subseteq> fst ` set (live (hp w))"
    "hut (hp w) (set (concat (map (frees w) ts))) False rp sizeof_respool"
    "\<And>r. r \<in> set (concat (map nodes ts)) \<Longrightarrow> hut (hp w) (set (concat (map (frees w) ts))) (own_res w r) r sizeof_resource"
    "\<And>q. q \<in> set (concat (map subs ts)) \<Longrightarrow> hut (hp w) (set (concat (map (frees w) ts))) (own_rp w q) q sizeof_respool"
  using assms unfolding forest_def Let_def by blast+

text \<open>The links that removing the tree \<open>t\<close> from its pool may change.\<close>

definition around :: "addr \<Rightarrow> rtree list \<Rightarrow> rtree \<Rightarrow> rtree list \<Rightarrow> addr set" where
  "around rp xs t ys = insert rp (node ` set (xs @ ys) \<union> set (nodes t @ subs t))"

lemma concat_apart:
  "distinct (concat (map f (xs @ t # ys))) \<Longrightarrow> u \<in> set (xs @ ys) \<Longrightarrow> set (f u) \<inter> set (f t) = {}"
  by auto

lemma concat_drop:
  "distinct (concat (map f (xs @ t # ys))) \<Longrightarrow> distinct (concat (map f (xs @ ys)))"
  "set (concat (map f (xs @ ys))) \<subseteq> set (concat (map f (xs @ t # ys)))"
  by auto

lemma node_not_inner: "distinct (concat (map nodes ts)) \<Longrightarrow> u \<in> set ts \<Longrightarrow> v \<in> set ts \<Longrightarrow> node v \<notin> set (inner u)"
  by (induction ts) auto

text \<open>What is freed with a structure that is a block of its own.\<close>

lemma own_in_frees:
  "r \<in> set (nodes t) \<Longrightarrow> own_res w r \<Longrightarrow> r \<in> set (frees w t)"
  "q \<in> set (subs t) \<Longrightarrow> own_rp w q \<Longrightarrow> q \<in> set (frees w t)"
  by (induction t) auto

lemma around_apart:
  assumes "around rp xs t ys \<subseteq> insert rp (A \<union> B \<union> T)" "A \<subseteq> N" "B \<subseteq> N" "T \<subseteq> Q" "set (inner u) \<subseteq> N" "set (subs u) \<subseteq> Q"
    and "set (inner u) \<inter> A = {}" "set (inner u) \<inter> B = {}" "set (subs u) \<inter> T = {}" "rp \<notin> N" "rp \<notin> Q" "N \<inter> Q = {}"
  shows "around rp xs t ys \<inter> set (inner u @ subs u) = {}"
proof -
  have "insert rp (A \<union> B \<union> T) \<inter> (set (inner u) \<union> set (subs u)) = {}" using assms(2-) by blast
  then show ?thesis using assms(1) unfolding set_append by blast
qed

lemma forest_rest:
  assumes fo: "forest w rp (xs @ t # ys)" and ef: "effect (around rp xs t ys) (set (subs t)) (set (frees w t)) E w w'"
    and ri: "ring (lnk w') rp (map node (xs @ ys))"
  shows "forest w' rp (xs @ ys)"
proof -
  note F = forestD [OF fo]
  let ?G = "set (frees w t)" and ?T = "set (concat (map (frees w) (xs @ t # ys)))"
  let ?R = "set (concat (map (frees w) (xs @ ys)))"
  have d: "distinct (concat (map nodes (xs @ t # ys)))" "distinct (concat (map subs (xs @ t # ys)))"
    "rp \<notin> set (concat (map nodes (xs @ t # ys)))" "rp \<notin> set (concat (map subs (xs @ t # ys)))"
    "set (concat (map nodes (xs @ t # ys))) \<inter> set (concat (map subs (xs @ t # ys))) = {}"
    using F(3) unfolding distinct.simps distinct_append set_append by blast+
  have eq: "frees w' = frees w" "own_res w' = own_res w" "own_rp w' = own_rp w" "hp w' = forget ?G (hp w)"
    using effect_frees(1) [OF ef] effect_own [OF ef] ef by (simp_all add: effect_def)
  have ap: "?G \<inter> set (frees w u) = {}" if "u \<in> set (xs @ ys)" for u
    using concat_apart [OF F(4) that] by blast
  then have disj: "?G \<inter> ?R = {}" by auto
  have sub: "?G \<subseteq> ?T" "?R \<subseteq> ?T" by auto
  have sh: "tshape w' rp u" if u: "u \<in> set (xs @ ys)" for u
  proof (rule tshape_effect [OF ef F(2) _ ap [OF u]])
    have u': "u \<in> set (xs @ t # ys)" using u by auto
    show "around rp xs t ys \<inter> set (inner u @ subs u) = {}"
    proof (rule around_apart)
      show "around rp xs t ys \<subseteq> insert rp (node ` set (xs @ t # ys) \<union> set (nodes t) \<union> set (subs t))"
        unfolding around_def by auto
      show "set (inner u) \<inter> node ` set (xs @ t # ys) = {}" using node_not_inner [OF d(1) u'] by auto
      show "set (inner u) \<inter> set (nodes t) = {}" "set (subs u) \<inter> set (subs t) = {}"
        using concat_apart [OF d(1) u] concat_apart [OF d(2) u] by auto
      show "set (inner u) \<subseteq> set (concat (map nodes (xs @ t # ys)))" "set (subs u) \<subseteq> set (concat (map subs (xs @ t # ys)))"
        using u by auto
      show "node ` set (xs @ t # ys) \<subseteq> set (concat (map nodes (xs @ t # ys)))"
        "set (nodes t) \<subseteq> set (concat (map nodes (xs @ t # ys)))" "set (subs t) \<subseteq> set (concat (map subs (xs @ t # ys)))"
        by auto
    qed (fact d)+
  qed (use u in auto)
  have hut: "hut (forget ?G (hp w)) ?R own a n"
    if "hut (hp w) ?T own a n" "own \<Longrightarrow> a \<in> ?R" for own a n
    by (rule hut_forget [OF that(1) _ _ sub(2)]) (use that(2) disj sub(1) in blast)+
  have own: "r \<in> ?R" if "r \<in> set (concat (map nodes (xs @ ys)))" "own_res w r" for r
    using that own_in_frees(1) by fastforce
  have own_rp: "q \<in> ?R" if "q \<in> set (concat (map subs (xs @ ys)))" "own_rp w q" for q
    using that own_in_frees(2) by fastforce
  have R: "?R \<subseteq> fst ` set (live (hp w'))"
  proof
    fix a assume a: "a \<in> ?R"
    then have "a \<in> fst ` set (live (hp w))" "a \<notin> ?G" using F(6) sub(2) disj by blast+
    then show "a \<in> fst ` set (live (hp w'))" by (auto simp: eq)
  qed
  have dist: "distinct (rp # concat (map nodes (xs @ ys)) @ concat (map subs (xs @ ys)))"
    using concat_drop(1) [OF d(1)] concat_drop(1) [OF d(2)] d(3-5)
      concat_drop(2) [of nodes xs ys t] concat_drop(2) [of subs xs ys t]
    unfolding distinct.simps distinct_append set_append by blast
  have distF: "distinct (concat (map (frees w) (xs @ ys)))" using concat_drop(1) [OF F(4)] .
  have L: "live_ok (live (hp w'))" using F(5) by (simp add: eq live_ok_filter)
  have sub': "set (concat (map nodes (xs @ ys))) \<subseteq> set (concat (map nodes (xs @ t # ys)))"
    "set (concat (map subs (xs @ ys))) \<subseteq> set (concat (map subs (xs @ t # ys)))" by (rule concat_drop(2))+
  have "hut (forget ?G (hp w)) ?R False rp sizeof_respool" using hut [OF F(7)] by simp
  moreover have "\<forall>r \<in> set (concat (map nodes (xs @ ys))). hut (forget ?G (hp w)) ?R (own_res w r) r sizeof_resource"
    using subsetD [OF sub'(1)] hut [OF F(8)] own by simp
  moreover have "\<forall>q \<in> set (concat (map subs (xs @ ys))). hut (forget ?G (hp w)) ?R (own_rp w q) q sizeof_respool"
    using subsetD [OF sub'(2)] hut [OF F(9)] own_rp by simp
  ultimately show ?thesis
    using ri sh dist distF L R unfolding forest_def Let_def eq by blast
qed

lemma xfree_ok: "p \<in> fst ` set (live h) \<Longrightarrow> live_ok (live h) \<Longrightarrow> xfree p h = Some (forget {p} h)"
  by (auto simp: xfree_def c_free_def forget_def release_def live_ok_def)

lemma res_drop_ok:
  assumes "obj_ok r sizeof_resource (hp w)" and ri: "ring (lnk w) rp (xs @ r # ys)" and "live_ok (live (hp w))"
    and "own_res w r \<Longrightarrow> r \<in> fst ` set (live (hp w))"
  shows "\<exists>w'. res_drop r w = Some w' \<and>
    effect (insert rp (set (xs @ r # ys))) {} (if own_res w r then {r} else {}) [] w w' \<and> ring (lnk w') rp (xs @ ys)"
proof -
  have "res_drop r w =
    Some (w\<lparr>lnk := list_remove r (lnk w), hp := forget (if own_res w r then {r} else {}) (hp w)\<rparr>)"
    using assms(1) xfree_ok [OF assms(4,3)] by (simp add: res_drop_def res_get_def Let_def own_res_def)
  then show ?thesis
    using list_remove_ring(1) [OF ri] remove_same(1) [OF ri] by (simp add: effect_def)
qed

lemma res_drop_rps: "res_drop r (w\<lparr>rps := X\<rparr>) = map_option (\<lambda>w. w\<lparr>rps := X\<rparr>) (res_drop r w)"
  by (auto simp: res_drop_def res_get_def Let_def split: bind_split)

lemma run_leaf:
  assumes "leaf_ok w r D" and "obj_ok r sizeof_resource (hp w)" and "live_ok (live (hp w))"
    and "set D \<subseteq> fst ` set (live (hp w))"
  shows "(case cl_free (r_class (ress w r)) of None \<Rightarrow> Some w | Some cb \<Rightarrow> run_free del cb r w) =
    Some (w\<lparr>hp := forget (set D) (hp w), events := events w @ leaf_calls w r\<rparr>)"
proof (cases "cl_free (r_class (ress w r))")
  case (Some cb)
  show ?thesis
  proof (cases cb)
    case Mem_res_free
    then show ?thesis
      using assms Some xfree_ok [of "r_priv (ress w r)" "hp w"]
      by (cases "r_priv (ress w r) = ADDR_NULL")
        (simp_all add: leaf_ok_def run_free_def mem_res_free_def res_get_def leaf_calls_def xfree_def c_free_def)
  next
    case Mp_res_free
    then obtain cs bs us where D: "hut (hp w) (- set D) False (r_priv (ress w r)) sizeof_mempool"
      "mp_shape (pools w (r_priv (ress w r))) (hp w) cs bs us" "D = map (chunk_base (hp w)) (cs @ bs @ us)"
      using assms(1) Some by (auto simp: leaf_ok_def mp_owned_def)
    have "(hp w)\<lparr>live := outside (hp w) (cs @ bs @ us)\<rparr> = forget (set D) (hp w)"
      unfolding D(3) outside_def forget_def set_map ..
    then show ?thesis
      using assms Some Mp_res_free hut_obj [OF D(1)] mp_delete_frees [OF D(2)]
      by (simp add: run_free_def mp_res_free_def res_get_def mpool_get_def leaf_calls_def)
  qed (use assms Some in \<open>simp_all add: leaf_ok_def run_free_def res_get_def leaf_calls_def\<close>)
qed (use assms in \<open>simp add: leaf_ok_def leaf_calls_def\<close>)

lemma leaf_free:
  assumes fo: "forest w rp (xs @ Leaf r D # ys)"
  shows "\<exists>w'. res_free_with del r w = Some w' \<and>
    effect (around rp xs (Leaf r D) ys) {} (set (frees w (Leaf r D))) (leaf_calls w r) w w' \<and>
    ring (lnk w') rp (map node (xs @ ys))"
proof -
  note F = forestD [OF fo]
  have hut: "hut (hp w) (set (concat (map (frees w) (xs @ Leaf r D # ys)))) (own_res w r) r sizeof_resource"
    by (rule F(8)) simp
  have D: "set D \<subseteq> fst ` set (live (hp w))" "own_res w r \<Longrightarrow> r \<in> fst ` set (live (hp w))"
    "own_res w r \<Longrightarrow> r \<notin> set D" using F(4,6) by auto
  have ok: "leaf_ok w r D" using F(2) [of "Leaf r D"] by simp
  let ?w1 = "w\<lparr>hp := forget (set D) (hp w), events := events w @ leaf_calls w r\<rparr>"
  have e1: "effect {} {} (set D) (leaf_calls w r) w ?w1" by (simp add: effect_def same_links_def)
  have own: "own_res ?w1 r = own_res w r" by (simp add: own_res_def)
  have "hut (hp ?w1) {} (own_res w r) r sizeof_resource"
    using hut_forget [OF hut, of "set D" "{}"] D(3) by auto
  moreover have "ring (lnk ?w1) rp (map node xs @ r # map node ys)" using F(1) by simp
  moreover have "own_res ?w1 r \<Longrightarrow> r \<in> fst ` set (live (hp ?w1))" using D(2,3) by (auto simp: own)
  ultimately obtain w' where w': "res_drop r ?w1 = Some w'" "ring (lnk w') rp (map node xs @ map node ys)"
    "effect (insert rp (set (map node xs @ r # map node ys))) {} (if own_res w r then {r} else {}) [] ?w1 w'"
    using res_drop_ok [of r ?w1 rp "map node xs" "map node ys"] hut_obj F(5) live_ok_filter by (auto simp: own)
  have "res_free_with del r w = Some w'"
    using run_leaf [OF ok hut_obj [OF hut] F(5) D(1)] hut_nn [OF hut F(5)] hut_obj [OF hut] w'(1)
    by (simp add: res_free_with_def res_get_def)
  moreover have "effect (around rp xs (Leaf r D) ys) {} (set (frees w (Leaf r D))) (leaf_calls w r) w w'"
  proof -
    have "{} \<union> insert rp (set (map node xs @ r # map node ys)) \<subseteq> around rp xs (Leaf r D) ys" by (auto simp: around_def)
    moreover have "set D \<union> (if own_res w r then {r} else {}) = set (frees w (Leaf r D))" by simp
    ultimately show ?thesis using effect_mono [OF effect_trans [OF e1 w'(3)]] by (metis append_Nil2 sup_bot.right_neutral)
  qed
  ultimately show ?thesis using w'(2) by auto
qed

section \<open>Deleting a pool\<close>

text \<open>What \<^verbatim>\<open>res_free\<close> is to do on the tree \<open>t\<close> of any pool.\<close>

definition frees_ok :: "rtree \<Rightarrow> bool" where
  "frees_ok t \<longleftrightarrow> (\<forall>w rp xs ys. forest w rp (xs @ t # ys) \<longrightarrow>
     (\<exists>w'. res_free (node t) w = Some w' \<and>
        effect (around rp xs t ys) (set (subs t)) (set (frees w t)) (calls w t) w w' \<and> ring (lnk w') rp (map node (xs @ ys))))"

lemma frees_okD:
  assumes "frees_ok t" and "forest w rp (xs @ t # ys)"
  obtains w' where "res_free (node t) w = Some w'"
    and "effect (around rp xs t ys) (set (subs t)) (set (frees w t)) (calls w t) w w'" and "forest w' rp (xs @ ys)"
  using assms forest_rest [OF assms(2)] unfolding frees_ok_def by blast

abbreviation nodes_of :: "rtree list \<Rightarrow> addr set" where
  "nodes_of ts \<equiv> set (concat (map nodes ts))"

abbreviation subs_of :: "rtree list \<Rightarrow> addr set" where
  "subs_of ts \<equiv> set (concat (map subs ts))"

abbreviation frees_of :: "world \<Rightarrow> rtree list \<Rightarrow> addr set" where
  "frees_of w ts \<equiv> set (concat (map (frees w) ts))"

definition cells :: "addr \<Rightarrow> rtree list \<Rightarrow> addr set" where
  "cells rp ts = insert rp (nodes_of ts \<union> subs_of ts)"

lemma around_cells: "around rp xs t ys \<subseteq> cells rp (xs @ t # ys)"
  by (auto simp: around_def cells_def)

lemma delete_loop:
  "\<forall>t \<in> set ts. frees_ok t \<Longrightarrow> forest w rp ts \<Longrightarrow>
   \<exists>w'. effect (cells rp ts) (subs_of ts) (frees_of w ts) (concat (rev (map (calls w) ts))) w w' \<and>
     forest w' rp [] \<and> rp_delete rp w = rp_free rp w'"
proof (induction ts arbitrary: w rule: rev_induct)
  case Nil
  have "list_tail rp (lnk w) = ADDR_NULL"
    using ring_head_links(2) [OF forestD(1) [OF Nil.prems(2)]] by (simp add: list_tail_def)
  moreover have "obj_ok rp sizeof_respool (hp w)" using hut_obj [OF forestD(7) [OF Nil.prems(2)]] .
  ultimately have "rp_delete rp w = rp_free rp w" by (subst rp_delete.simps) (simp add: rp_get_def)
  then show ?case using Nil.prems(2) effect_refl [of w "{}"] by auto
next
  case (snoc t ts)
  have fo: "forest w rp (ts @ t # [])" using snoc.prems(2) by simp
  note F = forestD [OF fo]
  obtain w1 where w1: "res_free (node t) w = Some w1" "forest w1 rp ts"
    "effect (around rp ts t []) (set (subs t)) (set (frees w t)) (calls w t) w w1"
    using frees_okD [OF _ fo] snoc.prems(1) by (metis append_Nil2 in_set_conv_decomp)
  obtain w2 where w2: "effect (cells rp ts) (subs_of ts) (frees_of w1 ts) (concat (rev (map (calls w1) ts))) w1 w2"
    "forest w2 rp []" "rp_delete rp w1 = rp_free rp w2"
    using snoc.IH [OF _ w1(2)] snoc.prems(1) by auto
  have hut: "hut (hp w) (frees_of w (ts @ t # [])) (own_res w (node t)) (node t) sizeof_resource"
    by (rule F(8)) simp
  have "list_tail rp (lnk w) = node t"
    using ring_head_links(2) [OF F(1)] F(3) by (auto simp: list_tail_def)
  moreover have "r_rpool (ress w (node t)) = rp" using F(2) [of t] by (cases t) auto
  ultimately have "rp_delete rp w = rp_delete rp w1"
    using w1(1) hut_nn [OF hut F(5)] hut_obj [OF hut] hut_obj [OF F(7)]
    by (subst rp_delete.simps) (simp add: rp_get_def res_get_def res_free_def)
  moreover have "effect (cells rp (ts @ [t])) (subs_of (ts @ [t])) (frees_of w (ts @ [t]))
      (concat (rev (map (calls w) (ts @ [t])))) w w2"
  proof -
    have "around rp ts t [] \<union> cells rp ts \<subseteq> cells rp (ts @ [t])" by (auto simp: around_def cells_def)
    from effect_mono [OF effect_trans [OF w1(3) w2(1)] this] show ?thesis
      using effect_frees [OF w1(3)] by (simp add: Un_commute)
  qed
  ultimately show ?case using w2 by auto
qed

lemma rp_free_ok:
  assumes "obj_ok rp sizeof_respool (hp w)" and "live_ok (live (hp w))" and "subpool_of (rps w rp) = ADDR_NULL"
    and "own_rp w rp \<Longrightarrow> rp \<in> fst ` set (live (hp w))"
  shows "\<exists>w'. rp_free rp w = Some w' \<and> lnk w' = lnk w \<and> effect {} {rp} (if own_rp w rp then {rp} else {}) [] w w'"
  using assms xfree_ok [OF assms(4,2)]
  by (auto simp: rp_free_def rp_get_def own_rp_def rp_current_def rp_switch_def effect_def same_links_def)

lemma forest_sub:
  assumes "forest w rp (xs @ Sub r q ts # ys)"
  shows "forest w q ts"
proof -
  note F = forestD [OF assms]
  have "tshape w rp (Sub r q ts)" by (rule F(2)) simp
  moreover have d: "distinct (nodes (Sub r q ts) @ subs (Sub r q ts))" using F(3) by auto
  moreover have "distinct (frees w (Sub r q ts))" using F(4) by auto
  moreover have sub: "frees_of w ts \<subseteq> frees_of w (xs @ Sub r q ts # ys)" by auto
  moreover have "frees_of w ts \<subseteq> fst ` set (live (hp w))" using sub F(6) by (rule subset_trans)
  moreover have "hut (hp w) (frees_of w ts) False q sizeof_respool"
  proof (cases "own_rp w q")
    case True
    then have "q \<notin> frees_of w ts" using \<open>distinct (frees w (Sub r q ts))\<close> by auto
    then show ?thesis using F(9) [of q] True unfolding hut_def by fastforce
  next
    case False
    then show ?thesis using hut_mono [OF _ sub] F(9) [of q] by simp
  qed
  moreover have "\<forall>a \<in> nodes_of ts. hut (hp w) (frees_of w ts) (own_res w a) a sizeof_resource"
    using hut_mono [OF F(8) sub] by simp
  moreover have "\<forall>a \<in> subs_of ts. hut (hp w) (frees_of w ts) (own_rp w a) a sizeof_respool"
    using hut_mono [OF F(9) sub] by simp
  ultimately show ?thesis using F(5) unfolding forest_def Let_def by auto
qed

lemma tshape_cong:
  assumes "ress w' = ress w" "lnk w' = lnk w" "hp w' = hp w" "pools w' = pools w"
  shows "tshape w' rp t = tshape w rp t"
proof (induction t arbitrary: rp)
  case (Leaf r D)
  then show ?case unfolding tshape.simps leaf_ok_def mp_owned_def assms ..
qed (simp add: assms)

lemma forest_cong:
  assumes "ress w' = ress w" "lnk w' = lnk w" "hp w' = hp w" "pools w' = pools w" "own_rp w' = own_rp w"
  shows "forest w' rp ts = forest w rp ts"
proof -
  have "own_res w' = own_res w" by (simp add: fun_eq_iff own_res_def assms(1))
  moreover from this have "frees w' = frees w" using frees_cong assms(5) by (simp add: fun_eq_iff)
  moreover have "tshape w' = tshape w" using tshape_cong [OF assms(1-4)] by (simp add: fun_eq_iff)
  ultimately show ?thesis unfolding forest_def assms by simp
qed

lemma effect_put:
  assumes "effect C Q F E (w\<lparr>rps := (rps w)(q := p)\<rparr>) w'" and "q \<in> Q" and "rp_mpool p = rp_mpool (rps w q)"
  shows "effect C Q F E w w'"
  using assms unfolding effect_def by (auto split: if_splits)

text \<open>The end of both: the pool itself goes.\<close>

definition own_block :: "world \<Rightarrow> addr \<Rightarrow> addr set" where
  "own_block w rp = (if own_rp w rp then {rp} else {})"

lemma pool_end:
  assumes fo: "forest w rp ts" and rp: "subpool_of (rps w rp) = ADDR_NULL" "own_block w rp \<subseteq> fst ` set (live (hp w))"
    "own_block w rp \<inter> frees_of w ts = {}"
    and ef: "effect (cells rp ts) (subs_of ts) (frees_of w ts) E w w1" and fo1: "forest w1 rp []"
  shows "\<exists>w'. rp_free rp w1 = Some w' \<and>
    effect (cells rp ts) (insert rp (subs_of ts)) (frees_of w ts \<union> own_block w rp) E w w'"
proof -
  have "rp \<notin> subs_of ts" using forestD(3) [OF fo] by simp
  then have "subpool_of (rps w1 rp) = ADDR_NULL" using ef rp(1) by (simp add: effect_def)
  moreover have own: "own_rp w1 rp = own_rp w rp" using effect_own(2) [OF ef] by simp
  moreover have "own_rp w1 rp \<Longrightarrow> rp \<in> fst ` set (live (hp w1))"
    using ef rp(2,3) own by (auto simp: effect_def own_block_def)
  moreover note hut_obj [OF forestD(7) [OF fo1]] forestD(5) [OF fo1]
  ultimately obtain w2 where "rp_free rp w1 = Some w2" "effect {} {rp} (own_block w rp) [] w1 w2"
    using rp_free_ok [of rp w1] unfolding own_block_def by auto
  then show ?thesis using effect_trans [OF ef] by (metis Un_empty_right append_Nil2 insert_is_Un sup_commute)
qed

text \<open>A sub-pool and its resources are apart from the pool it belongs to.\<close>

lemma sub_apart:
  assumes fo: "forest w rp (xs @ Sub r q ts # ys)"
  shows "q \<notin> subs_of ts" "rp \<notin> cells q ts" "node ` set (xs @ Sub r q ts # ys) \<inter> cells q ts = {}" "r \<noteq> q"
proof -
  let ?t = "Sub r q ts"
  note F = forestD [OF fo]
  have t': "cells q ts = set (inner ?t) \<union> set (subs ?t)" by (auto simp: cells_def)
  have N: "set (inner ?t) \<subseteq> nodes_of (xs @ ?t # ys)" "set (subs ?t) \<subseteq> subs_of (xs @ ?t # ys)"
    "node ` set (xs @ ?t # ys) \<subseteq> nodes_of (xs @ ?t # ys)" by auto
  have "distinct (concat (map nodes (xs @ ?t # ys)))" using F(3) unfolding distinct.simps distinct_append by blast
  then have "node ` set (xs @ ?t # ys) \<inter> set (inner ?t) = {}" using node_not_inner [of _ ?t] by auto
  moreover have "rp \<notin> nodes_of (xs @ ?t # ys)" "rp \<notin> subs_of (xs @ ?t # ys)"
    "nodes_of (xs @ ?t # ys) \<inter> subs_of (xs @ ?t # ys) = {}"
    using F(3) unfolding distinct.simps distinct_append set_append by blast+
  ultimately show "rp \<notin> cells q ts" "node ` set (xs @ ?t # ys) \<inter> cells q ts = {}" using N unfolding t' by blast+
  then show "r \<noteq> q" by (auto simp: cells_def)
  show "q \<notin> subs_of ts" using forestD(3) [OF forest_sub [OF fo]] unfolding distinct.simps set_append by blast
qed

lemma sub_frees:
  assumes fo: "forest w rp (xs @ Sub r q ts # ys)"
  shows "own_block w q \<inter> frees_of w ts = {}" "own_res w r \<Longrightarrow> r \<notin> frees_of w ts \<union> own_block w q"
    "own_block w q \<subseteq> fst ` set (live (hp w))" "own_res w r \<Longrightarrow> r \<in> fst ` set (live (hp w))"
    "set (frees w (Sub r q ts)) = frees_of w ts \<union> own_block w q \<union> (if own_res w r then {r} else {})"
proof -
  have t': "distinct (frees w (Sub r q ts))" "set (frees w (Sub r q ts)) \<subseteq> fst ` set (live (hp w))"
    using forestD(4,6) [OF fo] by auto
  then show "own_block w q \<inter> frees_of w ts = {}" "own_res w r \<Longrightarrow> r \<notin> frees_of w ts \<union> own_block w q"
    "own_block w q \<subseteq> fst ` set (live (hp w))" "own_res w r \<Longrightarrow> r \<in> fst ` set (live (hp w))"
    by (auto simp: own_block_def)
  show "set (frees w (Sub r q ts)) = frees_of w ts \<union> own_block w q \<union> (if own_res w r then {r} else {})"
    by (auto simp: own_block_def)
qed

text \<open>The resource of a sub-pool is dropped after a part \<open>G\<close> of its blocks has been freed.\<close>

lemma sub_drop:
  assumes fo: "forest w rp (xs @ Sub r q ts # ys)" and ef: "effect (cells q ts) Q G E w w'"
    and G: "G \<subseteq> frees_of w ts \<union> own_block w q"
  shows "obj_ok r sizeof_resource (hp w')"
    and "\<exists>w''. res_drop r w' = Some w'' \<and> ring (lnk w'') rp (map node (xs @ ys)) \<and>
      effect (insert rp (set (map node xs @ r # map node ys))) {} (if own_res w r then {r} else {}) [] w' w''"
proof -
  let ?t = "Sub r q ts"
  note F = forestD [OF fo]
  have hut: "hut (hp w) (frees_of w (xs @ ?t # ys)) (own_res w r) r sizeof_resource" by (rule F(8)) simp
  have G1: "own_res w r \<Longrightarrow> r \<notin> G" using sub_frees(2) [OF fo] G by blast
  have G2: "G \<subseteq> frees_of w (xs @ ?t # ys)" by (rule subset_trans [OF G]) (auto simp: own_block_def)
  show obj: "obj_ok r sizeof_resource (hp w')"
    using ef hut_obj [OF hut_forget [OF hut G1 G2 order_refl]] by (simp add: effect_def)
  have "ring (lnk w') rp (map node xs @ r # map node ys)"
  proof (rule ring_frame [of "lnk w"])
    fix n assume "n \<in> insert rp (set (map node xs @ r # map node ys))"
    then have "n \<notin> cells q ts" using sub_apart(2,3) [OF fo] by auto
    then show "same_links (lnk w) (lnk w') n" using ef by (simp add: effect_def)
  qed (use F(1) in simp)
  moreover have "live_ok (live (hp w'))" using ef F(5) by (simp add: effect_def live_ok_filter)
  moreover have "own_res w' r \<Longrightarrow> r \<in> fst ` set (live (hp w'))"
    using ef sub_frees(2,4) [OF fo] G effect_own(1) [OF ef] by (auto simp: effect_def)
  ultimately show "\<exists>w''. res_drop r w' = Some w'' \<and> ring (lnk w'') rp (map node (xs @ ys)) \<and>
      effect (insert rp (set (map node xs @ r # map node ys))) {} (if own_res w r then {r} else {}) [] w' w''"
    using res_drop_ok [OF obj] effect_own(1) [OF ef] by fastforce
qed

lemma sub_effect:
  assumes fo: "forest w rp (xs @ Sub r q ts # ys)"
    and "effect (cells q ts \<union> insert rp (set (map node xs @ r # map node ys))) (insert q (subs_of ts))
      (frees_of w ts \<union> own_block w q \<union> (if own_res w r then {r} else {})) E w w'"
  shows "effect (around rp xs (Sub r q ts) ys) (set (subs (Sub r q ts))) (set (frees w (Sub r q ts))) E w w'"
proof -
  have "cells q ts \<union> insert rp (set (map node xs @ r # map node ys)) \<subseteq> around rp xs (Sub r q ts) ys"
    by (auto simp: around_def cells_def)
  from effect_mono [OF assms(2) this] show ?thesis unfolding sub_frees(5) [OF fo] by simp
qed

lemma sub_free:
  assumes ok: "\<forall>t \<in> set ts. frees_ok t"
  shows "frees_ok (Sub r q ts)"
  unfolding frees_ok_def
proof (intro allI impI)
  fix w rp xs ys assume fo: "forest w rp (xs @ Sub r q ts # ys)"
  let ?t = "Sub r q ts" and ?p = "(rps w q)\<lparr>subpool_of := ADDR_NULL\<rparr>"
  let ?w0 = "w\<lparr>rps := (rps w)(q := ?p)\<rparr>"
  note F = forestD [OF fo] and S = forestD [OF forest_sub [OF fo]]
  have t: "cl_free (r_class (ress w r)) = Some Subpool_res_free" "r_priv (ress w r) = q" using F(2) [of ?t] by simp_all
  have hut: "hut (hp w) (frees_of w (xs @ ?t # ys)) (own_res w r) r sizeof_resource" by (rule F(8)) simp
  have own: "own_rp ?w0 = own_rp w" "own_res ?w0 = own_res w" "own_block ?w0 = own_block w"
    by (simp_all add: own_rp_def own_res_def own_block_def fun_eq_iff)
  have fr: "frees ?w0 = frees w" using frees_cong [OF own(2,1)] by (simp add: fun_eq_iff)
  have cl: "calls ?w0 = calls w" using calls_cong [OF leaf_calls_cong, of ?w0 w] by (simp add: fun_eq_iff)
  have fo0: "forest ?w0 q ts" using forest_cong [of ?w0 w] own(1) forest_sub [OF fo] by simp
  from delete_loop [OF ok this, unfolded fr cl] obtain w1 where
    w1: "effect (cells q ts) (subs_of ts) (frees_of w ts) (calls w ?t) ?w0 w1" "forest w1 q []"
    "rp_delete q ?w0 = rp_free q w1"
    by auto
  obtain w2 where w2: "rp_free q w1 = Some w2"
    "effect (cells q ts) (insert q (subs_of ts)) (frees_of w ts \<union> own_block w q) (calls w ?t) ?w0 w2"
    using pool_end [OF fo0 _ _ _ _ w1(2), unfolded fr own, OF _ _ sub_frees(1) [OF fo] w1(1)] sub_frees(3) [OF fo] by auto
  have e2: "effect (cells q ts) (insert q (subs_of ts)) (frees_of w ts \<union> own_block w q) (calls w ?t) w w2"
    using effect_put [OF w2(2)] by simp
  obtain w3 where w3: "res_drop r w2 = Some w3" "ring (lnk w3) rp (map node (xs @ ys))"
    "effect (insert rp (set (map node xs @ r # map node ys))) {} (if own_res w r then {r} else {}) [] w2 w3"
    using sub_drop(2) [OF fo e2 order_refl] by blast
  have "res_free r w = Some w3"
    using t w1(3) w2(1) w3(1) hut_nn [OF hut F(5)] hut_obj [OF hut] hut_obj [OF S(7)]
    by (simp add: res_free_def res_free_with_def run_free_def subpool_res_free_with_def res_get_def rp_get_def rp_put_def)
  moreover have "effect (around rp xs ?t ys) (set (subs ?t)) (set (frees w ?t)) (calls w ?t) w w3"
    using sub_effect [OF fo] effect_trans [OF e2 w3(3)] by simp
  ultimately show "\<exists>w'. res_free (node ?t) w = Some w' \<and>
      effect (around rp xs ?t ys) (set (subs ?t)) (set (frees w ?t)) (calls w ?t) w w' \<and> ring (lnk w') rp (map node (xs @ ys))"
    using w3(2) by auto
qed

lemma frees_ok_all: "frees_ok t"
proof (induction t)
  case (Leaf r D)
  show ?case
    unfolding frees_ok_def res_free_def using leaf_free [where r = r and D = D] by simp
qed (simp add: sub_free)

lemmas delete_all = delete_loop [OF ballI [OF frees_ok_all]]

text \<open>Committing frees from the head, and only what is temporary; here everything is.\<close>

lemma commit_all:
  "forest w rp ts \<Longrightarrow> \<forall>t \<in> set ts. r_flags (ress w (node t)) AND RES_FLAG_TEMP \<noteq> 0 \<Longrightarrow>
   \<exists>w'. effect (cells rp ts) (subs_of ts) (frees_of w ts) (concat (map (calls w) ts)) w w' \<and>
     forest w' rp [] \<and> rp_commit rp w = rp_free rp w'"
proof (induction ts arbitrary: w)
  case Nil
  have "list_head rp (lnk w) = ADDR_NULL"
    using ring_head_links(1) [OF forestD(1) [OF Nil.prems(1)]] by (simp add: list_head_def)
  moreover have "obj_ok rp sizeof_respool (hp w)" using hut_obj [OF forestD(7) [OF Nil.prems(1)]] .
  ultimately have "rp_commit rp w = rp_free rp w" by (subst rp_commit.simps) (simp add: rp_get_def)
  then show ?case using Nil.prems(1) effect_refl [of w "{}"] by auto
next
  case (Cons t ts)
  have fo: "forest w rp ([] @ t # ts)" using Cons.prems(1) by simp
  note F = forestD [OF fo]
  obtain w1 where w1: "res_free (node t) w = Some w1" "forest w1 rp ts"
    "effect (around rp [] t ts) (set (subs t)) (set (frees w t)) (calls w t) w w1"
    using frees_okD [OF frees_ok_all fo] by (metis append_Nil)
  have "ress w1 = ress w" using w1(3) by (simp add: effect_def)
  then obtain w2 where w2: "effect (cells rp ts) (subs_of ts) (frees_of w1 ts) (concat (map (calls w1) ts)) w1 w2"
    "forest w2 rp []" "rp_commit rp w1 = rp_free rp w2"
    using Cons.IH [OF w1(2)] Cons.prems(2) by auto
  have hut: "hut (hp w) (frees_of w ([] @ t # ts)) (own_res w (node t)) (node t) sizeof_resource"
    by (rule F(8)) simp
  have "list_head rp (lnk w) = node t"
    using ring_head_links(1) [OF F(1)] F(3) by (auto simp: list_head_def)
  moreover have "r_rpool (ress w (node t)) = rp" using F(2) [of t] by (cases t) auto
  ultimately have "rp_commit rp w = rp_commit rp w1"
    using w1(1) hut_nn [OF hut F(5)] hut_obj [OF hut] hut_obj [OF F(7)] Cons.prems(2)
    by (subst rp_commit.simps) (simp add: rp_get_def res_get_def)
  moreover have "effect (cells rp (t # ts)) (subs_of (t # ts)) (frees_of w (t # ts))
      (concat (map (calls w) (t # ts))) w w2"
  proof -
    have "around rp [] t ts \<union> cells rp ts \<subseteq> cells rp (t # ts)" by (auto simp: around_def cells_def)
    from effect_mono [OF effect_trans [OF w1(3) w2(1)] this] show ?thesis
      using effect_frees [OF w1(3)] by simp
  qed
  ultimately show ?case using w2 by auto
qed

text \<open>
  A pool that is a sub-pool may be deleted by itself: it leaves the pool above it, as if the
  resource that stands for it had been freed.
\<close>

lemma subpool_delete:
  assumes fo: "forest w rp (xs @ Sub r q ts # ys)" and q: "subpool_of (rps w q) = r"
    and det: "cl_detach (r_class (ress w r)) = Some Subpool_res_detach"
  shows "\<exists>w'. rp_delete q w = Some w' \<and>
    effect (around rp xs (Sub r q ts) ys) (set (subs (Sub r q ts))) (set (frees w (Sub r q ts))) (calls w (Sub r q ts)) w w' \<and>
    ring (lnk w') rp (map node (xs @ ys))"
proof -
  let ?t = "Sub r q ts" and ?R = "if own_res w r then {r} else {}"
  note F = forestD [OF fo]
  have hut: "hut (hp w) (frees_of w (xs @ ?t # ys)) (own_res w r) r sizeof_resource" by (rule F(8)) simp
  have hutq: "hut (hp w) (frees_of w (xs @ ?t # ys)) (own_rp w q) q sizeof_respool" by (rule F(9)) simp
  have r: "r \<noteq> ADDR_NULL" "r_priv (ress w r) = q" using hut_nn [OF hut F(5)] F(2) [of ?t] by simp_all
  obtain w1 where w1: "effect (cells q ts) (subs_of ts) (frees_of w ts) (calls w ?t) w w1"
    "forest w1 q []" "rp_delete q w = rp_free q w1"
    using delete_all [OF forest_sub [OF fo]] by auto
  obtain w2 where w2: "res_drop r w1 = Some w2" "ring (lnk w2) rp (map node (xs @ ys))"
    "effect (insert rp (set (map node xs @ r # map node ys))) {} ?R [] w1 w2"
    using sub_drop(2) [OF fo w1(1)] by blast
  let ?X = "(rps w1)(q := (rps w1 q)\<lparr>subpool_of := ADDR_NULL\<rparr>)" and ?G = "frees_of w ts \<union> ?R"
  have e2: "effect (cells q ts \<union> insert rp (set (map node xs @ r # map node ys))) (subs_of ts) ?G (calls w ?t) w w2"
    using effect_trans [OF w1(1) w2(3)] by simp
  have rps: "subpool_of (rps w1 q) = r" "rps w2 = rps w1" "ress w1 = ress w" "own_rp w2 q = own_rp w q"
    using w1(1) w2(3) sub_apart(1) [OF fo] q effect_own(2) [OF e2] by (auto simp: effect_def)
  have G: "own_rp w q \<Longrightarrow> q \<notin> ?G" "?G \<subseteq> frees_of w (xs @ ?t # ys)"
    using sub_frees(1) [OF fo] sub_apart(4) [OF fo] by (auto simp: own_block_def)
  have objs: "obj_ok r sizeof_resource (hp w1)" "obj_ok q sizeof_respool (hp w1)" "obj_ok q sizeof_respool (hp w2)"
    using sub_drop(1) [OF fo w1(1)] hut_obj [OF forestD(7) [OF w1(2)]]
      hut_obj [OF hut_forget [OF hutq G order_refl]] e2 by (simp_all add: effect_def)
  have "res_detach r w1 = Some (w2\<lparr>rps := ?X\<rparr>)"
    using r det rps objs w2(1) res_drop_rps [of r ?X w1]
    by (simp add: res_detach_def res_get_def subpool_res_detach_def rp_get_def rp_put_def)
  moreover have "own_rp w q \<Longrightarrow> xfree q (hp w2) = Some (forget {q} (hp w2))"
    using e2 sub_frees(3) [OF fo] G(1) F(5) by (intro xfree_ok) (auto simp: effect_def own_block_def live_ok_filter)
  moreover have "rp_mpool (rps w1 q) = ADDR_NULL \<longleftrightarrow> own_rp w q" using rps by (simp add: own_rp_def)
  ultimately have "\<exists>w'. rp_free q w1 = Some w' \<and> lnk w' = lnk w2 \<and> effect {} {q} (own_block w q) [] w2 w'"
    using rps(1,2) r(1) objs
    by (auto simp: rp_free_def rp_get_def rp_current_def rp_switch_def effect_def same_links_def own_block_def)
  then obtain w3 where w3: "rp_free q w1 = Some w3" "lnk w3 = lnk w2" "effect {} {q} (own_block w q) [] w2 w3"
    by blast
  have "?G \<union> own_block w q = frees_of w ts \<union> own_block w q \<union> ?R" by blast
  then have "effect (around rp xs ?t ys) (set (subs ?t)) (set (frees w ?t)) (calls w ?t) w w3"
    using effect_trans [OF e2 w3(3)] sub_effect [OF fo] by simp
  then show ?thesis using w1(3) w3(1,2) w2(2) by auto
qed

end
