(* ===== verification/Resource_Ops.thy ===== *)
theory Resource_Ops
  imports Resource_Inv
begin

text \<open>
  Resource pools from their creation to their end: adding resources keeps the shape of the pool,
  and deleting or committing the pool gives back exactly what was taken.
\<close>

section \<open>Adding a resource\<close>

lemma flags_new: "(RES_FLAG_XFREE AND NOT RES_FLAG_TEMP) OR (RES_FLAG_TEMP AND RES_FLAG_TEMP) = 3"
  by (simp add: RES_FLAG_XFREE_def RES_FLAG_TEMP_def)

text \<open>A pool that takes its memory from \<^verbatim>\<open>malloc\<close> is the current one.\<close>

definition standing :: "addr \<Rightarrow> world \<Rightarrow> bool" where
  "standing rp w \<longleftrightarrow> rp_current w = rp \<and> own_rp w rp \<and> subpool_of (rps w rp) = ADDR_NULL \<and>
     default_res_flags (rps w rp) = RES_FLAG_TEMP"

definition class_size :: "res_class \<Rightarrow> nat" where
  "class_size rc = (if cl_size rc \<noteq> 0 then cl_size rc else sizeof_resource)"

definition with_res :: "addr \<Rightarrow> addr \<Rightarrow> nat \<Rightarrow> res_class \<Rightarrow> addr \<Rightarrow> world \<Rightarrow> world" where
  "with_res rp r n rc priv w =
     w\<lparr>hp := (hp w)\<lparr>live := (r, n) # live (hp w)\<rparr>, lnk := list_add_tail rp r (lnk w),
       ress := (ress w)(r := (ress w r)\<lparr>r_rpool := rp, r_flags := 3, r_class := rc, r_priv := priv\<rparr>)\<rparr>"

lemma obj_ok_Cons: "obj_ok a n h \<Longrightarrow> obj_ok a n (h\<lparr>live := b # live h\<rparr>)"
  by (simp add: obj_ok_def)

lemma res_new_standing:
  assumes A: "allocator_ok A" and st: "standing rp w" and rp: "obj_ok rp sizeof_respool (hp w)" "rp \<noteq> ADDR_NULL"
    and n: "sizeof_resource \<le> class_size rc"
  defines "r \<equiv> A (live (hp w)) (class_size rc)"
  shows "res_new A rc priv w = Some (r, with_res rp r (class_size rc) rc priv w)"
proof -
  have nn: "r \<noteq> ADDR_NULL" using allocator_okD(1) [OF A] by (simp add: r_def)
  have r: "obj_ok r sizeof_resource ((hp w)\<lparr>live := (r, class_size rc) # live (hp w)\<rparr>)"
    using n by (simp add: obj_ok_def)
  have alloc: "xmalloc A (class_size rc) (hp w) = (r, (hp w)\<lparr>live := (r, class_size rc) # live (hp w)\<rparr>)"
    using nn by (simp add: xmalloc_def malloc_def r_def Let_def)
  have "res_alloc A rc w = Some (r, w\<lparr>hp := (hp w)\<lparr>live := (r, class_size rc) # live (hp w)\<rparr>, lnk := list_add_tail rp r (lnk w),
       ress := (ress w)(r := (ress w r)\<lparr>r_rpool := rp, r_flags := 3\<rparr>)\<rparr>)"
    unfolding res_alloc_def Let_def class_size_def [symmetric]
    using st rp r alloc obj_ok_Cons [OF rp(1)] flags_new
    by (simp add: res_add_def rp_current_def standing_def own_rp_def rp_get_def res_get_def res_put_def)
  then show ?thesis
    using r by (simp add: res_new_def res_get_def res_put_def with_res_def)
qed

text \<open>The world after blocks have been added; the rest is as before outside \<open>r\<close> and the ring of the pool.\<close>

lemma mp_owned_grow:
  assumes "mp_owned w mp D" and "pools w' = pools w" and "hp w' = (hp w)\<lparr>live := new @ live (hp w)\<rparr>"
    and "live_ok (live (hp w'))"
  shows "mp_owned w' mp D"
proof -
  obtain cs bs us where D: "hut (hp w) (- set D) False mp sizeof_mempool" "mp_shape (pools w mp) (hp w) cs bs us"
    "D = map (chunk_base (hp w)) (cs @ bs @ us)" using assms(1) unfolding mp_owned_def by blast
  have base: "chunk_base (hp w') = chunk_base (hp w)" by (simp add: assms(3) fun_eq_iff chunk_base_def)
  have "chunk_ok (hp w') c" if "chunk_ok (hp w) c" for c
    using that by (simp add: assms(3) chunk_ok_def chunk_base_def)
  moreover have "chunks (hp w') p xs = chunks (hp w) p xs" for p xs by (rule chunks_cong) (simp add: assms(3))
  moreover have "c_size (hp w') = c_size (hp w)" by (simp add: assms(3))
  ultimately have "mp_shape (pools w mp) (hp w') cs bs us" using D(2) assms(4) unfolding mp_shape_def by (simp split: if_splits)
  moreover have "hut (hp w') (- set D) False mp sizeof_mempool" using D(1) by (auto simp: hut_def assms(3))
  ultimately show ?thesis using D(3) unfolding mp_owned_def base assms(2) by blast
qed

lemma tshape_grow:
  assumes w': "pools w' = pools w" "hp w' = (hp w)\<lparr>live := new @ live (hp w)\<rparr>" "live_ok (live (hp w'))"
    and "\<forall>a \<in> set (nodes t). ress w' a = ress w a" and "\<forall>a \<in> set (inner t @ subs t). same_links (lnk w) (lnk w') a"
    and "tshape w rp t"
  shows "tshape w' rp t"
  using assms(4-)
proof (induction t arbitrary: rp)
  case (Leaf r D)
  have "ress w' r = ress w r" using Leaf.prems by simp
  then show ?case
    using Leaf.prems(3) mp_owned_grow [OF _ w'] unfolding tshape.simps leaf_ok_def
    by (auto split: option.splits free_callback.splits)
next
  case (Sub r q ts)
  have "tshape w' q t" if t: "t \<in> set ts" for t
  proof (rule Sub.IH [OF t])
    show "\<forall>a \<in> set (nodes t). ress w' a = ress w a" using Sub.prems(1) t by simp
    show "\<forall>a \<in> set (inner t @ subs t). same_links (lnk w) (lnk w') a" using Sub.prems(2) t by (simp add: ball_Un)
    show "tshape w q t" using Sub.prems(3) t by simp
  qed
  moreover have "ring (lnk w') q (map node ts)"
  proof (rule ring_frame [of "lnk w"])
    fix n assume "n \<in> insert q (set (map node ts))"
    then have "n \<in> set (inner (Sub r q ts) @ subs (Sub r q ts))" by auto
    then show "same_links (lnk w) (lnk w') n" using Sub.prems(2) by blast
  qed (use Sub.prems(3) in simp)
  ultimately show ?case using Sub.prems by simp
qed

lemma hut_block: "hut h F own a n \<Longrightarrow> 0 < n \<Longrightarrow> \<exists>b \<in> set (live h). a \<in> block b"
  unfolding hut_def block_def by force

lemma frees_local:
  assumes "own_rp w' = own_rp w" and "\<forall>a \<in> set (nodes t). ress w' a = ress w a"
  shows "frees w' t = frees w t" "calls w' t = calls w t"
proof -
  have "frees w' t = frees w t \<and> calls w' t = calls w t"
    using assms(2)
  proof (induction t)
    case (Leaf r D)
    then have "ress w' r = ress w r" by simp
    then show ?case by (simp only: frees.simps calls.simps own_res_def leaf_calls_def)
  next
    case (Sub r q ts)
    have "frees w' t = frees w t \<and> calls w' t = calls w t" if "t \<in> set ts" for t
      using Sub.prems that by (intro Sub.IH) simp_all
    then have "map (frees w') ts = map (frees w) ts" "map (calls w') ts = map (calls w) ts" by auto
    moreover have "own_res w' r = own_res w r" using Sub.prems by (simp add: own_res_def)
    ultimately show ?case by (simp only: frees.simps calls.simps assms(1))
  qed
  then show "frees w' t = frees w t" "calls w' t = calls w t" by auto
qed

lemma forest_add:
  assumes fo: "forest w rp ts"
    and w': "pools w' = pools w" "hp w' = (hp w)\<lparr>live := new @ live (hp w)\<rparr>" "live_ok (live (hp w'))"
      "own_rp w' = own_rp w" "lnk w' = list_add_tail rp r (lnk w)" "\<forall>a. a \<noteq> r \<longrightarrow> ress w' a = ress w a"
    and r: "(r, n) \<in> set new" "sizeof_resource \<le> n" "own_res w' r" "r_rpool (ress w' r) = rp" "leaf_ok w' r D"
      "set D \<subseteq> fst ` set new" "distinct (D @ [r])"
  shows "forest w' rp (ts @ [Leaf r D])" and "map (calls w') ts = map (calls w) ts"
proof -
  note F = forestD [OF fo]
  have pos: "0 < sizeof_resource" "0 < sizeof_respool" by (simp_all add: sizeof_resource_def sizeof_respool_def)
  have d: "fst ` set new \<inter> fst ` set (live (hp w)) = {}" using w'(3) by (simp add: w'(2) live_ok_def)
  have apart: "a \<noteq> r" if "b \<in> set (live (hp w))" "a \<in> block b" for a b
  proof
    assume "a = r"
    then have "r \<in> block (r, n) \<inter> block b" using that(2) r(2) pos by (simp add: block_def)
    moreover have "(r, n) \<noteq> b" using that(1) r(1) d by force
    ultimately show False using w'(3) r(1) that(1) unfolding live_ok_def w'(2) by auto
  qed
  have fresh: "r \<notin> cells rp ts"
    using hut_block [OF F(7) pos(2)] hut_block [OF F(8) pos(1)] hut_block [OF F(9) pos(2)] apart
    unfolding cells_def by blast
  have same: "ress w' a = ress w a" if "t \<in> set ts" "a \<in> set (nodes t)" for t a
    using that fresh w'(6) by (auto simp: cells_def)
  have fr: "frees w' t = frees w t" "calls w' t = calls w t" if "t \<in> set ts" for t
    using frees_local [OF w'(4), of t] same [OF that] by blast+
  show "map (calls w') ts = map (calls w) ts" using fr(2) by simp
  have ft: "frees_of w' ts = frees_of w ts" "concat (map (frees w') ts) = concat (map (frees w) ts)"
    using fr(1) by (simp_all cong: map_cong)
  have ring': "ring (lnk w') rp (map node ts @ [r])"
    using add_ring(2) [OF F(1)] fresh unfolding w'(5) cells_def by auto
  have sh: "tshape w' rp t" if t: "t \<in> set ts" for t
  proof (rule tshape_grow [OF w'(1-3)])
    have dist: "distinct (concat (map nodes ts))" "rp \<notin> nodes_of ts" "rp \<notin> subs_of ts" "nodes_of ts \<inter> subs_of ts = {}"
      using F(3) unfolding distinct.simps distinct_append set_append by blast+
    show "\<forall>a \<in> set (inner t @ subs t). same_links (lnk w) (lnk w') a"
    proof
      fix a assume a: "a \<in> set (inner t @ subs t)"
      have "a \<noteq> r" using a fresh t by (auto simp: cells_def)
      moreover have "a \<noteq> rp" using a t dist(2,3) by auto
      moreover have "a \<notin> set (map node ts)"
      proof
        assume "a \<in> set (map node ts)"
        then obtain v where v: "v \<in> set ts" "a = node v" by auto
        then have "a \<in> nodes_of ts" by auto
        moreover have "a \<notin> set (inner t)" using node_not_inner [OF dist(1) t v(1)] v(2) by simp
        ultimately show False using a t dist(4) by auto
      qed
      ultimately show "same_links (lnk w) (lnk w') a" unfolding w'(5) by (intro add_same(2) [OF F(1)]) auto
    qed
  qed (use same F(2) t in blast)+
  have newF: "set (D @ [r]) \<subseteq> fst ` set new" using r(1,6) by force
  have Feq: "concat (map (frees w') (ts @ [Leaf r D])) = concat (map (frees w) ts) @ (D @ [r])" using r(3) ft(2) by simp
  have Fset: "frees_of w' (ts @ [Leaf r D]) = frees_of w ts \<union> set (D @ [r])" unfolding Feq by simp
  have hut: "hut (hp w') (frees_of w ts \<union> set (D @ [r])) own a m" if h: "hut (hp w) (frees_of w ts) own a m" for own a m
  proof -
    obtain p k where p: "(p, k) \<in> set (live (hp w))" "p \<le> a" "a + m \<le> p + k" "if own then p = a else p \<notin> frees_of w ts"
      using h unfolding hut_def by blast
    have "p \<in> fst ` set (live (hp w))" using p(1) by force
    then have "p \<notin> set (D @ [r])" using d newF by blast
    then show ?thesis using p unfolding hut_def w'(2) by (intro exI [of _ p] exI [of _ k]) (simp split: if_splits)
  qed
  have "own_res w' a = own_res w a" if "a \<in> nodes_of ts" for a
    using that same by (auto simp: own_res_def)
  then have hutr: "\<forall>a \<in> nodes_of ts. hut (hp w') (frees_of w ts \<union> set (D @ [r])) (own_res w' a) a sizeof_resource"
    using hut [OF F(8)] by simp
  have hutq: "\<forall>q \<in> subs_of ts. hut (hp w') (frees_of w ts \<union> set (D @ [r])) (own_rp w' q) q sizeof_respool"
    using hut [OF F(9)] by (simp add: w'(4))
  have hutn: "hut (hp w') X (own_res w' r) r sizeof_resource" for X
    using r(1-3) unfolding hut_def w'(2) by auto
  have dist: "distinct (rp # concat (map nodes (ts @ [Leaf r D])) @ concat (map subs (ts @ [Leaf r D])))"
    using F(3) fresh by (auto simp: cells_def)
  have distF: "distinct (concat (map (frees w) ts) @ (D @ [r]))"
    unfolding distinct_append [of "concat (map (frees w) ts)"] using F(4,6) d r(7) newF by blast
  have live: "frees_of w ts \<union> set (D @ [r]) \<subseteq> fst ` set (live (hp w'))"
    using F(6) newF unfolding w'(2) by (simp add: image_Un) blast
  show "forest w' rp (ts @ [Leaf r D])"
    unfolding forest_def Let_def Fset unfolding Feq
  proof (intro conjI)
    show "ring (lnk w') rp (map node (ts @ [Leaf r D]))" using ring' by simp
    show "\<forall>t \<in> set (ts @ [Leaf r D]). tshape w' rp t" using sh r(4,5) by simp
    show "hut (hp w') (frees_of w ts \<union> set (D @ [r])) False rp sizeof_respool" by (rule hut [OF F(7)])
    show "\<forall>a \<in> nodes_of (ts @ [Leaf r D]). hut (hp w') (frees_of w ts \<union> set (D @ [r])) (own_res w' a) a sizeof_resource"
      using hutr hutn by simp
    show "\<forall>q \<in> subs_of (ts @ [Leaf r D]). hut (hp w') (frees_of w ts \<union> set (D @ [r])) (own_rp w' q) q sizeof_respool"
      using hutq by simp
  qed (fact dist distF w'(3) live)+
qed

section \<open>The life of a pool\<close>

text \<open>Resources that a client may take, with the callbacks their release is to cause.\<close>

datatype rop = Rmalloc nat | Ruser nat addr

definition user_class :: "nat \<Rightarrow> res_class" where
  "user_class k = \<lparr>cl_name = ''user'', cl_detach = None, cl_free = Some (User_free k), cl_size = 0\<rparr>"

fun rop_run :: "placement \<Rightarrow> rop \<Rightarrow> world \<Rightarrow> world option" where
  "rop_run A (Rmalloc n) w = map_option (\<lambda>(p, r, w). w) (res_malloc A n w)"
| "rop_run A (Ruser k x) w = map_option snd (res_new A (user_class k) x w)"

fun rops_run :: "placement \<Rightarrow> rop list \<Rightarrow> world \<Rightarrow> world option" where
  "rops_run A [] w = Some w"
| "rops_run A (op # ops) w = Option.bind (rop_run A op w) (rops_run A ops)"

fun rop_calls :: "rop \<Rightarrow> event list" where
  "rop_calls (Rmalloc n) = []"
| "rop_calls (Ruser k x) = [Freed k x]"

text \<open>\<open>L\<close> is what was live before the pool, \<open>Es\<close> the callbacks owed for each resource.\<close>

definition pool_run :: "addr \<Rightarrow> (addr \<times> nat) list \<Rightarrow> world \<Rightarrow> rtree list \<Rightarrow> event list list \<Rightarrow> bool" where
  "pool_run rp L w ts Es \<longleftrightarrow> forest w rp ts \<and> standing rp w \<and> rp \<in> fst ` set (live (hp w)) \<and> rp \<notin> frees_of w ts \<and>
     (\<forall>t \<in> set ts. r_flags (ress w (node t)) AND RES_FLAG_TEMP \<noteq> 0) \<and>
     filter (\<lambda>b. fst b \<notin> frees_of w ts \<union> {rp}) (live (hp w)) = L \<and> map (calls w) ts = Es"

lemma pool_run_add:
  assumes run: "pool_run rp L w ts Es"
    and w': "pools w' = pools w" "hp w' = (hp w)\<lparr>live := new @ live (hp w)\<rparr>" "live_ok (live (hp w'))"
      "rps w' = rps w" "ctx w' = ctx w" "lnk w' = list_add_tail rp r (lnk w)" "\<forall>a. a \<noteq> r \<longrightarrow> ress w' a = ress w a"
    and r: "(r, n) \<in> set new" "sizeof_resource \<le> n" "r_flags (ress w' r) = 3" "r_rpool (ress w' r) = rp" "leaf_ok w' r D"
      "set (D @ [r]) = fst ` set new" "distinct (D @ [r])"
  shows "pool_run rp L w' (ts @ [Leaf r D]) (Es @ [leaf_calls w' r])"
proof -
  have fo: "forest w rp ts" using run by (simp add: pool_run_def)
  have own: "own_rp w' = own_rp w" "own_res w' r"
    using w'(4) r(3) by (simp_all add: own_rp_def own_res_def fun_eq_iff RES_FLAG_XFREE_def)
  have D: "set D \<subseteq> fst ` set new" using r(6) by (metis Un_subset_iff order_refl set_append)
  note add = forest_add [OF fo w'(1-3) own(1) w'(6,7) r(1,2) own(2) r(4,5) D r(7)]
  have d: "fst ` set new \<inter> fst ` set (live (hp w)) = {}" using w'(3) by (simp add: w'(2) live_ok_def)
  have rp: "rp \<in> fst ` set (live (hp w))" "rp \<notin> frees_of w ts" using run by (simp_all add: pool_run_def)
  have nr: "a \<noteq> r" if "a \<in> nodes_of ts" for a
    using that forestD(3) [OF add(1)] by auto
  have fr: "frees_of w' ts = frees_of w ts"
  proof -
    have "frees w' t = frees w t" if "t \<in> set ts" for t
      using frees_local(1) [OF own(1), of t] w'(7) nr that by auto
    then show ?thesis by simp
  qed
  have Fn: "frees_of w' (ts @ [Leaf r D]) = frees_of w ts \<union> fst ` set new"
    using r(6) own(2) fr by simp
  have "filter (\<lambda>b. fst b \<notin> frees_of w ts \<union> fst ` set new \<union> {rp}) (new @ live (hp w)) =
      filter (\<lambda>b. fst b \<notin> frees_of w ts \<union> {rp}) (live (hp w))"
  proof -
    have "filter (\<lambda>b. fst b \<notin> frees_of w ts \<union> fst ` set new \<union> {rp}) new = []" by (auto simp: filter_empty_conv)
    moreover have "filter (\<lambda>b. fst b \<notin> frees_of w ts \<union> fst ` set new \<union> {rp}) (live (hp w)) =
      filter (\<lambda>b. fst b \<notin> frees_of w ts \<union> {rp}) (live (hp w))" using d by (intro filter_cong) auto
    ultimately show ?thesis by simp
  qed
  then have "filter (\<lambda>b. fst b \<notin> frees_of w' (ts @ [Leaf r D]) \<union> {rp}) (live (hp w')) = L"
    unfolding Fn using run by (simp add: pool_run_def w'(2))
  moreover have "rp \<notin> frees_of w' (ts @ [Leaf r D])" unfolding Fn using rp d by blast
  moreover have "standing rp w'" using run w'(4,5) by (simp add: pool_run_def standing_def rp_current_def own_rp_def)
  moreover have "\<forall>t \<in> set (ts @ [Leaf r D]). r_flags (ress w' (node t)) AND RES_FLAG_TEMP \<noteq> 0"
  proof
    fix t assume t: "t \<in> set (ts @ [Leaf r D])"
    show "r_flags (ress w' (node t)) AND RES_FLAG_TEMP \<noteq> 0"
    proof (cases "t \<in> set ts")
      case True
      then have "node t \<in> nodes_of ts" by auto
      then have "ress w' (node t) = ress w (node t)" using w'(7) nr by blast
      then show ?thesis using True run by (simp add: pool_run_def)
    qed (use t r(3) in \<open>simp add: RES_FLAG_TEMP_def\<close>)
  qed
  moreover have "map (calls w') (ts @ [Leaf r D]) = Es @ [leaf_calls w' r]"
  proof -
    have "map (calls w) ts = Es" using run by (simp add: pool_run_def)
    then show ?thesis by (simp only: map_append list.map calls.simps add(2))
  qed
  ultimately show ?thesis
    using add(1) rp(1) unfolding pool_run_def by (simp add: w'(2) image_Un)
qed

lemma pool_run_user:
  assumes A: "allocator_ok A" and run: "pool_run rp L w ts Es"
  shows "\<exists>w' t. rop_run A (Ruser k x) w = Some w' \<and> pool_run rp L w' (ts @ [t]) (Es @ [rop_calls (Ruser k x)]) \<and>
    events w' = events w"
proof -
  note F = forestD [OF conjunct1 [OF run [unfolded pool_run_def]]]
  let ?n = "class_size (user_class k)" and ?r = "A (live (hp w)) (class_size (user_class k))"
  let ?w = "with_res rp ?r ?n (user_class k) x w"
  have n: "sizeof_resource \<le> ?n" by (simp add: class_size_def user_class_def)
  have st: "standing rp w" using run by (simp add: pool_run_def)
  have new: "res_new A (user_class k) x w = Some (?r, ?w)"
    using res_new_standing [OF A st hut_obj [OF F(7)] hut_nn [OF F(7,5)] n] .
  have "pool_run rp L ?w (ts @ [Leaf ?r []]) (Es @ [leaf_calls ?w ?r])"
    using n live_ok_Cons [OF F(5) A]
    by (intro pool_run_add [OF run, where new = "[(?r, ?n)]" and n = ?n]) (simp_all add: with_res_def leaf_ok_def user_class_def)
  moreover have "leaf_calls ?w ?r = [Freed k x]" by (simp add: leaf_calls_def with_res_def user_class_def)
  moreover have "events ?w = events w" by (simp add: with_res_def)
  ultimately show ?thesis using new by auto
qed

lemma pool_run_malloc:
  assumes A: "allocator_ok A" and run: "pool_run rp L w ts Es"
  shows "\<exists>w' t. rop_run A (Rmalloc k) w = Some w' \<and> pool_run rp L w' (ts @ [t]) (Es @ [rop_calls (Rmalloc k)]) \<and>
    events w' = events w"
proof -
  note F = forestD [OF conjunct1 [OF run [unfolded pool_run_def]]]
  let ?p = "A (live (hp w)) k"
  let ?wa = "w\<lparr>hp := (hp w)\<lparr>live := (?p, k) # live (hp w)\<rparr>\<rparr>"
  let ?n = "class_size mem_res_class" and ?r = "A (live (hp ?wa)) (class_size mem_res_class)"
  let ?wb = "with_res rp ?r ?n mem_res_class ?p ?wa"
  let ?wc = "?wb\<lparr>ress := (ress ?wb)(?r := (ress ?wb ?r)\<lparr>r_size := k\<rparr>)\<rparr>"
  have p: "?p \<noteq> ADDR_NULL" using allocator_okD(1) [OF A] .
  have n: "sizeof_resource \<le> ?n"
    by (simp add: class_size_def mem_res_class_def sizeof_res_mem_def sizeof_resource_def)
  have "standing rp ?wa" using run by (simp add: pool_run_def standing_def rp_current_def own_rp_def)
  moreover have "obj_ok rp sizeof_respool (hp ?wa)" using obj_ok_Cons [OF hut_obj [OF F(7)]] by simp
  ultimately have "res_new A mem_res_class ?p ?wa = Some (?r, ?wb)"
    using res_new_standing [OF A _ _ hut_nn [OF F(7,5)] n] by blast
  moreover have "obj_ok ?r sizeof_resource (hp ?wb)" using n by (simp add: with_res_def obj_ok_def)
  ultimately have malloc: "res_malloc A k w = Some (?p, ?r, ?wc)"
    using p by (simp add: res_malloc_def xmalloc_def Alloc.malloc_def Let_def res_get_def res_put_def)
  have ne: "?r \<noteq> ?p" using allocator_okD(4) [OF A, of "(?p, k)" "live (hp ?wa)" ?n] by simp
  have live: "live_ok (live (hp ?wc))" using live_ok_Cons [OF live_ok_Cons [OF F(5) A] A] by (simp add: with_res_def)
  have "pool_run rp L ?wc (ts @ [Leaf ?r [?p]]) (Es @ [leaf_calls ?wc ?r])"
    using n live p ne
    by (intro pool_run_add [OF run, where new = "[(?r, ?n), (?p, k)]" and n = ?n])
      (auto simp: with_res_def leaf_ok_def mem_res_class_def)
  moreover have "leaf_calls ?wc ?r = []" by (simp add: leaf_calls_def with_res_def mem_res_class_def)
  moreover have "events ?wc = events w" by (simp add: with_res_def)
  ultimately show ?thesis using malloc by auto
qed

lemma pool_run_ops:
  "allocator_ok A \<Longrightarrow> pool_run rp L w ts Es \<Longrightarrow>
   \<exists>w' us. rops_run A ops w = Some w' \<and> pool_run rp L w' us (Es @ map rop_calls ops) \<and> events w' = events w"
proof (induction ops arbitrary: w ts Es)
  case (Cons op ops)
  have "\<exists>w' t. rop_run A op w = Some w' \<and> pool_run rp L w' (ts @ [t]) (Es @ [rop_calls op]) \<and> events w' = events w"
    using pool_run_malloc [OF Cons.prems] pool_run_user [OF Cons.prems] by (cases op) blast+
  then obtain w1 t where w1: "rop_run A op w = Some w1" "pool_run rp L w1 (ts @ [t]) (Es @ [rop_calls op])" "events w1 = events w"
    by blast
  from Cons.IH [OF Cons.prems(1) w1(2)] show ?case using w1(1,3) by auto
qed auto

lemma pool_run_new:
  assumes A: "allocator_ok A" and L: "live_ok (live (hp w))"
  shows "\<exists>rp w1. rp_new A name ADDR_NULL w = Some (rp, w1) \<and>
    pool_run rp (live (hp w)) (snd (rp_switch rp w1)) [] [] \<and> events w1 = events w"
proof -
  let ?rp = "A (live (hp w)) sizeof_respool"
  let ?h = "store_bytes ?rp (replicate sizeof_respool 0) ((hp w)\<lparr>live := (?rp, sizeof_respool) # live (hp w)\<rparr>)"
  let ?p = "\<lparr>rp_name = name, rp_mpool = ADDR_NULL, subpool_of = ADDR_NULL, default_res_flags = RES_FLAG_TEMP\<rparr>"
  let ?w = "w\<lparr>hp := ?h, lnk := list_init ?rp (lnk w), rps := (rps w)(?rp := ?p)\<rparr>"
  have nn: "?rp \<noteq> ADDR_NULL" and fresh: "\<forall>b \<in> set (live (hp w)). fst b \<noteq> ?rp" using allocator_okD(1,4) [OF A] by blast+
  have new: "rp_new A name ADDR_NULL w = Some (?rp, ?w)"
    using nn by (simp add: rp_new_def xmalloc_zero_def xmalloc_def Alloc.malloc_def memset0_def Let_def rp_put_def obj_ok_def)
  have "hut ?h {} False ?rp sizeof_respool" by (auto simp: hut_def)
  then have "forest (snd (rp_switch ?rp ?w)) ?rp []"
    using live_ok_Cons [OF L A] list_init_ring(1) by (simp add: forest_def rp_switch_def)
  moreover have "standing ?rp (snd (rp_switch ?rp ?w))" by (simp add: standing_def rp_switch_def rp_current_def own_rp_def)
  moreover have "filter (\<lambda>b. fst b \<noteq> ?rp) (live (hp w)) = live (hp w)" using fresh by simp
  ultimately show ?thesis using new by (simp add: pool_run_def rp_switch_def)
qed

lemma pool_run_end:
  assumes run: "pool_run rp L w ts Es"
  shows "\<exists>w'. rp_delete rp w = Some w' \<and> live (hp w') = L \<and> events w' = events w @ concat (rev Es) \<and> rp_current w' = ADDR_NULL"
    and "\<exists>w'. rp_commit rp w = Some w' \<and> live (hp w') = L \<and> events w' = events w @ concat Es \<and> rp_current w' = ADDR_NULL"
proof -
  have fo: "forest w rp ts" and st: "standing rp w" and Es: "map (calls w) ts = Es"
    and L: "filter (\<lambda>b. fst b \<notin> frees_of w ts \<union> {rp}) (live (hp w)) = L"
    and temp: "\<forall>t \<in> set ts. r_flags (ress w (node t)) AND RES_FLAG_TEMP \<noteq> 0"
    and own: "own_block w rp \<subseteq> fst ` set (live (hp w))" "own_block w rp \<inter> frees_of w ts = {}" "own_block w rp = {rp}"
    using run by (auto simp: pool_run_def standing_def own_block_def)
  have sub: "subpool_of (rps w rp) = ADDR_NULL" using st by (simp add: standing_def)
  note fin = pool_end [OF fo sub own(1,2)]
  have ef: "live (hp w') = L \<and> events w' = events w @ E \<and> rp_current w' = ADDR_NULL"
    if e: "effect (cells rp ts) (insert rp (subs_of ts)) (frees_of w ts \<union> own_block w rp) E w w'" for E w'
  proof -
    have "current_respool (ctx w) = rp" using st by (simp add: standing_def rp_current_def)
    then show ?thesis using e L unfolding own(3) by (simp add: effect_def rp_current_def)
  qed
  obtain w1 where w1: "effect (cells rp ts) (subs_of ts) (frees_of w ts) (concat (rev Es)) w w1" "forest w1 rp []"
    "rp_delete rp w = rp_free rp w1"
    using delete_all [OF fo] unfolding Es by blast
  then show "\<exists>w'. rp_delete rp w = Some w' \<and> live (hp w') = L \<and> events w' = events w @ concat (rev Es) \<and> rp_current w' = ADDR_NULL"
    using fin [OF w1(1,2)] ef by metis
  obtain w2 where w2: "effect (cells rp ts) (subs_of ts) (frees_of w ts) (concat Es) w w2" "forest w2 rp []"
    "rp_commit rp w = rp_free rp w2"
    using commit_all [OF fo temp] unfolding Es by blast
  then show "\<exists>w'. rp_commit rp w = Some w' \<and> live (hp w') = L \<and> events w' = events w @ concat Es \<and> rp_current w' = ADDR_NULL"
    using fin [OF w2(1,2)] ef by metis
qed

section \<open>Correctness of resource pools\<close>

text \<open>
  C9: A resource pool gives back exactly what was taken through it: creating a pool, making it
  current and taking any number of resources succeeds, and then deleting the pool frees the
  resources in reverse order, leaves exactly the live blocks there were, and no current pool.
  Committing it does the same in the order of allocation, because every resource of a new pool
  is temporary.
\<close>

theorem respool_no_leak:
  assumes "allocator_ok A" and "live_ok (live (hp w))"
  shows "\<exists>rp w1 w2 w3 w4. rp_new A name ADDR_NULL w = Some (rp, w1) \<and>
    rops_run A ops (snd (rp_switch rp w1)) = Some w2 \<and>
    rp_delete rp w2 = Some w3 \<and> live (hp w3) = live (hp w) \<and>
    events w3 = events w @ concat (map rop_calls (rev ops)) \<and> rp_current w3 = ADDR_NULL \<and>
    rp_commit rp w2 = Some w4 \<and> live (hp w4) = live (hp w) \<and>
    events w4 = events w @ concat (map rop_calls ops) \<and> rp_current w4 = ADDR_NULL"
proof -
  obtain rp w1 where w1: "rp_new A name ADDR_NULL w = Some (rp, w1)" "events w1 = events w"
    "pool_run rp (live (hp w)) (snd (rp_switch rp w1)) [] []" using pool_run_new [OF assms] by blast
  obtain w2 us where w2: "rops_run A ops (snd (rp_switch rp w1)) = Some w2"
    "pool_run rp (live (hp w)) w2 us (map rop_calls ops)" "events w2 = events w"
    using pool_run_ops [OF assms(1) w1(3), of ops] w1(2) by (auto simp: rp_switch_def)
  show ?thesis using w1(1) w2(1,3) pool_run_end [OF w2(2)] by (auto simp: rev_map)
qed

definition empty_world :: world where
  "empty_world =
     \<lparr>hp = empty_heap,
      pools = \<lambda>a. mp_init 0 0,
      rps = \<lambda>a. \<lparr>rp_name = [], rp_mpool = 0, subpool_of = 0, default_res_flags = 0\<rparr>,
      ress = \<lambda>a. \<lparr>r_rpool = 0, r_flags = 0, r_class = mem_res_class, r_priv = 0, r_size = 0\<rparr>,
      lnk = \<lparr>nxt = \<lambda>a. 0, prv = \<lambda>a. 0\<rparr>,
      ctx = \<lparr>current_respool = 0, trans_pool = 0, current_trans = 0\<rparr>,
      events = []\<rparr>"

theorem respool_no_leak_witness:
  "\<exists>rp w1 w2 w3. rp_new bump ''test'' ADDR_NULL empty_world = Some (rp, w1) \<and>
    rops_run bump [Ruser 1 7, Rmalloc 100, Ruser 2 8] (snd (rp_switch rp w1)) = Some w2 \<and>
    rp_delete rp w2 = Some w3 \<and> live (hp w3) = [] \<and> events w3 = [Freed 2 8, Freed 1 7]"
proof -
  have "live_ok (live (hp empty_world))" "live (hp empty_world) = []" "events empty_world = []"
    by (simp_all add: empty_world_def empty_heap_def live_ok_def)
  then show ?thesis
    using respool_no_leak [OF bump_ok, of empty_world "''test''" "[Ruser 1 7, Rmalloc 100, Ruser 2 8]"] by fastforce
qed

text \<open>
  C10: Pools nest: for a pool \<open>rp\<close> whose resources form a tree with a sub-pool \<open>q\<close> in it,
  deleting \<open>q\<close> and freeing the resource \<open>r\<close> that stands for it both succeed. Both free all
  resources of \<open>q\<close> and of its own sub-pools, in reverse order, release exactly their blocks,
  change no structure outside, and leave \<open>rp\<close> a well-formed pool without \<open>r\<close>.
\<close>

theorem subpool_delete_free:
  assumes "forest w rp (xs @ Sub r q ts # ys)" and "subpool_of (rps w q) = r"
    and "cl_detach (r_class (ress w r)) = Some Subpool_res_detach"
  shows "\<exists>w1 w2. rp_delete q w = Some w1 \<and> res_free r w = Some w2 \<and>
    (\<forall>w' \<in> {w1, w2}. forest w' rp (xs @ ys) \<and>
       live (hp w') = filter (\<lambda>b. fst b \<notin> set (frees w (Sub r q ts))) (live (hp w)) \<and>
       events w' = events w @ concat (rev (map (calls w) ts)) \<and> ress w' = ress w \<and> mem (hp w') = mem (hp w) \<and>
       (\<forall>a. a \<notin> set (subs (Sub r q ts)) \<longrightarrow> rps w' a = rps w a) \<and>
       (rp_current w \<notin> set (subs (Sub r q ts)) \<longrightarrow> rp_current w' = rp_current w))"
proof -
  let ?t = "Sub r q ts"
  obtain w1 where w1: "rp_delete q w = Some w1" "ring (lnk w1) rp (map node (xs @ ys))"
    "effect (around rp xs ?t ys) (set (subs ?t)) (set (frees w ?t)) (calls w ?t) w w1"
    using subpool_delete [OF assms] by blast
  obtain w2 where w2: "res_free (node ?t) w = Some w2" "forest w2 rp (xs @ ys)"
    "effect (around rp xs ?t ys) (set (subs ?t)) (set (frees w ?t)) (calls w ?t) w w2"
    by (rule frees_okD [OF frees_ok_all assms(1)])
  have "live (hp w') = filter (\<lambda>b. fst b \<notin> set (frees w ?t)) (live (hp w)) \<and>
       events w' = events w @ concat (rev (map (calls w) ts)) \<and> ress w' = ress w \<and> mem (hp w') = mem (hp w) \<and>
       (\<forall>a. a \<notin> set (subs ?t) \<longrightarrow> rps w' a = rps w a) \<and>
       (rp_current w \<notin> set (subs ?t) \<longrightarrow> rp_current w' = rp_current w)"
    if "effect (around rp xs ?t ys) (set (subs ?t)) (set (frees w ?t)) (calls w ?t) w w'" for w'
    using that unfolding effect_def rp_current_def by simp
  from this [OF w1(3)] this [OF w2(3)] show ?thesis
    using w1(1) w2(1,2) forest_rest [OF assms(1) w1(3,2)] by auto
qed

text \<open>A pool at 96 with one resource, the sub-pool at 160, which has one resource of a client.\<close>

definition nested_world :: world where
  "nested_world = empty_world\<lparr>
     hp := empty_heap\<lparr>live := [(352, 48), (288, 48), (160, 48), (96, 48)]\<rparr>,
     rps := (rps empty_world)(160 := (rps empty_world 160)\<lparr>subpool_of := 288\<rparr>),
     ress := (ress empty_world)
       (288 := \<lparr>r_rpool = 96, r_flags = 3, r_class = subpool_res_class, r_priv = 160, r_size = 0\<rparr>,
        352 := \<lparr>r_rpool = 160, r_flags = 3, r_class = user_class 5, r_priv = 9, r_size = 0\<rparr>),
     lnk := list_add_tail 160 352 (list_add_tail 96 288 (list_init 160 (list_init 96 (lnk empty_world))))\<rparr>"

lemma nested_forest: "forest nested_world 96 [Sub 288 160 [Leaf 352 []]]"
proof -
  have own: "own_res nested_world 288" "own_res nested_world 352" "own_rp nested_world 160" "own_rp nested_world 96"
    by (simp_all add: nested_world_def empty_world_def own_res_def own_rp_def RES_FLAG_XFREE_def ADDR_NULL_def)
  have rings: "ring (lnk nested_world) 96 [288]" "ring (lnk nested_world) 160 [352]"
    by (simp_all add: nested_world_def empty_world_def ring_def list_add_tail_def list_insert_before_def list_init_def Let_def)
  have live: "live (hp nested_world) = [(352, 48), (288, 48), (160, 48), (96, 48)]" by (simp add: nested_world_def)
  have "live_ok (live (hp nested_world))" by (auto simp: live live_ok_def block_def ADDR_NULL_def)
  moreover have "hut (hp nested_world) F True a 48" if "a \<in> {352, 288, 160}" for a F using that by (auto simp: hut_def live)
  moreover have "hut (hp nested_world) {352, 160, 288} False 96 48"
    unfolding hut_def live by (intro exI [of _ 96] exI [of _ 48]) simp
  moreover have "tshape nested_world 96 (Sub 288 160 [Leaf 352 []])"
    using rings(2) by (simp add: leaf_ok_def) (simp add: nested_world_def subpool_res_class_def user_class_def)
  ultimately show ?thesis
    using own rings(1) by (simp add: forest_def live sizeof_respool_def sizeof_resource_def)
qed

theorem subpool_delete_free_witness:
  "\<exists>w1 w2. rp_delete 160 nested_world = Some w1 \<and> res_free 288 nested_world = Some w2 \<and>
    live (hp w1) = [(96, 48)] \<and> live (hp w2) = [(96, 48)] \<and> events w1 = [Freed 5 9] \<and> events w2 = [Freed 5 9]"
proof -
  let ?t = "Sub 288 160 [Leaf 352 []]"
  have own: "own_res nested_world 288" "own_res nested_world 352" "own_rp nested_world 160"
    by (simp_all add: nested_world_def empty_world_def own_res_def own_rp_def RES_FLAG_XFREE_def ADDR_NULL_def)
  have w: "live (hp nested_world) = [(352, 48), (288, 48), (160, 48), (96, 48)]" "events nested_world = []"
    "subpool_of (rps nested_world 160) = 288" "cl_detach (r_class (ress nested_world 288)) = Some Subpool_res_detach"
    "leaf_calls nested_world 352 = [Freed 5 9]"
    by (simp_all add: nested_world_def empty_world_def subpool_res_class_def user_class_def leaf_calls_def)
  have fr: "set (frees nested_world ?t) = {352, 160, 288}" using own by simp
  have "forest nested_world 96 ([] @ ?t # [])" using nested_forest by simp
  from subpool_delete_free [OF this w(3,4)] obtain w1 w2 where
    "rp_delete 160 nested_world = Some w1" "res_free 288 nested_world = Some w2"
    "\<forall>w' \<in> {w1, w2}. live (hp w') = filter (\<lambda>b. fst b \<notin> set (frees nested_world ?t)) (live (hp nested_world)) \<and>
       events w' = events nested_world @ concat (rev (map (calls nested_world) [Leaf 352 []]))"
    by blast
  then show ?thesis unfolding fr by (simp add: w)
qed

text \<open>
  \<^verbatim>\<open>res_permanent\<close>, which is to clear the temporary flag, keeps it and clears all others:
  a resource that a commit would free is still freed by it, and its structure, which came from
  \<^verbatim>\<open>malloc\<close>, is then leaked.
\<close>

theorem res_permanent_keeps_temp:
  assumes "res_permanent r w = Some w'"
  shows "(r_flags (ress w' r) AND RES_FLAG_TEMP = r_flags (ress w r) AND RES_FLAG_TEMP) \<and>
    r_flags (ress w' r) AND RES_FLAG_XFREE = 0 \<and> \<not> own_res w' r"
proof -
  have "r_flags (ress w' r) = r_flags (ress w r) AND RES_FLAG_TEMP"
    using assms by (auto simp: res_permanent_def res_get_def res_put_def split: if_splits)
  then show ?thesis by (simp add: own_res_def RES_FLAG_TEMP_def RES_FLAG_XFREE_def and.assoc)
qed

theorem res_permanent_keeps_temp_witness:
  "\<exists>w'. res_permanent 352 nested_world = Some w' \<and> r_flags (ress w' 352) AND RES_FLAG_TEMP = 1 \<and>
    own_res nested_world 352 \<and> \<not> own_res w' 352"
proof -
  have "obj_ok 352 sizeof_resource (hp nested_world)" by (simp add: nested_world_def obj_ok_def sizeof_resource_def)
  then obtain w' where w': "res_permanent 352 nested_world = Some w'"
    by (simp add: res_permanent_def res_get_def res_put_def)
  have "r_flags (ress nested_world 352) = 3" by (simp add: nested_world_def)
  then show ?thesis
    using res_permanent_keeps_temp [OF w'] w' by (simp add: own_res_def RES_FLAG_TEMP_def RES_FLAG_XFREE_def)
qed

end
