(* ===== verification/Fastbuf.thy ===== *)
theory Fastbuf
  imports Alloc
begin

text \<open>
  Model of the front end of the buffered streams, \<^verbatim>\<open>generic/opt/fastbuf.c\<close> and the inline
  functions of \<^verbatim>\<open>fastbuf.h\<close>, and of the reading of lines in \<^verbatim>\<open>ff-string.c\<close>. A
  \<^verbatim>\<open>struct fastbuf\<close> is a record that extends the heap in which its buffer lies; a back end
  extends the record as the C structures extend \<^verbatim>\<open>struct fastbuf\<close>. The callbacks of the back end
  are a record of functions on its state, the first argument of the front-end functions. A call
  gives its result and the new state, or the identifier of the exception it throws, or
  \<open>None\<close> where an assertion fails, the program dies, the buffer is left, or the call does not
  return. File positions are unbounded integers; sizes of type \<^verbatim>\<open>uint\<close> have their 32 bits.
\<close>

section \<open>Data\<close>

record fastbuf = heap +
  bptr :: addr
  bstop :: addr
  buffer :: addr
  bufend :: addr
  pos :: int
  flags :: u32
  res :: addr

datatype whence = SEEK_SET | SEEK_CUR | SEEK_END | SEEK_OTHER

definition FB_DEAD :: u32 where
  "FB_DEAD = 1"

definition FB_DIE_ON_EOF :: u32 where
  "FB_DIE_ON_EOF = 2"

type_synonym ('r, 's) fb_res = "((string \<times> 's) + ('r \<times> 's)) option"

record 's fb_ops =
  fb_refill :: "('s \<Rightarrow> (bool, 's) fb_res) option"
  fb_spout :: "('s \<Rightarrow> (unit, 's) fb_res) option"
  fb_seek :: "('s \<Rightarrow> int \<Rightarrow> whence \<Rightarrow> (bool, 's) fb_res) option"

definition ok :: "'r \<Rightarrow> 's \<Rightarrow> ('r, 's) fb_res" where
  "ok x s = Some (Inr (x, s))"

definition fb_bind :: "('r, 's) fb_res \<Rightarrow> ('r \<Rightarrow> 's \<Rightarrow> ('t, 's) fb_res) \<Rightarrow> ('t, 's) fb_res" where
  "fb_bind m k = Option.bind m (\<lambda>r. case r of Inl e \<Rightarrow> Some (Inl e) | Inr (x, s) \<Rightarrow> k x s)"

lemma fb_bind_ok [simp]: "fb_bind (ok x s) k = k x s" "fb_bind None k = None" "fb_bind (Some (Inl e)) k = Some (Inl e)"
  by (simp_all add: fb_bind_def ok_def)

lemma ok_inject [simp]: "ok x s = ok y t \<longleftrightarrow> x = y \<and> s = t" "ok x s \<noteq> None" "ok x s \<noteq> Some (Inl e)"
  "None \<noteq> ok x s" "Some (Inl e) \<noteq> ok x s"
  by (auto simp: ok_def)

lemma fb_bind_mono [partial_function_mono]:
  assumes "mono_option B" and "\<And>x s. mono_option (\<lambda>f. C f x s)"
  shows "mono_option (\<lambda>f. fb_bind (B f) (C f))"
proof -
  have "mono_option (\<lambda>f. case r of Inl e \<Rightarrow> Some (Inl e) | Inr (x, s) \<Rightarrow> C f x s)" for r
    by (cases r) (auto simp: assms(2) option.const_mono split: prod.splits)
  then show ?thesis unfolding fb_bind_def by (intro partial_function_mono assms(1))
qed

text \<open>The difference of two pointers as a \<^verbatim>\<open>uint\<close>.\<close>

definition uint_diff :: "addr \<Rightarrow> addr \<Rightarrow> nat" where
  "uint_diff p q = nat ((int p - int q) mod 2 ^ 32)"

definition btell :: "'a fastbuf_scheme \<Rightarrow> int" where
  "btell f = pos f + (int (bptr f) - int (bstop f))"

definition bavailr :: "'a fastbuf_scheme \<Rightarrow> nat" where
  "bavailr f = uint_diff (bstop f) (bptr f)"

definition bavailw :: "'a fastbuf_scheme \<Rightarrow> nat" where
  "bavailw f = uint_diff (bufend f) (bptr f)"

text \<open>
  \<^verbatim>\<open>memcpy\<close> of \<open>n\<close> bytes from and to the cursor, which moves on; \<^verbatim>\<open>*bptr\<close>. An access
  outside the buffer is undefined.
\<close>

definition fb_load :: "nat \<Rightarrow> 'a fastbuf_scheme \<Rightarrow> (byte list, 'a fastbuf_scheme) fb_res" where
  "fb_load n f =
     (if buffer f \<le> bptr f \<and> bptr f + n \<le> bufend f
      then ok (load_bytes (bptr f) n f) (f\<lparr>bptr := bptr f + n\<rparr>) else None)"

definition fb_store :: "byte list \<Rightarrow> 'a fastbuf_scheme \<Rightarrow> (unit, 'a fastbuf_scheme) fb_res" where
  "fb_store xs f =
     (if buffer f \<le> bptr f \<and> bptr f + length xs \<le> bufend f
      then ok () ((store_bytes (bptr f) xs f)\<lparr>bptr := bptr f + length xs\<rparr>) else None)"

definition fb_peek :: "'a fastbuf_scheme \<Rightarrow> (int, 'a fastbuf_scheme) fb_res" where
  "fb_peek f = (if buffer f \<le> bptr f \<and> bptr f + 1 \<le> bufend f then ok (uint (mem f (bptr f))) f else None)"

definition fb_next :: "'a fastbuf_scheme \<Rightarrow> (int, 'a fastbuf_scheme) fb_res" where
  "fb_next f = fb_bind (fb_peek f) (\<lambda>c f. ok c (f\<lparr>bptr := bptr f + 1\<rparr>))"

definition dead :: "'a fastbuf_scheme \<Rightarrow> bool" where
  "dead f \<longleftrightarrow> flags f AND FB_DEAD \<noteq> 0"

section \<open>Errors and the callbacks\<close>

definition bthrow :: "string \<Rightarrow> 'a fastbuf_scheme \<Rightarrow> ('r, 'a fastbuf_scheme) fb_res" where
  "bthrow eid f =
     (if dead f \<or> res f = ADDR_NULL then None
      else Some (Inl (take 15 (''ucw.fb.'' @ eid),
        f\<lparr>flags := flags f OR FB_DEAD, bstop := bufend f, bptr := bufend f\<rparr>)))"

definition brefill :: "'a fastbuf_scheme fb_ops \<Rightarrow> 'a fastbuf_scheme \<Rightarrow> bool \<Rightarrow> (bool, 'a fastbuf_scheme) fb_res" where
  "brefill ops f allow_eof =
     (if \<not> (\<not> dead f \<and> buffer f \<le> bstop f \<and> bstop f \<le> bptr f \<and> bptr f \<le> bufend f) then None
      else case fb_refill ops of
        None \<Rightarrow> bthrow ''read'' f
      | Some refill \<Rightarrow>
          fb_bind (refill f) (\<lambda>r f.
            if r
            then (if buffer f \<le> bptr f \<and> bptr f < bstop f \<and> bstop f \<le> bufend f then ok True f else None)
            else (if buffer f \<le> bptr f \<and> bptr f = bstop f \<and> bstop f \<le> bufend f
                  then (if \<not> allow_eof \<and> flags f AND FB_DIE_ON_EOF \<noteq> 0 then bthrow ''eof'' f else ok False f)
                  else None)))"

definition do_spout :: "'a fastbuf_scheme fb_ops \<Rightarrow> 'a fastbuf_scheme \<Rightarrow> (unit, 'a fastbuf_scheme) fb_res" where
  "do_spout ops f =
     (if \<not> (\<not> dead f \<and> buffer f \<le> bstop f \<and> bstop f \<le> bptr f \<and> bptr f \<le> bufend f) then None
      else case fb_spout ops of
        None \<Rightarrow> bthrow ''write'' f
      | Some spout \<Rightarrow>
          fb_bind (spout f) (\<lambda>_ f.
            if buffer f \<le> bstop f \<and> bstop f \<le> bptr f \<and> bptr f \<le> bufend f then ok () f else None))"

definition bspout :: "'a fastbuf_scheme fb_ops \<Rightarrow> 'a fastbuf_scheme \<Rightarrow> (unit, 'a fastbuf_scheme) fb_res" where
  "bspout ops f =
     fb_bind (do_spout ops f) (\<lambda>_ f.
       if bstop f = bufend f
       then fb_bind (do_spout ops f) (\<lambda>_ f. if bstop f < bufend f then ok () f else None)
       else ok () f)"

definition bflush :: "'a fastbuf_scheme fb_ops \<Rightarrow> 'a fastbuf_scheme \<Rightarrow> (unit, 'a fastbuf_scheme) fb_res" where
  "bflush ops f = (if bptr f > bstop f then do_spout ops f else ok () (f\<lparr>bptr := bstop f\<rparr>))"

section \<open>Seeking\<close>

definition do_seek :: "'a fastbuf_scheme fb_ops \<Rightarrow> 'a fastbuf_scheme \<Rightarrow> int \<Rightarrow> whence \<Rightarrow> (unit, 'a fastbuf_scheme) fb_res" where
  "do_seek ops f p whence =
     fb_bind (bflush ops f) (\<lambda>_ f.
     fb_bind (case fb_seek ops of None \<Rightarrow> ok False f | Some seek \<Rightarrow> seek f p whence) (\<lambda>r f.
       if \<not> r then bthrow ''seek'' f
       else if \<not> (buffer f \<le> bstop f \<and> bstop f \<le> bptr f \<and> bptr f \<le> bufend f) then None
       else if (if whence = SEEK_SET then p = btell f else btell f \<ge> 0) then ok () f else None))"

definition bsetpos :: "'a fastbuf_scheme fb_ops \<Rightarrow> 'a fastbuf_scheme \<Rightarrow> int \<Rightarrow> (unit, 'a fastbuf_scheme) fb_res" where
  "bsetpos ops f p =
     (if bptr f < bstop f \<and> p \<le> pos f \<and> p \<ge> pos f - (int (bstop f) - int (buffer f))
      then ok () (f\<lparr>bptr := nat (int (bstop f) + (p - pos f))\<rparr>)
      else if p \<noteq> btell f
      then (if p < 0 then bthrow ''seek'' f else do_seek ops f p SEEK_SET)
      else ok () f)"

definition bseek :: "'a fastbuf_scheme fb_ops \<Rightarrow> 'a fastbuf_scheme \<Rightarrow> int \<Rightarrow> whence \<Rightarrow> (unit, 'a fastbuf_scheme) fb_res" where
  "bseek ops f p whence =
     (case whence of
        SEEK_SET \<Rightarrow> bsetpos ops f p
      | SEEK_CUR \<Rightarrow> bsetpos ops f (btell f + p)
      | SEEK_END \<Rightarrow> if p > 0 then bthrow ''seek'' f else do_seek ops f p SEEK_END
      | SEEK_OTHER \<Rightarrow> None)"

definition brewind :: "'a fastbuf_scheme fb_ops \<Rightarrow> 'a fastbuf_scheme \<Rightarrow> (unit, 'a fastbuf_scheme) fb_res" where
  "brewind ops f = fb_bind (bflush ops f) (\<lambda>_ f. bsetpos ops f 0)"

text \<open>\<^verbatim>\<open>bfilesize\<close> of a stream that is not null.\<close>

definition bfilesize :: "'a fastbuf_scheme fb_ops \<Rightarrow> 'a fastbuf_scheme \<Rightarrow> (int, 'a fastbuf_scheme) fb_res" where
  "bfilesize ops f =
     (case fb_seek ops of
        None \<Rightarrow> ok (- 1) f
      | Some seek \<Rightarrow>
          let p = btell f in
          fb_bind (bflush ops f) (\<lambda>_ f.
          fb_bind (seek f 0 SEEK_END) (\<lambda>r f.
            if \<not> r then ok (- 1) f
            else let len = btell f in fb_bind (bsetpos ops f p) (\<lambda>_ f. ok len f))))"

section \<open>Single characters\<close>

definition bgetc_slow :: "'a fastbuf_scheme fb_ops \<Rightarrow> 'a fastbuf_scheme \<Rightarrow> (int, 'a fastbuf_scheme) fb_res" where
  "bgetc_slow ops f =
     (if bptr f < bstop f then fb_next f
      else fb_bind (brefill ops f False) (\<lambda>r f. if r then fb_next f else ok (- 1) f))"

definition bgetc :: "'a fastbuf_scheme fb_ops \<Rightarrow> 'a fastbuf_scheme \<Rightarrow> (int, 'a fastbuf_scheme) fb_res" where
  "bgetc ops f = (if bptr f < bstop f then fb_next f else bgetc_slow ops f)"

definition bpeekc_slow :: "'a fastbuf_scheme fb_ops \<Rightarrow> 'a fastbuf_scheme \<Rightarrow> (int, 'a fastbuf_scheme) fb_res" where
  "bpeekc_slow ops f =
     (if bptr f < bstop f then fb_peek f
      else fb_bind (brefill ops f False) (\<lambda>r f. if r then fb_peek f else ok (- 1) f))"

definition bpeekc :: "'a fastbuf_scheme fb_ops \<Rightarrow> 'a fastbuf_scheme \<Rightarrow> (int, 'a fastbuf_scheme) fb_res" where
  "bpeekc ops f = (if bptr f < bstop f then fb_peek f else bpeekc_slow ops f)"

definition beof_slow :: "'a fastbuf_scheme fb_ops \<Rightarrow> 'a fastbuf_scheme \<Rightarrow> (bool, 'a fastbuf_scheme) fb_res" where
  "beof_slow ops f =
     (if bptr f \<ge> bstop f then fb_bind (brefill ops f True) (\<lambda>r f. ok (\<not> r) f) else ok False f)"

definition beof :: "'a fastbuf_scheme fb_ops \<Rightarrow> 'a fastbuf_scheme \<Rightarrow> (bool, 'a fastbuf_scheme) fb_res" where
  "beof ops f = (if bptr f < bstop f then ok False f else beof_slow ops f)"

definition bungetc :: "'a fastbuf_scheme \<Rightarrow> (unit, 'a fastbuf_scheme) fb_res" where
  "bungetc f = (if bptr f \<le> buffer f then None else ok () (f\<lparr>bptr := bptr f - 1\<rparr>))"

definition bputc_slow :: "'a fastbuf_scheme fb_ops \<Rightarrow> 'a fastbuf_scheme \<Rightarrow> u32 \<Rightarrow> (unit, 'a fastbuf_scheme) fb_res" where
  "bputc_slow ops f c =
     fb_bind (if bptr f \<ge> bufend f then bspout ops f else ok () f) (\<lambda>_ f. fb_store [ucast c] f)"

definition bputc :: "'a fastbuf_scheme fb_ops \<Rightarrow> 'a fastbuf_scheme \<Rightarrow> u32 \<Rightarrow> (unit, 'a fastbuf_scheme) fb_res" where
  "bputc ops f c = (if bptr f < bufend f then fb_store [ucast c] f else bputc_slow ops f c)"

section \<open>Blocks\<close>

text \<open>The loop of \<^verbatim>\<open>bread_slow\<close>: what has been read, and how much is left to read.\<close>

partial_function (option) bread_loop ::
  "'a fastbuf_scheme fb_ops \<Rightarrow> bool \<Rightarrow> 'a fastbuf_scheme \<Rightarrow> nat \<Rightarrow> byte list \<Rightarrow> (byte list \<times> nat, 'a fastbuf_scheme) fb_res"
where
  "bread_loop ops check f l acc =
     (if l = 0 then ok (acc, l) f
      else fb_bind
        (if bavailr f = 0
         then fb_bind (brefill ops f check) (\<lambda>_ f. ok (bavailr f) f) else ok (bavailr f) f)
        (\<lambda>k f.
          if k = 0 then ok (acc, l) f
          else let k = (if k > l then l else k) in
            fb_bind (fb_load k f) (\<lambda>xs f. bread_loop ops check f (l - k) (acc @ xs))))"

definition bread_slow :: "'a fastbuf_scheme fb_ops \<Rightarrow> 'a fastbuf_scheme \<Rightarrow> nat \<Rightarrow> bool \<Rightarrow> (byte list, 'a fastbuf_scheme) fb_res" where
  "bread_slow ops f l check =
     fb_bind (bread_loop ops check f l []) (\<lambda>(xs, l) f.
       if check \<and> xs \<noteq> [] \<and> l \<noteq> 0 then bthrow ''eof'' f else ok xs f)"

definition bread :: "'a fastbuf_scheme fb_ops \<Rightarrow> 'a fastbuf_scheme \<Rightarrow> nat \<Rightarrow> (byte list, 'a fastbuf_scheme) fb_res" where
  "bread ops f l = (if bavailr f \<ge> l then fb_load l f else bread_slow ops f l False)"

definition breadb :: "'a fastbuf_scheme fb_ops \<Rightarrow> 'a fastbuf_scheme \<Rightarrow> nat \<Rightarrow> (byte list, 'a fastbuf_scheme) fb_res" where
  "breadb ops f l = (if bavailr f \<ge> l then fb_load l f else bread_slow ops f l True)"

partial_function (option) bwrite_slow ::
  "'a fastbuf_scheme fb_ops \<Rightarrow> 'a fastbuf_scheme \<Rightarrow> byte list \<Rightarrow> (unit, 'a fastbuf_scheme) fb_res"
where
  "bwrite_slow ops f b =
     (if b = [] then ok () f
      else fb_bind
        (if bavailw f = 0 then fb_bind (bspout ops f) (\<lambda>_ f. ok (bavailw f) f) else ok (bavailw f) f)
        (\<lambda>k f.
          let k = (if k > length b then length b else k) in
          fb_bind (fb_store (take k b) f) (\<lambda>_ f. bwrite_slow ops f (drop k b))))"

definition bwrite :: "'a fastbuf_scheme fb_ops \<Rightarrow> 'a fastbuf_scheme \<Rightarrow> byte list \<Rightarrow> (unit, 'a fastbuf_scheme) fb_res" where
  "bwrite ops f b = (if bavailw f \<ge> length b then fb_store b f else bwrite_slow ops f b)"

definition bputs :: "'a fastbuf_scheme fb_ops \<Rightarrow> 'a fastbuf_scheme \<Rightarrow> byte list \<Rightarrow> (unit, 'a fastbuf_scheme) fb_res" where
  "bputs ops f b = bwrite ops f b"

definition bputs0 :: "'a fastbuf_scheme fb_ops \<Rightarrow> 'a fastbuf_scheme \<Rightarrow> byte list \<Rightarrow> (unit, 'a fastbuf_scheme) fb_res" where
  "bputs0 ops f b = bwrite ops f (b @ [0])"

definition bputsn :: "'a fastbuf_scheme fb_ops \<Rightarrow> 'a fastbuf_scheme \<Rightarrow> byte list \<Rightarrow> (unit, 'a fastbuf_scheme) fb_res" where
  "bputsn ops f b = fb_bind (bputs ops f b) (\<lambda>_ f. bputc ops f 10)"

section \<open>Direct access to the buffer\<close>

text \<open>The pointer that the functions store through their argument is the cursor.\<close>

definition bdirect_read_prepare :: "'a fastbuf_scheme fb_ops \<Rightarrow> 'a fastbuf_scheme \<Rightarrow> (nat, 'a fastbuf_scheme) fb_res" where
  "bdirect_read_prepare ops f =
     (if bptr f = bstop f
      then case fb_refill ops of
          None \<Rightarrow> None
        | Some refill \<Rightarrow> fb_bind (refill f) (\<lambda>r f. if \<not> r then ok 0 f else ok (bavailr f) f)
      else ok (bavailr f) f)"

definition bdirect_write_prepare :: "'a fastbuf_scheme fb_ops \<Rightarrow> 'a fastbuf_scheme \<Rightarrow> (nat, 'a fastbuf_scheme) fb_res" where
  "bdirect_write_prepare ops f =
     fb_bind (if bptr f = bufend f then case fb_spout ops of None \<Rightarrow> None | Some spout \<Rightarrow> spout f else ok () f)
       (\<lambda>_ f. ok (bavailw f) f)"

definition bdirect_read_commit :: "addr \<Rightarrow> 'a fastbuf_scheme \<Rightarrow> 'a fastbuf_scheme" where
  "bdirect_read_commit p f = f\<lparr>bptr := p\<rparr>"

definition bdirect_read_commit_modified :: "addr \<Rightarrow> 'a fastbuf_scheme \<Rightarrow> 'a fastbuf_scheme" where
  "bdirect_read_commit_modified p f = f\<lparr>bptr := p, buffer := p\<rparr>"

definition bdirect_write_commit :: "addr \<Rightarrow> 'a fastbuf_scheme \<Rightarrow> 'a fastbuf_scheme" where
  "bdirect_write_commit p f = f\<lparr>bptr := p\<rparr>"

partial_function (option) bskip_slow ::
  "'a fastbuf_scheme fb_ops \<Rightarrow> 'a fastbuf_scheme \<Rightarrow> nat \<Rightarrow> (bool, 'a fastbuf_scheme) fb_res"
where
  "bskip_slow ops f len =
     (if len = 0 then ok True f
      else fb_bind (bdirect_read_prepare ops f) (\<lambda>l f.
        if l = 0 then ok False f
        else let l = min l len in bskip_slow ops (bdirect_read_commit (bptr f + l) f) (len - l)))"

definition bskip :: "'a fastbuf_scheme fb_ops \<Rightarrow> 'a fastbuf_scheme \<Rightarrow> nat \<Rightarrow> (bool, 'a fastbuf_scheme) fb_res" where
  "bskip ops f len =
     (if bavailr f \<ge> len then ok True (f\<lparr>bptr := bptr f + len\<rparr>) else bskip_slow ops f len)"

text \<open>
  Copying from one stream to another; the state is that of both. The two streams share no
  buffer.
\<close>

definition on_fst :: "('r, 's) fb_res \<Rightarrow> 't \<Rightarrow> ('r, 's \<times> 't) fb_res" where
  "on_fst m t = map_option (map_sum (\<lambda>(e, s). (e, (s, t))) (\<lambda>(x, s). (x, (s, t)))) m"

definition on_snd :: "'s \<Rightarrow> ('r, 't) fb_res \<Rightarrow> ('r, 's \<times> 't) fb_res" where
  "on_snd s m = map_option (map_sum (\<lambda>(e, t). (e, (s, t))) (\<lambda>(x, t). (x, (s, t)))) m"

lemma on_ok [simp]: "on_fst (ok x s) t = ok x (s, t)" "on_snd s (ok x t) = ok x (s, t)"
  by (simp_all add: on_fst_def on_snd_def ok_def)

definition UINT_MAX :: nat where
  "UINT_MAX = 2 ^ 32 - 1"

partial_function (option) bbcopy_slow ::
  "'a fastbuf_scheme fb_ops \<Rightarrow> 'b fastbuf_scheme fb_ops \<Rightarrow> 'a fastbuf_scheme \<Rightarrow> 'b fastbuf_scheme \<Rightarrow> nat \<Rightarrow>
   (unit, 'a fastbuf_scheme \<times> 'b fastbuf_scheme) fb_res"
where
  "bbcopy_slow fops tops f t l =
     (if l = 0 then ok () (f, t)
      else fb_bind (on_fst (bdirect_read_prepare fops f) t) (\<lambda>favail s.
        if favail = 0
        then (if l = UINT_MAX then ok () s else on_fst (bthrow ''eof'' (fst s)) (snd s))
        else fb_bind (on_snd (fst s) (bdirect_write_prepare tops (snd s))) (\<lambda>tavail s.
          let n = min (min l favail) tavail in
          fb_bind (on_fst (fb_load n (fst s)) (snd s)) (\<lambda>xs s.
          fb_bind (on_snd (fst s) (fb_store xs (snd s))) (\<lambda>_ s.
          bbcopy_slow fops tops (fst s) (snd s) (if l \<noteq> UINT_MAX then l - n else l))))))"

definition bbcopy ::
  "'a fastbuf_scheme fb_ops \<Rightarrow> 'b fastbuf_scheme fb_ops \<Rightarrow> 'a fastbuf_scheme \<Rightarrow> 'b fastbuf_scheme \<Rightarrow> nat \<Rightarrow>
   (unit, 'a fastbuf_scheme \<times> 'b fastbuf_scheme) fb_res"
where
  "bbcopy fops tops f t l =
     (if bavailr f \<ge> l \<and> bavailw t \<ge> l
      then fb_bind (on_fst (fb_load l f) t) (\<lambda>xs s. on_snd (fst s) (fb_store xs (snd s)))
      else bbcopy_slow fops tops f t l)"

section \<open>Lines\<close>

text \<open>
  The loop shared by the functions that read strings, up to the terminator \<open>v\<close>: at most
  \<open>l\<close> more bytes. It ends at the terminator, at the end of the stream, or with \<open>None\<close>
  when \<open>l\<close> bytes have been copied without meeting the terminator. \<open>src_len\<close> bytes are in
  the buffer.
\<close>

partial_function (option) gets_loop ::
  "'a fastbuf_scheme fb_ops \<Rightarrow> byte \<Rightarrow> 'a fastbuf_scheme \<Rightarrow> nat \<Rightarrow> nat \<Rightarrow> byte list \<Rightarrow> (byte list option, 'a fastbuf_scheme) fb_res"
where
  "gets_loop ops v f src_len l b =
     (let cnt = min l src_len in
      fb_bind (fb_load cnt f) (\<lambda>xs f'.
        if v \<in> set xs
        then let k = length (takeWhile (\<lambda>x. x \<noteq> v) xs) in
             ok (Some (b @ take k xs)) (bdirect_read_commit (bptr f + k + 1) f')
        else if cnt = l then ok None (bdirect_read_commit (bptr f + cnt) f')
        else fb_bind (bdirect_read_prepare ops (bdirect_read_commit (bptr f + cnt) f')) (\<lambda>src_len f.
          if src_len = 0 then ok (Some (b @ xs)) f else gets_loop ops v f src_len (l - cnt) (b @ xs))))"

definition bgets :: "'a fastbuf_scheme fb_ops \<Rightarrow> 'a fastbuf_scheme \<Rightarrow> nat \<Rightarrow> (byte list option, 'a fastbuf_scheme) fb_res" where
  "bgets ops f l =
     (if l = 0 then None
      else fb_bind (bdirect_read_prepare ops f) (\<lambda>src_len f.
        if src_len = 0 then ok None f
        else fb_bind (gets_loop ops 10 f src_len l []) (\<lambda>r f.
          case r of None \<Rightarrow> bthrow ''toolong'' f | Some line \<Rightarrow> ok (Some line) f)))"

text \<open>
  The number that \<^verbatim>\<open>bgets_nodie\<close> returns, and the string it stores with its final zero. The
  number of bytes stored is converted to an \<^verbatim>\<open>int\<close> of 32 bits.
\<close>

definition to_int :: "int \<Rightarrow> int" where
  "to_int k = signed_take_bit 31 k"

definition bgets_nodie :: "'a fastbuf_scheme fb_ops \<Rightarrow> 'a fastbuf_scheme \<Rightarrow> nat \<Rightarrow> (int \<times> byte list, 'a fastbuf_scheme) fb_res" where
  "bgets_nodie ops f l =
     (if l = 0 then None
      else fb_bind (bdirect_read_prepare ops f) (\<lambda>src_len f.
        if src_len = 0 then ok (0, []) f
        else fb_bind (gets_loop ops 10 f src_len l []) (\<lambda>r f.
          case r of None \<Rightarrow> ok (- 1, []) f
          | Some line \<Rightarrow> ok (to_int (int (length line) + 1), line @ [0]) f)))"

definition bgets0 :: "'a fastbuf_scheme fb_ops \<Rightarrow> 'a fastbuf_scheme \<Rightarrow> nat \<Rightarrow> (byte list option, 'a fastbuf_scheme) fb_res" where
  "bgets0 ops f l =
     (if l = 0 then None
      else fb_bind (bdirect_read_prepare ops f) (\<lambda>src_len f.
        if src_len = 0 then ok None f
        else fb_bind (gets_loop ops 0 f src_len l []) (\<lambda>r f.
          case r of None \<Rightarrow> bthrow ''toolong'' f | Some line \<Rightarrow> ok (Some line) f)))"

section \<open>The registers and the memory\<close>

lemma regs_store [simp]:
  "bptr (store_bytes p xs f) = bptr f" "bstop (store_bytes p xs f) = bstop f" "buffer (store_bytes p xs f) = buffer f"
  "bufend (store_bytes p xs f) = bufend f" "pos (store_bytes p xs f) = pos f" "flags (store_bytes p xs f) = flags f"
  "res (store_bytes p xs f) = res f" "dead (store_bytes p xs f) = dead f"
  by (simp_all add: store_bytes_def dead_def)

lemma load_regs [simp]:
  "load_bytes p n (f\<lparr>bptr := a\<rparr>) = load_bytes p n f" "load_bytes p n (f\<lparr>bstop := a\<rparr>) = load_bytes p n f"
  "load_bytes p n (f\<lparr>buffer := a\<rparr>) = load_bytes p n f" "load_bytes p n (f\<lparr>bufend := a\<rparr>) = load_bytes p n f"
  "load_bytes p n (f\<lparr>pos := i\<rparr>) = load_bytes p n f" "load_bytes p n (f\<lparr>flags := w\<rparr>) = load_bytes p n f"
  by (simp_all add: load_bytes_def)

lemma dead_regs [simp]:
  "dead (f\<lparr>bptr := a\<rparr>) = dead f" "dead (f\<lparr>bstop := a\<rparr>) = dead f" "dead (f\<lparr>buffer := a\<rparr>) = dead f"
  "dead (f\<lparr>bufend := a\<rparr>) = dead f" "dead (f\<lparr>pos := i\<rparr>) = dead f"
  by (simp_all add: dead_def)

lemma store_bptr: "store_bytes p xs (f\<lparr>bptr := a\<rparr>) = (store_bytes p xs f)\<lparr>bptr := a\<rparr>"
  by (simp add: store_bytes_def cong: if_cong)

end
