(* ===== verification/Fastbuf_Spec.thy ===== *)
theory Fastbuf_Spec
  imports Fastbuf
begin

text \<open>
  What the front end of the streams relies on, as interfaces of its back ends, and what it then
  promises to its clients: reading a stream gives its bytes in order, whatever the buffer and
  the size of the pieces; seeking moves to the position; writing appends.
\<close>

section \<open>Reading\<close>

text \<open>
  The bytes between the cursor and \<^verbatim>\<open>bstop\<close> are those of the stream from the position of the
  cursor on.
\<close>

definition reading :: "'a fastbuf_scheme \<Rightarrow> byte list \<Rightarrow> bool" where
  "reading f c \<longleftrightarrow> buffer f \<le> bptr f \<and> bptr f \<le> bstop f \<and> bstop f \<le> bufend f \<and> bufend f - buffer f < 2 ^ 32 \<and>
     \<not> dead f \<and> 0 \<le> btell f \<and>
     load_bytes (bptr f) (bstop f - bptr f) f = take (bstop f - bptr f) (drop (nat (btell f)) c)"

abbreviation at :: "'a fastbuf_scheme \<Rightarrow> nat" where
  "at f \<equiv> nat (btell f)"

lemma uint_diff_small: "q \<le> p \<Longrightarrow> p - q < 2 ^ 32 \<Longrightarrow> uint_diff p q = p - q"
  by (simp add: uint_diff_def of_nat_diff [symmetric] nat_mod_distrib del: of_nat_diff)

lemma reading_avail: "reading f c \<Longrightarrow> bavailr f = bstop f - bptr f"
  unfolding bavailr_def reading_def by (intro uint_diff_small) auto

lemma btell_adv: "btell (f\<lparr>bptr := bptr f + n\<rparr>) = btell f + int n"
  by (simp add: btell_def)

lemma reading_length:
  assumes "reading f c" and "bptr f < bstop f"
  shows "at f + (bstop f - bptr f) \<le> length c"
proof -
  have "length (load_bytes (bptr f) (bstop f - bptr f) f) = length (take (bstop f - bptr f) (drop (at f) c))"
    using assms(1) by (simp add: reading_def)
  then show ?thesis using assms(2) by simp
qed

text \<open>Taking \<open>n\<close> bytes of what is in the buffer.\<close>

lemma reading_load:
  assumes "reading f c" and "n \<le> bstop f - bptr f"
  shows "fb_load n f = ok (take n (drop (at f) c)) (f\<lparr>bptr := bptr f + n\<rparr>)"
proof -
  have "load_bytes (bptr f) n f = take n (load_bytes (bptr f) (bstop f - bptr f) f)"
    using assms(2) by (rule load_prefix)
  also have "\<dots> = take n (drop (at f) c)" using assms by (simp add: reading_def min_absorb1)
  finally show ?thesis using assms by (auto simp: fb_load_def reading_def)
qed

lemma reading_peek:
  assumes "reading f c" and "bptr f < bstop f"
  shows "fb_peek f = ok (uint (c ! at f)) f"
proof -
  have "load_bytes (bptr f) 1 f = take 1 (drop (at f) c)"
    using reading_load [OF assms(1), of 1] assms by (simp add: fb_load_def reading_def ok_def)
  moreover have "at f < length c" using reading_length [OF assms] assms(2) by simp
  ultimately have "mem f (bptr f) = c ! at f" by (simp add: load_bytes_def take_Suc hd_drop_conv_nth)
  then show ?thesis using assms by (simp add: fb_peek_def reading_def)
qed

text \<open>
  The next line of a list of bytes, and how much of it a reader of at most \<open>l\<close> bytes takes:
  the terminator goes with the line.
\<close>

definition line_of :: "byte \<Rightarrow> byte list \<Rightarrow> byte list" where
  "line_of v xs = takeWhile (\<lambda>x. x \<noteq> v) xs"

definition line_end :: "byte \<Rightarrow> nat \<Rightarrow> byte list \<Rightarrow> nat" where
  "line_end v l xs = (if length (line_of v xs) < l then min (length (line_of v xs) + 1) (length xs) else l)"

lemma line_of_take:
  assumes "v \<in> set (take n xs)"
  shows "takeWhile (\<lambda>x. x \<noteq> v) (take n xs) = line_of v xs" and "take (length (line_of v xs)) (take n xs) = line_of v xs"
    and "length (line_of v xs) < n" and "length (line_of v xs) < length xs"
proof -
  have "takeWhile (\<lambda>x. x \<noteq> v) (take n xs @ drop n xs) = takeWhile (\<lambda>x. x \<noteq> v) (take n xs)"
    using assms by (intro takeWhile_append1) auto
  then show e: "takeWhile (\<lambda>x. x \<noteq> v) (take n xs) = line_of v xs" by (simp add: line_of_def)
  show "take (length (line_of v xs)) (take n xs) = line_of v xs" unfolding e [symmetric] by (rule takeWhile_eq_take [symmetric])
  have "length (line_of v xs) < length (take n xs)"
    unfolding e [symmetric] using assms nth_length_takeWhile takeWhile_eq_all_conv [of "\<lambda>x. x \<noteq> v" "take n xs"]
      takeWhile_eq_take [of "\<lambda>x. x \<noteq> v" "take n xs"] length_takeWhile_le [of "\<lambda>x. x \<noteq> v" "take n xs"]
    by (metis (no_types, lifting) order_le_imp_less_or_eq take_all order_refl)
  then show "length (line_of v xs) < n" "length (line_of v xs) < length xs" by simp_all
qed

lemma line_of_drop:
  assumes "v \<notin> set (take n xs)"
  shows "line_of v xs = take n xs @ line_of v (drop n xs)"
proof -
  have "takeWhile (\<lambda>x. x \<noteq> v) (take n xs @ drop n xs) = take n xs @ takeWhile (\<lambda>x. x \<noteq> v) (drop n xs)"
    using assms by (intro takeWhile_append2) auto
  then show ?thesis by (simp add: line_of_def)
qed

locale fb_reader =
  fixes ops :: "'a fastbuf_scheme fb_ops"
    and inv :: "'a fastbuf_scheme \<Rightarrow> byte list \<Rightarrow> bool"
  assumes inv_reading: "inv f c \<Longrightarrow> reading f c"
    and inv_adv: "inv f c \<Longrightarrow> bptr f + n \<le> bstop f \<Longrightarrow> inv (f\<lparr>bptr := bptr f + n\<rparr>) c"
    and refills: "inv f c \<Longrightarrow> bptr f = bstop f \<Longrightarrow>
      \<exists>refill f'. fb_refill ops = Some refill \<and> refill f = ok (at f < length c) f' \<and> inv f' c \<and>
        btell f' = btell f \<and> flags f' = flags f \<and> (at f < length c \<longrightarrow> bptr f' < bstop f')"
begin

lemma empty_at_end: "inv f c \<Longrightarrow> length c \<le> at f \<Longrightarrow> bptr f = bstop f"
  using reading_length [OF inv_reading, of f c] inv_reading [of f c] by (force simp: reading_def)

lemma refill_ok:
  assumes "inv f c" and "bptr f = bstop f"
  shows "\<exists>f'. brefill ops f True = ok (at f < length c) f' \<and>
      (at f < length c \<or> flags f AND FB_DIE_ON_EOF = 0 \<longrightarrow> brefill ops f check = ok (at f < length c) f') \<and>
      bdirect_read_prepare ops f = ok (bstop f' - bptr f') f' \<and>
      inv f' c \<and> btell f' = btell f \<and> flags f' = flags f \<and> (at f < length c \<longleftrightarrow> bptr f' < bstop f')"
proof -
  obtain rf f' where f': "fb_refill ops = Some rf" "rf f = ok (at f < length c) f'" "inv f' c"
    "btell f' = btell f" "flags f' = flags f" "at f < length c \<longrightarrow> bptr f' < bstop f'"
    using refills [OF assms] by blast
  have r: "reading f c" "reading f' c" using inv_reading assms(1) f'(3) by blast+
  have e: "\<not> at f < length c \<Longrightarrow> bptr f' = bstop f'" using empty_at_end [OF f'(3)] f'(4) by simp
  have "bdirect_read_prepare ops f = ok (bstop f' - bptr f') f'"
    using f' assms(2) e reading_avail [OF r(2)] by (simp add: bdirect_read_prepare_def)
  then show ?thesis
    using r f' assms(2) e by (intro exI [of _ f']) (auto simp: brefill_def reading_def)
qed

lemma prepare_ok:
  assumes "inv f c"
  shows "\<exists>f'. bdirect_read_prepare ops f = ok (bstop f' - bptr f') f' \<and> inv f' c \<and> btell f' = btell f \<and>
    flags f' = flags f \<and> (at f < length c \<longleftrightarrow> bptr f' < bstop f')"
proof (cases "bptr f = bstop f")
  case False
  then have "bptr f < bstop f" using inv_reading [OF assms] by (simp add: reading_def)
  moreover from this have "at f < length c" using reading_length [OF inv_reading [OF assms]] by simp
  ultimately show ?thesis
    using assms reading_avail [OF inv_reading [OF assms]] by (auto simp: bdirect_read_prepare_def)
qed (use refill_ok [OF assms, of True] in blast)

end

context fb_reader
begin

lemma next_ok:
  assumes "inv f c" and "bptr f < bstop f"
  shows "\<exists>f'. fb_next f = ok (uint (c ! at f)) f' \<and> inv f' c \<and> btell f' = btell f + 1 \<and> flags f' = flags f"
  using reading_peek [OF inv_reading [OF assms(1)] assms(2)] inv_adv [OF assms(1), of 1] assms(2)
  by (auto simp: fb_next_def btell_def)

lemma bgetc_ok:
  assumes "inv f c" and "at f < length c"
  shows "\<exists>f'. bgetc ops f = ok (uint (c ! at f)) f' \<and> inv f' c \<and> btell f' = btell f + 1 \<and> flags f' = flags f"
proof (cases "bptr f < bstop f")
  case True
  then show ?thesis using next_ok [OF assms(1)] by (simp add: bgetc_def)
next
  case False
  then have "bptr f = bstop f" using inv_reading [OF assms(1)] by (simp add: reading_def)
  then obtain g where g: "brefill ops f False = ok True g" "inv g c" "btell g = btell f" "flags g = flags f" "bptr g < bstop g"
    using refill_ok [OF assms(1), of False] assms(2) by auto
  then show ?thesis using next_ok [OF g(2,5)] False by (simp add: bgetc_def bgetc_slow_def)
qed

lemma bpeekc_ok:
  assumes "inv f c" and "at f < length c"
  shows "\<exists>f'. bpeekc ops f = ok (uint (c ! at f)) f' \<and> inv f' c \<and> btell f' = btell f \<and> flags f' = flags f"
proof (cases "bptr f < bstop f")
  case True
  then show ?thesis using reading_peek [OF inv_reading [OF assms(1)]] assms(1) by (simp add: bpeekc_def)
next
  case False
  then have "bptr f = bstop f" using inv_reading [OF assms(1)] by (simp add: reading_def)
  then obtain g where g: "brefill ops f False = ok True g" "inv g c" "btell g = btell f" "flags g = flags f" "bptr g < bstop g"
    using refill_ok [OF assms(1), of False] assms(2) by auto
  then show ?thesis
    using reading_peek [OF inv_reading [OF g(2)] g(5)] False by (simp add: bpeekc_def bpeekc_slow_def)
qed

text \<open>At the end of the stream: minus one, or an exception where the stream asks for it.\<close>

lemma bgetc_eof:
  assumes "inv f c" and "length c \<le> at f" and "flags f AND FB_DIE_ON_EOF = 0"
  shows "\<exists>f'. bgetc ops f = ok (- 1) f' \<and> inv f' c \<and> btell f' = btell f \<and> flags f' = flags f"
  using refill_ok [OF assms(1) empty_at_end [OF assms(1,2)], of False] assms empty_at_end [OF assms(1,2)]
  by (auto simp: bgetc_def bgetc_slow_def)

lemma bpeekc_eof:
  assumes "inv f c" and "length c \<le> at f" and "flags f AND FB_DIE_ON_EOF = 0"
  shows "\<exists>f'. bpeekc ops f = ok (- 1) f' \<and> inv f' c \<and> btell f' = btell f \<and> flags f' = flags f"
  using refill_ok [OF assms(1) empty_at_end [OF assms(1,2)], of False] assms empty_at_end [OF assms(1,2)]
  by (auto simp: bpeekc_def bpeekc_slow_def)

lemma beof_ok:
  assumes "inv f c"
  shows "\<exists>f'. beof ops f = ok (length c \<le> at f) f' \<and> inv f' c \<and> btell f' = btell f \<and> flags f' = flags f"
proof (cases "bptr f < bstop f")
  case True
  then have "at f < length c" using reading_length [OF inv_reading [OF assms] True] by simp
  then show ?thesis using True assms by (auto simp: beof_def)
next
  case False
  then have "bptr f = bstop f" using inv_reading [OF assms] by (simp add: reading_def)
  then show ?thesis
    using refill_ok [OF assms, of True] False by (auto simp: beof_def beof_slow_def not_less)
qed

lemma bread_loop_ok:
  "inv f c \<Longrightarrow> at f + l \<le> length c \<or> check \<or> flags f AND FB_DIE_ON_EOF = 0 \<Longrightarrow>
   \<exists>f'. bread_loop ops check f l acc = ok (acc @ take l (drop (at f) c), l - (length c - at f)) f' \<and> inv f' c \<and>
     btell f' = btell f + int (min l (length c - at f)) \<and> flags f' = flags f"
proof (induction l arbitrary: f acc rule: less_induct)
  case (less l)
  show ?case
  proof (cases "l = 0")
    case True
    then show ?thesis using less.prems by (subst bread_loop.simps) auto
  next
    case l: False
    obtain g where g: "(if bavailr f = 0 then fb_bind (brefill ops f check) (\<lambda>_ f. ok (bavailr f) f) else ok (bavailr f) f) =
        ok (bstop g - bptr g) g" "inv g c" "btell g = btell f" "flags g = flags f" "at f < length c \<longleftrightarrow> bptr g < bstop g"
    proof (cases "bptr f = bstop f")
      case True
      then show ?thesis
        using refill_ok [OF less.prems(1) True, of check] less.prems(2) l reading_avail [OF inv_reading] that
        by (cases "check \<or> at f < length c \<or> flags f AND FB_DIE_ON_EOF = 0") (auto simp: bavailr_def uint_diff_def)
    next
      case False
      then have lt: "bptr f < bstop f" using inv_reading [OF less.prems(1)] by (simp add: reading_def)
      then have "at f < length c" using reading_length [OF inv_reading [OF less.prems(1)] lt] by simp
      then show ?thesis
        using that [of f] less.prems(1) lt reading_avail [OF inv_reading [OF less.prems(1)]] by simp
    qed
    define k where "k = (if bstop g - bptr g > l then l else bstop g - bptr g)"
    show ?thesis
    proof (cases "bptr g < bstop g")
      case False
      then have "length c \<le> at f" using g(5) by simp
      then show ?thesis using l g False by (subst bread_loop.simps) simp
    next
      case True
      let ?h = "g\<lparr>bptr := bptr g + k\<rparr>"
      have k: "0 < k" "k \<le> l" "k \<le> bstop g - bptr g" using True l by (auto simp: k_def)
      have len: "at f + k \<le> length c" using reading_length [OF inv_reading [OF g(2)] True] g(3) k(3) by simp
      have step: "bread_loop ops check f l acc = bread_loop ops check ?h (l - k) (acc @ take k (drop (at f) c))"
        using l True g(1,3) reading_load [OF inv_reading [OF g(2)] k(3)]
        by (subst bread_loop.simps) (simp add: Let_def flip: k_def)
      have h: "inv ?h c" "btell ?h = btell f + int k" "flags ?h = flags f"
        using inv_adv [OF g(2), of k] k(3) True g(3,4) btell_adv [of g k] by simp_all
      have at: "at ?h = at f + k" using h(2) inv_reading [OF less.prems(1)] by (simp add: reading_def nat_add_distrib)
      have cond: "at ?h + (l - k) \<le> length c \<or> check \<or> flags ?h AND FB_DIE_ON_EOF = 0"
        using less.prems(2) at h(3) k(2) by auto
      obtain f' where f': "bread_loop ops check ?h (l - k) (acc @ take k (drop (at f) c)) =
          ok (acc @ take k (drop (at f) c) @ take (l - k) (drop (at ?h) c), l - k - (length c - at ?h)) f'"
        "inv f' c" "btell f' = btell ?h + int (min (l - k) (length c - at ?h))" "flags f' = flags f"
        using less.IH [OF _ h(1) cond, of "acc @ take k (drop (at f) c)"] k(1,2) h(3) by auto
      have e1: "take k (drop (at f) c) @ take (l - k) (drop (at ?h) c) = take l (drop (at f) c)"
        unfolding at using k(2) take_add [of k "l - k" "drop (at f) c"] by (simp add: add.commute)
      have e2: "l - k - (length c - at ?h) = l - (length c - at f)" unfolding at using len k(2) by linarith
      have e3: "btell ?h + int (min (l - k) (length c - at ?h)) = btell f + int (min l (length c - at f))"
      proof -
        have "int (min (l - k) (length c - (at f + k))) + int k = int (min l (length c - at f))" using len k(2) by linarith
        then show ?thesis unfolding at using h(2) by simp
      qed
      show ?thesis by (rule exI [of _ f']) (simp only: step f' e1 e2 e3 simp_thms)
    qed
  qed
qed

text \<open>The fast path of reading: what is asked for is in the buffer.\<close>

lemma avail_ok:
  assumes "inv f c" and "l \<le> bavailr f"
  shows "fb_load l f = ok (take l (drop (at f) c)) (f\<lparr>bptr := bptr f + l\<rparr>)" (is ?L)
    and "inv (f\<lparr>bptr := bptr f + l\<rparr>) c" (is ?I)
    and "btell (f\<lparr>bptr := bptr f + l\<rparr>) = btell f + int (min l (length c - at f))" (is ?T)
    and "at f + l \<le> length c \<or> l = 0" (is ?B)
proof -
  have r: "reading f c" using inv_reading assms(1) .
  have l: "l \<le> bstop f - bptr f" using reading_avail [OF r] assms(2) by simp
  have b: "l \<le> length c - at f \<and> (at f + l \<le> length c \<or> l = 0)"
  proof (cases "bptr f < bstop f")
    case True
    then show ?thesis using reading_length [OF r True] l by linarith
  qed (use l in simp)
  then have m: "min l (length c - at f) = l" by simp
  have "bptr f \<le> bstop f" using r by (simp add: reading_def)
  then have "bptr f + l \<le> bstop f" using l by linarith
  then show ?L ?I ?T ?B using b reading_load [OF r l] inv_adv [OF assms(1)] btell_adv [of f l] unfolding m by simp_all
qed

lemma bread_ok:
  assumes "inv f c" and "at f + l \<le> length c \<or> flags f AND FB_DIE_ON_EOF = 0"
  shows "\<exists>f'. bread ops f l = ok (take l (drop (at f) c)) f' \<and> inv f' c \<and>
    btell f' = btell f + int (min l (length c - at f)) \<and> flags f' = flags f"
proof (cases "l \<le> bavailr f")
  case True
  then show ?thesis using avail_ok [OF assms(1) True] by (simp add: bread_def)
next
  case False
  then show ?thesis
    using bread_loop_ok [OF assms(1), of l False "[]"] assms(2) by (auto simp: bread_def bread_slow_def)
qed

text \<open>\<^verbatim>\<open>breadb\<close> reads all or nothing.\<close>

lemma breadb_ok:
  assumes "inv f c" and "at f + l \<le> length c \<or> length c \<le> at f"
  shows "\<exists>f'. breadb ops f l = ok (take l (drop (at f) c)) f' \<and> inv f' c \<and>
    btell f' = btell f + int (min l (length c - at f)) \<and> flags f' = flags f"
proof (cases "l \<le> bavailr f")
  case True
  then show ?thesis using avail_ok [OF assms(1) True] by (simp add: breadb_def)
next
  case False
  obtain f' where f': "bread_loop ops True f l [] = ok (take l (drop (at f) c), l - (length c - at f)) f'" "inv f' c"
    "btell f' = btell f + int (min l (length c - at f))" "flags f' = flags f"
    using bread_loop_ok [OF assms(1), of l True "[]"] by auto
  have "take l (drop (at f) c) = [] \<or> l - (length c - at f) = 0" using assms(2) by auto
  then show ?thesis using False f' by (auto simp: breadb_def bread_slow_def)
qed

lemma breadb_short:
  assumes "inv f c" and "at f < length c" and "length c < at f + l"
  shows "\<exists>f'. breadb ops f l = bthrow ''eof'' f' \<and> inv f' c \<and> btell f' = int (length c) \<and> flags f' = flags f"
proof -
  have avail: "\<not> l \<le> bavailr f" using avail_ok(4) [OF assms(1)] assms(2,3) by fastforce
  obtain f' where f': "bread_loop ops True f l [] = ok (take l (drop (at f) c), l - (length c - at f)) f'" "inv f' c"
    "btell f' = btell f + int (min l (length c - at f))" "flags f' = flags f"
    using bread_loop_ok [OF assms(1), of l True "[]"] by auto
  have "take l (drop (at f) c) = drop (at f) c" "drop (at f) c \<noteq> []" "l - (length c - at f) \<noteq> 0"
    "min l (length c - at f) = length c - at f" using assms(2,3) by auto
  moreover have "0 \<le> btell f" using inv_reading [OF assms(1)] by (simp add: reading_def)
  ultimately show ?thesis using avail f' assms(2) by (auto simp: breadb_def bread_slow_def)
qed

lemma bskip_slow_ok:
  "inv f c \<Longrightarrow> \<exists>f'. bskip_slow ops f n = ok (at f + n \<le> length c \<or> n = 0) f' \<and> inv f' c \<and>
     btell f' = btell f + int (min n (length c - at f)) \<and> flags f' = flags f"
proof (induction n arbitrary: f rule: less_induct)
  case (less n)
  obtain g where g: "bdirect_read_prepare ops f = ok (bstop g - bptr g) g" "inv g c" "btell g = btell f" "flags g = flags f"
    "at f < length c \<longleftrightarrow> bptr g < bstop g" using prepare_ok [OF less.prems] by blast
  show ?case
  proof (cases "n = 0 \<or> \<not> bptr g < bstop g")
    case True
    then show ?thesis using g less.prems by (subst bskip_slow.simps) (cases "n = 0", auto)
  next
    case False
    define k where "k = min (bstop g - bptr g) n"
    let ?h = "g\<lparr>bptr := bptr g + k\<rparr>"
    have k: "0 < k" "k \<le> n" "bptr g + k \<le> bstop g" using False by (auto simp: k_def)
    have len: "at f + k \<le> length c" using reading_length [OF inv_reading [OF g(2)]] False g(3) by (auto simp: k_def)
    have step: "bskip_slow ops f n = bskip_slow ops ?h (n - k)"
      using False g(1) by (subst bskip_slow.simps) (simp add: Let_def bdirect_read_commit_def flip: k_def)
    have h: "inv ?h c" "btell ?h = btell f + int k" "flags ?h = flags f"
      using inv_adv [OF g(2) k(3)] g(3,4) btell_adv [of g k] by simp_all
    have at: "at ?h = at f + k" using h(2) inv_reading [OF less.prems] by (simp add: reading_def nat_add_distrib)
    obtain f' where f': "bskip_slow ops ?h (n - k) = ok (at ?h + (n - k) \<le> length c \<or> n - k = 0) f'" "inv f' c"
      "btell f' = btell ?h + int (min (n - k) (length c - at ?h))" "flags f' = flags f"
      using less.IH [OF _ h(1), of "n - k"] k(1,2) h(3) by auto
    have "(at f + k + (n - k) \<le> length c \<or> n - k = 0) = (at f + n \<le> length c \<or> n = 0)" using k len by auto
    moreover have "int (min (n - k) (length c - (at f + k))) + int k = int (min n (length c - at f))" using len k(2) by linarith
    ultimately show ?thesis using step f' h(2) unfolding at by simp
  qed
qed

lemma bskip_ok:
  assumes "inv f c"
  shows "\<exists>f'. bskip ops f n = ok (at f + n \<le> length c \<or> n = 0) f' \<and> inv f' c \<and>
     btell f' = btell f + int (min n (length c - at f)) \<and> flags f' = flags f"
proof (cases "n \<le> bavailr f")
  case True
  then show ?thesis using avail_ok [OF assms True] by (simp add: bskip_def)
qed (use bskip_slow_ok [OF assms, of n] in \<open>simp add: bskip_def\<close>)

text \<open>The lines of the stream, up to the terminator \<open>v\<close>.\<close>

lemma gets_loop_ok:
  assumes "inv f c" and "bptr f < bstop f" and "0 < l"
  shows "\<exists>f'. gets_loop ops v f (bstop f - bptr f) l b =
       ok (if length (line_of v (drop (at f) c)) < l then Some (b @ line_of v (drop (at f) c)) else None) f' \<and>
     inv f' c \<and> btell f' = btell f + int (line_end v l (drop (at f) c)) \<and> flags f' = flags f"
  using assms
proof (induction l arbitrary: f b rule: less_induct)
  case (less l)
  define cnt where "cnt = min l (bstop f - bptr f)"
  define rest where "rest = drop (at f) c"
  let ?f = "\<lambda>n. f\<lparr>bptr := bptr f + n\<rparr>"
  have cnt: "0 < cnt" "cnt \<le> l" "cnt \<le> bstop f - bptr f" using less.prems(2,3) by (simp_all add: cnt_def)
  have len: "cnt \<le> length rest" using reading_length [OF inv_reading [OF less.prems(1)] less.prems(2)] cnt(3)
    by (simp add: rest_def)
  have adv: "inv (?f n) c" "btell (?f n) = btell f + int n" if "n \<le> cnt" for n
    using inv_adv [OF less.prems(1), of n] that cnt(3) less.prems(2) btell_adv [of f n] by simp_all
  have load: "fb_load cnt f = ok (take cnt rest) (?f cnt)"
    using reading_load [OF inv_reading [OF less.prems(1)] cnt(3)] by (simp add: rest_def)
  show ?case
  proof (cases "v \<in> set (take cnt rest)")
    case True
    let ?k = "length (line_of v rest)"
    note l = line_of_take [OF True]
    have "gets_loop ops v f (bstop f - bptr f) l b = ok (Some (b @ line_of v rest)) (?f (?k + 1))"
      using True load l by (subst gets_loop.simps) (simp add: bdirect_read_commit_def line_of_def Let_def flip: cnt_def)
    moreover have "?k < l" "line_end v l rest = ?k + 1" using l cnt(2) len by (simp_all add: line_end_def)
    ultimately show ?thesis using adv [of "?k + 1"] l unfolding rest_def by simp
  next
    case False
    note l = line_of_drop [OF False]
    show ?thesis
    proof (cases "cnt = l")
      case True
      then have "gets_loop ops v f (bstop f - bptr f) l b = ok None (?f cnt)"
        using False load by (subst gets_loop.simps) (simp add: bdirect_read_commit_def Let_def flip: cnt_def)
      moreover have "\<not> length (line_of v rest) < l" using l True len by simp
      ultimately show ?thesis using adv [of cnt] True unfolding rest_def by (simp add: line_end_def)
    next
      case neq: False
      obtain g where g: "bdirect_read_prepare ops (?f cnt) = ok (bstop g - bptr g) g" "inv g c" "btell g = btell (?f cnt)"
        "flags g = flags f" "at (?f cnt) < length c \<longleftrightarrow> bptr g < bstop g" using prepare_ok [OF adv(1) [OF order_refl]] by auto
      have at: "at g = at f + cnt" using g(3) adv(2) [of cnt] inv_reading [OF less.prems(1)]
        by (simp add: reading_def nat_add_distrib)
      have rest: "drop (at g) c = drop cnt rest" unfolding at rest_def by (simp add: add.commute)
      have step: "gets_loop ops v f (bstop f - bptr f) l b =
          (if bstop g - bptr g = 0 then ok (Some (b @ take cnt rest)) g
           else gets_loop ops v g (bstop g - bptr g) (l - cnt) (b @ take cnt rest))"
        using False neq load g(1)
        by (subst gets_loop.simps) (simp add: bdirect_read_commit_def Let_def flip: cnt_def)
      show ?thesis
      proof (cases "bptr g < bstop g")
        case True
        obtain f' where f': "gets_loop ops v g (bstop g - bptr g) (l - cnt) (b @ take cnt rest) =
          ok (if length (line_of v (drop cnt rest)) < l - cnt then Some ((b @ take cnt rest) @ line_of v (drop cnt rest)) else None) f'"
          "inv f' c" "btell f' = btell g + int (line_end v (l - cnt) (drop cnt rest))" "flags f' = flags g"
          using less.IH [OF _ g(2) True, of "l - cnt" "b @ take cnt rest"] cnt neq unfolding rest by auto
        have "length (line_of v rest) < l \<longleftrightarrow> length (line_of v (drop cnt rest)) < l - cnt" using l len by auto
        moreover have "line_end v l rest = cnt + line_end v (l - cnt) (drop cnt rest)"
          using l len cnt by (auto simp: line_end_def)
        ultimately show ?thesis using step True f' g(3,4) adv(2) [of cnt] l unfolding rest_def [symmetric] by auto
      next
        case False
        then have "length rest = cnt" using g(3,5) at len by (simp add: rest_def)
        then have "line_of v rest = rest" using l by (simp add: line_of_def)
        moreover from this have "line_end v l rest = cnt" using \<open>length rest = cnt\<close> neq cnt by (simp add: line_end_def)
        ultimately show ?thesis
          using step False g(2,3,4) adv(2) [of cnt] \<open>length rest = cnt\<close> cnt(2) neq unfolding rest_def [symmetric] by auto
      qed
    qed
  qed
qed

text \<open>
  \<^verbatim>\<open>bgets\<close> gives the next line without its end, nothing at the end of the stream, and throws
  when the line is too long.
\<close>

lemma bgets_prepare:
  assumes "inv f c" and "0 < l" and "at f < length c"
  shows "\<exists>f'. fb_bind (bdirect_read_prepare ops f)
         (\<lambda>src_len f. if src_len = 0 then eof f else fb_bind (gets_loop ops v f src_len l []) k) =
       k (if length (line_of v (drop (at f) c)) < l then Some (line_of v (drop (at f) c)) else None) f' \<and>
     inv f' c \<and> btell f' = btell f + int (line_end v l (drop (at f) c)) \<and> flags f' = flags f"
proof -
  obtain g where g: "bdirect_read_prepare ops f = ok (bstop g - bptr g) g" "inv g c" "btell g = btell f" "flags g = flags f"
    "bptr g < bstop g" using prepare_ok [OF assms(1)] assms(3) by blast
  show ?thesis
    using gets_loop_ok [OF g(2,5) assms(2), of v "[]"] g(1,3,4,5) by (auto simp del: length_drop)
qed

lemma bgets_eof:
  assumes "inv f c" and "0 < l" and "length c \<le> at f"
  shows "\<exists>f'. bgets ops f l = ok None f' \<and> bgets_nodie ops f l = ok (0, []) f' \<and> bgets0 ops f l = ok None f' \<and>
    inv f' c \<and> btell f' = btell f \<and> flags f' = flags f"
proof -
  obtain g where "bdirect_read_prepare ops f = ok (bstop g - bptr g) g" "inv g c" "btell g = btell f" "flags g = flags f"
    "\<not> bptr g < bstop g" using prepare_ok [OF assms(1)] assms(3) by force
  then show ?thesis using assms(2) by (simp add: bgets_def bgets_nodie_def bgets0_def)
qed

lemma bgets_line:
  assumes "inv f c" and "at f < length c" and "length (line_of 10 (drop (at f) c)) < l"
  shows "\<exists>f'. bgets ops f l = ok (Some (line_of 10 (drop (at f) c))) f' \<and> inv f' c \<and>
      btell f' = btell f + int (min (length (line_of 10 (drop (at f) c)) + 1) (length c - at f)) \<and> flags f' = flags f"
  using bgets_prepare [OF assms(1) _ assms(2), of l "ok None" 10
      "\<lambda>r f. case r of None \<Rightarrow> bthrow ''toolong'' f | Some line \<Rightarrow> ok (Some line) f"] assms(3)
  by (auto simp: bgets_def line_end_def)

lemma bgets_toolong:
  assumes "inv f c" and "at f < length c" and "0 < l" and "l \<le> length (line_of 10 (drop (at f) c))"
  shows "\<exists>f'. bgets ops f l = bthrow ''toolong'' f' \<and> inv f' c \<and> btell f' = btell f + int l \<and> flags f' = flags f"
  using bgets_prepare [OF assms(1,3,2), of "ok None" 10
      "\<lambda>r f. case r of None \<Rightarrow> bthrow ''toolong'' f | Some line \<Rightarrow> ok (Some line) f"] assms(3,4)
  by (auto simp: bgets_def line_end_def)

lemma bgets_nodie_ok:
  assumes "inv f c" and "at f < length c" and "0 < l"
  shows "\<exists>f'. bgets_nodie ops f l =
      ok (if length (line_of 10 (drop (at f) c)) < l
          then (to_int (int (length (line_of 10 (drop (at f) c))) + 1), line_of 10 (drop (at f) c) @ [0]) else (- 1, [])) f' \<and>
      inv f' c \<and> btell f' = btell f + int (line_end 10 l (drop (at f) c)) \<and> flags f' = flags f"
  using bgets_prepare [OF assms(1,3,2), of "ok (0, [])" 10
      "\<lambda>r f. case r of None \<Rightarrow> ok (- 1, []) f | Some line \<Rightarrow> ok (to_int (int (length line) + 1), line @ [0]) f"] assms(3)
  by (auto simp: bgets_nodie_def)

text \<open>A byte that has just been read can be put back.\<close>

lemma bungetc_ok:
  assumes "inv f c" and "at f < length c"
  shows "\<exists>f' g. bgetc ops f = ok (uint (c ! at f)) f' \<and> bungetc f' = ok () g \<and> inv g c \<and> btell g = btell f \<and> flags g = flags f"
proof -
  have *: "\<exists>g'. fb_next g = ok (uint (c ! at f)) g' \<and> bungetc g' = ok () g"
    if "inv g c" "btell g = btell f" "bptr g < bstop g" for g
    using reading_peek [OF inv_reading [OF that(1)] that(3)] inv_reading [OF that(1)] that(2)
    by (auto simp: fb_next_def bungetc_def reading_def)
  show ?thesis
  proof (cases "bptr f < bstop f")
    case True
    then show ?thesis using * [of f] assms(1) by (auto simp: bgetc_def)
  next
    case False
    then have "bptr f = bstop f" using inv_reading [OF assms(1)] by (simp add: reading_def)
    then obtain g where "brefill ops f False = ok True g" "inv g c" "btell g = btell f" "flags g = flags f" "bptr g < bstop g"
      using refill_ok [OF assms(1), of False] assms(2) by auto
    then show ?thesis using * [of g] False by (auto simp: bgetc_def bgetc_slow_def)
  qed
qed

end

section \<open>Seeking\<close>

text \<open>
  A back end that can seek in what it reads. Within the buffer the front end moves the cursor
  itself; otherwise it leaves the buffer and calls the back end.
\<close>

locale fb_seeker = fb_reader ops inv for ops :: "'a fastbuf_scheme fb_ops" and inv :: "'a fastbuf_scheme \<Rightarrow> byte list \<Rightarrow> bool" +
  assumes inv_move: "inv f c \<Longrightarrow> bptr f < bstop f \<Longrightarrow> buffer f \<le> a \<Longrightarrow> a \<le> bstop f \<Longrightarrow>
      0 \<le> pos f - (int (bstop f) - int a) \<Longrightarrow> inv (f\<lparr>bptr := a\<rparr>) c"
    and seeks: "inv f c \<Longrightarrow> bptr f = bstop f \<Longrightarrow> 0 \<le> p \<Longrightarrow> p \<le> int (length c) \<Longrightarrow>
      \<exists>seek f'. fb_seek ops = Some seek \<and> seek f p SEEK_SET = ok True f' \<and> inv f' c \<and> bptr f' = bstop f' \<and>
        btell f' = p \<and> flags f' = flags f"
    and seeks_end: "inv f c \<Longrightarrow> bptr f = bstop f \<Longrightarrow> p \<le> 0 \<Longrightarrow> 0 \<le> int (length c) + p \<Longrightarrow>
      \<exists>seek f'. fb_seek ops = Some seek \<and> seek f p SEEK_END = ok True f' \<and> inv f' c \<and> bptr f' = bstop f' \<and>
        btell f' = int (length c) + p \<and> flags f' = flags f"
begin

lemma flush_ok: "inv f c \<Longrightarrow> bflush ops f = ok () (f\<lparr>bptr := bstop f\<rparr>) \<and> inv (f\<lparr>bptr := bstop f\<rparr>) c"
  using inv_adv [of f c "bstop f - bptr f"] inv_reading [of f c] by (simp add: bflush_def reading_def)

lemma do_seek_ok:
  assumes "inv f c" and "0 \<le> q" and "q \<le> int (length c)"
    and "w = SEEK_SET \<and> p = q \<or> w = SEEK_END \<and> p \<le> 0 \<and> q = int (length c) + p"
  shows "\<exists>f'. do_seek ops f p w = ok () f' \<and> inv f' c \<and> btell f' = q \<and> flags f' = flags f"
proof -
  let ?f = "f\<lparr>bptr := bstop f\<rparr>"
  have fl: "bflush ops f = ok () ?f" "inv ?f c" using flush_ok [OF assms(1)] by auto
  obtain sk f' where s: "fb_seek ops = Some sk" "sk ?f p w = ok True f'" "inv f' c" "bptr f' = bstop f'"
    "btell f' = q" "flags f' = flags f"
    using assms(4) seeks [OF fl(2) _ assms(2,3)] seeks_end [OF fl(2), of p] assms(2) by fastforce
  have "buffer f' \<le> bstop f' \<and> bstop f' \<le> bufend f'" using inv_reading [OF s(3)] by (simp add: reading_def)
  then show ?thesis using fl(1) s assms(2,4) by (auto simp: do_seek_def)
qed

lemma bsetpos_ok:
  assumes "inv f c" and "0 \<le> p" and "p \<le> int (length c)"
  shows "\<exists>f'. bsetpos ops f p = ok () f' \<and> inv f' c \<and> btell f' = p \<and> flags f' = flags f"
proof (cases "bptr f < bstop f \<and> p \<le> pos f \<and> p \<ge> pos f - (int (bstop f) - int (buffer f))")
  case True
  then have *: "buffer f \<le> nat (int (bstop f) + (p - pos f))" "nat (int (bstop f) + (p - pos f)) \<le> bstop f"
    "int (nat (int (bstop f) + (p - pos f))) = int (bstop f) + (p - pos f)" by linarith+
  then have "inv (f\<lparr>bptr := nat (int (bstop f) + (p - pos f))\<rparr>) c"
    using True assms(2) by (intro inv_move [OF assms(1)]) auto
  then show ?thesis using True *(3) by (simp add: bsetpos_def btell_def)
next
  case False
  then show ?thesis
    using do_seek_ok [OF assms(1,2,3), of SEEK_SET p] assms(1,2) by (cases "p = btell f") (auto simp: bsetpos_def)
qed

lemma brewind_ok:
  assumes "inv f c"
  shows "\<exists>f'. brewind ops f = ok () f' \<and> inv f' c \<and> btell f' = 0 \<and> flags f' = flags f"
  using flush_ok [OF assms] bsetpos_ok [of "f\<lparr>bptr := bstop f\<rparr>" c 0] by (auto simp: brewind_def)

lemma bfilesize_ok:
  assumes "inv f c" and "btell f \<le> int (length c)"
  shows "\<exists>f'. bfilesize ops f = ok (int (length c)) f' \<and> inv f' c \<and> btell f' = btell f \<and> flags f' = flags f"
proof -
  let ?f = "f\<lparr>bptr := bstop f\<rparr>"
  have fl: "bflush ops f = ok () ?f" "inv ?f c" using flush_ok [OF assms(1)] by auto
  obtain sk g where s: "fb_seek ops = Some sk" "sk ?f 0 SEEK_END = ok True g" "inv g c" "btell g = int (length c)" "flags g = flags f"
    using seeks_end [OF fl(2), of 0] by auto
  have "0 \<le> btell f" using inv_reading [OF assms(1)] by (simp add: reading_def)
  then obtain f' where "bsetpos ops g (btell f) = ok () f'" "inv f' c" "btell f' = btell f" "flags f' = flags g"
    using bsetpos_ok [OF s(3) _ assms(2)] by auto
  then show ?thesis using fl s by (simp add: bfilesize_def Let_def)
qed

lemma bseek_ok:
  assumes "inv f c" and "0 \<le> q" and "q \<le> int (length c)"
    and "w = SEEK_SET \<and> q = p \<or> w = SEEK_CUR \<and> q = btell f + p \<or> w = SEEK_END \<and> p \<le> 0 \<and> q = int (length c) + p"
  shows "\<exists>f'. bseek ops f p w = ok () f' \<and> inv f' c \<and> btell f' = q \<and> flags f' = flags f"
  using assms(4) bsetpos_ok [OF assms(1,2,3)] do_seek_ok [OF assms(1,2,3), of SEEK_END p]
  by (auto simp: bseek_def)

end

section \<open>Writing\<close>

text \<open>
  A back end that writes: \<open>w\<close> is what has been written to the stream so far. A byte stored in
  free space of the buffer is written; emptying the buffer loses nothing, and makes room when
  there was none.
\<close>

locale fb_writer =
  fixes ops :: "'a fastbuf_scheme fb_ops"
    and winv :: "'a fastbuf_scheme \<Rightarrow> byte list \<Rightarrow> bool"
  assumes winv_ptrs: "winv f w \<Longrightarrow> buffer f \<le> bstop f \<and> bstop f \<le> bptr f \<and> bptr f \<le> bufend f \<and>
      bufend f - buffer f < 2 ^ 32 \<and> \<not> dead f"
    and stores: "winv f w \<Longrightarrow> bptr f + length xs \<le> bufend f \<Longrightarrow>
      winv ((store_bytes (bptr f) xs f)\<lparr>bptr := bptr f + length xs\<rparr>) (w @ xs)"
    and spouts: "winv f w \<Longrightarrow> \<exists>spout f'. fb_spout ops = Some spout \<and> spout f = ok () f' \<and> winv f' w \<and>
      (bptr f = bufend f \<longrightarrow> bptr f' < bufend f')"
begin

lemma availw: "winv f w \<Longrightarrow> bavailw f = bufend f - bptr f"
  unfolding bavailw_def using winv_ptrs [of f w] by (intro uint_diff_small) auto

lemma store_ok:
  "winv f w \<Longrightarrow> length xs \<le> bufend f - bptr f \<Longrightarrow> \<exists>f'. fb_store xs f = ok () f' \<and> winv f' (w @ xs)"
  using stores [of f w xs] winv_ptrs [of f w] by (auto simp: fb_store_def)

lemma do_spout_ok:
  assumes "winv f w"
  shows "\<exists>f'. do_spout ops f = ok () f' \<and> winv f' w \<and> (bptr f = bufend f \<longrightarrow> bptr f' < bufend f')"
  using spouts [OF assms] winv_ptrs [OF assms] winv_ptrs by (fastforce simp: do_spout_def)

lemma bspout_ok:
  assumes "winv f w" and "bptr f = bufend f"
  shows "\<exists>f'. bspout ops f = ok () f' \<and> winv f' w \<and> bptr f' < bufend f'"
proof -
  obtain g where g: "do_spout ops f = ok () g" "winv g w" "bptr g < bufend g" using do_spout_ok [OF assms(1)] assms(2) by blast
  then have "bstop g \<noteq> bufend g" using winv_ptrs [OF g(2)] by auto
  then show ?thesis using g by (simp add: bspout_def)
qed

lemma bflush_ok:
  assumes "winv f w"
  shows "\<exists>f'. bflush ops f = ok () f' \<and> winv f' w"
proof (cases "bptr f > bstop f")
  case True
  then show ?thesis using do_spout_ok [OF assms] by (auto simp: bflush_def)
next
  case False
  then have "f\<lparr>bptr := bstop f\<rparr> = f" using winv_ptrs [OF assms] by simp
  then show ?thesis using False assms by (simp add: bflush_def)
qed

lemma room_ok:
  assumes "winv f w"
  shows "\<exists>g. (if bavailw f = 0 then fb_bind (bspout ops f) (\<lambda>_ f. ok (bavailw f) f) else ok (bavailw f) f) =
    ok (bufend g - bptr g) g \<and> winv g w \<and> bptr g < bufend g"
proof (cases "bptr f = bufend f")
  case True
  then show ?thesis using bspout_ok [OF assms True] availw by (auto simp: availw [OF assms])
next
  case False
  then show ?thesis using winv_ptrs [OF assms] availw [OF assms] assms by auto
qed

lemma bwrite_slow_ok: "winv f w \<Longrightarrow> \<exists>f'. bwrite_slow ops f b = ok () f' \<and> winv f' (w @ b)"
proof (induction b arbitrary: f w rule: length_induct)
  case (1 b)
  show ?case
  proof (cases "b = []")
    case True
    then show ?thesis using 1 by (subst bwrite_slow.simps) simp
  next
    case False
    obtain g where g: "(if bavailw f = 0 then fb_bind (bspout ops f) (\<lambda>_ f. ok (bavailw f) f) else ok (bavailw f) f) =
      ok (bufend g - bptr g) g" "winv g w" "bptr g < bufend g" using room_ok [OF 1(2)] by blast
    define k where "k = (if bufend g - bptr g > length b then length b else bufend g - bptr g)"
    have k: "0 < k" "k \<le> length b" "k \<le> bufend g - bptr g" using g(3) False by (auto simp: k_def)
    then obtain h where h: "fb_store (take k b) g = ok () h" "winv h (w @ take k b)"
      using store_ok [OF g(2), of "take k b"] by auto
    have "bwrite_slow ops f b = bwrite_slow ops h (drop k b)"
      using False g(1) h(1) by (subst bwrite_slow.simps) (simp add: Let_def flip: k_def)
    moreover have "length (drop k b) < length b" using k by simp
    ultimately show ?thesis using 1(1) h(2) by (metis append.assoc append_take_drop_id)
  qed
qed

lemma bwrite_ok: "winv f w \<Longrightarrow> \<exists>f'. bwrite ops f b = ok () f' \<and> winv f' (w @ b)"
  using bwrite_slow_ok [of f w b] store_ok [of f w b] by (auto simp: bwrite_def availw)

lemma bputc_ok: "winv f w \<Longrightarrow> \<exists>f'. bputc ops f c = ok () f' \<and> winv f' (w @ [ucast c])"
proof (cases "bptr f < bufend f")
  case True
  then show "winv f w \<Longrightarrow> ?thesis" using store_ok [of f w "[ucast c]"] by (simp add: bputc_def)
next
  case False
  assume w: "winv f w"
  then have "bptr f = bufend f" using winv_ptrs [OF w] False by simp
  then obtain g where "bspout ops f = ok () g" "winv g w" "bptr g < bufend g" using bspout_ok [OF w] by blast
  then show ?thesis using False store_ok [of g w "[ucast c]"] by (simp add: bputc_def bputc_slow_def)
qed

lemma bputsn_ok: "winv f w \<Longrightarrow> \<exists>f'. bputsn ops f b = ok () f' \<and> winv f' (w @ b @ [10])"
  using bwrite_ok [of f w b] bputc_ok [of _ "w @ b" 10] by (fastforce simp: bputsn_def bputs_def)

lemma write_prepare_ok:
  assumes "winv f w"
  shows "\<exists>f'. bdirect_write_prepare ops f = ok (bufend f' - bptr f') f' \<and> winv f' w \<and> bptr f' < bufend f'"
proof (cases "bptr f = bufend f")
  case True
  then show ?thesis using spouts [OF assms] availw by (auto simp: bdirect_write_prepare_def)
next
  case False
  then show ?thesis using winv_ptrs [OF assms] availw [OF assms] assms by (auto simp: bdirect_write_prepare_def)
qed

lemma bwrite_all: 
  "winv f w \<Longrightarrow> \<exists>f'. foldl (\<lambda>m b. fb_bind m (\<lambda>_ f. bwrite ops f b)) (ok () f) bs = ok () f' \<and> winv f' (w @ concat bs)"
proof (induction bs arbitrary: f w)
  case (Cons b bs)
  obtain g where "bwrite ops f b = ok () g" "winv g (w @ b)" using bwrite_ok [OF Cons.prems] by blast
  then show ?case using Cons.IH [of g "w @ b"] by simp
qed simp

end

section \<open>Copying\<close>

locale fb_copier = r: fb_reader fops rinv + w: fb_writer tops winv
  for fops :: "'a fastbuf_scheme fb_ops" and rinv and tops :: "'b fastbuf_scheme fb_ops" and winv
begin

text \<open>\<open>n\<close> bytes are copied: as many as asked for, or all the rest for \<open>UINT_MAX\<close>.\<close>

lemma bbcopy_slow_ok:
  "rinv f c \<Longrightarrow> winv t w \<Longrightarrow>
   l = n \<and> l < UINT_MAX \<and> at f + n \<le> length c \<or> l = UINT_MAX \<and> n = length c - at f \<Longrightarrow>
   \<exists>f' t'. bbcopy_slow fops tops f t l = ok () (f', t') \<and> rinv f' c \<and> btell f' = btell f + int n \<and>
     flags f' = flags f \<and> winv t' (w @ take n (drop (at f) c))"
proof (induction n arbitrary: f t w l rule: less_induct)
  case (less n)
  obtain g where g: "bdirect_read_prepare fops f = ok (bstop g - bptr g) g" "rinv g c" "btell g = btell f" "flags g = flags f"
    "at f < length c \<longleftrightarrow> bptr g < bstop g" using r.prepare_ok [OF less.prems(1)] by blast
  show ?case
  proof (cases "n = 0")
    case True
    then consider "l = 0" | "l = UINT_MAX" "\<not> bptr g < bstop g" using less.prems(3) g(5) by auto
    then show ?thesis
      using True g less.prems(1,2) by cases (subst bbcopy_slow.simps, auto simp: UINT_MAX_def)+
  next
    case False
    then have lt: "bptr g < bstop g" and l: "l \<noteq> 0" "n \<le> l \<or> l = UINT_MAX"
      using less.prems(3) g(5) by (auto simp: UINT_MAX_def)
    obtain u where u: "bdirect_write_prepare tops t = ok (bufend u - bptr u) u" "winv u w" "bptr u < bufend u"
      using w.write_prepare_ok [OF less.prems(2)] by blast
    define k where "k = min (min l (bstop g - bptr g)) (bufend u - bptr u)"
    have "bstop g - bptr g < 2 ^ 32" using r.inv_reading [OF g(2)] by (auto simp: reading_def)
    then have k: "0 < k" "k \<le> bstop g - bptr g" "k \<le> bufend u - bptr u" "k \<le> l" using lt u(3) l by (auto simp: k_def)
    have len: "at f + k \<le> length c" using reading_length [OF r.inv_reading [OF g(2)] lt] k(2) g(3) by simp
    then have kn: "k \<le> n" using less.prems(3) k(4) by auto
    let ?h = "g\<lparr>bptr := bptr g + k\<rparr>" and ?xs = "take k (drop (at f) c)"
    obtain v where v: "fb_store ?xs u = ok () v" "winv v (w @ ?xs)"
      using w.store_ok [OF u(2), of ?xs] k(3) by (auto simp: min.coboundedI2)
    have step: "bbcopy_slow fops tops f t l = bbcopy_slow fops tops ?h v (if l \<noteq> UINT_MAX then l - k else l)"
      using l lt g(1,3) u(1) v(1) reading_load [OF r.inv_reading [OF g(2)] k(2)]
      by (subst bbcopy_slow.simps) (simp add: Let_def flip: k_def)
    have h: "rinv ?h c" "btell ?h = btell f + int k" "flags ?h = flags f"
      using r.inv_adv [OF g(2), of k] k(2) lt g(3,4) btell_adv [of g k] by simp_all
    have at: "at ?h = at f + k" using h(2) r.inv_reading [OF less.prems(1)] by (simp add: reading_def nat_add_distrib)
    have m: "k + (n - k) = n" using kn by simp
    define l' where "l' = (if l \<noteq> UINT_MAX then l - k else l)"
    have cond: "l' = n - k \<and> l' < UINT_MAX \<and> at ?h + (n - k) \<le> length c \<or> l' = UINT_MAX \<and> n - k = length c - at ?h"
      unfolding at l'_def using less.prems(3) kn m by (elim disjE conjE) auto
    have "n - k < n" using k(1) False by simp
    from less.IH [OF this h(1) v(2) cond]
    obtain f' t' where f': "bbcopy_slow fops tops ?h v l' = ok () (f', t')" "rinv f' c"
        "btell f' = btell ?h + int (n - k)" "flags f' = flags f" "winv t' ((w @ ?xs) @ take (n - k) (drop (at ?h) c))"
      unfolding h(3) by blast
    have "?xs @ take (n - k) (drop (at ?h) c) = take n (drop (at f) c)"
      unfolding at using take_add [of k "n - k" "drop (at f) c"] m by (simp add: add.commute)
    moreover have "btell f' = btell f + int n" using f'(3) h(2) m by linarith
    ultimately show ?thesis using step [folded l'_def] f' by (intro exI [of _ f'] exI [of _ t']) simp
  qed
qed

lemma bbcopy_ok:
  assumes "rinv f c" and "winv t w"
    and "l = n \<and> l < UINT_MAX \<and> at f + n \<le> length c \<or> l = UINT_MAX \<and> n = length c - at f \<and> bavailr f < UINT_MAX"
  shows "\<exists>f' t'. bbcopy fops tops f t l = ok () (f', t') \<and> rinv f' c \<and> btell f' = btell f + int n \<and>
     flags f' = flags f \<and> winv t' (w @ take n (drop (at f) c))"
proof (cases "bavailr f \<ge> l \<and> bavailw t \<ge> l")
  case True
  then have l: "l = n" using assms(3) by auto
  have a: "fb_load l f = ok (take l (drop (at f) c)) (f\<lparr>bptr := bptr f + l\<rparr>)" "rinv (f\<lparr>bptr := bptr f + l\<rparr>) c"
    using True r.avail_ok [OF assms(1), of l] by auto
  obtain u where "fb_store (take l (drop (at f) c)) t = ok () u" "winv u (w @ take l (drop (at f) c))"
    using True w.store_ok [OF assms(2), of "take l (drop (at f) c)"] w.availw [OF assms(2)] by (auto simp: min.coboundedI2)
  then show ?thesis using True a l btell_adv [of f l] by (simp add: bbcopy_def)
next
  case False
  have "l = n \<and> l < UINT_MAX \<and> at f + n \<le> length c \<or> l = UINT_MAX \<and> n = length c - at f" using assms(3) by blast
  from bbcopy_slow_ok [OF assms(1,2) this] show ?thesis unfolding bbcopy_def if_not_P [OF False] .
qed

end

end
