(* ===== verification/Fastbuf_Run.thy ===== *)
theory Fastbuf_Run
  imports Fastbuf_Spec
begin

text \<open>
  Sequences of read operations on a stream, and the abstract stream they implement: the bytes
  of the stream and a position in them. Every back end that keeps the contract \<open>fb_seeker\<close>
  refines the abstract stream, whatever its buffer does.
\<close>

section \<open>Commands of a client\<close>

datatype rcmd = Getc | Peekc | Eof | Read nat | Readb nat | Skip nat | Gets nat | Gets_nodie nat |
  Seek int whence | Rewind | Filesize

datatype rval = Num int | Flag bool | Bytes "byte list" | Line "byte list option" | Count int "byte list" | Done

definition fb_map :: "('r \<Rightarrow> 't) \<Rightarrow> ('r, 's) fb_res \<Rightarrow> ('t, 's) fb_res" where
  "fb_map g m = fb_bind m (\<lambda>x s. ok (g x) s)"

fun exec :: "'a fastbuf_scheme fb_ops \<Rightarrow> rcmd \<Rightarrow> 'a fastbuf_scheme \<Rightarrow> (rval, 'a fastbuf_scheme) fb_res" where
  "exec ops Getc f = fb_map Num (bgetc ops f)"
| "exec ops Peekc f = fb_map Num (bpeekc ops f)"
| "exec ops Eof f = fb_map Flag (beof ops f)"
| "exec ops (Read n) f = fb_map Bytes (bread ops f n)"
| "exec ops (Readb n) f = fb_map Bytes (breadb ops f n)"
| "exec ops (Skip n) f = fb_map Flag (bskip ops f n)"
| "exec ops (Gets l) f = fb_map Line (bgets ops f l)"
| "exec ops (Gets_nodie l) f = fb_map (\<lambda>(k, xs). Count k xs) (bgets_nodie ops f l)"
| "exec ops (Seek p w) f = fb_map (\<lambda>_. Done) (bseek ops f p w)"
| "exec ops Rewind f = fb_map (\<lambda>_. Done) (brewind ops f)"
| "exec ops Filesize f = fb_map Num (bfilesize ops f)"

fun run :: "'a fastbuf_scheme fb_ops \<Rightarrow> rcmd list \<Rightarrow> 'a fastbuf_scheme \<Rightarrow> (rval list, 'a fastbuf_scheme) fb_res" where
  "run ops [] f = ok [] f"
| "run ops (x # xs) f = fb_bind (exec ops x f) (\<lambda>v f. fb_map (\<lambda>vs. v # vs) (run ops xs f))"

section \<open>The abstract stream\<close>

text \<open>
  \<open>None\<close> is a call outside the contract: a position outside the stream, a line longer than
  the caller's buffer, a block that the end of the stream cuts.
\<close>

definition seek_target :: "byte list \<Rightarrow> nat \<Rightarrow> int \<Rightarrow> whence \<Rightarrow> int option" where
  "seek_target c p q w =
     (case w of SEEK_SET \<Rightarrow> Some q | SEEK_CUR \<Rightarrow> Some (int p + q)
      | SEEK_END \<Rightarrow> if q \<le> 0 then Some (int (length c) + q) else None | SEEK_OTHER \<Rightarrow> None)"

fun spec_step :: "byte list \<Rightarrow> rcmd \<Rightarrow> nat \<Rightarrow> (rval \<times> nat) option" where
  "spec_step c Getc p = Some (if p < length c then (Num (uint (c ! p)), p + 1) else (Num (- 1), p))"
| "spec_step c Peekc p = Some (Num (if p < length c then uint (c ! p) else - 1), p)"
| "spec_step c Eof p = Some (Flag (length c \<le> p), p)"
| "spec_step c (Read n) p = Some (Bytes (take n (drop p c)), min (p + n) (length c))"
| "spec_step c (Readb n) p =
     (if p + n \<le> length c \<or> p = length c then Some (Bytes (take n (drop p c)), min (p + n) (length c)) else None)"
| "spec_step c (Skip n) p = Some (Flag (p + n \<le> length c), min (p + n) (length c))"
| "spec_step c (Gets l) p =
     (if l = 0 then None else if p = length c then Some (Line None, p)
      else let line = line_of 10 (drop p c) in
        if length line < l then Some (Line (Some line), min (p + length line + 1) (length c)) else None)"
| "spec_step c (Gets_nodie l) p =
     (if l = 0 then None else if p = length c then Some (Count 0 [], p)
      else let line = line_of 10 (drop p c) in
        Some (if length line < l then Count (to_int (int (length line) + 1)) (line @ [0]) else Count (- 1) [],
              p + line_end 10 l (drop p c)))"
| "spec_step c (Seek q w) p =
     (case seek_target c p q w of
        Some t \<Rightarrow> if 0 \<le> t \<and> t \<le> int (length c) then Some (Done, nat t) else None
      | None \<Rightarrow> None)"
| "spec_step c Rewind p = Some (Done, 0)"
| "spec_step c Filesize p = Some (Num (int (length c)), p)"

fun spec_run :: "byte list \<Rightarrow> rcmd list \<Rightarrow> nat \<Rightarrow> (rval list \<times> nat) option" where
  "spec_run c [] p = Some ([], p)"
| "spec_run c (x # xs) p =
     Option.bind (spec_step c x p) (\<lambda>(v, p). map_option (\<lambda>(vs, p). (v # vs, p)) (spec_run c xs p))"

lemma fb_map_ok [simp]: "fb_map g (ok x s) = ok (g x) s"
  by (simp add: fb_map_def)

lemma line_end_le: "line_end v l xs \<le> length xs"
  using length_takeWhile_le [of "\<lambda>x. x \<noteq> v" xs] by (auto simp: line_end_def line_of_def)

lemma spec_step_le: "spec_step c x p = Some (v, q) \<Longrightarrow> p \<le> length c \<Longrightarrow> q \<le> length c"
proof (cases x)
  case (Gets_nodie l)
  assume "spec_step c x p = Some (v, q)" "p \<le> length c"
  then show ?thesis using Gets_nodie line_end_le [of 10 l "drop p c"] by (auto simp: Let_def split: if_splits)
qed (auto simp: Let_def split: if_splits option.splits)

section \<open>The refinement\<close>

fun seeking :: "rcmd \<Rightarrow> bool" where
  "seeking (Seek p w) = True"
| "seeking Rewind = True"
| "seeking Filesize = True"
| "seeking _ = False"

text \<open>One command after another.\<close>

lemma run_steps:
  assumes step: "\<And>f x v q. I f c \<Longrightarrow> at f \<le> length c \<Longrightarrow> flags f AND FB_DIE_ON_EOF = 0 \<Longrightarrow> P x \<Longrightarrow>
      spec_step c x (at f) = Some (v, q) \<Longrightarrow>
      \<exists>f'. exec ops x f = ok v f' \<and> I f' c \<and> btell f' = int q \<and> flags f' = flags f"
    and pos: "\<And>f. I f c \<Longrightarrow> 0 \<le> btell f"
  shows "I f c \<Longrightarrow> at f \<le> length c \<Longrightarrow> flags f AND FB_DIE_ON_EOF = 0 \<Longrightarrow> list_all P xs \<Longrightarrow>
    spec_run c xs (at f) = Some (vs, q) \<Longrightarrow>
    \<exists>f'. run ops xs f = ok vs f' \<and> I f' c \<and> btell f' = int q \<and> flags f' = flags f"
proof (induction xs arbitrary: f vs)
  case Nil
  then show ?case using pos [OF Nil.prems(1)] by auto
next
  case (Cons x xs)
  obtain v p us where s: "spec_step c x (at f) = Some (v, p)" "spec_run c xs p = Some (us, q)" "vs = v # us"
    using Cons.prems(5) by (auto split: bind_splits)
  obtain g where g: "exec ops x f = ok v g" "I g c" "btell g = int p" "flags g = flags f"
    using step [OF Cons.prems(1-3) _ s(1)] Cons.prems(4) by auto
  have "at g \<le> length c" using g(3) spec_step_le [OF s(1) Cons.prems(2)] by simp
  then obtain f' where "run ops xs g = ok us f'" "I f' c" "btell f' = int q" "flags f' = flags g"
    using Cons.IH [of g us] g Cons.prems(3,4) s(2) by auto
  then show ?case using g s(3) by auto
qed

context fb_reader
begin

lemma exec_read_ok:
  assumes "inv f c" and "at f \<le> length c" and "flags f AND FB_DIE_ON_EOF = 0" and "\<not> seeking x"
    and "spec_step c x (at f) = Some (v, q)"
  shows "\<exists>f'. exec ops x f = ok v f' \<and> inv f' c \<and> btell f' = int q \<and> flags f' = flags f"
proof -
  have t: "btell f = int (at f)" using inv_reading [OF assms(1)] by (simp add: reading_def)
  have m: "int (at f) + int (min n (length c - at f)) = int (min (at f + n) (length c))" for n
    using assms(2) by linarith
  show ?thesis
  proof (cases x)
    case Getc
    then show ?thesis
      using assms t bgetc_ok [OF assms(1)] bgetc_eof [OF assms(1)] by (cases "at f < length c") auto
  next
    case Peekc
    then show ?thesis
      using assms t bpeekc_ok [OF assms(1)] bpeekc_eof [OF assms(1)] by (cases "at f < length c") auto
  next
    case Eof
    then show ?thesis using assms t beof_ok [OF assms(1)] by auto
  next
    case (Read n)
    then show ?thesis using assms bread_ok [OF assms(1), of n] m [of n] t by auto
  next
    case (Readb n)
    then show ?thesis using assms breadb_ok [OF assms(1), of n] m [of n] t by (auto split: if_splits)
  next
    case (Skip n)
    then show ?thesis using assms bskip_ok [OF assms(1), of n] m [of n] t by auto
  next
    case (Gets l)
    show ?thesis
    proof (cases "at f = length c")
      case True
      then show ?thesis using Gets assms bgets_eof [OF assms(1), of l] t by (auto split: if_splits)
    next
      case False
      then have "at f < length c" using assms(2) by simp
      then show ?thesis
        using Gets False assms bgets_line [OF assms(1), of l] t m [of "length (line_of 10 (drop (at f) c)) + 1"]
        by (auto simp: Let_def split: if_splits)
    qed
  next
    case (Gets_nodie l)
    show ?thesis
    proof (cases "at f = length c")
      case True
      then show ?thesis using Gets_nodie assms bgets_eof [OF assms(1), of l] t by (auto split: if_splits)
    next
      case False
      then have "at f < length c" using assms(2) by simp
      then show ?thesis
        using Gets_nodie False assms bgets_nodie_ok [OF assms(1), of l] t by (auto simp: Let_def split: if_splits)
    qed
  qed (use assms(4) in simp_all)
qed

lemma inv_pos: "inv f c \<Longrightarrow> 0 \<le> btell f"
  using inv_reading [of f c] by (simp add: reading_def)

lemma run_read_ok:
  assumes "inv f c" and "at f \<le> length c" and "flags f AND FB_DIE_ON_EOF = 0" and "list_all (\<lambda>x. \<not> seeking x) xs"
    and "spec_run c xs (at f) = Some (vs, q)"
  shows "\<exists>f'. run ops xs f = ok vs f' \<and> inv f' c \<and> btell f' = int q \<and> flags f' = flags f"
  using assms
  by (rule run_steps [where I = inv and P = "\<lambda>x. \<not> seeking x", rotated 2]) (rule exec_read_ok inv_pos, assumption+)+

end

context fb_seeker
begin

lemma exec_ok:
  assumes "inv f c" and "at f \<le> length c" and "flags f AND FB_DIE_ON_EOF = 0" and "spec_step c x (at f) = Some (v, q)"
  shows "\<exists>f'. exec ops x f = ok v f' \<and> inv f' c \<and> btell f' = int q \<and> flags f' = flags f"
proof -
  have t: "btell f = int (at f)" using inv_reading [OF assms(1)] by (simp add: reading_def)
  consider (Seek) p w where "x = Seek p w" | (Rewind) "x = Rewind" | (Filesize) "x = Filesize" | (read) "\<not> seeking x"
    by (cases x) auto
  then show ?thesis
  proof cases
    case (Seek p w)
    then obtain r where r: "seek_target c (at f) p w = Some r" "0 \<le> r" "r \<le> int (length c)" "v = Done" "q = nat r"
      using assms(4) by (auto split: option.splits if_splits)
    then have "w = SEEK_SET \<and> r = p \<or> w = SEEK_CUR \<and> r = btell f + p \<or> w = SEEK_END \<and> p \<le> 0 \<and> r = int (length c) + p"
      using t by (auto simp: seek_target_def split: whence.splits if_splits)
    from bseek_ok [OF assms(1) r(2,3) this] show ?thesis using Seek r by auto
  next
    case Rewind
    then show ?thesis using assms(4) brewind_ok [OF assms(1)] by auto
  next
    case Filesize
    then show ?thesis using assms bfilesize_ok [OF assms(1)] t by auto
  next
    case read
    then show ?thesis using exec_read_ok [OF assms(1-3) _ assms(4)] by blast
  qed
qed

lemma run_ok:
  assumes "inv f c" and "at f \<le> length c" and "flags f AND FB_DIE_ON_EOF = 0" and "spec_run c xs (at f) = Some (vs, q)"
  shows "\<exists>f'. run ops xs f = ok vs f' \<and> inv f' c \<and> btell f' = int q \<and> flags f' = flags f"
proof -
  have "list_all (\<lambda>_. True) xs" by (simp add: list_all_iff)
  from assms(1-3) this assms(4) show ?thesis
    by (rule run_steps [where I = inv and P = "\<lambda>_. True", rotated 2]) (rule exec_ok inv_pos, assumption+)+
qed

end

end
