(* ===== verification/Fastbuf_Buf.thy ===== *)
theory Fastbuf_Buf
  imports Fastbuf_Run
begin

text \<open>
  Model of \<^verbatim>\<open>generic/opt/fb-buffer.c\<close>, streams on a static buffer of the caller: reading and
  seeking refine the abstract stream of its bytes, writing never leaves the buffer.
\<close>

definition fbbuf_refill :: "fastbuf \<Rightarrow> (bool, fastbuf) fb_res" where
  "fbbuf_refill f =
     (let f = f\<lparr>bstop := bufend f\<rparr>; f = f\<lparr>pos := int (bstop f) - int (buffer f)\<rparr>
      in ok (bptr f < bstop f) f)"

definition fbbuf_seek :: "fastbuf \<Rightarrow> int \<Rightarrow> whence \<Rightarrow> (bool, fastbuf) fb_res" where
  "fbbuf_seek f p whence =
     (let len = int (bufend f) - int (buffer f); p = (if whence = SEEK_END then p + len else p) in
      if p < 0 \<or> p > len then bthrow ''seek'' f
      else ok True (f\<lparr>bstop := nat (int (buffer f) + p), bptr := nat (int (buffer f) + p), pos := p\<rparr>))"

definition fbbuf_read_ops :: "fastbuf fb_ops" where
  "fbbuf_read_ops = \<lparr>fb_refill = Some fbbuf_refill, fb_spout = None, fb_seek = Some fbbuf_seek\<rparr>"

definition fbbuf_init_read :: "addr \<Rightarrow> nat \<Rightarrow> heap \<Rightarrow> fastbuf" where
  "fbbuf_init_read buf sz h =
     \<lparr>mem = mem h, live = live h, bptr = buf, bstop = buf + sz, buffer = buf, bufend = buf + sz,
      pos = int sz, flags = 0, res = ADDR_NULL\<rparr>"



definition fbbuf_init_write :: "addr \<Rightarrow> nat \<Rightarrow> heap \<Rightarrow> fastbuf" where
  "fbbuf_init_write buf sz h =
     \<lparr>mem = mem h, live = live h, bptr = buf, bstop = buf, buffer = buf, bufend = buf + sz,
      pos = 0, flags = 0, res = ADDR_NULL\<rparr>"

section \<open>Reading\<close>

definition fbbuf_inv :: "fastbuf \<Rightarrow> byte list \<Rightarrow> bool" where
  "fbbuf_inv f c \<longleftrightarrow> buffer f \<le> bptr f \<and> bptr f \<le> bstop f \<and> bstop f \<le> bufend f \<and>
     bufend f = buffer f + length c \<and> length c < 2 ^ 32 \<and> \<not> dead f \<and> pos f = int (bstop f) - int (buffer f) \<and>
     load_bytes (buffer f) (length c) f = c"

lemma fbbuf_reading:
  assumes "fbbuf_inv f c"
  shows "reading f c"
proof -
  define k where "k = bptr f - buffer f"
  have k: "bptr f = buffer f + k" "btell f = int k" "k + (bstop f - bptr f) \<le> length c"
    using assms by (auto simp: fbbuf_inv_def btell_def k_def)
  have "load_bytes (buffer f) (length c) f = c" using assms by (simp add: fbbuf_inv_def)
  then have "load_bytes (buffer f) (k + (bstop f - bptr f)) f = take (k + (bstop f - bptr f)) c"
    using load_prefix [OF k(3), of "buffer f" f] by simp
  then have "load_bytes (bptr f) (bstop f - bptr f) f = drop k (take (k + (bstop f - bptr f)) c)"
    using load_append [of "buffer f" k "bstop f - bptr f" f] k(1) by (metis append_eq_conv_conj length_load)
  then show ?thesis using assms k by (simp add: reading_def fbbuf_inv_def drop_take)
qed

interpretation buf: fb_seeker fbbuf_read_ops fbbuf_inv
proof
  fix f c n
  assume "fbbuf_inv f c" "bptr f + n \<le> bstop f"
  then show "fbbuf_inv (f\<lparr>bptr := bptr f + n\<rparr>) c" by (auto simp: fbbuf_inv_def dead_def load_bytes_def)
next
  fix f c
  assume "fbbuf_inv f c" "bptr f = bstop f"
  then show "\<exists>refill f'. fb_refill fbbuf_read_ops = Some refill \<and> refill f = ok (at f < length c) f' \<and> fbbuf_inv f' c \<and>
      btell f' = btell f \<and> flags f' = flags f \<and> (at f < length c \<longrightarrow> bptr f' < bstop f')"
    by (auto simp: fbbuf_read_ops_def fbbuf_refill_def fbbuf_inv_def btell_def dead_def load_bytes_def Let_def)
next
  fix f c a
  assume "fbbuf_inv f c" "buffer f \<le> a" "a \<le> bstop f"
  then show "fbbuf_inv (f\<lparr>bptr := a\<rparr>) c" by (auto simp: fbbuf_inv_def dead_def load_bytes_def)
next
  fix f c and p :: int
  assume "fbbuf_inv f c" "0 \<le> p" "p \<le> int (length c)"
  then show "\<exists>seek f'. fb_seek fbbuf_read_ops = Some seek \<and> seek f p SEEK_SET = ok True f' \<and> fbbuf_inv f' c \<and>
      bptr f' = bstop f' \<and> btell f' = p \<and> flags f' = flags f"
    by (auto simp: fbbuf_read_ops_def fbbuf_seek_def fbbuf_inv_def btell_def dead_def load_bytes_def Let_def)
next
  fix f c and p :: int
  assume "fbbuf_inv f c" "p \<le> 0" "0 \<le> int (length c) + p"
  then show "\<exists>seek f'. fb_seek fbbuf_read_ops = Some seek \<and> seek f p SEEK_END = ok True f' \<and> fbbuf_inv f' c \<and>
      bptr f' = bstop f' \<and> btell f' = int (length c) + p \<and> flags f' = flags f"
    by (auto simp: fbbuf_read_ops_def fbbuf_seek_def fbbuf_inv_def btell_def dead_def load_bytes_def Let_def)
qed (use fbbuf_reading in blast)

text \<open>
  C14: A stream on a buffer of less than 4 GiB refines the abstract stream of the bytes of the
  buffer: any sequence of reads of characters, blocks and lines, skips, seeks and size queries
  that is within the contract gives the results of the abstract stream, and ends at its
  position. (What \<^verbatim>\<open>bgets_nodie\<close> returns counts the terminating zero, in the abstract stream too,
  and is cut to an \<^verbatim>\<open>int\<close>.)
\<close>

theorem fbbuf_refines_stream:
  assumes "n < 2 ^ 32" and "spec_run (load_bytes p n h) cmds 0 = Some (vs, q)"
  shows "\<exists>f'. run fbbuf_read_ops cmds (fbbuf_init_read p n h) = ok vs f' \<and> btell f' = int q"
proof -
  let ?f = "fbbuf_init_read p n h"
  have "fbbuf_inv ?f (load_bytes p n h)" "at ?f = 0" "flags ?f = 0"
    using assms(1) by (simp_all add: fbbuf_init_read_def fbbuf_inv_def dead_def btell_def load_bytes_def)
  then show ?thesis using buf.run_ok [of ?f "load_bytes p n h" cmds vs q] assms(2) by auto
qed

theorem fbbuf_refines_stream_witness:
  "\<exists>f'. run fbbuf_read_ops [Gets 8, Getc, Seek 0 SEEK_END, Eof, Seek (- 4) SEEK_CUR, Read 9, Rewind, Skip 1, Peekc]
      (fbbuf_init_read 100 5 \<lparr>mem = (\<lambda>_. 0)(100 := 65, 101 := 66, 102 := 10, 103 := 67, 104 := 68), live = []\<rparr>) =
    ok [Line (Some [65, 66]), Num 67, Done, Flag True, Done, Bytes [66, 10, 67, 68], Done, Flag True, Num 66] f' \<and> btell f' = 1"
proof -
  let ?h = "\<lparr>mem = (\<lambda>_. 0)(100 := 65, 101 := 66, 102 := 10, 103 := 67, 104 := 68), live = []\<rparr> :: heap"
  have c: "load_bytes 100 5 ?h = [65, 66, 10, 67, 68]" by (simp add: load_bytes_def upt_rec)
  have "spec_run (load_bytes 100 5 ?h) [Gets 8, Getc, Seek 0 SEEK_END, Eof, Seek (- 4) SEEK_CUR, Read 9, Rewind, Skip 1, Peekc] 0 =
    Some ([Line (Some [65, 66]), Num 67, Done, Flag True, Done, Bytes [66, 10, 67, 68], Done, Flag True, Num 66], 1)"
    unfolding c by (simp add: line_of_def seek_target_def)
  from fbbuf_refines_stream [OF _ this] show ?thesis by simp
qed

section \<open>Writing\<close>

text \<open>
  A stream that is tied to the resource \<open>r\<close>, so that errors are exceptions, and the stream after
  \<open>xs\<close> has been written to it.
\<close>

definition fbbuf_tied :: "addr \<Rightarrow> addr \<Rightarrow> nat \<Rightarrow> heap \<Rightarrow> fastbuf" where
  "fbbuf_tied r p n h = (fbbuf_init_write p n h)\<lparr>res := r\<rparr>"

definition fbbuf_written :: "addr \<Rightarrow> addr \<Rightarrow> nat \<Rightarrow> heap \<Rightarrow> byte list \<Rightarrow> fastbuf" where
  "fbbuf_written r p n h xs = (store_bytes p xs (fbbuf_tied r p n h))\<lparr>bptr := p + length xs\<rparr>"

lemma fbbuf_written_simps [simp]:
  "bptr (fbbuf_written r p n h xs) = p + length xs" "bstop (fbbuf_written r p n h xs) = p"
  "buffer (fbbuf_written r p n h xs) = p" "bufend (fbbuf_written r p n h xs) = p + n"
  "res (fbbuf_written r p n h xs) = r" "flags (fbbuf_written r p n h xs) = 0" "fbbuf_written r p n h [] = fbbuf_tied r p n h"
  by (simp_all add: fbbuf_written_def fbbuf_tied_def fbbuf_init_write_def)








end
