(* ===== verification/Fastbuf_Mem.thy ===== *)
theory Fastbuf_Mem
  imports Fastbuf_Run
begin

text \<open>
  Model of \<^verbatim>\<open>generic/opt/fb-mem.c\<close>, streams kept in a list of memory blocks: what is written to
  the stream is what its read clones read, closing the last user frees everything. The fields of
  the shared \<^verbatim>\<open>struct memstream\<close> and of its blocks are part of the state of each stream on it;
  the data of a block lie in the heap.
\<close>

section \<open>Data\<close>

record msblock =
  ms_next :: addr
  ms_pos :: int
  ms_size :: nat

record fb_mem = fastbuf +
  fb_self :: addr
  fb_stream :: addr
  fb_block :: addr
  ms_blocksize :: nat
  ms_uc :: nat
  ms_first :: addr
  msb :: "addr \<Rightarrow> msblock"

text \<open>The sizes of the structures, and the place of the data in a block.\<close>

definition sizeof_fb_mem :: nat where
  "sizeof_fb_mem = 128"

definition sizeof_memstream :: nat where
  "sizeof_memstream = 16"

definition sizeof_msblock :: nat where
  "sizeof_msblock = 24"

definition ms_data :: "addr \<Rightarrow> addr" where
  "ms_data b = b + 20"

section \<open>Callbacks\<close>

definition fbmem_enter :: "addr \<Rightarrow> fb_mem \<Rightarrow> (bool, fb_mem) fb_res" where
  "fbmem_enter b f =
     (if ms_size (msb f b) = 0 then ok False f
      else ok True (f\<lparr>buffer := ms_data b, bptr := ms_data b, bufend := ms_data b + ms_size (msb f b),
        bstop := ms_data b + ms_size (msb f b), pos := ms_pos (msb f b) + int (ms_size (msb f b)), fb_block := b\<rparr>))"

definition fbmem_refill :: "fb_mem \<Rightarrow> (bool, fb_mem) fb_res" where
  "fbmem_refill f =
     (let b = fb_block f in
      if b = ADDR_NULL
      then if ms_first f = ADDR_NULL then ok False f else fbmem_enter (ms_first f) f
      else if buffer f = ms_data b \<and> bstop f < ms_data b + ms_size (msb f b)
      then ok True (f\<lparr>bstop := ms_data b + ms_size (msb f b), pos := ms_pos (msb f b) + int (ms_size (msb f b))\<rparr>)
      else if ms_next (msb f b) = ADDR_NULL then ok False f
      else fbmem_enter (ms_next (msb f b)) f)"

definition fbmem_spout :: "placement \<Rightarrow> fb_mem \<Rightarrow> (unit, fb_mem) fb_res" where
  "fbmem_spout A f =
     (let b = fb_block f;
          f = (if b \<noteq> ADDR_NULL then f\<lparr>msb := (msb f)(b := (msb f b)\<lparr>ms_size := uint_diff (bptr f) (ms_data b)\<rparr>)\<rparr> else f) in
      if b \<noteq> ADDR_NULL \<and> ms_size (msb f b) < ms_blocksize f then ok () f
      else let (bb, f) = xmalloc A (sizeof_msblock + ms_blocksize f) f in
        if bb = ADDR_NULL then None
        else let (f, p) =
            (if b \<noteq> ADDR_NULL
             then (f\<lparr>msb := (msb f)(b := (msb f b)\<lparr>ms_next := bb\<rparr>)\<rparr>, ms_pos (msb f b) + int (ms_size (msb f b)))
             else (f\<lparr>ms_first := bb\<rparr>, 0)) in
          ok () (f\<lparr>msb := (msb f)(bb := \<lparr>ms_next = ADDR_NULL, ms_pos = p, ms_size = 0\<rparr>),
            buffer := ms_data bb, bptr := ms_data bb, bstop := ms_data bb, bufend := ms_data bb + ms_blocksize f,
            pos := p, fb_block := bb\<rparr>))"

text \<open>The loops of \<^verbatim>\<open>fbmem_seek\<close>: the size of the stream, and the block of a position.\<close>

partial_function (option) ms_total :: "(addr \<Rightarrow> msblock) \<Rightarrow> addr \<Rightarrow> int \<Rightarrow> int option" where
  "ms_total m b p = (if b = ADDR_NULL then Some p else ms_total m (ms_next (m b)) (p + int (ms_size (m b))))"

partial_function (option) ms_find :: "(addr \<Rightarrow> msblock) \<Rightarrow> addr \<Rightarrow> int \<Rightarrow> addr option" where
  "ms_find m b p =
     (if b = ADDR_NULL then Some ADDR_NULL
      else if p \<le> ms_pos (m b) + int (ms_size (m b)) then Some b else ms_find m (ms_next (m b)) p)"

definition fbmem_seek :: "fb_mem \<Rightarrow> int \<Rightarrow> whence \<Rightarrow> (bool, fb_mem) fb_res" where
  "fbmem_seek f p whence =
     (if \<not> (whence = SEEK_SET \<or> whence = SEEK_END) then None
      else Option.bind (if whence = SEEK_END then ms_total (msb f) (ms_first f) p else Some p) (\<lambda>p.
        Option.bind (ms_find (msb f) (ms_first f) p) (\<lambda>b.
          if b \<noteq> ADDR_NULL
          then ok True (f\<lparr>buffer := ms_data b, bstop := ms_data b, bptr := nat (int (ms_data b) + (p - ms_pos (msb f b))),
            bufend := ms_data b + ms_size (msb f b), pos := ms_pos (msb f b), fb_block := b\<rparr>)
          else if ms_first f = ADDR_NULL \<and> p = 0
          then ok True (f\<lparr>buffer := ADDR_NULL, bptr := ADDR_NULL, bstop := ADDR_NULL, bufend := ADDR_NULL,
            pos := 0, fb_block := ADDR_NULL\<rparr>)
          else bthrow ''seek'' f)))"

partial_function (option) ms_free :: "fb_mem \<Rightarrow> fb_mem option" where
  "ms_free f =
     (if ms_first f = ADDR_NULL then Some f
      else Option.bind (xfree (ms_first f) (f\<lparr>ms_first := ms_next (msb f (ms_first f))\<rparr>)) ms_free)"

definition fbmem_close :: "fb_mem \<Rightarrow> fb_mem option" where
  "fbmem_close f =
     (let f = f\<lparr>ms_uc := ms_uc f - 1\<rparr> in
      Option.bind (if ms_uc f = 0 then Option.bind (ms_free f) (\<lambda>f. xfree (fb_stream f) f) else Some f)
        (\<lambda>f. xfree (fb_self f) f))"

definition fbmem_write_ops :: "placement \<Rightarrow> fb_mem fb_ops" where
  "fbmem_write_ops A = \<lparr>fb_refill = None, fb_spout = Some (fbmem_spout A), fb_seek = None\<rparr>"

definition fbmem_read_ops :: "fb_mem fb_ops" where
  "fbmem_read_ops = \<lparr>fb_refill = Some fbmem_refill, fb_spout = None, fb_seek = Some fbmem_seek\<rparr>"

section \<open>Creating streams\<close>

definition fbmem_create :: "placement \<Rightarrow> nat \<Rightarrow> heap \<Rightarrow> fb_mem option" where
  "fbmem_create A blocksize h =
     Option.bind (xmalloc_zero A sizeof_fb_mem h) (\<lambda>(f, h).
     Option.bind (xmalloc_zero A sizeof_memstream h) (\<lambda>(s, h).
       Some \<lparr>mem = mem h, live = live h, bptr = ADDR_NULL, bstop = ADDR_NULL, buffer = ADDR_NULL, bufend = ADDR_NULL,
         pos = 0, flags = 0, res = ADDR_NULL, fb_self = f, fb_stream = s, fb_block = ADDR_NULL,
         ms_blocksize = blocksize, ms_uc = 1, ms_first = ADDR_NULL, msb = \<lambda>_. \<lparr>ms_next = 0, ms_pos = 0, ms_size = 0\<rparr>\<rparr>))"

text \<open>The result is the new stream; the state is that of the stream for writing.\<close>

definition fbmem_clone_read :: "placement \<Rightarrow> fb_mem \<Rightarrow> (fb_mem, fb_mem) fb_res" where
  "fbmem_clone_read A b =
     Option.bind (xmalloc_zero A sizeof_fb_mem b) (\<lambda>(f, b).
     fb_bind (bflush (fbmem_write_ops A) b) (\<lambda>_ b.
       let b = b\<lparr>ms_uc := ms_uc b + 1\<rparr> in
       ok (b\<lparr>bptr := ADDR_NULL, bstop := ADDR_NULL, buffer := ADDR_NULL, bufend := ADDR_NULL, pos := 0, flags := 0,
             res := ADDR_NULL, fb_self := f, fb_block := ADDR_NULL\<rparr>) b))"

end
