(* ===== verification/Fastbuf_Mem_Inv.thy ===== *)
theory Fastbuf_Mem_Inv
  imports Fastbuf_Mem
begin

text \<open>
  The invariants of the in-memory streams: the list of blocks, what it holds, the state of the
  stream for writing and of its read clones.
\<close>

section \<open>Lists of blocks\<close>

text \<open>A list of blocks from \<open>p\<close> to \<open>q\<close>, at the positions from \<open>i\<close> to \<open>j\<close> of the stream.\<close>

fun ms_seg :: "(addr \<Rightarrow> msblock) \<Rightarrow> addr \<Rightarrow> int \<Rightarrow> addr list \<Rightarrow> addr \<Rightarrow> int \<Rightarrow> bool" where
  "ms_seg m p i [] q j \<longleftrightarrow> p = q \<and> i = j"
| "ms_seg m p i (b # bs) q j \<longleftrightarrow>
     p = b \<and> b \<noteq> ADDR_NULL \<and> ms_pos (m b) = i \<and> ms_seg m (ms_next (m b)) (i + int (ms_size (m b))) bs q j"

lemma ms_seg_append: "ms_seg m p i (as @ bs) q j \<longleftrightarrow> (\<exists>r k. ms_seg m p i as r k \<and> ms_seg m r k bs q j)"
  by (induction as arbitrary: p i) auto

lemma ms_seg_cong: "(\<And>a. a \<in> set as \<Longrightarrow> m a = m' a) \<Longrightarrow> ms_seg m p i as q j = ms_seg m' p i as q j"
  by (induction as arbitrary: p i) auto

lemma ms_seg_upd [simp]: "b \<notin> set as \<Longrightarrow> ms_seg (m(b := x)) p i as q j = ms_seg m p i as q j"
  by (rule ms_seg_cong) auto

definition ms_content :: "fb_mem \<Rightarrow> addr list \<Rightarrow> byte list" where
  "ms_content f bs = concat (map (\<lambda>b. load_bytes (ms_data b) (ms_size (msb f b)) f) bs)"

lemma ms_content_simps [simp]:
  "ms_content f [] = []" "ms_content f (b # bs) = load_bytes (ms_data b) (ms_size (msb f b)) f @ ms_content f bs"
  "ms_content f (as @ bs) = ms_content f as @ ms_content f bs"
  by (simp_all add: ms_content_def)

lemma ms_seg_pos: "ms_seg (msb f) p i bs q j \<Longrightarrow> j = i + int (length (ms_content f bs))"
proof (induction bs arbitrary: p i)
  case (Cons b bs)
  then show ?case using Cons.IH [of "ms_next (msb f b)" "i + int (ms_size (msb f b))"] by simp
qed simp

lemma ms_content_cong:
  "(\<And>b. b \<in> set bs \<Longrightarrow> msb g b = msb f b) \<Longrightarrow>
   (\<And>b. b \<in> set bs \<Longrightarrow> load_bytes (ms_data b) (ms_size (msb f b)) g = load_bytes (ms_data b) (ms_size (msb f b)) f) \<Longrightarrow>
   ms_content g bs = ms_content f bs"
  by (induction bs) simp_all

section \<open>Memory\<close>

text \<open>\<open>L\<close> are the blocks of the heap that do not belong to the stream.\<close>

definition ms_owned :: "fb_mem \<Rightarrow> addr list \<Rightarrow> (addr \<times> nat) set" where
  "ms_owned f bs = {(fb_self f, sizeof_fb_mem), (fb_stream f, sizeof_memstream)} \<union>
     (\<lambda>b. (b, sizeof_msblock + ms_blocksize f)) ` set bs"

definition ms_ok :: "(addr \<times> nat) set \<Rightarrow> fb_mem \<Rightarrow> addr list \<Rightarrow> bool" where
  "ms_ok L f bs \<longleftrightarrow> distinct (fb_self f # fb_stream f # bs) \<and> live_ok (live f) \<and> set (live f) = L \<union> ms_owned f bs \<and>
     fst ` L \<inter> set (fb_self f # fb_stream f # bs) = {} \<and> 0 < ms_blocksize f \<and> ms_blocksize f < 2 ^ 32 \<and> \<not> dead f"

lemma ms_ok_cong:
  "ms_ok L f bs \<Longrightarrow> live g = live f \<Longrightarrow> fb_self g = fb_self f \<Longrightarrow> fb_stream g = fb_stream f \<Longrightarrow>
   ms_blocksize g = ms_blocksize f \<Longrightarrow> dead g = dead f \<Longrightarrow> ms_ok L g bs"
  by (simp add: ms_ok_def ms_owned_def)

text \<open>The data of two blocks do not overlap.\<close>

lemma ms_ok_disjoint:
  assumes "ms_ok L f bs" and "a \<in> set bs" and "b \<in> set bs" and "a \<noteq> b"
    and "m \<le> ms_blocksize f" and "k + n \<le> ms_blocksize f"
  shows "{ms_data a..<ms_data a + m} \<inter> {ms_data b + k..<ms_data b + k + n} = {}"
proof -
  let ?s = "sizeof_msblock + ms_blocksize f"
  have "(a, ?s) \<in> set (live f)" "(b, ?s) \<in> set (live f)" "live_ok (live f)" "(a, ?s) \<noteq> (b, ?s)"
    using assms by (auto simp: ms_ok_def ms_owned_def)
  then have "block (a, ?s) \<inter> block (b, ?s) = {}" unfolding live_ok_def by blast
  moreover have "{ms_data a..<ms_data a + m} \<subseteq> block (a, ?s)" "{ms_data b + k..<ms_data b + k + n} \<subseteq> block (b, ?s)"
    using assms(5,6) by (auto simp: block_def ms_data_def sizeof_msblock_def)
  ultimately show ?thesis by blast
qed

lemma ms_content_store:
  assumes "ms_ok L f bs" and "set as \<subseteq> set bs" and "b \<in> set bs" and "b \<notin> set as"
    and "\<forall>a \<in> set as. ms_size (msb f a) \<le> ms_blocksize f" and "k + length xs \<le> ms_blocksize f" and "p = ms_data b + k"
  shows "ms_content (store_bytes p xs f) as = ms_content f as"
proof (rule ms_content_cong)
  fix a
  assume a: "a \<in> set as"
  show "msb (store_bytes p xs f) a = msb f a" by (simp add: store_bytes_def)
  show "load_bytes (ms_data a) (ms_size (msb f a)) (store_bytes p xs f) = load_bytes (ms_data a) (ms_size (msb f a)) f"
    unfolding assms(7) using ms_ok_disjoint [OF assms(1) _ assms(3)] a assms by (intro load_store_disjoint) blast
qed

section \<open>The stream for writing\<close>

definition fbmem_empty :: "fb_mem \<Rightarrow> bool" where
  "fbmem_empty f \<longleftrightarrow> ms_first f = ADDR_NULL \<and> fb_block f = ADDR_NULL \<and> buffer f = ADDR_NULL \<and> bstop f = ADDR_NULL \<and>
     bptr f = ADDR_NULL \<and> bufend f = ADDR_NULL \<and> pos f = 0"

definition fbmem_last :: "fb_mem \<Rightarrow> addr list \<Rightarrow> addr \<Rightarrow> byte list \<Rightarrow> bool" where
  "fbmem_last f as b w \<longleftrightarrow> ms_seg (msb f) (ms_first f) 0 as b (pos f) \<and> b \<noteq> ADDR_NULL \<and> ms_next (msb f b) = ADDR_NULL \<and>
     ms_pos (msb f b) = pos f \<and> (\<forall>a \<in> set as. ms_size (msb f a) = ms_blocksize f) \<and> fb_block f = b \<and>
     buffer f = ms_data b \<and> bstop f = ms_data b \<and> ms_data b \<le> bptr f \<and> bptr f \<le> bufend f \<and>
     bufend f = ms_data b + ms_blocksize f \<and> ms_size (msb f b) \<le> bptr f - ms_data b \<and>
     w = ms_content f as @ load_bytes (ms_data b) (bptr f - ms_data b) f"

definition fbmem_winv :: "(addr \<times> nat) set \<Rightarrow> fb_mem \<Rightarrow> byte list \<Rightarrow> bool" where
  "fbmem_winv L f w \<longleftrightarrow> ms_ok L f [] \<and> fbmem_empty f \<and> w = [] \<or>
     (\<exists>as b. ms_ok L f (as @ [b]) \<and> fbmem_last f as b w)"

text \<open>Nothing is waiting in the buffer: the blocks hold everything.\<close>

definition fbmem_flushed :: "(addr \<times> nat) set \<Rightarrow> fb_mem \<Rightarrow> byte list \<Rightarrow> bool" where
  "fbmem_flushed L f w \<longleftrightarrow> ms_ok L f [] \<and> fbmem_empty f \<and> w = [] \<or>
     (\<exists>as b. ms_ok L f (as @ [b]) \<and> fbmem_last f as b w \<and> ms_size (msb f b) = bptr f - ms_data b)"

lemma fbmem_flushed_winv: "fbmem_flushed L f w \<Longrightarrow> fbmem_winv L f w"
  by (auto simp: fbmem_flushed_def fbmem_winv_def)

lemma fbmem_winv_ptrs:
  "fbmem_winv L f w \<Longrightarrow> buffer f \<le> bstop f \<and> bstop f \<le> bptr f \<and> bptr f \<le> bufend f \<and> bufend f - buffer f < 2 ^ 32 \<and> \<not> dead f"
  by (auto simp: fbmem_winv_def fbmem_empty_def fbmem_last_def ms_ok_def)

lemma fbmem_regs_store [simp]:
  "msb (store_bytes p xs f) = msb f" "ms_first (store_bytes p xs f) = ms_first f" "fb_block (store_bytes p xs f) = fb_block f"
  "ms_blocksize (store_bytes p xs f) = ms_blocksize f" "fb_self (store_bytes p xs f) = fb_self f"
  "fb_stream (store_bytes p xs f) = fb_stream f"
  by (simp_all add: store_bytes_def)

lemma ms_content_regs [simp]: "ms_content (f\<lparr>bptr := a\<rparr>) bs = ms_content f bs"
  by (rule ms_content_cong) simp_all

lemma fbmem_stores:
  assumes "fbmem_winv L f w" and "bptr f + length xs \<le> bufend f"
  shows "fbmem_winv L ((store_bytes (bptr f) xs f)\<lparr>bptr := bptr f + length xs\<rparr>) (w @ xs)"
proof (cases "xs = []")
  case True
  then show ?thesis using assms(1) by simp
next
  case False
  then obtain as b where l: "ms_ok L f (as @ [b])" "fbmem_last f as b w"
    using assms by (auto simp: fbmem_winv_def fbmem_empty_def ADDR_NULL_def)
  let ?g = "(store_bytes (bptr f) xs f)\<lparr>bptr := bptr f + length xs\<rparr>"
  define k where "k = bptr f - ms_data b"
  have k: "bptr f = ms_data b + k" "k + length xs \<le> ms_blocksize f" "ms_size (msb f b) \<le> k"
    "bptr f + length xs - ms_data b = k + length xs"
    using l(2) assms(2) by (auto simp: fbmem_last_def k_def)
  have "b \<notin> set as" using l(1) by (simp add: ms_ok_def)
  then have "ms_content (store_bytes (bptr f) xs f) as = ms_content f as"
    using l k by (intro ms_content_store [OF l(1), where b = b and k = k]) (auto simp: fbmem_last_def)
  moreover have "load_bytes (ms_data b) k (store_bytes (bptr f) xs f) = load_bytes (ms_data b) k f"
    using k(1) by (intro load_store_disjoint) auto
  moreover have "load_bytes (ms_data b + k) (length xs) (store_bytes (bptr f) xs f) = xs" using k(1) by simp
  ultimately have "fbmem_last ?g as b (w @ xs)"
    using l(2) k assms(2) load_append [of "ms_data b" k "length xs" "store_bytes (bptr f) xs f"]
    by (auto simp: fbmem_last_def k_def [symmetric])
  moreover have "ms_ok L ?g (as @ [b])" by (rule ms_ok_cong [OF l(1)]) simp_all
  ultimately show ?thesis unfolding fbmem_winv_def by blast
qed

text \<open>The new block of \<^verbatim>\<open>fbmem_spout\<close>.\<close>

lemma ms_ok_new:
  assumes "ms_ok L f bs" and "allocator_ok A" and "bb = A (live f) (sizeof_msblock + ms_blocksize f)"
    and "live g = (bb, sizeof_msblock + ms_blocksize f) # live f" and "fb_self g = fb_self f" and "fb_stream g = fb_stream f"
    and "ms_blocksize g = ms_blocksize f" and "dead g = dead f"
  shows "ms_ok L g (bs @ [bb])" and "bb \<noteq> ADDR_NULL" and "bb \<notin> set bs"
proof -
  have fresh: "bb \<notin> fst ` set (live f)" "bb \<noteq> ADDR_NULL"
    using allocator_okD(1,4) [OF assms(2), where L = "live f"] unfolding assms(3) by fastforce+
  moreover have "live_ok (live g)" unfolding assms(3,4) using assms(1,2) by (simp add: live_ok_Cons ms_ok_def)
  moreover have "fst ` set (live f) = fst ` L \<union> set (fb_self f # fb_stream f # bs)"
    using assms(1) by (auto simp: ms_ok_def ms_owned_def image_Un image_image)
  ultimately show "ms_ok L g (bs @ [bb])" "bb \<noteq> ADDR_NULL" "bb \<notin> set bs"
    using assms(1) unfolding ms_ok_def ms_owned_def assms(4-8) by auto
qed

lemma fbmem_spouts:
  assumes "allocator_ok A" and "fbmem_winv L f w"
  shows "\<exists>f'. fbmem_spout A f = ok () f' \<and> fbmem_flushed L f' w \<and> (bptr f = bufend f \<longrightarrow> bptr f' < bufend f')"
  using assms(2) unfolding fbmem_winv_def
proof (elim disjE exE conjE)
  let ?bb = "A (live f) (sizeof_msblock + ms_blocksize f)"
  define g where "g = f\<lparr>live := (?bb, sizeof_msblock + ms_blocksize f) # live f, ms_first := ?bb,
    msb := (msb f)(?bb := \<lparr>ms_next = ADDR_NULL, ms_pos = 0, ms_size = 0\<rparr>),
    buffer := ms_data ?bb, bptr := ms_data ?bb, bstop := ms_data ?bb, bufend := ms_data ?bb + ms_blocksize f, pos := 0, fb_block := ?bb\<rparr>"
  assume e: "ms_ok L f []" "fbmem_empty f" "w = []"
  have n: "ms_ok L g [?bb]" "?bb \<noteq> ADDR_NULL"
    using ms_ok_new [OF e(1) assms(1) refl, of g] by (simp_all add: g_def dead_def)
  then have "fbmem_spout A f = ok () g"
    using e(2) by (simp add: fbmem_spout_def fbmem_empty_def xmalloc_def malloc_def g_def Let_def)
  moreover have "fbmem_last g [] ?bb w" using n(2) e(3) by (simp add: fbmem_last_def g_def load_bytes_def)
  moreover have "bptr g < bufend g" "ms_size (msb g ?bb) = bptr g - ms_data ?bb" using e(1) by (simp_all add: g_def ms_ok_def)
  ultimately show ?thesis using n(1) by (auto simp: fbmem_flushed_def intro!: exI [of _ "[]"])
next
  fix as b
  assume l: "ms_ok L f (as @ [b])" "fbmem_last f as b w"
  define k where "k = bptr f - ms_data b"
  have k: "uint_diff (bptr f) (ms_data b) = k" "k \<le> ms_blocksize f" "k < ms_blocksize f \<longleftrightarrow> bptr f \<noteq> bufend f" "b \<notin> set as"
    using l by (auto simp: fbmem_last_def ms_ok_def k_def intro!: uint_diff_small)
  define g where "g = f\<lparr>msb := (msb f)(b := (msb f b)\<lparr>ms_size := k\<rparr>)\<rparr>"
  have g: "ms_ok L g (as @ [b])" by (rule ms_ok_cong [OF l(1)]) (simp_all add: g_def dead_def)
  have seg: "ms_seg (msb g) (ms_first g) 0 as b (pos g)"
    using l(2) k(4) by (simp add: fbmem_last_def g_def)
  have c: "ms_content g as = ms_content f as"
    using k(4) by (intro ms_content_cong) (auto simp: g_def load_bytes_def)
  show ?thesis
  proof (cases "k < ms_blocksize f")
    case True
    have b: "b \<noteq> ADDR_NULL" "fb_block f = b" using l(2) by (simp_all add: fbmem_last_def)
    have "fbmem_spout A f = ok () g" using b k(1) True by (simp add: fbmem_spout_def g_def Let_def)
    moreover have "fbmem_last g as b w"
      using l(2) k seg c unfolding fbmem_last_def by (auto simp: g_def load_bytes_def k_def)
    moreover have "ms_size (msb g b) = bptr g - ms_data b" by (simp add: g_def k_def)
    ultimately show ?thesis using g True k(3) by (auto simp: fbmem_flushed_def)
  next
    case False
    let ?bb = "A (live f) (sizeof_msblock + ms_blocksize f)"
    define h where "h = f\<lparr>live := (?bb, sizeof_msblock + ms_blocksize f) # live f,
      msb := (msb f)(b := (msb f b)\<lparr>ms_size := k, ms_next := ?bb\<rparr>, ?bb := \<lparr>ms_next = ADDR_NULL, ms_pos = pos f + int k, ms_size = 0\<rparr>),
      buffer := ms_data ?bb, bptr := ms_data ?bb, bstop := ms_data ?bb, bufend := ms_data ?bb + ms_blocksize f,
      pos := pos f + int k, fb_block := ?bb\<rparr>"
    have n: "ms_ok L h ((as @ [b]) @ [?bb])" "?bb \<noteq> ADDR_NULL" "?bb \<notin> set (as @ [b])"
      using ms_ok_new [OF l(1) assms(1) refl, of h] by (simp_all add: h_def dead_def)
    have b: "b \<noteq> ADDR_NULL" "fb_block f = b" "ms_pos (msb f b) = pos f" "ms_data b \<le> bptr f" "k = ms_blocksize f"
      using l(2) k(2) False by (simp_all add: fbmem_last_def)
    have "fbmem_spout A f = ok () h"
      using b(1-3) k(1) False n(2) by (simp add: fbmem_spout_def xmalloc_def malloc_def h_def Let_def)
    moreover have "ms_content h as = ms_content f as"
      using n(3) k(4) by (intro ms_content_cong) (auto simp: h_def load_bytes_def)
    moreover have "ms_seg (msb h) (ms_first h) 0 as b (pos f)"
      using l(2) n(3) k(4) by (simp add: fbmem_last_def h_def)
    moreover have "ms_seg (msb h) b (pos f) [b] ?bb (pos h)" using b n(3) by (auto simp: h_def)
    moreover have "\<forall>a \<in> set (as @ [b]). ms_size (msb h a) = ms_blocksize h"
      using l(2) b(5) n(3) by (auto simp: h_def fbmem_last_def)
    moreover have "load_bytes (ms_data b) (ms_size (msb h b)) h = load_bytes (ms_data b) k f"
      using n(3) by (auto simp: h_def load_bytes_def)
    ultimately have "fbmem_last h (as @ [b]) ?bb w"
      using l(2) n(2) unfolding fbmem_last_def ms_seg_append
      by (auto simp: h_def load_bytes_def [of _ 0] k_def [symmetric] simp del: ms_seg.simps)
    moreover have "bptr h < bufend h" "ms_size (msb h ?bb) = bptr h - ms_data ?bb" using l(1) by (simp_all add: h_def ms_ok_def)
    ultimately show ?thesis using n(1) \<open>fbmem_spout A f = ok () h\<close> unfolding fbmem_flushed_def by blast
  qed
qed

end
