(* ===== verification/Fastbuf_Mem_Ops.thy ===== *)
theory Fastbuf_Mem_Ops
  imports Fastbuf_Mem_Inv
begin

text \<open>
  The in-memory streams keep the contracts of the front end, and what follows: the bytes written
  are read back, and nothing is left in the heap after the last close.
\<close>

section \<open>Writing\<close>

lemma fbmem_spout_uc: "fbmem_spout A f = ok () f' \<Longrightarrow> ms_uc f' = ms_uc f \<and> ms_blocksize f' = ms_blocksize f"
  by (auto simp: fbmem_spout_def xmalloc_def malloc_def Let_def split: if_splits prod.splits)

text \<open>\<open>u\<close> is the number of users of the stream and the size of its blocks, which do not change.\<close>

interpretation memw: fb_writer "fbmem_write_ops A" "\<lambda>f w. allocator_ok A \<and> fbmem_winv L f w \<and> (ms_uc f, ms_blocksize f) = u" for A L u
proof
  fix f w and xs :: "byte list"
  assume "allocator_ok A \<and> fbmem_winv L f w \<and> (ms_uc f, ms_blocksize f) = u" "bptr f + length xs \<le> bufend f"
  moreover have "(ms_uc ((store_bytes (bptr f) xs f)\<lparr>bptr := bptr f + length xs\<rparr>),
    ms_blocksize ((store_bytes (bptr f) xs f)\<lparr>bptr := bptr f + length xs\<rparr>)) = (ms_uc f, ms_blocksize f)" by (simp add: store_bytes_def)
  ultimately show "allocator_ok A \<and> fbmem_winv L ((store_bytes (bptr f) xs f)\<lparr>bptr := bptr f + length xs\<rparr>) (w @ xs) \<and>
      (ms_uc ((store_bytes (bptr f) xs f)\<lparr>bptr := bptr f + length xs\<rparr>),
       ms_blocksize ((store_bytes (bptr f) xs f)\<lparr>bptr := bptr f + length xs\<rparr>)) = u"
    using fbmem_stores by auto
next
  fix f w
  assume "allocator_ok A \<and> fbmem_winv L f w \<and> (ms_uc f, ms_blocksize f) = u"
  then show "\<exists>spout f'. fb_spout (fbmem_write_ops A) = Some spout \<and> spout f = ok () f' \<and>
      (allocator_ok A \<and> fbmem_winv L f' w \<and> (ms_uc f', ms_blocksize f') = u) \<and> (bptr f = bufend f \<longrightarrow> bptr f' < bufend f')"
    using fbmem_spouts [of A L f w] fbmem_flushed_winv fbmem_spout_uc [of A f] by (fastforce simp: fbmem_write_ops_def)
qed (use fbmem_winv_ptrs in blast)

lemma fbmem_bflush:
  assumes "allocator_ok A" and "fbmem_winv L f w"
  shows "\<exists>f'. bflush (fbmem_write_ops A) f = ok () f' \<and> fbmem_flushed L f' w \<and> ms_uc f' = ms_uc f"
proof (cases "bptr f > bstop f")
  case True
  obtain f' where f': "fbmem_spout A f = ok () f'" "fbmem_flushed L f' w" using fbmem_spouts [OF assms] by blast
  then show ?thesis
    using True fbmem_winv_ptrs [OF assms(2)] fbmem_winv_ptrs [OF fbmem_flushed_winv [OF f'(2)]] fbmem_spout_uc [OF f'(1)]
    by (simp add: bflush_def do_spout_def fbmem_write_ops_def)
next
  case False
  then have eq: "bptr f = bstop f" using fbmem_winv_ptrs [OF assms(2)] by simp
  then have "fbmem_flushed L f w" using assms(2) unfolding fbmem_winv_def fbmem_flushed_def
    by (elim disjE) (auto simp: fbmem_last_def)
  moreover have "f\<lparr>bptr := bstop f\<rparr> = f" using eq by simp
  ultimately show ?thesis using False by (simp add: bflush_def)
qed

section \<open>Reading\<close>

text \<open>
  All the blocks but the last hold something. The stream is before its first block, or in a
  block.
\<close>

definition fbmem_in :: "fb_mem \<Rightarrow> addr list \<Rightarrow> addr \<Rightarrow> addr list \<Rightarrow> bool" where
  "fbmem_in f as b ds \<longleftrightarrow> fb_block f = b \<and> b \<noteq> ADDR_NULL \<and> buffer f = ms_data b \<and> ms_data b \<le> bptr f \<and> bptr f \<le> bstop f \<and>
     bstop f = ms_data b + ms_size (msb f b) \<and> bufend f = bstop f \<and> pos f = ms_pos (msb f b) + int (ms_size (msb f b)) \<and>
     ms_pos (msb f b) = int (length (ms_content f as)) \<and>
     ms_seg (msb f) (ms_next (msb f b)) (pos f) ds ADDR_NULL (pos f + int (length (ms_content f ds)))"

definition fbmem_rinv :: "fb_mem \<Rightarrow> byte list \<Rightarrow> bool" where
  "fbmem_rinv f c \<longleftrightarrow> (\<exists>bs. ms_content f bs = c \<and> \<not> dead f \<and>
     (\<forall>b \<in> set bs. ms_size (msb f b) < 2 ^ 32) \<and> (\<forall>b \<in> set (butlast bs). 0 < ms_size (msb f b)) \<and>
     (fb_block f = ADDR_NULL \<and> buffer f = ADDR_NULL \<and> bptr f = ADDR_NULL \<and> bstop f = ADDR_NULL \<and> bufend f = ADDR_NULL \<and>
        pos f = 0 \<and> ms_seg (msb f) (ms_first f) 0 bs ADDR_NULL (int (length c)) \<or>
      (\<exists>as b ds. bs = as @ b # ds \<and> fbmem_in f as b ds)))"

lemma fbmem_rinv_reading:
  assumes "fbmem_rinv f c"
  shows "reading f c"
proof -
  obtain bs where bs: "ms_content f bs = c" "\<not> dead f" "\<forall>b \<in> set bs. ms_size (msb f b) < 2 ^ 32"
    "fb_block f = ADDR_NULL \<and> buffer f = ADDR_NULL \<and> bptr f = ADDR_NULL \<and> bstop f = ADDR_NULL \<and> bufend f = ADDR_NULL \<and>
       pos f = 0 \<or> (\<exists>as b ds. bs = as @ b # ds \<and> fbmem_in f as b ds)"
    using assms unfolding fbmem_rinv_def by blast
  show ?thesis
  proof (cases "\<exists>as b ds. bs = as @ b # ds \<and> fbmem_in f as b ds")
    case False
    then show ?thesis using bs by (auto simp: reading_def btell_def load_bytes_def)
  next
    case True
    then obtain as b ds where b: "bs = as @ b # ds" "fbmem_in f as b ds" by blast
    define k where "k = bptr f - ms_data b"
    have k: "bptr f = ms_data b + k" "at f = length (ms_content f as) + k" "ms_size (msb f b) = k + (bstop f - bptr f)"
      using b(2) by (auto simp: fbmem_in_def k_def btell_def)
    have "0 \<le> btell f" using b(2) by (simp add: fbmem_in_def btell_def)
    moreover have "load_bytes (bptr f) (bstop f - bptr f) f = drop k (load_bytes (ms_data b) (ms_size (msb f b)) f)"
      unfolding k(3) load_append using k(1) by simp
    then have "load_bytes (bptr f) (bstop f - bptr f) f = take (bstop f - bptr f) (drop (at f) c)"
      unfolding bs(1) [symmetric] b(1) k(2) using k(3) by simp
    moreover have "bufend f - buffer f < 2 ^ 32" using bs(3) b by (auto simp: fbmem_in_def)
    ultimately show ?thesis using b(2) bs(2) by (auto simp: reading_def fbmem_in_def)
  qed
qed

lemma ms_content_more [simp]:
  "ms_content (f\<lparr>buffer := a\<rparr>) bs = ms_content f bs" "ms_content (f\<lparr>bstop := a\<rparr>) bs = ms_content f bs"
  "ms_content (f\<lparr>bufend := a\<rparr>) bs = ms_content f bs" "ms_content (f\<lparr>pos := i\<rparr>) bs = ms_content f bs"
  "ms_content (f\<lparr>fb_block := a\<rparr>) bs = ms_content f bs"
  by (rule ms_content_cong; simp add: load_bytes_def)+

text \<open>Going into a block.\<close>

lemma fbmem_enter_ok:
  assumes "ms_seg (msb f) b i (b # ds) ADDR_NULL (int (length c))" and "i = int (length (ms_content f as))" and "\<not> dead f"
    and "ms_content f (as @ b # ds) = c" and "\<forall>b \<in> set (as @ b # ds). ms_size (msb f b) < 2 ^ 32"
    and "\<forall>b \<in> set (butlast (as @ b # ds)). 0 < ms_size (msb f b)" and "btell f = i" and "fbmem_rinv f c"
  shows "\<exists>f'. fbmem_enter b f = ok (at f < length c) f' \<and> fbmem_rinv f' c \<and>
      btell f' = btell f \<and> flags f' = flags f \<and> (at f < length c \<longrightarrow> bptr f' < bstop f')"
proof (cases "ms_size (msb f b) = 0")
  case True
  then have "ds = []" using assms(6) by (cases ds) (auto simp: butlast_append)
  then have "at f = length c" using assms(2,4,7) True by (auto simp: load_bytes_def)
  then show ?thesis using True assms(8) by (auto simp: fbmem_enter_def)
next
  case False
  define g where "g = f\<lparr>buffer := ms_data b, bptr := ms_data b, bufend := ms_data b + ms_size (msb f b),
        bstop := ms_data b + ms_size (msb f b), pos := ms_pos (msb f b) + int (ms_size (msb f b)), fb_block := b\<rparr>"
  have m: "msb g = msb f" "\<And>bs. ms_content g bs = ms_content f bs" "dead g = dead f" by (simp_all add: g_def dead_def)
  have j: "int (length c) = i + int (ms_size (msb f b)) + int (length (ms_content f ds))"
    using assms(2,4) by auto
  have "fbmem_in g as b ds"
    using assms(1,2) j unfolding fbmem_in_def m by (auto simp: g_def)
  then have "fbmem_rinv g c" unfolding fbmem_rinv_def m using assms(3-6) by blast
  moreover have "fbmem_enter b f = ok True g" using False by (simp add: fbmem_enter_def g_def)
  moreover have "at f < length c" using assms(2,7) j False by simp
  moreover have "btell g = btell f" "flags g = flags f" "bptr g < bstop g"
    using assms(1,7) False by (auto simp: g_def btell_def)
  ultimately show ?thesis by auto
qed

lemma fbmem_refills:
  assumes "fbmem_rinv f c" and "bptr f = bstop f"
  shows "\<exists>f'. fbmem_refill f = ok (at f < length c) f' \<and> fbmem_rinv f' c \<and>
      btell f' = btell f \<and> flags f' = flags f \<and> (at f < length c \<longrightarrow> bptr f' < bstop f')"
proof -
  obtain bs where bs: "ms_content f bs = c" "\<not> dead f" "\<forall>b \<in> set bs. ms_size (msb f b) < 2 ^ 32"
    "\<forall>b \<in> set (butlast bs). 0 < ms_size (msb f b)"
    "fb_block f = ADDR_NULL \<and> bptr f = ADDR_NULL \<and> bstop f = ADDR_NULL \<and>
       pos f = 0 \<and> ms_seg (msb f) (ms_first f) 0 bs ADDR_NULL (int (length c)) \<or> (\<exists>as b ds. bs = as @ b # ds \<and> fbmem_in f as b ds)"
    using assms(1) unfolding fbmem_rinv_def by blast
  from bs(5) show ?thesis
  proof (elim disjE exE conjE)
    assume b: "fb_block f = ADDR_NULL" "bptr f = ADDR_NULL" "bstop f = ADDR_NULL" "pos f = 0"
      "ms_seg (msb f) (ms_first f) 0 bs ADDR_NULL (int (length c))"
    show ?thesis
    proof (cases bs)
      case Nil
      then show ?thesis using b bs(1) assms(1) by (auto simp: fbmem_refill_def)
    next
      case (Cons d ds)
      then have "fbmem_refill f = fbmem_enter d f" using b by (simp add: fbmem_refill_def)
      then show ?thesis
        using fbmem_enter_ok [of f d 0 ds c "[]"] b bs assms(1) Cons by (simp add: btell_def)
    qed
  next
    fix as b ds
    assume b: "bs = as @ b # ds" "fbmem_in f as b ds"
    have t: "btell f = pos f" "pos f = int (length (ms_content f (as @ [b])))" using b(2) assms(2) by (simp_all add: btell_def fbmem_in_def)
    show ?thesis
    proof (cases ds)
      case Nil
      then have "fbmem_refill f = ok False f" "at f = length c" using b bs(1) t by (auto simp: fbmem_refill_def fbmem_in_def)
      then show ?thesis using assms(1) by auto
    next
      case (Cons d es)
      then have "fbmem_refill f = fbmem_enter d f" using b(2) by (auto simp: fbmem_refill_def fbmem_in_def)
      moreover have "ms_seg (msb f) d (pos f) (d # es) ADDR_NULL (int (length c))"
      proof -
        have "pos f + int (length (ms_content f ds)) = int (length c)" using bs(1) b(1) t(2) by auto
        then show ?thesis using b(2) Cons unfolding fbmem_in_def by auto
      qed
      ultimately show ?thesis
        using fbmem_enter_ok [of f d "pos f" es c "as @ [b]"] t bs(1-4) b(1) Cons assms(1) by simp
    qed
  qed
qed

interpretation memr: fb_reader fbmem_read_ops fbmem_rinv
proof
  fix f c n
  assume "fbmem_rinv f c" "bptr f + n \<le> bstop f"
  then show "fbmem_rinv (f\<lparr>bptr := bptr f + n\<rparr>) c"
    unfolding fbmem_rinv_def by (elim exE, rule_tac x = bs in exI) (auto simp: fbmem_in_def)
next
  fix f c
  assume "fbmem_rinv f c" "bptr f = bstop f"
  then show "\<exists>refill f'. fb_refill fbmem_read_ops = Some refill \<and> refill f = ok (at f < length c) f' \<and> fbmem_rinv f' c \<and>
      btell f' = btell f \<and> flags f' = flags f \<and> (at f < length c \<longrightarrow> bptr f' < bstop f')"
    using fbmem_refills by (simp add: fbmem_read_ops_def)
qed (use fbmem_rinv_reading in blast)

section \<open>Creating, cloning and closing\<close>

lemma xmalloc_zero_ok:
  assumes "allocator_ok A"
  shows "xmalloc_zero A n h = Some (A (live h) n, store_bytes (A (live h) n) (replicate n 0) (h\<lparr>live := (A (live h) n, n) # live h\<rparr>))"
  using allocator_okD(1) [OF assms, where L = "live h" and n = n]
  by (simp add: xmalloc_zero_def xmalloc_def malloc_def memset0_def Let_def)

lemma fbmem_create_ok:
  assumes "allocator_ok A" and "live_ok (live h)" and "0 < n" and "n < 2 ^ 32"
  shows "\<exists>f. fbmem_create A n h = Some f \<and> fbmem_winv (set (live h)) f [] \<and> ms_uc f = 1 \<and> ms_blocksize f = n"
proof -
  let ?f = "A (live h) sizeof_fb_mem"
  let ?L = "(?f, sizeof_fb_mem) # live h"
  let ?s = "A ?L sizeof_memstream"
  have "live_ok ?L" "live_ok ((?s, sizeof_memstream) # ?L)" using live_ok_Cons [OF _ assms(1)] assms(2) by blast+
  moreover have "?f \<notin> fst ` set (live h)" "?s \<notin> fst ` set ?L" using allocator_okD(4) [OF assms(1)] by fastforce+
  ultimately show ?thesis
    using assms(3,4)
    by (auto simp: fbmem_create_def xmalloc_zero_ok [OF assms(1)] fbmem_winv_def ms_ok_def ms_owned_def dead_def fbmem_empty_def)
qed

lemma fbmem_winv_malloc:
  assumes "allocator_ok A" and "fbmem_winv L f w" and "p = A (live f) n"
  shows "fbmem_winv (insert (p, n) L) (store_bytes p (replicate n 0) (f\<lparr>live := (p, n) # live f\<rparr>)) w"
proof -
  let ?g = "store_bytes p (replicate n 0) (f\<lparr>live := (p, n) # live f\<rparr>)"
  have fresh: "p \<notin> fst ` set (live f)" using allocator_okD(4) [OF assms(1), where L = "live f" and n = n] unfolding assms(3) by force
  have ok: "ms_ok (insert (p, n) L) ?g bs" if "ms_ok L f bs" for bs
  proof -
    have "live_ok ((p, n) # live f)" unfolding assms(3) using live_ok_Cons [OF _ assms(1)] that by (simp add: ms_ok_def)
    moreover have "p \<notin> set (fb_self f # fb_stream f # bs)" using fresh that by (auto simp: ms_ok_def ms_owned_def image_Un image_image)
    ultimately show ?thesis using that by (auto simp: ms_ok_def ms_owned_def dead_def)
  qed
  have load: "load_bytes (ms_data b) m ?g = load_bytes (ms_data b) m f" if "ms_ok L f bs" "b \<in> set bs" "m \<le> ms_blocksize f" for b bs m
  proof -
    have "(b, sizeof_msblock + ms_blocksize f) \<in> set (live f)" using that by (auto simp: ms_ok_def ms_owned_def)
    from allocator_okD(3) [OF assms(1) this, of n] have "{ms_data b..<ms_data b + m} \<inter> {p..<p + length (replicate n (0 :: byte))} = {}"
      unfolding assms(3) using that(3) by (auto simp: block_def ms_data_def sizeof_msblock_def disjoint_iff)
    then show ?thesis by (simp add: load_store_disjoint)
  qed
  from assms(2) show ?thesis
    unfolding fbmem_winv_def
  proof (elim disjE exE conjE)
    fix as b
    assume l: "ms_ok L f (as @ [b])" "fbmem_last f as b w"
    have "ms_content ?g as = ms_content f as"
      using load [OF l(1)] l(2) by (intro ms_content_cong) (auto simp: fbmem_last_def)
    then have "fbmem_last ?g as b w"
      using l(2) load [OF l(1), of b "bptr f - ms_data b"] by (auto simp: fbmem_last_def)
    then show "ms_ok (insert (p, n) L) ?g [] \<and> fbmem_empty ?g \<and> w = [] \<or>
        (\<exists>as b. ms_ok (insert (p, n) L) ?g (as @ [b]) \<and> fbmem_last ?g as b w)" using ok [OF l(1)] by blast
  qed (use ok in \<open>auto simp: fbmem_empty_def\<close>)
qed

text \<open>A new reader of what is in the blocks.\<close>

lemma fbmem_flushed_seg:
  assumes "fbmem_flushed L f w"
  shows "\<exists>bs. ms_content f bs = w \<and> ms_seg (msb f) (ms_first f) 0 bs ADDR_NULL (int (length w)) \<and>
    distinct bs \<and> (\<forall>b \<in> set bs. ms_size (msb f b) \<le> ms_blocksize f) \<and> (\<forall>b \<in> set (butlast bs). 0 < ms_size (msb f b)) \<and> ms_ok L f bs"
  using assms unfolding fbmem_flushed_def
proof (elim disjE exE conjE)
  fix as b
  assume l: "ms_ok L f (as @ [b])" "fbmem_last f as b w" "ms_size (msb f b) = bptr f - ms_data b"
  have c: "ms_content f (as @ [b]) = w" using l(2,3) by (simp add: fbmem_last_def)
  have "ms_seg (msb f) (ms_first f) 0 (as @ [b]) ADDR_NULL (pos f + int (ms_size (msb f b)))"
    using l(2) unfolding ms_seg_append by (auto simp: fbmem_last_def)
  with ms_seg_pos [OF this] have seg: "ms_seg (msb f) (ms_first f) 0 (as @ [b]) ADDR_NULL (int (length w))" unfolding c by simp
  have "\<forall>a \<in> set (as @ [b]). ms_size (msb f a) \<le> ms_blocksize f" "\<forall>a \<in> set (butlast (as @ [b])). 0 < ms_size (msb f a)"
    "distinct (as @ [b])" using l by (auto simp: fbmem_last_def ms_ok_def)
  then show ?thesis using l(1) c seg by blast
qed (auto simp: fbmem_empty_def intro!: exI [of _ "[]"])

definition fbmem_fresh :: "fb_mem \<Rightarrow> byte list \<Rightarrow> bool" where
  "fbmem_fresh r c \<longleftrightarrow> (\<exists>bs. ms_content r bs = c \<and> ms_seg (msb r) (ms_first r) 0 bs ADDR_NULL (int (length c)) \<and>
     (\<forall>b \<in> set bs. ms_size (msb r b) \<le> ms_blocksize r) \<and> (\<forall>b \<in> set (butlast bs). 0 < ms_size (msb r b)) \<and>
     ms_blocksize r < 2 ^ 32 \<and> flags r = 0 \<and> res r = ADDR_NULL \<and> fb_block r = ADDR_NULL \<and> buffer r = ADDR_NULL \<and>
     bptr r = ADDR_NULL \<and> bstop r = ADDR_NULL \<and> bufend r = ADDR_NULL \<and> pos r = 0)"

lemma fbmem_fresh_rinv: "fbmem_fresh r c \<Longrightarrow> fbmem_rinv r c"
  unfolding fbmem_fresh_def fbmem_rinv_def by (elim exE, rule_tac x = bs in exI) (auto simp: dead_def)

lemma fbmem_clone_ok:
  assumes "allocator_ok A" and "fbmem_winv L f w"
  shows "\<exists>r g. fbmem_clone_read A f = ok r g \<and> fbmem_fresh r w \<and> ms_blocksize r = ms_blocksize f \<and>
    fbmem_winv (insert (fb_self r, sizeof_fb_mem) L) g w"
proof -
  let ?p = "A (live f) sizeof_fb_mem"
  let ?f = "store_bytes ?p (replicate sizeof_fb_mem 0) (f\<lparr>live := (?p, sizeof_fb_mem) # live f\<rparr>)"
  obtain g where g: "bflush (fbmem_write_ops A) ?f = ok () g" "fbmem_flushed (insert (?p, sizeof_fb_mem) L) g w"
    using fbmem_bflush [OF assms(1) fbmem_winv_malloc [OF assms refl]] by blast
  define r where "r = g\<lparr>ms_uc := ms_uc g + 1, bptr := ADDR_NULL, bstop := ADDR_NULL, buffer := ADDR_NULL,
    bufend := ADDR_NULL, pos := 0, flags := 0, res := ADDR_NULL, fb_self := ?p, fb_block := ADDR_NULL\<rparr>"
  define g' where "g' = g\<lparr>ms_uc := ms_uc g + 1\<rparr>"
  have c: "ms_content r bs = ms_content g bs" for bs by (rule ms_content_cong) (simp_all add: r_def load_bytes_def)
  obtain bs where bs: "ms_content g bs = w" "ms_seg (msb g) (ms_first g) 0 bs ADDR_NULL (int (length w))"
    "\<forall>b \<in> set bs. ms_size (msb g b) \<le> ms_blocksize g" "\<forall>b \<in> set (butlast bs). 0 < ms_size (msb g b)"
    "ms_ok (insert (?p, sizeof_fb_mem) L) g bs" using fbmem_flushed_seg [OF g(2)] by blast
  then have "fbmem_fresh r w"
    unfolding fbmem_fresh_def c by (intro exI [of _ bs]) (simp add: r_def ms_ok_def)
  moreover have "fbmem_clone_read A f = ok r g'"
    by (simp add: fbmem_clone_read_def xmalloc_zero_ok [OF assms(1)] g(1) r_def g'_def Let_def)
  moreover have "fbmem_winv (insert (?p, sizeof_fb_mem) L) g' w"
  proof -
    have "ms_content g' bs = ms_content g bs" for bs by (rule ms_content_cong) (simp_all add: g'_def load_bytes_def)
    then show ?thesis
      using fbmem_flushed_winv [OF g(2)] 
      by (auto simp: fbmem_winv_def ms_ok_def ms_owned_def fbmem_empty_def fbmem_last_def g'_def dead_def load_bytes_def)
  qed
  moreover have "ms_blocksize g = ms_blocksize f"
    using g(1) by (auto simp: bflush_def do_spout_def fbmem_write_ops_def fb_bind_def fbmem_spout_def xmalloc_def malloc_def ok_def
        Let_def dead_def split: if_splits bind_splits prod.splits)
  ultimately show ?thesis by (intro exI [of _ r] exI [of _ g']) (simp add: r_def)
qed

text \<open>The loop of \<^verbatim>\<open>fbmem_close\<close>.\<close>

lemma ms_free_ok:
  "ms_seg (msb f) (ms_first f) i bs ADDR_NULL j \<Longrightarrow> distinct bs \<Longrightarrow> set bs \<subseteq> fst ` set (live f) \<Longrightarrow>
   \<exists>f'. ms_free f = Some f' \<and> live f' = filter (\<lambda>b. fst b \<notin> set bs) (live f) \<and> fb_stream f' = fb_stream f \<and> fb_self f' = fb_self f"
proof (induction bs arbitrary: f i)
  case Nil
  then show ?case by (subst ms_free.simps) simp
next
  case (Cons b bs)
  let ?f = "f\<lparr>ms_first := ms_next (msb f b), live := release b (live f)\<rparr>"
  have b: "ms_first f = b" "b \<noteq> ADDR_NULL" "b \<in> fst ` set (live f)" using Cons.prems by auto
  have "xfree b (f\<lparr>ms_first := ms_next (msb f b)\<rparr>) = Some ?f" using b by (simp add: xfree_def c_free_def)
  then have step: "ms_free f = ms_free ?f" using b by (subst ms_free.simps) simp
  have "set bs \<subseteq> fst ` set (live ?f)" using Cons.prems(2,3) by (fastforce simp: release_def)
  then obtain f' where "ms_free ?f = Some f'" "live f' = filter (\<lambda>b. fst b \<notin> set bs) (release b (live f))"
    "fb_stream f' = fb_stream f" "fb_self f' = fb_self f"
    using Cons.IH [of ?f "i + int (ms_size (msb f b))"] Cons.prems(1,2) b by auto
  then show ?case using step by (auto simp: release_def intro!: filter_cong)
qed

lemma fbmem_close_ok:
  assumes "fbmem_flushed L f w" and "ms_uc f = 1"
  shows "\<exists>f'. fbmem_close f = Some f' \<and> set (live f') = L"
proof -
  obtain bs where bs: "ms_seg (msb f) (ms_first f) 0 bs ADDR_NULL (int (length w))" "distinct bs" "ms_ok L f bs"
    using fbmem_flushed_seg [OF assms(1)] by blast
  let ?f = "f\<lparr>ms_uc := ms_uc f - 1\<rparr>"
  have addrs: "fst ` set (live f) = fst ` L \<union> set (fb_self f # fb_stream f # bs)"
    using bs(3) by (auto simp: ms_ok_def ms_owned_def image_Un image_image)
  then obtain g where g: "ms_free ?f = Some g" "live g = filter (\<lambda>b. fst b \<notin> set bs) (live f)" "fb_stream g = fb_stream f" "fb_self g = fb_self f"
    using ms_free_ok [of ?f 0 bs] bs(1,2) by auto
  have null: "fb_self f \<noteq> ADDR_NULL" "fb_stream f \<noteq> ADDR_NULL"
    using bs(3) by (auto simp: ms_ok_def ms_owned_def live_ok_def)
  have d: "fb_self f \<notin> set bs" "fb_stream f \<notin> set bs" "fb_self f \<noteq> fb_stream f" using bs(3) by (auto simp: ms_ok_def)
  have own: "(fb_self f, sizeof_fb_mem) \<in> set (live f)" "(fb_stream f, sizeof_memstream) \<in> set (live f)"
    using bs(3) by (auto simp: ms_ok_def ms_owned_def)
  have m: "fb_stream f \<in> fst ` set (live g)" "fb_self f \<in> fst ` set (release (fb_stream f) (live g))"
    unfolding g(2) using d own by (force simp: release_def)+
  have "fbmem_close f = Some (g\<lparr>live := release (fb_self f) (release (fb_stream f) (live g))\<rparr>)"
    using assms(2) g null m by (simp add: fbmem_close_def xfree_def c_free_def Let_def)
  moreover have "set (release (fb_self f) (release (fb_stream f) (live g))) = L"
  proof -
    have "set (live f) = L \<union> ms_owned f bs" "fst ` L \<inter> set (fb_self f # fb_stream f # bs) = {}" using bs(3) by (simp_all add: ms_ok_def)
    moreover from this have "(a, m) \<in> L \<Longrightarrow> a \<notin> set (fb_self f # fb_stream f # bs)" for a m by force
    ultimately show ?thesis unfolding g(2) by (auto simp: release_def ms_owned_def)
  qed
  ultimately show ?thesis by auto
qed

section \<open>Properties\<close>

text \<open>
  C13: A round trip through an in-memory stream: blocks of bytes are written to a new stream, of
  any block size; a read clone then refines the abstract stream of all these bytes, for every
  sequence of reads of characters, blocks and lines and of skips.
\<close>

theorem fbmem_roundtrip:
  assumes "allocator_ok A" and "live_ok (live h)" and "0 < n" and "n < 2 ^ 32"
    and "list_all (\<lambda>x. \<not> seeking x) cmds" and "spec_run (concat bs) cmds 0 = Some (vs, q)"
  shows "\<exists>f0 f r g r'. fbmem_create A n h = Some f0 \<and>
    foldl (\<lambda>m b. fb_bind m (\<lambda>_ f. bwrite (fbmem_write_ops A) f b)) (ok () f0) bs = ok () f \<and>
    fbmem_clone_read A f = ok r g \<and> run fbmem_read_ops cmds r = ok vs r' \<and> btell r' = int q"
proof -
  obtain f0 where f0: "fbmem_create A n h = Some f0" "fbmem_winv (set (live h)) f0 []"
    using fbmem_create_ok [OF assms(1-4)] by blast
  then obtain f where f: "foldl (\<lambda>m b. fb_bind m (\<lambda>_ f. bwrite (fbmem_write_ops A) f b)) (ok () f0) bs = ok () f"
    "fbmem_winv (set (live h)) f (concat bs)" using memw.bwrite_all [where A = A and L = "set (live h)" and u = "(ms_uc f0, ms_blocksize f0)" and f = f0 and w = "[]" and bs = bs] assms(1) by auto
  obtain r g where r: "fbmem_clone_read A f = ok r g" "fbmem_fresh r (concat bs)" using fbmem_clone_ok [OF assms(1) f(2)] by blast
  then have "at r = 0" "flags r = 0" by (auto simp: fbmem_fresh_def btell_def)
  then show ?thesis
    using memr.run_read_ok [OF fbmem_fresh_rinv [OF r(2)] _ _ assms(5), of vs q] assms(6) f0(1) f(1) r(1) by auto
qed

theorem fbmem_roundtrip_witness:
  "\<exists>f0 f r g r'. fbmem_create bump 2 \<lparr>mem = \<lambda>_. 7, live = []\<rparr> = Some f0 \<and>
    foldl (\<lambda>m b. fb_bind m (\<lambda>_ f. bwrite (fbmem_write_ops bump) f b)) (ok () f0) [[65], [66, 10, 67]] = ok () f \<and>
    fbmem_clone_read bump f = ok r g \<and>
    run fbmem_read_ops [Gets 5, Read 9, Getc] r = ok [Line (Some [65, 66]), Bytes [67], Num (- 1)] r' \<and> btell r' = 4"
proof -
  have "spec_run (concat [[65], [66, 10, 67]]) [Gets 5, Read 9, Getc] 0 = Some ([Line (Some [65, 66]), Bytes [67], Num (- 1)], 4)"
    by (simp add: line_of_def)
  from fbmem_roundtrip [OF bump_ok _ _ _ _ this, of "\<lparr>mem = \<lambda>_. 7, live = []\<rparr>" 2] show ?thesis by (simp add: live_ok_def)
qed

text \<open>
  C15: Creating an in-memory stream, writing to it and closing it leaves nothing behind: the
  blocks of the heap are those of before.
\<close>

theorem fbmem_no_leak:
  assumes "allocator_ok A" and "live_ok (live h)" and "0 < n" and "n < 2 ^ 32"
  shows "\<exists>f0 f g f'. fbmem_create A n h = Some f0 \<and>
    foldl (\<lambda>m b. fb_bind m (\<lambda>_ f. bwrite (fbmem_write_ops A) f b)) (ok () f0) bs = ok () f \<and>
    bflush (fbmem_write_ops A) f = ok () g \<and> fbmem_close g = Some f' \<and> set (live f') = set (live h)"
proof -
  obtain f0 where f0: "fbmem_create A n h = Some f0" "fbmem_winv (set (live h)) f0 []" "ms_uc f0 = 1"
    using fbmem_create_ok [OF assms] by blast
  then obtain f where f: "foldl (\<lambda>m b. fb_bind m (\<lambda>_ f. bwrite (fbmem_write_ops A) f b)) (ok () f0) bs = ok () f"
    "fbmem_winv (set (live h)) f (concat bs)" "ms_uc f = 1"
    using memw.bwrite_all [where A = A and L = "set (live h)" and u = "(1, ms_blocksize f0)" and f = f0 and w = "[]" and bs = bs] assms(1) by auto
  obtain g where "bflush (fbmem_write_ops A) f = ok () g" "fbmem_flushed (set (live h)) g (concat bs)" "ms_uc g = 1"
    using fbmem_bflush [OF assms(1) f(2)] f(3) by auto
  then show ?thesis using fbmem_close_ok f0(1) f(1) by blast
qed

theorem fbmem_no_leak_witness:
  "\<exists>f0 f g f'. fbmem_create bump 2 \<lparr>mem = \<lambda>_. 7, live = [(16, 5)]\<rparr> = Some f0 \<and>
    foldl (\<lambda>m b. fb_bind m (\<lambda>_ f. bwrite (fbmem_write_ops bump) f b)) (ok () f0) [[65], [66, 10, 67]] = ok () f \<and>
    bflush (fbmem_write_ops bump) f = ok () g \<and> fbmem_close g = Some f' \<and> set (live f') = {(16, 5)}"
  using fbmem_no_leak [OF bump_ok, of "\<lparr>mem = \<lambda>_. 7, live = [(16, 5)]\<rparr>" 2 "[[65], [66, 10, 67]]"]
  by (simp add: live_ok_def ADDR_NULL_def)

text \<open>The block of a position.\<close>

lemma ms_find_ok:
  "ms_seg m p i bs ADDR_NULL j \<Longrightarrow> i < q \<Longrightarrow> q \<le> j \<Longrightarrow>
   \<exists>b \<in> set bs. ms_find m p q = Some b \<and> b \<noteq> ADDR_NULL \<and> ms_pos (m b) < q \<and> q \<le> ms_pos (m b) + int (ms_size (m b)) \<and>
     ms_pos (m b) + int (ms_size (m b)) \<le> j"
proof (induction bs arbitrary: p i)
  case (Cons b bs)
  have end_le: "k \<le> j" if "ms_seg m r k ds ADDR_NULL j" for r k ds
    using that by (induction ds arbitrary: r k) fastforce+
  show ?case
  proof (cases "q \<le> i + int (ms_size (m b))")
    case True
    then show ?thesis using Cons.prems end_le by (subst ms_find.simps) auto
  next
    case False
    then show ?thesis using Cons.prems Cons.IH [of "ms_next (m b)" "i + int (ms_size (m b))"] by (subst ms_find.simps) auto
  qed
qed simp

lemma fbmem_seek_fresh:
  assumes "fbmem_fresh r c" and "0 < p" and "p \<le> int (length c)" and "int (length c) < p + int l" and "l + ms_blocksize r \<le> 2 ^ 32"
  shows "\<exists>f. bsetpos fbmem_read_ops r p = ok () f \<and> btell f = p \<and> brewind fbmem_read_ops f = None \<and> bread fbmem_read_ops f l = None"
proof -
  obtain bs where bs: "ms_seg (msb r) (ms_first r) 0 bs ADDR_NULL (int (length c))" "\<forall>b \<in> set bs. ms_size (msb r b) \<le> ms_blocksize r"
    "flags r = 0" "res r = ADDR_NULL" "bptr r = ADDR_NULL" "bstop r = ADDR_NULL" "pos r = 0"
    using assms(1) unfolding fbmem_fresh_def by blast
  obtain b where b: "b \<in> set bs" "ms_find (msb r) (ms_first r) p = Some b" "b \<noteq> ADDR_NULL" "ms_pos (msb r b) < p"
    "p \<le> ms_pos (msb r b) + int (ms_size (msb r b))" "ms_pos (msb r b) + int (ms_size (msb r b)) \<le> int (length c)"
    using ms_find_ok [OF bs(1) assms(2,3)] by blast
  define k where "k = nat (p - ms_pos (msb r b))"
  have k: "p = ms_pos (msb r b) + int k" "0 < k" "k \<le> ms_size (msb r b)" "nat (int (ms_data b) + (p - ms_pos (msb r b))) = ms_data b + k"
    using b(4,5) by (auto simp: k_def)
  define f where "f = r\<lparr>buffer := ms_data b, bstop := ms_data b, bptr := ms_data b + k,
    bufend := ms_data b + ms_size (msb r b), pos := ms_pos (msb r b), fb_block := b\<rparr>"
  have r: "r\<lparr>bptr := ADDR_NULL\<rparr> = r" using bs(5) by simp
  have fl: "bflush fbmem_read_ops r = ok () r" unfolding bflush_def bs(5,6) r by simp
  have f: "fbmem_seek r p SEEK_SET = ok True f" using b(2,3) k(4) by (simp add: fbmem_seek_def f_def)
  have t: "btell f = p" using k(1) by (simp add: f_def btell_def)
  have "do_seek fbmem_read_ops r p SEEK_SET = ok () f"
    using f t k(2,3) fl by (simp add: do_seek_def) (simp add: fbmem_read_ops_def f_def)
  then have "bsetpos fbmem_read_ops r p = ok () f" using bs(5-7) assms(2) by (simp add: bsetpos_def btell_def)
  moreover have "brewind fbmem_read_ops f = None"
    using k(2,3) bs(4) by (simp add: brewind_def bflush_def do_spout_def fbmem_read_ops_def f_def bthrow_def)
  moreover have "bread fbmem_read_ops f l = None"
  proof -
    have "int (bstop f) - int (bptr f) = - int k" by (simp add: f_def)
    moreover have "(- int k) mod 2 ^ 32 = 2 ^ 32 - int k"
    proof -
      have "ms_size (msb r b) \<le> ms_blocksize r" using bs(2) b(1) by blast
      then have "int k < 2 ^ 32" using k(3) assms(3-5) by simp
      then have "int k mod 2 ^ 32 = int k" by simp
      then show ?thesis using k(2) unfolding zmod_zminus1_eq_if by simp
    qed
    moreover have "int l \<le> 2 ^ 32 - int k" using k(3) bs(2) b(1) assms(5) by fastforce
    ultimately have "l \<le> bavailr f" by (simp add: bavailr_def uint_diff_def)
    moreover have "\<not> bptr f + l \<le> bufend f" using k(1) b(6) assms(4) by (simp add: f_def)
    ultimately show ?thesis by (simp add: bread_def fb_load_def)
  qed
  ultimately show ?thesis using t by blast
qed

text \<open>
  C37: Seeking in a new read clone of an in-memory stream to any position after its start moves
  it there, but leaves it in a state that the front end cannot use: rewinding it afterwards ends
  the program, and a read that goes beyond the end of the stream leaves the buffer instead of
  stopping at the end.
\<close>

theorem fbmem_seek_unusable:
  assumes "allocator_ok A" and "live_ok (live h)" and "0 < n" and "0 < p" and "p \<le> int (length (concat bs))"
    and "int (length (concat bs)) < p + int l" and "l + n \<le> 2 ^ 32"
  shows "\<exists>f0 f r g r'. fbmem_create A n h = Some f0 \<and>
    foldl (\<lambda>m b. fb_bind m (\<lambda>_ f. bwrite (fbmem_write_ops A) f b)) (ok () f0) bs = ok () f \<and>
    fbmem_clone_read A f = ok r g \<and> bsetpos fbmem_read_ops r p = ok () r' \<and> btell r' = p \<and>
    brewind fbmem_read_ops r' = None \<and> bread fbmem_read_ops r' l = None"
proof -
  have "n < 2 ^ 32" using assms(5-7) by linarith
  then obtain f0 where f0: "fbmem_create A n h = Some f0" "fbmem_winv (set (live h)) f0 []" "ms_blocksize f0 = n"
    using fbmem_create_ok [OF assms(1-3)] by blast
  then obtain f where f: "foldl (\<lambda>m b. fb_bind m (\<lambda>_ f. bwrite (fbmem_write_ops A) f b)) (ok () f0) bs = ok () f"
    "fbmem_winv (set (live h)) f (concat bs)" "ms_blocksize f = n"
    using memw.bwrite_all [where A = A and L = "set (live h)" and u = "(ms_uc f0, n)" and f = f0 and w = "[]" and bs = bs] assms(1)
    by auto
  obtain r g where r: "fbmem_clone_read A f = ok r g" "fbmem_fresh r (concat bs)" "ms_blocksize r = n"
    using fbmem_clone_ok [OF assms(1) f(2)] f(3) by blast
  from fbmem_seek_fresh [OF r(2) assms(4-6)] show ?thesis using f0 f r assms(7) by auto
qed

theorem fbmem_seek_unusable_witness:
  "\<exists>f0 f r g r'. fbmem_create bump 4 \<lparr>mem = \<lambda>_. 7, live = []\<rparr> = Some f0 \<and>
    foldl (\<lambda>m b. fb_bind m (\<lambda>_ f. bwrite (fbmem_write_ops bump) f b)) (ok () f0) [[65], [66, 10]] = ok () f \<and>
    fbmem_clone_read bump f = ok r g \<and> bsetpos fbmem_read_ops r 1 = ok () r' \<and> btell r' = 1 \<and>
    brewind fbmem_read_ops r' = None \<and> bread fbmem_read_ops r' 3 = None"
  using fbmem_seek_unusable [OF bump_ok, of "\<lparr>mem = \<lambda>_. 7, live = []\<rparr>" 4 1 "[[65], [66, 10]]" 3] by (simp add: live_ok_def)

end
