(* ===== verification/Fastbuf_File.thy ===== *)
theory Fastbuf_File
  imports Fastbuf_Run
begin

text \<open>
  Model of \<^verbatim>\<open>generic/opt/fb-file.c\<close>, streams on files. The file, the offset of its descriptor
  and the number of system calls so far are part of the state. How much a call transfers is up to
  the operating system: \<open>io t\<close> is the most that call number \<open>t\<close> reads or writes, and zero
  makes it fail.
\<close>

section \<open>Data\<close>

record fb_file = fastbuf +
  fb_buffer :: addr
  is_temp_file :: int
  keep_back_buf :: int
  wpos :: int
  wlen :: nat
  f_cont :: "byte list"
  f_off :: nat
  f_calls :: nat

type_synonym io_policy = "nat \<Rightarrow> nat"

definition sizeof_fb_file :: nat where
  "sizeof_fb_file = 144"

text \<open>The conversion of an offset to \<^verbatim>\<open>uint\<close>.\<close>

definition to_uint :: "int \<Rightarrow> nat" where
  "to_uint i = nat (i mod 2 ^ 32)"

section \<open>System calls\<close>

definition sys_read :: "io_policy \<Rightarrow> addr \<Rightarrow> nat \<Rightarrow> fb_file \<Rightarrow> int \<times> fb_file" where
  "sys_read io p n f =
     (let t = f_calls f; f = f\<lparr>f_calls := t + 1\<rparr> in
      if io t = 0 then (- 1, f)
      else let k = min (io t) (min n (length (f_cont f) - f_off f)) in
        (int k, (store_bytes p (take k (drop (f_off f) (f_cont f))) f)\<lparr>f_off := f_off f + k\<rparr>))"

definition overlay :: "byte list \<Rightarrow> nat \<Rightarrow> byte list \<Rightarrow> byte list" where
  "overlay c i xs =
     (let c = c @ replicate (i - length c) 0 in take i c @ xs @ drop (i + length xs) c)"

definition sys_write :: "io_policy \<Rightarrow> addr \<Rightarrow> nat \<Rightarrow> fb_file \<Rightarrow> int \<times> fb_file" where
  "sys_write io p n f =
     (let t = f_calls f; f = f\<lparr>f_calls := t + 1\<rparr> in
      if io t = 0 then (- 1, f)
      else let k = min (io t) n in
        (int k, f\<lparr>f_cont := overlay (f_cont f) (f_off f) (load_bytes p k f), f_off := f_off f + k\<rparr>))"

definition sys_lseek :: "io_policy \<Rightarrow> int \<Rightarrow> whence \<Rightarrow> fb_file \<Rightarrow> int \<times> fb_file" where
  "sys_lseek io p whence f =
     (let t = f_calls f; f = f\<lparr>f_calls := t + 1\<rparr>; q = (if whence = SEEK_END then int (length (f_cont f)) + p else p) in
      if io t = 0 \<or> q < 0 then (- 1, f) else (q, f\<lparr>f_off := nat q\<rparr>))"

section \<open>Reading\<close>

text \<open>The end of \<^verbatim>\<open>bfd_refill\<close>: behind the end of the file, and after something was read.\<close>

definition bfd_eof :: "fb_file \<Rightarrow> (bool, fb_file) fb_res" where
  "bfd_eof f = ok False (f\<lparr>bptr := buffer f, bstop := buffer f, wlen := 0\<rparr>)"

definition bfd_done :: "addr \<Rightarrow> nat \<Rightarrow> fb_file \<Rightarrow> (bool, fb_file) fb_res" where
  "bfd_done read_ptr read_len f =
     (let f = (if read_len \<noteq> 0 then f\<lparr>bstop := read_ptr\<rparr> else f);
          n = int (bstop f) - int (bptr f);
          f = f\<lparr>pos := pos f + n, wlen := uint_diff (bstop f) (buffer f)\<rparr>
      in ok (n \<noteq> 0) f)"

partial_function (option) bfd_read :: "io_policy \<Rightarrow> addr \<Rightarrow> nat \<Rightarrow> fb_file \<Rightarrow> (bool, fb_file) fb_res" where
  "bfd_read io read_ptr read_len f =
     (let (l, f) = sys_read io read_ptr read_len f in
      if l < 0 then bthrow ''read'' f
      else if l = 0 then (if read_ptr < bptr f then bfd_eof f else bfd_done read_ptr read_len f)
      else let read_ptr = read_ptr + nat l; read_len = read_len - nat l; f = f\<lparr>wpos := wpos f + l\<rparr> in
        if read_ptr \<le> bptr f then bfd_read io read_ptr read_len f else bfd_done read_ptr read_len f)"

text \<open>The loop that skips data; it tells whether the file went on that far.\<close>

partial_function (option) bfd_skip :: "io_policy \<Rightarrow> nat \<Rightarrow> nat \<Rightarrow> fb_file \<Rightarrow> (bool, fb_file) fb_res" where
  "bfd_skip io blen skip f =
     (if skip = 0 then ok True f
      else let (l, f) = sys_read io (buffer f) (min skip blen) f in
        if l < 0 then bthrow ''read'' f
        else if l = 0 then ok False (f\<lparr>wpos := wpos f - int skip\<rparr>)
        else bfd_skip io blen (skip - nat l) f)"

text \<open>From the label \<^verbatim>\<open>seek\<close> on, and from \<^verbatim>\<open>long_seek\<close> on.\<close>

definition bfd_lseek :: "io_policy \<Rightarrow> nat \<Rightarrow> fb_file \<Rightarrow> (bool, fb_file) fb_res" where
  "bfd_lseek io blen f =
     (let f = f\<lparr>wpos := pos f + (int (buffer f) - int (bptr f))\<rparr>; (r, f) = sys_lseek io (wpos f) SEEK_SET f in
      if r < 0 then bthrow ''read'' f else bfd_read io (buffer f) blen f)"

definition bfd_long_seek :: "io_policy \<Rightarrow> nat \<Rightarrow> nat \<Rightarrow> fb_file \<Rightarrow> (bool, fb_file) fb_res" where
  "bfd_long_seek io blen back f =
     bfd_lseek io blen (f\<lparr>bptr := buffer f + back, bstop := buffer f + blen\<rparr>)"

definition bfd_forward :: "io_policy \<Rightarrow> nat \<Rightarrow> nat \<Rightarrow> fb_file \<Rightarrow> (bool, fb_file) fb_res" where
  "bfd_forward io blen back f =
     (let diff = pos f - wpos f in
      if diff > int blen * 4 then bfd_long_seek io blen back f
      else if to_uint diff \<ge> back
      then let skip = to_uint (diff - int back) in
        fb_bind (bfd_skip io blen skip (f\<lparr>wpos := wpos f + int skip\<rparr>)) (\<lambda>r f.
          if \<not> r then bfd_eof f
          else bfd_read io (buffer f) blen (f\<lparr>bptr := buffer f + back, bstop := buffer f + blen\<rparr>))
      else let keep = back - to_uint diff;
          (keep, back, f) =
            (if keep \<ge> wlen f then (wlen f, to_uint (diff + int (wlen f)), f)
             else (keep, back, store_bytes (buffer f) (load_bytes (buffer f + wlen f - keep) keep f) f)) in
        bfd_read io (buffer f + keep) (blen - keep) (f\<lparr>bptr := buffer f + back, bstop := buffer f + blen\<rparr>))"

definition bfd_backward :: "io_policy \<Rightarrow> nat \<Rightarrow> nat \<Rightarrow> fb_file \<Rightarrow> (bool, fb_file) fb_res" where
  "bfd_backward io blen back f =
     (let diff = wpos f - pos f in
      if diff > int blen * 2 then bfd_long_seek io blen (if int back > pos f then to_uint (pos f) else back) f
      else if to_uint diff \<le> wlen f
      then let f = f\<lparr>bstop := buffer f + wlen f\<rparr> in ok True (f\<lparr>bptr := nat (int (bstop f) - diff), pos := wpos f\<rparr>)
      else let back = back * 3; back = (if int back > pos f then to_uint (pos f) else back);
          f = f\<lparr>bptr := buffer f + back, bstop := buffer f + blen\<rparr>;
          f = (if wlen f \<noteq> 0 \<and> int blen \<le> int back + diff \<and> int blen > int back + diff - int (wlen f)
               then let keep = to_uint (int blen + int (wlen f) - int back - diff) in
                 store_bytes (buffer f + blen - keep) (load_bytes (buffer f) keep f) f
               else f) in
        bfd_lseek io blen f)"

definition bfd_refill :: "io_policy \<Rightarrow> fb_file \<Rightarrow> (bool, fb_file) fb_res" where
  "bfd_refill io f =
     (let f = f\<lparr>buffer := fb_buffer f\<rparr>; blen = uint_diff (bufend f) (buffer f);
          back = (if keep_back_buf f \<noteq> 0 then blen div 4 else 0) in
      if wpos f \<le> pos f then bfd_forward io blen back f else bfd_backward io blen back f)"

section \<open>Writing and seeking\<close>

partial_function (option) bfd_write :: "io_policy \<Rightarrow> addr \<Rightarrow> nat \<Rightarrow> fb_file \<Rightarrow> (unit, fb_file) fb_res" where
  "bfd_write io c l f =
     (if l = 0 then ok () f
      else let (z, f) = sys_write io c l f in
        if z \<le> 0 then bthrow ''write'' f else bfd_write io (c + nat z) (l - nat z) f)"

definition bfd_spout :: "io_policy \<Rightarrow> fb_file \<Rightarrow> (unit, fb_file) fb_res" where
  "bfd_spout io f =
     (let (r, f) = (if wpos f \<noteq> pos f then sys_lseek io (pos f) SEEK_SET f else (0, f)) in
      if r < 0 then bthrow ''write'' f
      else let l = bptr f - buffer f; c = buffer f;
          f = f\<lparr>pos := pos f + int l, wpos := pos f + int l, wlen := 0\<rparr> in
        fb_bind (bfd_write io c l f) (\<lambda>_ f.
          ok () (f\<lparr>bptr := fb_buffer f, bstop := fb_buffer f, buffer := fb_buffer f\<rparr>)))"

definition bfd_seek :: "io_policy \<Rightarrow> fb_file \<Rightarrow> int \<Rightarrow> whence \<Rightarrow> (bool, fb_file) fb_res" where
  "bfd_seek io f p whence =
     (if bptr f \<noteq> bstop f then None
      else case whence of
        SEEK_SET \<Rightarrow> ok True (f\<lparr>pos := p\<rparr>)
      | SEEK_END \<Rightarrow>
          let (l, f) = sys_lseek io p SEEK_END f in
          if l < 0 then bthrow ''seek'' f else ok True (f\<lparr>wpos := l, pos := l, wlen := 0\<rparr>)
      | _ \<Rightarrow> None)"

definition bfd_ops :: "io_policy \<Rightarrow> fb_file fb_ops" where
  "bfd_ops io = \<lparr>fb_refill = Some (bfd_refill io), fb_spout = Some (bfd_spout io), fb_seek = Some (bfd_seek io)\<rparr>"

datatype bconfig_type = BCONFIG_IS_TEMP_FILE | BCONFIG_KEEP_BACK_BUF | BCONFIG_OTHER

definition bfd_config :: "fb_file \<Rightarrow> bconfig_type \<Rightarrow> int \<Rightarrow> int \<times> fb_file" where
  "bfd_config f item v =
     (case item of
        BCONFIG_IS_TEMP_FILE \<Rightarrow> (is_temp_file f, f\<lparr>is_temp_file := v\<rparr>)
      | BCONFIG_KEEP_BACK_BUF \<Rightarrow> (keep_back_buf f, f\<lparr>keep_back_buf := v\<rparr>)
      | BCONFIG_OTHER \<Rightarrow> (- 1, f))"

text \<open>A stream on an open file with the contents \<open>c\<close>, whose descriptor is at the start.\<close>

definition bfdopen_internal :: "placement \<Rightarrow> byte list \<Rightarrow> byte list \<Rightarrow> nat \<Rightarrow> heap \<Rightarrow> fb_file option" where
  "bfdopen_internal A c name buflen h =
     (if buflen = 0 then None
      else Option.bind (xmalloc_zero A (sizeof_fb_file + buflen + (length name + 1)) h) (\<lambda>(F, h).
        let b = F + sizeof_fb_file; h = store_bytes (b + buflen) (name @ [0]) h in
        Some \<lparr>mem = mem h, live = live h, bptr = b, bstop = b, buffer = b, bufend = b + buflen, pos = 0, flags = 0,
          res = ADDR_NULL, fb_buffer = b, is_temp_file = 0, keep_back_buf = 0, wpos = 0, wlen = 0,
          f_cont = c, f_off = 0, f_calls = 0\<rparr>))"

end
