(* ===== verification/Fastbuf_File_Inv.thy ===== *)
theory Fastbuf_File_Inv
  imports Fastbuf_File
begin

text \<open>
  The streams on files read the file: whatever the seeks before it and the sizes of the single
  reads, a refill brings the bytes at the position of the stream.
\<close>

section \<open>The invariant\<close>

text \<open>
  The window: the first \<open>wlen\<close> bytes of the buffer are those of the file before \<open>wpos\<close>,
  which is the offset of the descriptor. Where the buffer is not empty it ends with the window;
  where it is empty the stream may be anywhere, because seeks are delayed. The buffer is less
  than a gigabyte, so that no conversion to \<^verbatim>\<open>uint\<close> cuts an offset off.
\<close>

definition window :: "fb_file \<Rightarrow> nat \<Rightarrow> nat \<Rightarrow> bool" where
  "window f n i \<longleftrightarrow> n \<le> i \<and> (n = 0 \<or> i \<le> length (f_cont f)) \<and>
     load_bytes (buffer f) n f = take n (drop (i - n) (f_cont f))"

definition bfd_base :: "io_policy \<Rightarrow> fb_file \<Rightarrow> nat \<Rightarrow> byte list \<Rightarrow> bool" where
  "bfd_base io f blen c \<longleftrightarrow> (\<forall>t. 0 < io t) \<and> \<not> dead f \<and> buffer f = fb_buffer f \<and> bufend f = buffer f + blen \<and>
     0 < blen \<and> blen < 2 ^ 30 \<and> f_cont f = c \<and> 0 \<le> pos f \<and> wpos f = int (f_off f)"

definition bfd_inv :: "io_policy \<Rightarrow> fb_file \<Rightarrow> byte list \<Rightarrow> bool" where
  "bfd_inv io f c \<longleftrightarrow> (\<exists>blen. bfd_base io f blen c \<and> buffer f \<le> bptr f \<and> bptr f \<le> bstop f \<and> bstop f \<le> bufend f \<and>
     0 \<le> btell f \<and> wlen f \<le> blen \<and> window f (wlen f) (f_off f) \<and>
     (bptr f < bstop f \<longrightarrow> bstop f = buffer f + wlen f \<and> pos f = wpos f))"

lemma bfd_inv_reading:
  assumes "bfd_inv io f c"
  shows "reading f c"
proof -
  obtain blen where i: "bfd_base io f blen c" "buffer f \<le> bptr f" "bptr f \<le> bstop f" "bstop f \<le> bufend f" "0 \<le> btell f"
    "window f (wlen f) (f_off f)" "bptr f < bstop f \<longrightarrow> bstop f = buffer f + wlen f \<and> pos f = wpos f"
    using assms unfolding bfd_inv_def by blast
  have "load_bytes (bptr f) (bstop f - bptr f) f = take (bstop f - bptr f) (drop (at f) c)"
  proof (cases "bptr f < bstop f")
    case True
    define k where "k = bptr f - buffer f"
    define n where "n = bstop f - bptr f"
    have k: "bptr f = buffer f + k" "wlen f = k + n" "f_off f = nat (pos f)" "bstop f - bptr f = n" "at f + n = nat (pos f)"
      using i(1,2,5,7) True by (auto simp: k_def n_def bfd_base_def btell_def)
    have "load_bytes (buffer f + k) n f = drop k (load_bytes (buffer f) (k + n) f)" by (simp add: load_append)
    also have "\<dots> = drop k (take (k + n) (drop (f_off f - (k + n)) c))"
      using i(1,6) k(2) by (simp add: window_def bfd_base_def)
    also have "\<dots> = take n (drop (k + (f_off f - (k + n))) c)" by (simp add: drop_take add.commute)
    also have "k + (f_off f - (k + n)) = at f" using k(2,3,5) i(6) by (auto simp: window_def)
    finally show ?thesis using k(1,4) by simp
  qed (use i(3) in \<open>simp add: load_bytes_def\<close>)
  then show ?thesis using i(1-5) by (auto simp: reading_def bfd_base_def)
qed

section \<open>System calls\<close>

lemma store_calls: "store_bytes p xs (f\<lparr>f_calls := k\<rparr>) = (store_bytes p xs f)\<lparr>f_calls := k\<rparr>"
  by (simp add: store_bytes_def cong: if_cong)

lemma sys_read_ok:
  assumes "\<forall>t. 0 < io t" and "sys_read io p n f = (l, g)"
  shows "\<exists>k. l = int k \<and> k \<le> n \<and> k \<le> length (f_cont f) - f_off f \<and> (k = 0 \<longleftrightarrow> n = 0 \<or> length (f_cont f) \<le> f_off f) \<and>
    g = (store_bytes p (take k (drop (f_off f) (f_cont f))) f)\<lparr>f_off := f_off f + k, f_calls := f_calls f + 1\<rparr>"
proof -
  define k where "k = min (io (f_calls f)) (min n (length (f_cont f) - f_off f))"
  have "0 < io (f_calls f)" using assms(1) by blast
  then have "k \<le> n" "k \<le> length (f_cont f) - f_off f" "k = 0 \<longleftrightarrow> n = 0 \<or> length (f_cont f) \<le> f_off f"
    by (auto simp: k_def)
  moreover have "l = int k"
    "g = (store_bytes p (take k (drop (f_off f) (f_cont f))) f)\<lparr>f_off := f_off f + k, f_calls := f_calls f + 1\<rparr>"
    using assms(2) \<open>0 < io (f_calls f)\<close>
    by (auto simp: sys_read_def Let_def k_def [symmetric] store_calls)
  ultimately show ?thesis by blast
qed

lemma file_regs_store [simp]:
  "fb_buffer (store_bytes p xs f) = fb_buffer f" "wpos (store_bytes p xs f) = wpos f" "wlen (store_bytes p xs f) = wlen f"
  "f_cont (store_bytes p xs f) = f_cont f" "f_off (store_bytes p xs f) = f_off f" "keep_back_buf (store_bytes p xs f) = keep_back_buf f"
  by (simp_all add: store_bytes_def)

lemma load_file_regs [simp]:
  "load_bytes p n (f\<lparr>f_off := k\<rparr>) = load_bytes p n f" "load_bytes p n (f\<lparr>f_calls := k\<rparr>) = load_bytes p n f"
  "load_bytes p n (f\<lparr>wpos := i\<rparr>) = load_bytes p n f" "load_bytes p n (f\<lparr>wlen := k\<rparr>) = load_bytes p n f"
  "load_bytes p n (f\<lparr>f_cont := c\<rparr>) = load_bytes p n f"
  by (simp_all add: load_bytes_def)

lemma dead_file_regs [simp]:
  "dead (f\<lparr>f_off := k\<rparr>) = dead f" "dead (f\<lparr>f_calls := k\<rparr>) = dead f" "dead (f\<lparr>wpos := i\<rparr>) = dead f" "dead (f\<lparr>wlen := k\<rparr>) = dead f"
  "dead (f\<lparr>f_cont := c\<rparr>) = dead f"
  by (simp_all add: dead_def)

section \<open>Reading into the buffer\<close>

text \<open>
  The stream is to be at \<open>pos\<close>, \<open>back\<close> bytes into the buffer; \<open>r\<close> bytes have been read, not
  more than \<open>back\<close>.
\<close>

definition bfd_reading :: "io_policy \<Rightarrow> fb_file \<Rightarrow> nat \<Rightarrow> byte list \<Rightarrow> nat \<Rightarrow> nat \<Rightarrow> bool" where
  "bfd_reading io f blen c back r \<longleftrightarrow> bfd_base io f blen c \<and> back < blen \<and> r \<le> back \<and> bptr f = buffer f + back \<and>
     bstop f = buffer f + blen \<and> f_off f + back = nat (pos f) + r \<and> window f r (f_off f)"

definition refill_post :: "io_policy \<Rightarrow> fb_file \<Rightarrow> byte list \<Rightarrow> (bool, fb_file) fb_res \<Rightarrow> bool" where
  "refill_post io f c m \<longleftrightarrow> (\<exists>f'. m = ok (nat (pos f) < length c) f' \<and> bfd_inv io f' c \<and> btell f' = pos f \<and> flags f' = flags f \<and>
     (nat (pos f) < length c \<longrightarrow> bptr f' < bstop f'))"

lemma bfd_eof_ok:
  assumes "bfd_base io f blen c" and "length c \<le> nat (pos f)"
  shows "refill_post io f c (bfd_eof f)"
proof -
  let ?f = "f\<lparr>bptr := buffer f, bstop := buffer f, wlen := 0\<rparr>"
  have "bfd_inv io ?f c"
    using assms(1) unfolding bfd_inv_def by (intro exI [of _ blen]) (simp add: bfd_base_def btell_def window_def load_bytes_def)
  then show ?thesis using assms by (auto simp: refill_post_def bfd_eof_def btell_def)
qed

lemma bfd_done_ok:
  assumes "bfd_base io f blen c" and "bptr f = buffer f + back" and "bstop f = buffer f + blen" and "back \<le> r" and "r \<le> blen"
    and "f_off f + back = nat (pos f) + r" and "window f r (f_off f)" and "nat (pos f) < length c \<longleftrightarrow> back < r"
  shows "refill_post io f c (bfd_done (buffer f + r) (blen - r) f)"
proof -
  define g where "g = f\<lparr>bstop := buffer f + r, pos := int (f_off f), wlen := r\<rparr>"
  have p: "0 \<le> pos f" "blen < 2 ^ 30" using assms(1) by (simp_all add: bfd_base_def)
  have n: "pos f + (int (buffer f + r) - int (bptr f)) = int (f_off f)" using assms(2,4,6) p(1) by simp
  have u: "uint_diff (buffer f + r) (buffer f) = r" using assms(5) p(2) by (subst uint_diff_small) auto
  have f: "(if blen - r \<noteq> 0 then f\<lparr>bstop := buffer f + r\<rparr> else f) = f\<lparr>bstop := buffer f + r\<rparr>"
    using assms(3,5) by (cases "r = blen") simp_all
  have "bfd_done (buffer f + r) (blen - r) f = ok (int (buffer f + r) - int (bptr f) \<noteq> 0) g"
    unfolding bfd_done_def f Let_def using n u by (simp add: g_def)
  moreover have "(int (buffer f + r) - int (bptr f) \<noteq> 0) = (nat (pos f) < length c)" using assms(2,4,8) by auto
  moreover have "bfd_inv io g c"
    using assms p unfolding bfd_inv_def
    by (intro exI [of _ blen]) (auto simp: g_def bfd_base_def btell_def window_def)
  moreover have "btell g = pos f" "flags g = flags f" using n assms(2) by (simp_all add: g_def btell_def)
  moreover have "nat (pos f) < length c \<longrightarrow> bptr g < bstop g" using assms(2,8) by (simp add: g_def)
  ultimately show ?thesis unfolding refill_post_def by (intro exI [of _ g]) simp
qed

lemma refill_post_cong: "refill_post io g c m \<Longrightarrow> pos g = pos f \<Longrightarrow> flags g = flags f \<Longrightarrow> refill_post io f c m"
  by (simp add: refill_post_def)

lemma window_extend:
  assumes "window f r i" and "k \<le> length (f_cont f) - i" and "0 < k"
    and "mem g = mem (store_bytes (buffer f + r) (take k (drop i (f_cont f))) f)" and "buffer g = buffer f" and "f_cont g = f_cont f"
  shows "window g (r + k) (i + k)"
proof -
  let ?h = "store_bytes (buffer f + r) (take k (drop i (f_cont f))) f"
  have len: "length (take k (drop i (f_cont f))) = k" using assms(2) by simp
  have "load_bytes (buffer f + r) (length (take k (drop i (f_cont f)))) ?h = take k (drop i (f_cont f))" by (rule load_store_same)
  then have b: "load_bytes (buffer f + r) k ?h = take k (drop i (f_cont f))" unfolding len .
  have "load_bytes (buffer f) r ?h = load_bytes (buffer f) r f" by (rule load_store_disjoint) auto
  then have a: "load_bytes (buffer f) r ?h = take r (drop (i - r) (f_cont f))" using assms(1) by (simp add: window_def)
  have "load_bytes (buffer g) (r + k) g = load_bytes (buffer f) (r + k) ?h" using assms(4,5) by (simp add: load_bytes_def)
  also have "\<dots> = take r (drop (i - r) (f_cont f)) @ take k (drop i (f_cont f))" unfolding load_append a b ..
  also have "\<dots> = take (r + k) (drop (i - r) (f_cont f))" using assms(1) by (simp add: take_add window_def)
  finally show ?thesis using assms(1-3,6) by (auto simp: window_def)
qed

lemma bfd_read_ok:
  assumes "bfd_reading io f blen c back r"
  shows "refill_post io f c (bfd_read io (buffer f + r) (blen - r) f)"
  using assms
proof (induction "blen - r" arbitrary: r f rule: less_induct)
  case less
  have b: "bfd_base io f blen c" "back < blen" "r \<le> back" "bptr f = buffer f + back" "bstop f = buffer f + blen"
    "f_off f + back = nat (pos f) + r" "window f r (f_off f)" using less.prems by (simp_all add: bfd_reading_def)
  obtain l g where lg: "sys_read io (buffer f + r) (blen - r) f = (l, g)" by fastforce
  have "\<forall>t. 0 < io t" and c: "f_cont f = c" using b(1) by (simp_all add: bfd_base_def)
  from sys_read_ok [OF this(1) lg] obtain k where k: "l = int k" "k \<le> blen - r" "k \<le> length c - f_off f"
    "k = 0 \<longleftrightarrow> length c \<le> f_off f"
    "g = (store_bytes (buffer f + r) (take k (drop (f_off f) c)) f)\<lparr>f_off := f_off f + k, f_calls := f_calls f + 1\<rparr>"
    using b(2,3) c by auto
  show ?case
  proof (cases "k = 0")
    case True
    then have g: "g = f\<lparr>f_calls := f_calls f + 1\<rparr>" using k(5) by simp
    have bg: "bfd_base io g blen c" using b(1) by (simp add: g bfd_base_def)
    have step: "bfd_read io (buffer f + r) (blen - r) f =
        (if buffer f + r < bptr f then bfd_eof g else bfd_done (buffer f + r) (blen - r) g)"
      using lg k(1) True by (subst bfd_read.simps) (simp add: g)
    have len: "length c \<le> f_off f" using k(4) True by simp
    show ?thesis
    proof (cases "r < back")
      case True
      then have "length c \<le> nat (pos g)" using len b(6) by (simp add: g)
      from bfd_eof_ok [OF bg this] show ?thesis
        unfolding step using True b(4) by (auto simp: g elim: refill_post_cong)
    next
      case False
      then have "r = back" using b(3) by simp
      then have "refill_post io g c (bfd_done (buffer g + r) (blen - r) g)"
        using b len by (intro bfd_done_ok [OF bg, of "back"]) (auto simp: g window_def)
      then show ?thesis unfolding step using False b(4) by (auto simp: g elim: refill_post_cong)
    qed
  next
    case False
    define h where "h = g\<lparr>wpos := wpos g + l\<rparr>"
    have h: "bptr h = bptr f" "buffer h = buffer f" "bstop h = bstop f" "pos h = pos f" "flags h = flags f" "f_off h = f_off f + k"
      by (simp_all add: h_def k(5))
    have bh: "bfd_base io h blen c" using b(1) by (simp add: h_def k(1,5) bfd_base_def)
    have w: "window h (r + k) (f_off h)"
      unfolding h(6) using b(7) k(3) False by (intro window_extend [of f]) (simp_all add: h_def k(5) c)
    have step: "bfd_read io (buffer f + r) (blen - r) f =
        (if buffer f + r + k \<le> bptr h then bfd_read io (buffer h + (r + k)) (blen - (r + k)) h
         else bfd_done (buffer h + (r + k)) (blen - (r + k)) h)"
      using lg k(1) False h(2) by (subst bfd_read.simps) (simp add: h_def Let_def add.assoc)
    show ?thesis
    proof (cases "r + k \<le> back")
      case True
      then have "bfd_reading io h blen c back (r + k)" using b bh w by (simp add: bfd_reading_def h)
      moreover have "blen - (r + k) < blen - r" using False True b(2) by simp
      ultimately have "refill_post io h c (bfd_read io (buffer h + (r + k)) (blen - (r + k)) h)" using less.hyps by blast
      then show ?thesis unfolding step using True b(4) h by (auto elim: refill_post_cong)
    next
      case F: False
      have "nat (pos h) < length c" using F b(6) k(3) False by (simp add: h)
      then have "refill_post io h c (bfd_done (buffer h + (r + k)) (blen - (r + k)) h)"
        using b F k(2) w by (intro bfd_done_ok [OF bh, of "back"]) (auto simp: h)
      then show ?thesis unfolding step using F b(4) h by (auto elim: refill_post_cong)
    qed
  qed
qed

section \<open>Seeking\<close>

lemma bfd_lseek_ok:
  assumes "bfd_base io f blen c" and "back < blen" and "back \<le> nat (pos f)" and "bptr f = buffer f + back"
    and "bstop f = buffer f + blen"
  shows "refill_post io f c (bfd_lseek io blen f)"
proof -
  define g where "g = f\<lparr>wpos := pos f - int back, f_calls := f_calls f + 1, f_off := nat (pos f - int back)\<rparr>"
  have p: "0 \<le> pos f" "\<forall>t. 0 < io t" using assms(1) by (simp_all add: bfd_base_def)
  then have "bfd_base io g blen c" using assms(1,3) by (simp add: bfd_base_def g_def)
  then have "bfd_reading io g blen c back 0"
    using assms(2-5) p(1) by (auto simp: bfd_reading_def g_def window_def load_bytes_def)
  from bfd_read_ok [OF this] have "refill_post io g c (bfd_read io (buffer g) blen g)" by simp
  moreover have "io (f_calls f) \<noteq> 0" "\<not> pos f < int back" using p assms(3) by auto
  then have "bfd_lseek io blen f = bfd_read io (buffer g) blen g"
    using assms(4) by (simp add: bfd_lseek_def sys_lseek_def g_def Let_def)
  ultimately show ?thesis by (auto simp: g_def elim: refill_post_cong)
qed

lemma bfd_long_seek_ok:
  assumes "bfd_base io f blen c" and "back < blen" and "back \<le> nat (pos f)"
  shows "refill_post io f c (bfd_long_seek io blen back f)"
proof -
  let ?f = "f\<lparr>bptr := buffer f + back, bstop := buffer f + blen\<rparr>"
  have "bfd_base io ?f blen c" using assms(1) by (simp add: bfd_base_def)
  then have "refill_post io ?f c (bfd_lseek io blen ?f)" using assms(2,3) by (intro bfd_lseek_ok) simp_all
  then show ?thesis by (auto simp: bfd_long_seek_def elim: refill_post_cong)
qed

lemma bfd_skip_ok:
  assumes "bfd_base io (f\<lparr>wpos := int (f_off f)\<rparr>) blen c" and "wpos f = int (f_off f) + int skip"
  shows "\<exists>g r. bfd_skip io blen skip f = ok r g \<and> bfd_base io g blen c \<and> pos g = pos f \<and> flags g = flags f \<and> buffer g = buffer f \<and>
    (r \<longrightarrow> f_off g = f_off f + skip) \<and> (\<not> r \<longrightarrow> length c \<le> f_off f + skip)"
  using assms
proof (induction skip arbitrary: f rule: less_induct)
  case (less skip)
  show ?case
  proof (cases "skip = 0")
    case True
    then show ?thesis using less.prems by (subst bfd_skip.simps) (auto simp: bfd_base_def)
  next
    case False
    obtain l g where lg: "sys_read io (buffer f) (min skip blen) f = (l, g)" by fastforce
    have io: "\<forall>t. 0 < io t" "f_cont f = c" "0 < blen" using less.prems(1) by (simp_all add: bfd_base_def)
    from sys_read_ok [OF io(1) lg] obtain k where k: "l = int k" "k \<le> skip" "k \<le> length c - f_off f" "k = 0 \<longleftrightarrow> length c \<le> f_off f"
      "g = (store_bytes (buffer f) (take k (drop (f_off f) c)) f)\<lparr>f_off := f_off f + k, f_calls := f_calls f + 1\<rparr>"
      using False io by auto
    have g: "bfd_base io (g\<lparr>wpos := int (f_off g)\<rparr>) blen c" "pos g = pos f" "flags g = flags f" "buffer g = buffer f"
      using less.prems(1) by (simp_all add: bfd_base_def k(5))
    show ?thesis
    proof (cases "k = 0")
      case True
      let ?h = "g\<lparr>wpos := wpos g - int skip\<rparr>"
      have "bfd_skip io blen skip f = ok False ?h" using lg k(1) True False by (subst bfd_skip.simps) simp
      moreover have "?h = g\<lparr>wpos := int (f_off g)\<rparr>" using less.prems(2) k(5) True by simp
      then have "bfd_base io ?h blen c" using g(1) by simp
      ultimately show ?thesis using g k(4) True by auto
    next
      case kn: False
      then have "skip - k < skip" using False by simp
      moreover have "wpos g = int (f_off g) + int (skip - k)" using less.prems(2) k(2,5) by simp
      ultimately obtain h r where "bfd_skip io blen (skip - k) g = ok r h" "bfd_base io h blen c" "pos h = pos g" "flags h = flags g"
        "buffer h = buffer g" "r \<longrightarrow> f_off h = f_off g + (skip - k)" "\<not> r \<longrightarrow> length c \<le> f_off g + (skip - k)"
        using less.IH [of "skip - k" g] g(1) by blast
      moreover have "bfd_skip io blen skip f = bfd_skip io blen (skip - k) g"
        using lg k(1) kn False by (subst bfd_skip.simps) simp
      moreover have "f_off g = f_off f + k" by (simp add: k(5))
      ultimately show ?thesis using g k(2) by auto
    qed
  qed
qed

section \<open>The refill\<close>

lemma to_uint_small: "0 \<le> i \<Longrightarrow> i < 2 ^ 32 \<Longrightarrow> to_uint i = nat i"
  by (simp add: to_uint_def)

text \<open>Moving the end of the window to the start of the buffer.\<close>

lemma window_keep:
  assumes "window f n i" and "k \<le> n"
  shows "window (store_bytes (buffer f) (load_bytes (buffer f + n - k) k f) f) k i"
proof -
  have "load_bytes (buffer f) n f = take n (drop (i - n) (f_cont f))" using assms(1) by (simp add: window_def)
  then have "load_bytes (buffer f) (n - k + k) f = take n (drop (i - n) (f_cont f))" using assms(2) by simp
  then have "load_bytes (buffer f + (n - k)) k f = drop (n - k) (take n (drop (i - n) (f_cont f)))"
    unfolding load_append by (metis append_eq_conv_conj length_load)
  also have "\<dots> = take k (drop (n - k + (i - n)) (f_cont f))" using assms(2) by (simp add: drop_take add.commute)
  also have "n - k + (i - n) = i - k" using assms by (simp add: window_def)
  finally have k: "load_bytes (buffer f + n - k) k f = take k (drop (i - k) (f_cont f))" using assms(2) by simp
  have "load_bytes (buffer f) (length (load_bytes (buffer f + n - k) k f)) (store_bytes (buffer f) (load_bytes (buffer f + n - k) k f) f) =
    load_bytes (buffer f + n - k) k f" by (rule load_store_same)
  then show ?thesis using assms k by (auto simp: window_def)
qed

lemma bfd_forward_ok:
  assumes "bfd_base io f blen c" and "window f (wlen f) (f_off f)" and "back \<le> blen div 4" and "wpos f \<le> pos f"
  shows "refill_post io f c (bfd_forward io blen back f)"
proof -
  define diff where "diff = pos f - wpos f"
  have b: "back < blen" "blen < 2 ^ 30" "wpos f = int (f_off f)" using assms(1,3) by (auto simp: bfd_base_def)
  have p: "pos f = int (f_off f) + diff" "0 \<le> diff" using b(3) assms(4) by (simp_all add: diff_def)
  consider (long) "diff > int blen * 4" | (skip) "diff \<le> int blen * 4" "int back \<le> diff" | (keep) "diff < int back"
    using b(1) by linarith
  then show ?thesis
  proof cases
    case long
    have "back \<le> nat (pos f)" using long p b(1) by linarith
    from bfd_long_seek_ok [OF assms(1) b(1) this] show ?thesis
      using long by (simp add: bfd_forward_def flip: diff_def)
  next
    case skip
    define sk where "sk = nat (diff - int back)"
    let ?f = "f\<lparr>wpos := wpos f + int sk\<rparr>"
    have u: "to_uint diff = nat diff" "to_uint (diff - int back) = sk" using skip b(2) p(2)
      by (auto simp: sk_def intro!: to_uint_small)
    obtain g r where g: "bfd_skip io blen sk ?f = ok r g" "bfd_base io g blen c" "pos g = pos f" "flags g = flags f" "buffer g = buffer f"
      "r \<longrightarrow> f_off g = f_off f + sk" "\<not> r \<longrightarrow> length c \<le> f_off f + sk"
      using bfd_skip_ok [of io ?f blen c sk] assms(1) b(3) by (auto simp: bfd_base_def)
    let ?g = "g\<lparr>bptr := buffer g + back, bstop := buffer g + blen\<rparr>"
    have step: "bfd_forward io blen back f = (if \<not> r then bfd_eof g else bfd_read io (buffer g) blen ?g)"
      using skip u g(1) by (simp add: bfd_forward_def Let_def flip: diff_def) linarith
    show ?thesis
    proof (cases r)
      case True
      have "bfd_reading io ?g blen c back 0"
        using g(2,3,6) True b(1) p skip(2) by (auto simp: bfd_reading_def bfd_base_def window_def load_bytes_def sk_def)
      from bfd_read_ok [OF this] show ?thesis unfolding step using True g(3,4) by (auto elim: refill_post_cong)
    next
      case False
      have "length c \<le> nat (pos g)" using g(3,7) False p skip(2) by (simp add: sk_def)
      from bfd_eof_ok [OF g(2) this] show ?thesis unfolding step using False g(3,4) by (auto elim: refill_post_cong)
    qed
  next
    case keep
    have u: "to_uint diff = nat diff" "\<not> back \<le> nat diff" using keep b p(2) by (auto intro!: to_uint_small)
    define kp where "kp = back - nat diff"
    have notlong: "\<not> diff > int blen * 4" using keep b(1) by linarith
    show ?thesis
    proof (cases "wlen f \<le> kp")
      case True
      define bk where "bk = nat diff + wlen f"
      let ?f = "f\<lparr>bptr := buffer f + bk, bstop := buffer f + blen\<rparr>"
      have u': "to_uint (diff + int (wlen f)) = bk" using True keep b p(2) by (subst to_uint_small) (auto simp: kp_def bk_def)
      have "bfd_reading io ?f blen c bk (wlen f)"
        using assms(1,2) True b(1) p u(2) by (auto simp: bfd_reading_def bfd_base_def window_def bk_def kp_def)
      from bfd_read_ok [OF this] have "refill_post io ?f c (bfd_read io (buffer f + wlen f) (blen - wlen f) ?f)" by simp
      moreover have "bfd_forward io blen back f = bfd_read io (buffer f + wlen f) (blen - wlen f) ?f"
        using notlong u u' True by (simp add: bfd_forward_def Let_def flip: diff_def kp_def)
      ultimately show ?thesis by (auto elim: refill_post_cong)
    next
      case False
      define g where "g = store_bytes (buffer f) (load_bytes (buffer f + wlen f - kp) kp f) f"
      let ?g = "g\<lparr>bptr := buffer g + back, bstop := buffer g + blen\<rparr>"
      have "window g kp (f_off f)" unfolding g_def using False by (intro window_keep [OF assms(2)]) simp
      then have "bfd_reading io ?g blen c back kp"
        using assms(1) b(1) p u(2) by (auto simp: bfd_reading_def bfd_base_def window_def g_def kp_def)
      from bfd_read_ok [OF this] have "refill_post io ?g c (bfd_read io (buffer g + kp) (blen - kp) ?g)" by simp
      moreover have "bfd_forward io blen back f = bfd_read io (buffer g + kp) (blen - kp) ?g"
        using notlong u False by (simp add: bfd_forward_def Let_def g_def flip: diff_def kp_def)
      ultimately show ?thesis by (auto simp: g_def elim: refill_post_cong)
    qed
  qed
qed

end
