(* ===== verification/Fastbuf_File_Ops.thy ===== *)
theory Fastbuf_File_Ops
  imports Fastbuf_File_Inv
begin

text \<open>
  The streams on files keep the contracts of the front end: they refine the abstract stream of
  the contents of the file, and what is written to a new file is its contents. What is written
  after reading is not.
\<close>

section \<open>Reading\<close>

lemma bfd_backward_ok:
  assumes "bfd_base io f blen c" and "window f (wlen f) (f_off f)" and "wlen f \<le> blen" and "back \<le> blen div 4" and "pos f < wpos f"
  shows "refill_post io f c (bfd_backward io blen back f)"
proof -
  define diff where "diff = wpos f - pos f"
  have b: "back < blen" "3 * back < blen" "blen < 2 ^ 30" "wpos f = int (f_off f)" "0 \<le> pos f" using assms(1,4) by (auto simp: bfd_base_def)
  have p: "pos f = int (f_off f) - diff" "0 < diff" using b(4) assms(5) by (simp_all add: diff_def)
  consider (long) "diff > int blen * 2" | (window) "diff \<le> int (wlen f)" | (seek) "diff \<le> int blen * 2" "int (wlen f) < diff"
    by linarith
  then show ?thesis
  proof cases
    case long
    define bk where "bk = (if int back > pos f then to_uint (pos f) else back)"
    have "bk < blen" "bk \<le> nat (pos f)" using b by (auto simp: bk_def to_uint_def)
    from bfd_long_seek_ok [OF assms(1) this] show ?thesis using long by (simp add: bfd_backward_def Let_def flip: diff_def bk_def)
  next
    case window
    define g where "g = f\<lparr>bstop := buffer f + wlen f, bptr := buffer f + (wlen f - nat diff), pos := wpos f\<rparr>"
    have u: "to_uint diff = nat diff" "nat (int (buffer f + wlen f) - diff) = buffer f + (wlen f - nat diff)"
      using window b p(2) assms(3) by (auto intro!: to_uint_small)
    have "bfd_backward io blen back f = ok True g"
      using window u assms(3) by (simp add: bfd_backward_def Let_def g_def flip: diff_def) linarith
    moreover have "bfd_inv io g c"
      using assms(1-3) b p window unfolding bfd_inv_def
      by (intro exI [of _ blen]) (auto simp: g_def bfd_base_def window_def btell_def)
    moreover have "btell g = pos f" "flags g = flags f" "bptr g < bstop g"
      using window p(2) b(4) unfolding p(1) by (auto simp: g_def btell_def)
    moreover have "nat (pos f) < length c" using assms(1,2) p window by (auto simp: window_def bfd_base_def)
    ultimately show ?thesis by (auto simp: refill_post_def)
  next
    case seek
    define bk where "bk = (if int (back * 3) > pos f then to_uint (pos f) else back * 3)"
    let ?f = "f\<lparr>bptr := buffer f + bk, bstop := buffer f + blen\<rparr>"
    define g where "g = (if wlen f \<noteq> 0 \<and> int blen \<le> int bk + diff \<and> int blen > int bk + diff - int (wlen f)
       then let keep = to_uint (int blen + int (wlen f) - int bk - diff) in
         store_bytes (buffer f + blen - keep) (load_bytes (buffer f) keep ?f) ?f
       else ?f)"
    have u: "\<not> to_uint diff \<le> wlen f" using seek b p(2) by (subst to_uint_small) auto
    have bk: "bk < blen" "bk \<le> nat (pos f)" using b by (auto simp: bk_def to_uint_def)
    have "bfd_base io g blen c" "pos g = pos f" "bptr g = buffer g + bk" "bstop g = buffer g + blen" "flags g = flags f"
      using assms(1) by (simp_all add: g_def bfd_base_def Let_def)
    then have "refill_post io f c (bfd_lseek io blen g)"
      using bk by (intro refill_post_cong [OF bfd_lseek_ok [of io g blen c bk]]) simp_all
    moreover have "bfd_backward io blen back f = bfd_lseek io blen g"
      unfolding bfd_backward_def Let_def diff_def [symmetric] bk_def [symmetric] using seek u by (simp add: g_def Let_def)
    ultimately show ?thesis by simp
  qed
qed

lemma bfd_refill_ok:
  assumes "bfd_inv io f c" and "bptr f = bstop f"
  shows "refill_post io f c (bfd_refill io f)"
proof -
  obtain blen where i: "bfd_base io f blen c" "wlen f \<le> blen" "window f (wlen f) (f_off f)"
    using assms(1) unfolding bfd_inv_def by blast
  have u: "f\<lparr>buffer := fb_buffer f\<rparr> = f" "uint_diff (bufend f) (buffer f) = blen"
    using i(1) by (simp_all add: bfd_base_def uint_diff_small)
  define bk where "bk = (if keep_back_buf f \<noteq> 0 then blen div 4 else 0)"
  have "bk \<le> blen div 4" by (simp add: bk_def)
  then show ?thesis
    using bfd_forward_ok [OF i(1,3)] bfd_backward_ok [OF i(1,3,2)] by (simp add: bfd_refill_def Let_def u flip: bk_def)
qed

interpretation bfd: fb_seeker "bfd_ops io" "bfd_inv io" for io
proof
  fix f c n
  assume "bfd_inv io f c" "bptr f + n \<le> bstop f"
  then show "bfd_inv io (f\<lparr>bptr := bptr f + n\<rparr>) c" by (auto simp: bfd_inv_def bfd_base_def window_def btell_def)
next
  fix f c
  assume i: "bfd_inv io f c" "bptr f = bstop f"
  have "pos f = btell f" using i(2) by (simp add: btell_def)
  then show "\<exists>refill f'. fb_refill (bfd_ops io) = Some refill \<and> refill f = ok (at f < length c) f' \<and> bfd_inv io f' c \<and>
      btell f' = btell f \<and> flags f' = flags f \<and> (at f < length c \<longrightarrow> bptr f' < bstop f')"
    using bfd_refill_ok [OF i] by (simp add: bfd_ops_def refill_post_def)
next
  fix f c a
  assume "bfd_inv io f c" "bptr f < bstop f" "buffer f \<le> a" "a \<le> bstop f" "0 \<le> pos f - (int (bstop f) - int a)"
  then show "bfd_inv io (f\<lparr>bptr := a\<rparr>) c" by (auto simp: bfd_inv_def bfd_base_def window_def btell_def)
next
  fix f c and p :: int
  assume "bfd_inv io f c" "bptr f = bstop f" "0 \<le> p"
  then show "\<exists>seek f'. fb_seek (bfd_ops io) = Some seek \<and> seek f p SEEK_SET = ok True f' \<and> bfd_inv io f' c \<and>
      bptr f' = bstop f' \<and> btell f' = p \<and> flags f' = flags f"
    by (auto simp: bfd_ops_def bfd_seek_def bfd_inv_def bfd_base_def window_def btell_def)
next
  fix f c and p :: int
  assume i: "bfd_inv io f c" "bptr f = bstop f" "p \<le> 0" "0 \<le> int (length c) + p"
  then have io: "io (f_calls f) \<noteq> 0" and c: "f_cont f = c" by (auto simp: bfd_inv_def bfd_base_def)
  define g where "g = f\<lparr>f_calls := f_calls f + 1, f_off := nat (int (length c) + p), wpos := int (length c) + p,
    pos := int (length c) + p, wlen := 0\<rparr>"
  have "bfd_seek io f p SEEK_END = ok True g" using i(2,4) io c by (simp add: bfd_seek_def sys_lseek_def g_def Let_def)
  moreover have "bfd_inv io g c" using i by (auto simp: bfd_inv_def bfd_base_def window_def btell_def g_def load_bytes_def)
  moreover have "bptr g = bstop g" "btell g = int (length c) + p" "flags g = flags f" using i(2) by (simp_all add: g_def btell_def)
  ultimately show "\<exists>seek f'. fb_seek (bfd_ops io) = Some seek \<and> seek f p SEEK_END = ok True f' \<and> bfd_inv io f' c \<and>
      bptr f' = bstop f' \<and> btell f' = int (length c) + p \<and> flags f' = flags f"
    by (auto simp: bfd_ops_def)
qed (use bfd_inv_reading in blast)

text \<open>A new stream.\<close>

lemma xmalloc_zero_Some: "allocator_ok A \<Longrightarrow> \<exists>F h'. xmalloc_zero A n h = Some (F, h')"
  using allocator_okD(1) [of A "live h" n] by (simp add: xmalloc_zero_def xmalloc_def malloc_def memset0_def Let_def)

lemma bfdopen_ok:
  assumes "allocator_ok A" and "0 < n" and "n < 2 ^ 30"
  shows "\<exists>f. bfdopen_internal A c name n h = Some f \<and> bufend f = buffer f + n \<and> buffer f = fb_buffer f \<and> bptr f = buffer f \<and>
    bstop f = buffer f \<and> pos f = 0 \<and> flags f = 0 \<and> res f = ADDR_NULL \<and> keep_back_buf f = 0 \<and> wpos f = 0 \<and> wlen f = 0 \<and>
    f_cont f = c \<and> f_off f = 0 \<and> f_calls f = 0"
  using xmalloc_zero_Some [OF assms(1), of "sizeof_fb_file + n + (length name + 1)" h] assms(2)
  by (auto simp: bfdopen_internal_def Let_def)

lemma bfdopen_inv:
  assumes "allocator_ok A" and "0 < n" and "n < 2 ^ 30" and "\<forall>t. 0 < io t"
  shows "\<exists>f. bfdopen_internal A c name n h = Some f \<and> bfd_inv io (snd (bfd_config f BCONFIG_KEEP_BACK_BUF v)) c \<and>
    btell (snd (bfd_config f BCONFIG_KEEP_BACK_BUF v)) = 0 \<and> flags (snd (bfd_config f BCONFIG_KEEP_BACK_BUF v)) = 0 \<and>
    bavailr (snd (bfd_config f BCONFIG_KEEP_BACK_BUF v)) = 0"
  using bfdopen_ok [OF assms(1-3), of c name h] assms(2-4)
  by (auto simp: bfd_config_def bfd_inv_def bfd_base_def btell_def window_def load_bytes_def dead_def bavailr_def uint_diff_def)

text \<open>
  C11: A stream on a file, with any buffer of less than a gigabyte and with or without a back
  buffer, refines the abstract stream of the contents of the file: any sequence of reads of
  characters, blocks and lines, skips, seeks and size queries within the contract gives the
  results of the abstract stream, however the operating system splits the reads.
\<close>

theorem bfd_refines_stream:
  assumes "allocator_ok A" and "0 < n" and "n < 2 ^ 30" and "\<forall>t. 0 < io t" and "spec_run c cmds 0 = Some (vs, q)"
  shows "\<exists>f f'. bfdopen_internal A c name n h = Some f \<and>
    run (bfd_ops io) cmds (snd (bfd_config f BCONFIG_KEEP_BACK_BUF v)) = ok vs f' \<and> btell f' = int q"
  using bfdopen_inv [OF assms(1-4), of c name h v] bfd.run_ok [of io "snd (bfd_config _ BCONFIG_KEEP_BACK_BUF v)" c cmds vs q] assms(5)
  by fastforce

theorem bfd_refines_stream_witness:
  "\<exists>f f'. bfdopen_internal bump [65, 66, 10, 67, 68] [102] 2 \<lparr>mem = \<lambda>_. 0, live = []\<rparr> = Some f \<and>
    run (bfd_ops (\<lambda>t. 1 + t mod 2)) [Gets 8, Getc, Seek 0 SEEK_END, Eof, Seek (- 4) SEEK_CUR, Read 9, Rewind, Skip 1, Peekc]
      (snd (bfd_config f BCONFIG_KEEP_BACK_BUF 1)) =
    ok [Line (Some [65, 66]), Num 67, Done, Flag True, Done, Bytes [66, 10, 67, 68], Done, Flag True, Num 66] f' \<and> btell f' = 1"
proof -
  have "spec_run [65, 66, 10, 67, 68] [Gets 8, Getc, Seek 0 SEEK_END, Eof, Seek (- 4) SEEK_CUR, Read 9, Rewind, Skip 1, Peekc] 0 =
    Some ([Line (Some [65, 66]), Num 67, Done, Flag True, Done, Bytes [66, 10, 67, 68], Done, Flag True, Num 66], 1)"
    by (simp add: line_of_def seek_target_def)
  from bfd_refines_stream [OF bump_ok _ _ _ this, of 2 "\<lambda>t. 1 + t mod 2" "[102]" "\<lparr>mem = \<lambda>_. 0, live = []\<rparr>" 1] show ?thesis by simp
qed

section \<open>Writing\<close>

lemma overlay_end [simp]: "overlay c (length c) xs = c @ xs"
  by (simp add: overlay_def)

lemma overlay_append: "overlay (overlay c i xs) (i + length xs) ys = overlay c i (xs @ ys)"
proof -
  define d where "d = c @ replicate (i - length c) 0"
  have d: "i \<le> length d" "min (length d) i = i" by (simp_all add: d_def)
  have "overlay c i zs = take i d @ zs @ drop (i + length zs) d" for zs by (simp add: overlay_def d_def Let_def)
  moreover have "overlay (take i d @ xs @ drop (i + length xs) d) (i + length xs) ys =
      take i d @ xs @ ys @ drop (i + length (xs @ ys)) d"
    using d by (simp add: overlay_def Let_def min_absorb2 ac_simps)
  ultimately show ?thesis by simp
qed

lemma bfd_write_ok:
  assumes "\<forall>t. 0 < io t" and "0 < l"
  shows "\<exists>n. bfd_write io p l f =
    ok () (f\<lparr>f_cont := overlay (f_cont f) (f_off f) (load_bytes p l f), f_off := f_off f + l, f_calls := n\<rparr>)"
  using assms(2)
proof (induction l arbitrary: p f rule: less_induct)
  case (less l)
  define k where "k = min (io (f_calls f)) l"
  have k: "0 < k" "k \<le> l" using assms(1) less.prems by (simp_all add: k_def)
  define g where "g = f\<lparr>f_cont := overlay (f_cont f) (f_off f) (load_bytes p k f), f_off := f_off f + k, f_calls := f_calls f + 1\<rparr>"
  have io: "io (f_calls f) \<noteq> 0" using assms(1) by auto
  have "sys_write io p l f = (int k, g)"
    using io by (simp add: sys_write_def Let_def g_def k_def [symmetric] load_bytes_def)
  then have step: "bfd_write io p l f = bfd_write io (p + k) (l - k) g"
    using less.prems k(1) by (subst bfd_write.simps) simp
  show ?case
  proof (cases "k = l")
    case True
    have "bfd_write io (p + k) (l - k) g = ok () g" using True by (subst bfd_write.simps) simp
    then show ?thesis unfolding step using True by (auto simp: g_def)
  next
    case False
    then obtain n where n: "bfd_write io (p + k) (l - k) g =
        ok () (g\<lparr>f_cont := overlay (f_cont g) (f_off g) (load_bytes (p + k) (l - k) g), f_off := f_off g + (l - k), f_calls := n\<rparr>)"
      using less.IH [of "l - k" "p + k" g] k by auto
    have m: "load_bytes (p + k) (l - k) g = load_bytes (p + k) (l - k) f" by (simp add: g_def load_bytes_def)
    have "overlay (f_cont g) (f_off g) (load_bytes (p + k) (l - k) g) = overlay (f_cont f) (f_off f) (load_bytes p k f @ load_bytes (p + k) (l - k) f)"
      unfolding m using overlay_append [of "f_cont f" "f_off f" "load_bytes p k f" "load_bytes (p + k) (l - k) f"] by (simp add: g_def)
    also have "load_bytes p k f @ load_bytes (p + k) (l - k) f = load_bytes p l f" using load_append [of p k "l - k" f] k(2) by simp
    finally show ?thesis unfolding step n using k(2) by (auto simp: g_def)
  qed
qed

text \<open>The buffer goes to the file at the position of the stream.\<close>

lemma bfd_spout_ok:
  assumes "bfd_base io f blen c" and "buffer f < bptr f"
  shows "\<exists>f'. bfd_spout io f = ok () f' \<and> f_cont f' = overlay c (nat (pos f)) (load_bytes (buffer f) (bptr f - buffer f) f) \<and>
    bfd_base io f' blen (f_cont f') \<and> bptr f' = buffer f \<and> bstop f' = buffer f \<and> buffer f' = buffer f \<and>
    pos f' = pos f + int (bptr f - buffer f) \<and> wpos f' = pos f' \<and> flags f' = flags f"
proof -
  have b: "\<forall>t. 0 < io t" "0 \<le> pos f" "wpos f = int (f_off f)" "f_cont f = c" "buffer f = fb_buffer f"
    using assms(1) by (simp_all add: bfd_base_def)
  then have io: "io t \<noteq> 0" for t by simp
  define l where "l = bptr f - buffer f"
  obtain m where m: "(if wpos f \<noteq> pos f then sys_lseek io (pos f) SEEK_SET f else (0, f)) =
      (if wpos f \<noteq> pos f then pos f else 0, f\<lparr>f_calls := m, f_off := nat (pos f)\<rparr>)"
  proof (cases "wpos f = pos f")
    case True
    then have "f\<lparr>f_calls := f_calls f, f_off := nat (pos f)\<rparr> = f" using b(3) by simp
    with True show ?thesis using that [of "f_calls f"] by simp
  next
    case False
    then show ?thesis using b(2) io that [of "f_calls f + 1"] by (simp add: sys_lseek_def Let_def)
  qed
  let ?f = "f\<lparr>f_calls := m, f_off := nat (pos f), pos := pos f + int l, wpos := pos f + int l, wlen := 0\<rparr>"
  obtain n where n: "bfd_write io (buffer f) l ?f =
      ok () (?f\<lparr>f_cont := overlay c (nat (pos f)) (load_bytes (buffer f) l f), f_off := nat (pos f) + l, f_calls := n\<rparr>)"
    using bfd_write_ok [OF b(1), of l "buffer f" ?f] assms(2) b(4) by (auto simp: l_def)
  have "bfd_spout io f = fb_bind (bfd_write io (buffer f) l ?f) (\<lambda>_ f.
      ok () (f\<lparr>bptr := fb_buffer f, bstop := fb_buffer f, buffer := fb_buffer f\<rparr>))"
    unfolding bfd_spout_def m using b(2) by (simp add: l_def Let_def)
  then show ?thesis unfolding n using assms(1) b by (auto simp: bfd_base_def l_def)
qed

text \<open>A stream that only writes, to the end of its file.\<close>

definition bfd_winv :: "io_policy \<Rightarrow> fb_file \<Rightarrow> byte list \<Rightarrow> bool" where
  "bfd_winv io f w \<longleftrightarrow> (\<exists>blen. bfd_base io f blen (f_cont f) \<and> bstop f = buffer f \<and> buffer f \<le> bptr f \<and> bptr f \<le> bufend f \<and>
     pos f = int (length (f_cont f)) \<and> wpos f = pos f \<and> w = f_cont f @ load_bytes (buffer f) (bptr f - buffer f) f)"

lemma bfd_spouts:
  assumes "bfd_winv io f w"
  shows "\<exists>f'. bfd_spout io f = ok () f' \<and> bfd_winv io f' w \<and> bptr f' < bufend f' \<and> (buffer f < bptr f \<longrightarrow> f_cont f' = w)"
proof -
  obtain blen where i: "bfd_base io f blen (f_cont f)" "bstop f = buffer f" "buffer f \<le> bptr f" "bptr f \<le> bufend f"
    "pos f = int (length (f_cont f))" "wpos f = pos f" "w = f_cont f @ load_bytes (buffer f) (bptr f - buffer f) f"
    using assms unfolding bfd_winv_def by blast
  show ?thesis
  proof (cases "buffer f < bptr f")
    case True
    obtain f' where f': "bfd_spout io f = ok () f'" "f_cont f' = w" "bfd_base io f' blen w" "bptr f' = buffer f'" "bstop f' = buffer f'"
      "pos f' = pos f + int (bptr f - buffer f)" "wpos f' = pos f'"
      using bfd_spout_ok [OF i(1) True] i(5,7) by auto
    have "pos f' = int (length w)" using f'(6) i(5,7) by simp
    then have "bfd_winv io f' w" using f' unfolding bfd_winv_def by (intro exI [of _ blen]) (auto simp: bfd_base_def load_bytes_def)
    moreover have "bptr f' < bufend f'" using f'(3,4) by (simp add: bfd_base_def)
    ultimately show ?thesis using f'(1,2) by blast
  next
    case False
    then have eq: "bptr f = buffer f" using i(3) by simp
    let ?f = "f\<lparr>pos := pos f, wpos := pos f, wlen := 0, bptr := fb_buffer f, bstop := fb_buffer f, buffer := fb_buffer f\<rparr>"
    have "bfd_spout io f = ok () ?f" using eq i(6) by (simp add: bfd_spout_def bfd_write.simps)
    moreover have "bfd_winv io ?f w"
      using i eq unfolding bfd_winv_def by (intro exI [of _ blen]) (auto simp: bfd_base_def load_bytes_def)
    moreover have "bptr ?f < bufend ?f" using i(1) by (simp add: bfd_base_def)
    ultimately show ?thesis using eq by auto
  qed
qed

interpretation bfdw: fb_writer "bfd_ops io" "bfd_winv io" for io
proof
  fix f w
  assume "bfd_winv io f w"
  then show "buffer f \<le> bstop f \<and> bstop f \<le> bptr f \<and> bptr f \<le> bufend f \<and> bufend f - buffer f < 2 ^ 32 \<and> \<not> dead f"
    by (auto simp: bfd_winv_def bfd_base_def)
next
  fix f w and xs :: "byte list"
  assume i: "bfd_winv io f w" "bptr f + length xs \<le> bufend f"
  let ?g = "store_bytes (bptr f) xs f"
  define k where "k = bptr f - buffer f"
  have k: "bptr f = buffer f + k" "bptr f + length xs - buffer f = k + length xs" using i(1) by (auto simp: bfd_winv_def k_def)
  have "load_bytes (buffer f) k ?g = load_bytes (buffer f) k f" using k(1) by (intro load_store_disjoint) auto
  moreover have "load_bytes (buffer f + k) (length xs) ?g = xs" using k(1) by simp
  ultimately have "load_bytes (buffer f) (k + length xs) ?g = load_bytes (buffer f) k f @ xs" unfolding load_append by simp
  then show "bfd_winv io (?g\<lparr>bptr := bptr f + length xs\<rparr>) (w @ xs)"
    using i k(2) unfolding bfd_winv_def k_def [symmetric] by (auto simp: bfd_base_def)
next
  fix f w
  assume "bfd_winv io f w"
  from bfd_spouts [OF this]
  show "\<exists>spout f'. fb_spout (bfd_ops io) = Some spout \<and> spout f = ok () f' \<and> bfd_winv io f' w \<and> (bptr f = bufend f \<longrightarrow> bptr f' < bufend f')"
    by (auto simp: bfd_ops_def)
qed

lemma bfd_bflush:
  assumes "bfd_winv io f w"
  shows "\<exists>g. bflush (bfd_ops io) f = ok () g \<and> f_cont g = w"
proof (cases "bptr f > bstop f")
  case True
  then have "buffer f < bptr f" using assms by (auto simp: bfd_winv_def)
  then obtain g where g: "bfd_spout io f = ok () g" "bfd_winv io g w" "f_cont g = w" using bfd_spouts [OF assms] by blast
  then show ?thesis
    using True bfdw.winv_ptrs [OF assms] bfdw.winv_ptrs [OF g(2)] by (simp add: bflush_def do_spout_def bfd_ops_def)
next
  case False
  then show ?thesis using assms by (auto simp: bflush_def bfd_winv_def load_bytes_def)
qed

lemma bfdopen_winv:
  assumes "allocator_ok A" and "0 < n" and "n < 2 ^ 30" and "\<forall>t. 0 < io t"
  shows "\<exists>f. bfdopen_internal A [] name n h = Some f \<and> bfd_winv io f []"
  using bfdopen_ok [OF assms(1-3), of "[]" name h] assms(2-4)
  by (auto simp: bfd_winv_def bfd_base_def dead_def load_bytes_def)

text \<open>
  Blocks written to a stream on an empty file are, after a flush, the contents of the file,
  however the operating system splits the writes.
\<close>

theorem bfd_write_contents:
  assumes "allocator_ok A" and "0 < n" and "n < 2 ^ 30" and "\<forall>t. 0 < io t"
  shows "\<exists>f f' g. bfdopen_internal A [] name n h = Some f \<and>
    foldl (\<lambda>m b. fb_bind m (\<lambda>_ f. bwrite (bfd_ops io) f b)) (ok () f) bs = ok () f' \<and>
    bflush (bfd_ops io) f' = ok () g \<and> f_cont g = concat bs"
proof -
  obtain f where f: "bfdopen_internal A [] name n h = Some f" "bfd_winv io f []" using bfdopen_winv [OF assms] by blast
  then obtain f' where "foldl (\<lambda>m b. fb_bind m (\<lambda>_ f. bwrite (bfd_ops io) f b)) (ok () f) bs = ok () f'" "bfd_winv io f' (concat bs)"
    using bfdw.bwrite_all [of io f "[]" bs] by auto
  then show ?thesis using f(1) bfd_bflush by blast
qed

theorem bfd_write_contents_witness:
  "\<exists>f f' g. bfdopen_internal bump [] [102] 2 \<lparr>mem = \<lambda>_. 0, live = []\<rparr> = Some f \<and>
    foldl (\<lambda>m b. fb_bind m (\<lambda>_ f. bwrite (bfd_ops (\<lambda>t. 1 + t mod 2)) f b)) (ok () f) [[1], [2, 3, 4, 5, 6]] = ok () f' \<and>
    bflush (bfd_ops (\<lambda>t. 1 + t mod 2)) f' = ok () g \<and> f_cont g = [1, 2, 3, 4, 5, 6]"
  using bfd_write_contents [OF bump_ok, of 2 "\<lambda>t. 1 + t mod 2" "[102]" "\<lparr>mem = \<lambda>_. 0, live = []\<rparr>" "[[1], [2, 3, 4, 5, 6]]"] by simp

section \<open>Copying\<close>

interpretation bfdc: fb_copier "bfd_ops io" "bfd_inv io" "bfd_ops io'" "bfd_winv io'" for io io'
  by unfold_locales

text \<open>
  C12: \<^verbatim>\<open>bbcopy\<close> of everything from a stream on a file to a stream on an empty file, and a
  flush, copy the file, for any two buffer sizes and however the operating system splits the
  reads and the writes.
\<close>

theorem bfd_copy_contents:
  assumes "allocator_ok A" and "0 < n" and "n < 2 ^ 30" and "\<forall>t. 0 < io t" and "0 < m" and "m < 2 ^ 30" and "\<forall>t. 0 < io' t"
  shows "\<exists>f t f' t' g. bfdopen_internal A c name n h = Some f \<and> bfdopen_internal A [] name' m h' = Some t \<and>
    bbcopy (bfd_ops io) (bfd_ops io') (snd (bfd_config f BCONFIG_KEEP_BACK_BUF v)) t UINT_MAX = ok () (f', t') \<and>
    bflush (bfd_ops io') t' = ok () g \<and> f_cont g = c"
proof -
  let ?c = "\<lambda>f. snd (bfd_config f BCONFIG_KEEP_BACK_BUF v)"
  obtain f where f: "bfdopen_internal A c name n h = Some f" "bfd_inv io (?c f) c" "btell (?c f) = 0" "bavailr (?c f) = 0"
    using bfdopen_inv [OF assms(1-4)] by blast
  obtain t where t: "bfdopen_internal A [] name' m h' = Some t" "bfd_winv io' t []" using bfdopen_winv [OF assms(1,5-7)] by blast
  obtain f' t' where c: "bbcopy (bfd_ops io) (bfd_ops io') (?c f) t UINT_MAX = ok () (f', t')" "bfd_winv io' t' c"
    using bfdc.bbcopy_ok [OF f(2) t(2), of UINT_MAX "length c"] f(3,4) by (auto simp: UINT_MAX_def)
  then show ?thesis using f(1) t(1) bfd_bflush by blast
qed

theorem bfd_copy_contents_witness:
  "\<exists>f t f' t' g. bfdopen_internal bump [1, 2, 3, 4, 5] [102] 3 \<lparr>mem = \<lambda>_. 0, live = []\<rparr> = Some f \<and>
    bfdopen_internal bump [] [103] 2 \<lparr>mem = \<lambda>_. 0, live = []\<rparr> = Some t \<and>
    bbcopy (bfd_ops (\<lambda>t. 1 + t mod 2)) (bfd_ops (\<lambda>t. 1)) (snd (bfd_config f BCONFIG_KEEP_BACK_BUF 0)) t UINT_MAX = ok () (f', t') \<and>
    bflush (bfd_ops (\<lambda>t. 1)) t' = ok () g \<and> f_cont g = [1, 2, 3, 4, 5]"
  using bfd_copy_contents [OF bump_ok, of 3 "\<lambda>t. 1 + t mod 2" 2 "\<lambda>t. 1"] by simp

section \<open>Writing after reading\<close>

text \<open>One read of the whole file into the buffer.\<close>

lemma bfd_read_all:
  assumes "bfd_base io f n c" and "bptr f = buffer f" and "bstop f = buffer f" and "pos f = 0" and "f_off f = 0" and "keep_back_buf f = 0"
    and "\<forall>t. length c \<le> io t" and "c \<noteq> []" and "length c < n" and "flags f = 0" and "wlen f = 0"
  shows "\<exists>g. bread (bfd_ops io) f (length c) = ok c g \<and> bfd_base io g n c \<and> bptr g = buffer g + length c \<and> bstop g = bptr g \<and>
    pos g = int (length c) \<and> load_bytes (buffer g) (length c) g = c \<and> flags g = 0"
proof -
  define f1 where "f1 = f\<lparr>bstop := buffer f + n\<rparr>"
  define g where "g = (store_bytes (buffer f) c f1)\<lparr>f_off := length c, f_calls := f_calls f + 1, wpos := int (length c),
    bstop := buffer f + length c, pos := int (length c), wlen := length c\<rparr>"
  have b: "f_cont f = c" "wpos f = 0" "buffer f = fb_buffer f" "bufend f = buffer f + n" "n < 2 ^ 30" "\<not> dead f" "0 < n"
    "\<forall>t. io t \<noteq> 0" using assms(1,5) by (auto simp: bfd_base_def)
  have "length c \<le> io (f_calls f)" using assms(7) by blast
  then have k: "min (io (f_calls f)) (min n (length c)) = length c" using assms(9) by simp
  have r: "sys_read io (buffer f) n f1 = (int (length c), (store_bytes (buffer f) c f1)\<lparr>f_off := length c, f_calls := f_calls f + 1\<rparr>)"
    using b(1,8) assms(5) k by (simp add: sys_read_def Let_def f1_def store_calls)
  have u: "uint_diff (buffer f + length c) (buffer f) = length c" "uint_diff (buffer f + n) (buffer f) = n"
    using assms(9) b(5) by (simp_all add: uint_diff_small)
  have "bfd_read io (buffer f) n f1 = ok True g"
    using r assms(2,8,9) u(1) b(2) by (subst bfd_read.simps) (simp add: bfd_done_def g_def f1_def Let_def assms(4))
  moreover have "bfd_refill io f = bfd_read io (buffer f) n f1"
  proof -
    have "f\<lparr>buffer := fb_buffer f, wpos := 0, bptr := fb_buffer f, bstop := fb_buffer f + n\<rparr> = f1"
      using b(2,3) assms(2) by (simp add: f1_def)
    then show ?thesis
      using b u(2) assms(4,6) by (simp add: bfd_refill_def bfd_forward_def Let_def bfd_skip.simps to_uint_def)
  qed
  ultimately have refill: "bfd_refill io f = ok True g" by simp
  have g: "buffer g = buffer f" "bptr g = buffer f" "bstop g = buffer f + length c" "bufend g = buffer f + n" "flags g = 0"
    using assms(2,10) b(4) by (simp_all add: g_def f1_def)
  have load: "load_bytes (buffer f) (length c) g = c"
    using load_store_same [of "buffer f" c f1] by (simp add: g_def)
  have "brefill (bfd_ops io) f False = ok True g"
    using refill g assms(2,3,8,9) b(4,6) by (simp add: brefill_def bfd_ops_def)
  moreover have "fb_load (length c) g = ok c (g\<lparr>bptr := buffer f + length c\<rparr>)" using g load assms(9) by (simp add: fb_load_def)
  moreover have "bavailr f = 0" "bavailr g = length c" using assms(2,3) g u(1) by (simp_all add: bavailr_def uint_diff_def [of _ "buffer f"])
  ultimately have "bread_loop (bfd_ops io) False f (length c) [] = ok (c, 0) (g\<lparr>bptr := buffer f + length c\<rparr>)"
    using assms(8) by (subst bread_loop.simps) (simp add: bread_loop.simps [of _ _ _ 0])
  then have "bread (bfd_ops io) f (length c) = ok c (g\<lparr>bptr := buffer f + length c\<rparr>)"
    using \<open>bavailr f = 0\<close> assms(8) by (simp add: bread_def bread_slow_def)
  moreover have "bfd_base io (g\<lparr>bptr := buffer f + length c\<rparr>) n c"
    using assms(1) by (simp add: g_def f1_def bfd_base_def)
  ultimately show ?thesis using g load by (intro exI [of _ "g\<lparr>bptr := buffer f + length c\<rparr>"]) (simp add: g_def)
qed

text \<open>
  C36: Writing after reading damages the file. When the whole file has been read, the stream has
  been flushed and set to its end as the documentation of the streams asks, and new data are
  written and flushed, the file ends with a second copy of what was read before the new data.
\<close>

theorem bfd_write_after_read:
  assumes "allocator_ok A" and "n < 2 ^ 30" and "\<forall>t. length c \<le> io t" and "c \<noteq> []" and "b \<noteq> []" and "length c + length b \<le> n"
  shows "\<exists>f f1 f2 f3 f4 f5. bfdopen_internal A c name n h = Some f \<and> bread (bfd_ops io) f (length c) = ok c f1 \<and>
    bflush (bfd_ops io) f1 = ok () f2 \<and> bsetpos (bfd_ops io) f2 (int (length c)) = ok () f3 \<and>
    bwrite (bfd_ops io) f3 b = ok () f4 \<and> bflush (bfd_ops io) f4 = ok () f5 \<and> f_cont f5 = c @ c @ b"
proof -
  have n: "0 < n" "length c < n" using assms(4-6) by (auto simp: neq_Nil_conv)
  have "\<forall>t. 0 < io t" using assms(3,4) by (metis length_greater_0_conv less_le_trans)
  then obtain f where f: "bfdopen_internal A c name n h = Some f" "bfd_base io f n c" "bptr f = buffer f" "bstop f = buffer f" "pos f = 0"
    "f_off f = 0" "keep_back_buf f = 0" "flags f = 0" "wlen f = 0"
    using bfdopen_ok [OF assms(1) n(1) assms(2), of c name h] n(1) assms(2) by (auto simp: bfd_base_def dead_def)
  obtain g where g: "bread (bfd_ops io) f (length c) = ok c g" "bfd_base io g n c" "bptr g = buffer g + length c" "bstop g = bptr g"
    "pos g = int (length c)" "load_bytes (buffer g) (length c) g = c"
    using bfd_read_all [OF f(2-7) assms(3,4) n(2) f(8,9)] by blast
  have fl: "bflush (bfd_ops io) g = ok () g" "bsetpos (bfd_ops io) g (int (length c)) = ok () g"
    using g(4,5) by (simp_all add: bflush_def bsetpos_def btell_def)
  define w where "w = (store_bytes (bptr g) b g)\<lparr>bptr := bptr g + length b\<rparr>"
  have bg: "bufend g = buffer g + n" "\<not> dead g" using g(2) by (simp_all add: bfd_base_def)
  have "bavailw g = n - length c" using bg(1) g(3) assms(2,6) by (simp add: bavailw_def uint_diff_small)
  then have wr: "bwrite (bfd_ops io) g b = ok () w" using assms(6) g(3) bg(1) by (simp add: bwrite_def fb_store_def w_def) linarith
  have "load_bytes (buffer g) (length c) w = c" using g(3,6) by (simp add: w_def load_store_disjoint)
  moreover have "load_bytes (buffer g + length c) (length b) w = b" using g(3) by (simp add: w_def)
  ultimately have lw: "load_bytes (buffer w) (bptr w - buffer w) w = c @ b" using g(3) load_append [of "buffer g" "length c" "length b" w]
    by (simp add: w_def)
  have bw: "bfd_base io w n c" "buffer w < bptr w" "pos w = int (length c)" "bstop w < bptr w" "buffer w \<le> bstop w" "bptr w \<le> bufend w"
    using g assms(5,6) bg by (auto simp: w_def bfd_base_def)
  obtain z where "bfd_spout io w = ok () z" "f_cont z = c @ c @ b" "bptr z = buffer z" "bstop z = buffer z" "bfd_base io z n (f_cont z)"
    using bfd_spout_ok [OF bw(1,2)] lw bw(3) by auto
  then have "bflush (bfd_ops io) w = ok () z" "f_cont z = c @ c @ b"
    using bw bg by (auto simp: bflush_def do_spout_def bfd_ops_def bfd_base_def)
  then show ?thesis using f(1) g(1) fl wr by blast
qed

theorem bfd_write_after_read_witness:
  "\<exists>f f1 f2 f3 f4 f5. bfdopen_internal bump [1, 2, 3] [102] 8 \<lparr>mem = \<lambda>_. 0, live = []\<rparr> = Some f \<and>
    bread (bfd_ops (\<lambda>_. 100)) f 3 = ok [1, 2, 3] f1 \<and>
    bflush (bfd_ops (\<lambda>_. 100)) f1 = ok () f2 \<and> bsetpos (bfd_ops (\<lambda>_. 100)) f2 3 = ok () f3 \<and>
    bwrite (bfd_ops (\<lambda>_. 100)) f3 [9] = ok () f4 \<and> bflush (bfd_ops (\<lambda>_. 100)) f4 = ok () f5 \<and> f_cont f5 = [1, 2, 3, 1, 2, 3, 9]"
  using bfd_write_after_read [OF bump_ok, of 8 "[1, 2, 3]" "\<lambda>_. 100" "[9]" "[102]" "\<lparr>mem = \<lambda>_. 0, live = []\<rparr>"] by (simp add: numeral_3_eq_3)

end
