(* ===== verification/Sorter_Multiway.thy ===== *)
theory Sorter_Multiway
  imports Sorter_Merge
begin

text \<open>
  Model of \<^verbatim>\<open>generic/sorter/s-multiway.h\<close> without unification: the merge of any number of sorted
  streams with a tournament tree. The tree is an array as in the code: vertex \<open>j\<close> has the sons
  \<open>2j\<close> and \<open>2j+1\<close>, stream \<open>i\<close> is leaf \<open>n2+i\<close>, and a vertex holds the stream with the lowest
  key below it, or a negative number.
\<close>

section \<open>The code\<close>

definition tree_best :: "('k \<Rightarrow> 'k \<Rightarrow> int) \<Rightarrow> (nat \<Rightarrow> 'k) \<Rightarrow> int \<Rightarrow> int \<Rightarrow> int" where
  "tree_best compare keys l r =
     (if l < 0 then r else if r < 0 then l else if compare (keys (nat l)) (keys (nat r)) \<le> 0 then l else r)"

fun update_tree :: "('k \<Rightarrow> 'k \<Rightarrow> int) \<Rightarrow> (nat \<Rightarrow> 'k) \<Rightarrow> int list \<Rightarrow> nat \<Rightarrow> int list" where
  "update_tree compare keys tree i =
     (if i div 2 = 0 then tree
      else let i = i div 2 in
        update_tree compare keys (tree[i := tree_best compare keys (tree ! (2 * i)) (tree ! (2 * i + 1))]) i)"

declare update_tree.simps [simp del]

definition set_tree :: "('k \<Rightarrow> 'k \<Rightarrow> int) \<Rightarrow> (nat \<Rightarrow> 'k) \<Rightarrow> int list \<Rightarrow> nat \<Rightarrow> int \<Rightarrow> int list" where
  "set_tree compare keys tree i val = update_tree compare keys (tree[i := val]) i"

text \<open>The power of two that is at least the number of streams; \<open>n2\<close> starts with one.\<close>

function mw_leaves :: "nat \<Rightarrow> nat \<Rightarrow> nat" where
  "mw_leaves n2 num_ins = (if 0 < n2 \<and> n2 < num_ins then mw_leaves (n2 * 2) num_ins else n2)"
  by auto
termination
  by (relation "measure (\<lambda>(n2, num). num - n2)") auto

declare mw_leaves.simps [simp del]

definition mw_keys :: "'k list list \<Rightarrow> nat \<Rightarrow> 'k" where
  "mw_keys fins i = hd (fins ! i)"

text \<open>Entering the streams \<open>i\<close> and up in the tree.\<close>

definition mw_enter :: "('k \<Rightarrow> 'k \<Rightarrow> int) \<Rightarrow> 'k list list \<Rightarrow> nat \<Rightarrow> nat \<Rightarrow> int list \<Rightarrow> int list" where
  "mw_enter compare fins n2 i tree =
     (if fins ! i \<noteq> [] then set_tree compare (mw_keys fins) tree (n2 + i) (int i) else tree)"

definition mw_init :: "('k \<Rightarrow> 'k \<Rightarrow> int) \<Rightarrow> 'k list list \<Rightarrow> nat \<Rightarrow> int list" where
  "mw_init compare fins n2 = fold (mw_enter compare fins n2) [0..<length fins] (replicate (2 * n2) (- 1))"

partial_function (option) mw_loop ::
  "('k \<Rightarrow> 'k \<Rightarrow> int) \<Rightarrow> nat \<Rightarrow> 'k list list \<Rightarrow> int list \<Rightarrow> 'k list \<Rightarrow> 'k list option"
where
  "mw_loop compare n2 fins tree out =
     (if tree ! 1 < 0 then Some out
      else let i = nat (tree ! 1) in
        case fins ! i of
          [] \<Rightarrow> None
        | k # rest \<Rightarrow>
            let fins = fins[i := rest];
                tree = (if rest = [] then tree[n2 + i := - 1] else tree)
            in mw_loop compare n2 fins (update_tree compare (mw_keys fins) tree (n2 + i)) (out @ [k]))"

definition multiway_merge :: "('k \<Rightarrow> 'k \<Rightarrow> int) \<Rightarrow> 'k list list \<Rightarrow> 'k list \<Rightarrow> 'k list option" where
  "multiway_merge compare fins out =
     (let n2 = mw_leaves 1 (length fins) in mw_loop compare n2 fins (mw_init compare fins n2) out)"

section \<open>The tournament\<close>

text \<open>The winner below a vertex, and the leaves below it; \<open>ne\<close> tells which streams take part.\<close>

function champ :: "('k \<Rightarrow> 'k \<Rightarrow> int) \<Rightarrow> (nat \<Rightarrow> 'k) \<Rightarrow> (nat \<Rightarrow> bool) \<Rightarrow> nat \<Rightarrow> nat \<Rightarrow> int" where
  "champ compare keys ne n2 j =
     (if j = 0 \<or> n2 \<le> j then (if ne (j - n2) then int (j - n2) else - 1)
      else tree_best compare keys (champ compare keys ne n2 (2 * j)) (champ compare keys ne n2 (2 * j + 1)))"
  by auto
termination
  by (relation "measure (\<lambda>(c, k, ne, n2, j). n2 - j)") auto

function leaves :: "nat \<Rightarrow> nat \<Rightarrow> nat set" where
  "leaves n2 j = (if j = 0 \<or> n2 \<le> j then {j - n2} else leaves n2 (2 * j) \<union> leaves n2 (2 * j + 1))"
  by auto
termination
  by (relation "measure (\<lambda>(n2, j). n2 - j)") auto

declare champ.simps [simp del] leaves.simps [simp del]

lemma champ_cong:
  "0 < j \<Longrightarrow> (\<And>k. k \<in> leaves n2 j \<Longrightarrow> ne k = ne' k \<and> (ne k \<longrightarrow> keys k = keys' k)) \<Longrightarrow>
   champ compare keys ne n2 j = champ compare keys' ne' n2 j \<and>
   (champ compare keys ne n2 j < 0 \<or> nat (champ compare keys ne n2 j) \<in> leaves n2 j \<and> ne (nat (champ compare keys ne n2 j)))"
proof (induction n2 j rule: leaves.induct)
  case (1 n2 j)
  show ?case
  proof (cases "n2 \<le> j")
    case True
    then show ?thesis using 1(3,4) by (simp add: champ.simps [of _ _ _ _ j] leaves.simps [of _ j] del: of_nat_diff)
  next
    case False
    have l: "leaves n2 j = leaves n2 (2 * j) \<union> leaves n2 (2 * j + 1)" using False 1(3) by (subst leaves.simps) simp
    show ?thesis
      using 1(1) [OF _ _ 1(4)] 1(2) [OF _ _ 1(4)] False 1(3,4)
      unfolding champ.simps [of _ _ _ _ j] l by (auto simp: tree_best_def)
  qed
qed

text \<open>The vertices above a leaf.\<close>

lemma div_pow_Suc: "(n :: nat) div 2 ^ Suc m = n div 2 ^ m div 2"
  by (simp only: power_Suc2 div_mult2_eq)

lemma leaves_above: "0 < j \<Longrightarrow> k \<in> leaves n2 j \<Longrightarrow> 0 < n2 \<Longrightarrow> \<exists>m. (n2 + k) div 2 ^ m = j"
proof (induction n2 j rule: leaves.induct)
  case (1 n2 j)
  show ?case
  proof (cases "n2 \<le> j")
    case True
    then show ?thesis using 1(3,4) by (intro exI [of _ 0]) (simp add: leaves.simps [of _ j])
  next
    case False
    then obtain i m where "(n2 + k) div 2 ^ m = i" "i = 2 * j \<or> i = 2 * j + 1"
      using 1 by (auto simp: leaves.simps [of _ j])
    then have "(n2 + k) div 2 ^ Suc m = j" unfolding div_pow_Suc by auto
    then show ?thesis by blast
  qed
qed

lemma above_leaves: "(n2 + k) div 2 ^ m = j \<Longrightarrow> 0 < j \<Longrightarrow> k < n2 \<Longrightarrow> k \<in> leaves n2 j"
proof (induction m arbitrary: j)
  case 0
  then show ?case by (subst leaves.simps) simp
next
  case (Suc m)
  define i where "i = (n2 + k) div 2 ^ m"
  have j: "j = i div 2" using Suc.prems(1) unfolding div_pow_Suc i_def by simp
  have "i \<le> n2 + k" by (simp add: i_def div_le_dividend)
  then have "j < n2" using Suc.prems(3) j by linarith
  moreover have "k \<in> leaves n2 i" using Suc.IH [of i] Suc.prems j by (simp add: i_def)
  moreover have "i = 2 * j \<or> i = 2 * j + 1" using j by linarith
  ultimately show ?case using Suc.prems(2) by (subst leaves.simps) auto
qed

lemma leaves_root: "n2 = 2 ^ d \<Longrightarrow> k < n2 \<Longrightarrow> k \<in> leaves n2 1"
proof (rule above_leaves)
  assume "n2 = 2 ^ d" "k < n2"
  then show "(n2 + k) div 2 ^ d = 1" by (simp add: div_add_self1)
qed auto

lemma mw_leaves_ok: "0 < n2 \<Longrightarrow> n2 = 2 ^ d \<Longrightarrow> \<exists>e. mw_leaves n2 num = 2 ^ e \<and> num \<le> mw_leaves n2 num"
proof (induction n2 num arbitrary: d rule: mw_leaves.induct)
  case (1 n2 num)
  then show ?case using "1.IH" [of "Suc d"] by (subst (1 2) mw_leaves.simps) auto
qed

section \<open>The tree of the code\<close>

definition tree_ok :: "('k \<Rightarrow> 'k \<Rightarrow> int) \<Rightarrow> (nat \<Rightarrow> 'k) \<Rightarrow> (nat \<Rightarrow> bool) \<Rightarrow> nat \<Rightarrow> int list \<Rightarrow> bool" where
  "tree_ok compare keys ne n2 tree \<longleftrightarrow> length tree = 2 * n2 \<and>
     (\<forall>j. 0 < j \<longrightarrow> j < 2 * n2 \<longrightarrow> tree ! j = champ compare keys ne n2 j)"

lemma tree_okD: "tree_ok compare keys ne n2 tree \<Longrightarrow> 0 < j \<Longrightarrow> j < 2 * n2 \<Longrightarrow> tree ! j = champ compare keys ne n2 j"
  by (simp add: tree_ok_def)

text \<open>Updating the way from a leaf to the root repairs the tree.\<close>

lemma update_tree_ok:
  "length tree = 2 * n2 \<Longrightarrow> 0 < i \<Longrightarrow> i < 2 * n2 \<Longrightarrow>
   (\<And>j. 0 < j \<Longrightarrow> j < 2 * n2 \<Longrightarrow> (\<And>m. i div 2 ^ Suc m \<noteq> j) \<Longrightarrow> tree ! j = champ compare keys ne n2 j) \<Longrightarrow>
   tree_ok compare keys ne n2 (update_tree compare keys tree i)"
proof (induction i arbitrary: tree rule: less_induct)
  case (less i)
  show ?case
  proof (cases "i div 2 = 0")
    case True
    have "i div 2 ^ Suc m = 0" for m using True by (simp add: div_mult2_eq)
    then show ?thesis using less.prems(1,4) True by (subst update_tree.simps) (auto simp: tree_ok_def)
  next
    case False
    define p where "p = i div 2"
    have p: "0 < p" "p < i" "p < n2" "i = 2 * p \<or> i = 2 * p + 1" using False less.prems(2,3) by (auto simp: p_def)
    have anc: "i div 2 ^ Suc m = p div 2 ^ m" for m by (simp add: p_def div_mult2_eq)
    have son: "tree ! c = champ compare keys ne n2 c" if "c = 2 * p \<or> c = 2 * p + 1" for c
    proof (rule less.prems(4))
      show "i div 2 ^ Suc m \<noteq> c" for m using that p(1) div_le_dividend [of p "2 ^ m"] unfolding anc by linarith
    qed (use that p in auto)
    let ?t = "tree[p := tree_best compare keys (tree ! (2 * p)) (tree ! (2 * p + 1))]"
    have cp: "champ compare keys ne n2 p = tree_best compare keys (tree ! (2 * p)) (tree ! (2 * p + 1))"
      using p son by (subst champ.simps) simp
    have "tree_ok compare keys ne n2 (update_tree compare keys ?t p)"
    proof (rule less.IH)
      fix j
      assume j: "0 < j" "j < 2 * n2" "\<And>m. p div 2 ^ Suc m \<noteq> j"
      show "?t ! j = champ compare keys ne n2 j"
      proof (cases "j = p")
        case True
        then show ?thesis using cp less.prems(1) p by simp
      next
        case False
        have "i div 2 ^ Suc m \<noteq> j" for m using j(3) False unfolding anc by (cases m) auto
        then show ?thesis using less.prems(4) j(1,2) False by simp
      qed
    qed (use p less.prems(1) in auto)
    then show ?thesis using False by (subst update_tree.simps) (simp add: Let_def p_def)
  qed
qed

text \<open>A change of one stream, followed by the update from its leaf.\<close>

lemma update_leaf_ok:
  assumes "tree_ok compare keys ne n2 tree" and "k < n2"
    and "\<And>l. l \<noteq> k \<Longrightarrow> ne' l = ne l \<and> (ne l \<longrightarrow> keys' l = keys l)" and "val = (if ne' k then int k else - 1)"
  shows "tree_ok compare keys' ne' n2 (update_tree compare keys' (tree[n2 + k := val]) (n2 + k))"
proof (rule update_tree_ok)
  fix j
  assume j: "0 < j" "j < 2 * n2" "\<And>m. (n2 + k) div 2 ^ Suc m \<noteq> j"
  show "tree[n2 + k := val] ! j = champ compare keys' ne' n2 j"
  proof (cases "j = n2 + k")
    case True
    then show ?thesis using assms(1,2,4) by (subst champ.simps) (simp add: tree_ok_def)
  next
    case False
    have "k \<notin> leaves n2 j"
    proof
      assume "k \<in> leaves n2 j"
      then obtain m where "(n2 + k) div 2 ^ m = j" using leaves_above j(1) assms(2) by (metis gr_implies_not0 neq0_conv)
      then show False using j(3) False by (cases m) auto
    qed
    then have "champ compare keys ne n2 j = champ compare keys' ne' n2 j"
      using champ_cong [OF j(1), of n2 ne ne' keys keys' compare] assms(3) by metis
    then show ?thesis using assms(1) j(1,2) False by (simp add: tree_ok_def)
  qed
qed (use assms(1,2) in \<open>auto simp: tree_ok_def\<close>)

section \<open>Correctness of the merge\<close>

lemma champ_none: "champ compare keys (\<lambda>_. False) n2 j = - 1"
  by (induction n2 j rule: leaves.induct) (subst champ.simps, simp add: tree_best_def)

lemma mw_init_ok:
  assumes "length fins \<le> n2"
  shows "tree_ok compare (mw_keys fins) (\<lambda>k. k < length fins \<and> fins ! k \<noteq> []) n2 (mw_init compare fins n2)"
proof -
  have "tree_ok compare (mw_keys fins) (\<lambda>k. k < m \<and> fins ! k \<noteq> []) n2
      (fold (mw_enter compare fins n2) [0..<m] (replicate (2 * n2) (- 1)))" if "m \<le> length fins" for m
    using that
  proof (induction m)
    case 0
    then show ?case by (simp add: tree_ok_def champ_none)
  next
    case (Suc m)
    define t where "t = fold (mw_enter compare fins n2) [0..<m] (replicate (2 * n2) (- 1))"
    have ih: "tree_ok compare (mw_keys fins) (\<lambda>k. k < m \<and> fins ! k \<noteq> []) n2 t" using Suc by (simp add: t_def)
    have step: "fold (mw_enter compare fins n2) [0..<Suc m] (replicate (2 * n2) (- 1)) = mw_enter compare fins n2 m t"
      by (simp add: t_def)
    show ?case
    proof (cases "fins ! m = []")
      case True
      then have "(\<lambda>k. k < Suc m \<and> fins ! k \<noteq> []) = (\<lambda>k. k < m \<and> fins ! k \<noteq> [])" by (auto simp: fun_eq_iff less_Suc_eq)
      then show ?thesis unfolding step using ih True by (simp add: mw_enter_def)
    next
      case False
      have "tree_ok compare (mw_keys fins) (\<lambda>k. k < Suc m \<and> fins ! k \<noteq> []) n2
          (update_tree compare (mw_keys fins) (t[n2 + m := int m]) (n2 + m))"
        by (rule update_leaf_ok [OF ih]) (use False Suc.prems assms in \<open>auto simp: less_Suc_eq\<close>)
      then show ?thesis unfolding step using False by (simp add: mw_enter_def set_tree_def)
    qed
  qed
  then show ?thesis unfolding mw_init_def by blast
qed

context key_order
begin

lemma tree_best_min:
  assumes "0 \<le> l \<and> compare (keys (nat l)) k \<le> 0 \<or> 0 \<le> r \<and> compare (keys (nat r)) k \<le> 0"
  shows "0 \<le> tree_best compare keys l r" and "compare (keys (nat (tree_best compare keys l r))) k \<le> 0"
proof -
  show "0 \<le> tree_best compare keys l r" using assms by (auto simp: tree_best_def)
  show "compare (keys (nat (tree_best compare keys l r))) k \<le> 0"
  proof (cases "compare (keys (nat l)) (keys (nat r)) \<le> 0")
    case True
    then show ?thesis using assms trans [OF True, of k] by (auto simp: tree_best_def)
  next
    case False
    then have "compare (keys (nat r)) (keys (nat l)) \<le> 0" using total_le by blast
    then show ?thesis using assms False trans [of "keys (nat r)" "keys (nat l)" k] by (auto simp: tree_best_def)
  qed
qed

lemma champ_min:
  "0 < j \<Longrightarrow> k \<in> leaves n2 j \<Longrightarrow> ne k \<Longrightarrow>
   0 \<le> champ compare keys ne n2 j \<and> compare (keys (nat (champ compare keys ne n2 j))) (keys k) \<le> 0"
proof (induction n2 j rule: leaves.induct)
  case (1 n2 j)
  show ?case
  proof (cases "n2 \<le> j")
    case True
    then show ?thesis using 1(3-5) by (simp add: champ.simps [of _ _ _ _ j] leaves.simps [of _ j] del: of_nat_diff)
  next
    case False
    let ?l = "champ compare keys ne n2 (2 * j)" and ?r = "champ compare keys ne n2 (2 * j + 1)"
    have c: "champ compare keys ne n2 j = tree_best compare keys ?l ?r" using False 1(3) by (subst champ.simps) simp
    have "k \<in> leaves n2 (2 * j) \<or> k \<in> leaves n2 (2 * j + 1)" using False 1(3,4) by (simp add: leaves.simps [of _ j])
    then have "0 \<le> ?l \<and> compare (keys (nat ?l)) (keys k) \<le> 0 \<or> 0 \<le> ?r \<and> compare (keys (nat ?r)) (keys k) \<le> 0"
      using 1(1,2) False 1(3,5) by auto
    from tree_best_min [OF this] show ?thesis unfolding c by blast
  qed
qed

lemma mw_loop_ok:
  assumes "n2 = 2 ^ d" and "length fins \<le> n2"
    and "tree_ok compare (mw_keys fins) (\<lambda>k. k < length fins \<and> fins ! k \<noteq> []) n2 tree"
    and "\<forall>xs \<in> set fins. sorted_wrt (\<lambda>x y. compare x y \<le> 0) xs"
  shows "\<exists>p. mw_loop compare n2 fins tree out = Some (out @ p) \<and> mset p = mset (concat fins) \<and> sorted_wrt (\<lambda>x y. compare x y \<le> 0) p"
  using assms(2-4)
proof (induction "length (concat fins)" arbitrary: fins tree out rule: less_induct)
  case less
  let ?ne = "\<lambda>k. k < length fins \<and> fins ! k \<noteq> []"
  have "0 < n2" using assms(1) by simp
  then have "1 < 2 * n2" by linarith
  then have t1: "tree ! 1 = champ compare (mw_keys fins) ?ne n2 1" using tree_okD [OF less.prems(2), of 1] by simp
  have win: "0 \<le> tree ! 1 \<and> compare (mw_keys fins (nat (tree ! 1))) (mw_keys fins k) \<le> 0" if "?ne k" for k
    unfolding t1 using champ_min [of 1 k n2 ?ne "mw_keys fins"] leaves_root [OF assms(1), of k] that less.prems(1) by auto
  show ?case
  proof (cases "tree ! 1 < 0")
    case True
    then have "\<not> ?ne k" for k using win by force
    then have "concat fins = []" by (auto simp: in_set_conv_nth)
    then show ?thesis using True by (subst mw_loop.simps) auto
  next
    case False
    define i where "i = nat (tree ! 1)"
    have i: "i < length fins" "fins ! i \<noteq> []" "tree ! 1 = int i"
      using champ_cong [of 1 n2 ?ne ?ne "mw_keys fins" "mw_keys fins" compare] False unfolding i_def t1 by auto
    then obtain k rest where k: "fins ! i = k # rest" by (cases "fins ! i") auto
    define gs where "gs = fins[i := rest]"
    define t where "t = update_tree compare (mw_keys gs) (if rest = [] then tree[n2 + i := - 1] else tree) (n2 + i)"
    have step: "mw_loop compare n2 fins tree out = mw_loop compare n2 gs t (out @ [k])"
      using False i k by (subst mw_loop.simps) (simp add: Let_def gs_def t_def flip: i_def)
    have leaf: "tree ! (n2 + i) = int i" using tree_okD [OF less.prems(2), of "n2 + i"] less.prems(1) i(1,2) by (simp add: champ.simps [of _ _ _ _ "n2 + i"])
    have "(if rest = [] then tree[n2 + i := - 1] else tree) = tree[n2 + i := if rest \<noteq> [] then int i else - 1]"
      using leaf list_update_id [of tree "n2 + i"] by auto
    then have t: "tree_ok compare (mw_keys gs) (\<lambda>l. l < length gs \<and> gs ! l \<noteq> []) n2 t"
      unfolding t_def using update_leaf_ok [OF less.prems(2), of i "\<lambda>l. l < length gs \<and> gs ! l \<noteq> []" "mw_keys gs"] i(1) less.prems(1)
      by (auto simp: gs_def mw_keys_def)
    have fins: "fins = take i fins @ (k # rest) # drop (Suc i) fins" "gs = take i fins @ rest # drop (Suc i) fins"
      using i(1) k id_take_nth_drop [of i fins] by (simp_all add: gs_def upd_conv_take_nth_drop)
    have ms: "mset (concat fins) = add_mset k (mset (concat gs))" by (subst fins(1), subst fins(2)) simp
    have sorted: "\<forall>xs \<in> set gs. sorted_wrt (\<lambda>x y. compare x y \<le> 0) xs"
      using less.prems(3) fins(1) i(1) k nth_mem [of i fins] set_update_subset_insert [of fins i rest] unfolding gs_def by fastforce
    have "length (concat gs) < length (concat fins)" using ms by (metis add_mset_eq_single size_add_mset size_mset lessI)
    moreover have "length gs \<le> n2" using less.prems(1) by (simp add: gs_def)
    ultimately obtain p where p: "mw_loop compare n2 gs t (out @ [k]) = Some ((out @ [k]) @ p)"
      "mset p = mset (concat gs)" "sorted_wrt (\<lambda>x y. compare x y \<le> 0) p" using less.hyps [OF _ _ t sorted, of "out @ [k]"] by blast
    have "compare k y \<le> 0" if "y \<in> set p" for y
    proof -
      have "y \<in> set (concat fins)" using that p(2) ms by (metis mset_eq_setD set_mset_add_mset_insert insertCI set_mset_mset)
      then obtain xs where "xs \<in> set fins" "y \<in> set xs" by auto
      then obtain l where l: "l < length fins" "y \<in> set (fins ! l)" by (metis in_set_conv_nth)
      then have "fins ! l \<noteq> []" by auto
      then have "compare (hd (fins ! i)) (hd (fins ! l)) \<le> 0" using win [of l] i(3) l(1) by (simp add: mw_keys_def)
      moreover have "sorted_wrt (\<lambda>x y. compare x y \<le> 0) (fins ! l)" using l(1) less.prems(3) by (metis nth_mem)
      then have "compare (hd (fins ! l)) y \<le> 0" using l(2) by (cases "fins ! l") auto
      ultimately show ?thesis using k trans by fastforce
    qed
    then show ?thesis using step p ms by (intro exI [of _ "k # p"]) auto
  qed
qed

text \<open>Merging sorted streams appends their sorted union to the output.\<close>

lemma multiway_merge_ok:
  assumes "\<forall>xs \<in> set fins. sorted_wrt (\<lambda>x y. compare x y \<le> 0) xs"
  shows "\<exists>p. multiway_merge compare fins out = Some (out @ p) \<and> mset p = mset (concat fins) \<and> sorted_wrt (\<lambda>x y. compare x y \<le> 0) p"
proof -
  obtain e where "mw_leaves 1 (length fins) = 2 ^ e" "length fins \<le> mw_leaves 1 (length fins)"
    using mw_leaves_ok [of 1 0 "length fins"] by auto
  then show ?thesis unfolding multiway_merge_def Let_def using mw_loop_ok [OF _ _ mw_init_ok assms] by blast
qed

end

end
