(* ===== verification/Sorter.thy ===== *)
theory Sorter
  imports Sorter_Multiway Prelude
begin

unbundle bit_operations_syntax

text \<open>
  Model of the external sorter of \<^verbatim>\<open>generic/sorter/\<close>: the buckets of \<^verbatim>\<open>sbuck.c\<close>, the internal
  sorter of \<^verbatim>\<open>s-fixint.h\<close> with the array sorter of \<^verbatim>\<open>array.h\<close>, and the governor of
  \<^verbatim>\<open>govern.c\<close>, for fixed-size keys without data, unification, hash function and custom
  presorter, in the build without threads. The file of a bucket is the list of its records. Traces
  and timers are left out. A failed assertion, a null pointer and a loop that does not end give
  \<open>None\<close>.
\<close>

section \<open>Configuration\<close>

text \<open>
  \<open>mem_of\<close> is the product with the floating-point factor 0.8 in \<^verbatim>\<open>sorter_decide\<close>.
\<close>

record 'k sort_context =
  sorter_bufsize :: "64 word"
  compare :: "'k \<Rightarrow> 'k \<Rightarrow> int"
  key_size :: nat
  big_buf_size :: nat
  sorter_debug :: "32 word"
  min_multiway_bits :: nat
  max_multiway_bits :: nat
  mem_of :: "nat \<Rightarrow> nat"

definition SORT_DEBUG_NO_PRESORT :: "32 word" where
  "SORT_DEBUG_NO_PRESORT = 1"

definition SORT_DEBUG_NO_JOIN :: "32 word" where
  "SORT_DEBUG_NO_JOIN = 2"

definition SORT_DEBUG_NO_MULTIWAY :: "32 word" where
  "SORT_DEBUG_NO_MULTIWAY = 16"

definition debug_flag :: "'k sort_context \<Rightarrow> 32 word \<Rightarrow> bool" where
  "debug_flag ctx w \<longleftrightarrow> sorter_debug ctx AND w \<noteq> 0"

definition sorter_prepare_buf :: "'k sort_context \<Rightarrow> 'k sort_context" where
  "sorter_prepare_buf ctx =
     (let bs = align_to (sorter_bufsize ctx) (of_nat CPU_PAGE_SIZE);
          bs = max bs (2 * of_nat CPU_PAGE_SIZE)
      in ctx\<lparr>big_buf_size := unat bs\<rparr>)"

section \<open>Buckets\<close>

text \<open>
  The flags of a bucket, its records, the position of reading, and its size in bytes where it
  is not being written.
\<close>

record 'k sort_bucket =
  sb_final :: bool
  sb_source :: bool
  sb_open_write :: bool
  sb_open_read :: bool
  sb_swapped_out :: bool
  sb_fb :: bool
  sb_file :: "'k list"
  sb_rpos :: nat
  sb_bytes :: nat
  sb_runs :: nat

definition sbuck_new :: "'k sort_bucket" where
  "sbuck_new = \<lparr>sb_final = False, sb_source = False, sb_open_write = False, sb_open_read = False, sb_swapped_out = False,
     sb_fb = False, sb_file = [], sb_rpos = 0, sb_bytes = 0, sb_runs = 0\<rparr>"

definition sbuck_size :: "'k sort_context \<Rightarrow> 'k sort_bucket \<Rightarrow> nat" where
  "sbuck_size ctx b =
     (if sb_open_write b \<and> \<not> sb_swapped_out b then length (sb_file b) * key_size ctx else sb_bytes b)"

definition sbuck_have :: "'k sort_context \<Rightarrow> 'k sort_bucket option \<Rightarrow> bool" where
  "sbuck_have ctx b = (case b of None \<Rightarrow> False | Some b \<Rightarrow> sbuck_size ctx b \<noteq> 0)"

definition sbuck_has_file :: "'k sort_bucket \<Rightarrow> bool" where
  "sbuck_has_file b \<longleftrightarrow> sb_fb b \<or> sb_swapped_out b"

definition sbuck_swap_in :: "'k sort_bucket \<Rightarrow> 'k sort_bucket" where
  "sbuck_swap_in b = (if sb_swapped_out b then b\<lparr>sb_fb := True, sb_rpos := 0, sb_swapped_out := False\<rparr> else b)"

definition sbuck_read :: "'k sort_context \<Rightarrow> 'k sort_bucket \<Rightarrow> 'k sort_bucket option" where
  "sbuck_read ctx b =
     (let b = sbuck_swap_in b in
      if sb_open_read b then Some b
      else if sb_open_write b
      then Some (b\<lparr>sb_bytes := length (sb_file b) * key_size ctx, sb_open_write := False, sb_open_read := True, sb_rpos := 0\<rparr>)
      else None)"

definition sbuck_write :: "'k sort_bucket \<Rightarrow> 'k sort_bucket option" where
  "sbuck_write b =
     (let b = sbuck_swap_in b in
      if sb_open_write b then (if sb_fb b then Some b else None)
      else if sb_open_read b then None
      else Some (b\<lparr>sb_fb := True, sb_file := [], sb_open_write := True\<rparr>))"

definition sbuck_swap_out :: "'k sort_context \<Rightarrow> 'k sort_bucket \<Rightarrow> 'k sort_bucket" where
  "sbuck_swap_out ctx b =
     (if (sb_open_read b \<or> sb_open_write b) \<and> sb_fb b \<and> \<not> sb_source b
      then b\<lparr>sb_bytes := (if sb_open_write b then length (sb_file b) * key_size ctx else sb_bytes b),
        sb_fb := False, sb_swapped_out := True\<rparr>
      else b)"

text \<open>The records that are still to be read from a bucket that is being read.\<close>

definition sb_rest :: "'k sort_bucket \<Rightarrow> 'k list" where
  "sb_rest b = drop (sb_rpos b) (sb_file b)"

section \<open>The internal sorter\<close>

text \<open>
  \<^verbatim>\<open>Q(quicksort)\<close> of \<^verbatim>\<open>array.h\<close> is the algorithm of \<^verbatim>\<open>array-simple.h\<close>; without hash
  function and threads \<^verbatim>\<open>asort_run\<close> always takes it.
\<close>

definition quicksort :: "('k \<Rightarrow> 'k \<Rightarrow> bool) \<Rightarrow> 'k list \<Rightarrow> 'k list option" where
  "quicksort lt array = asort_sort lt array"

definition quicksplit :: "('k \<Rightarrow> 'k \<Rightarrow> bool) \<Rightarrow> 'k list \<Rightarrow> (int \<times> int \<times> 'k list) option" where
  "quicksplit lt array = split_range lt 0 (int (length array) - 1) array"

definition array_sort :: "('k \<Rightarrow> 'k \<Rightarrow> bool) \<Rightarrow> 'k list \<Rightarrow> 'k list option" where
  "array_sort lt array = quicksort lt array"

definition internal_num_keys :: "'k sort_context \<Rightarrow> nat" where
  "internal_num_keys ctx = min (big_buf_size ctx div key_size ctx) (2 ^ 32 - 1)"

definition internal_estimate :: "'k sort_context \<Rightarrow> nat" where
  "internal_estimate ctx = internal_num_keys ctx * key_size ctx - 1"

text \<open>
  The last run goes to \<open>bout_only\<close>, where it is another bucket than \<open>bout\<close>. The result is
  whether there may be more, the input, and the two outputs.
\<close>

definition sort_internal ::
  "'k sort_context \<Rightarrow> 'k sort_bucket \<Rightarrow> 'k sort_bucket \<Rightarrow> 'k sort_bucket option \<Rightarrow>
   (bool \<times> 'k sort_bucket \<times> 'k sort_bucket \<times> 'k sort_bucket option) option"
where
  "sort_internal ctx bin bout bout_only = do {
     bin \<leftarrow> sbuck_read ctx bin;
     let maxkeys = internal_num_keys ctx;
     let buf = take maxkeys (sb_rest bin);
     let n = length buf;
     let bin = bin\<lparr>sb_rpos := sb_rpos bin + n\<rparr>;
     if n = 0 then Some (False, bin, bout, bout_only)
     else do {
       buf \<leftarrow> array_sort (\<lambda>x y. compare ctx x y < 0) buf;
       if n < maxkeys \<and> bout_only \<noteq> None then do {
         out \<leftarrow> sbuck_write (the bout_only);
         Some (n = maxkeys, bin, bout, Some (out\<lparr>sb_file := sb_file out @ buf, sb_runs := (sb_runs out + 1) mod 2 ^ 32\<rparr>))
       } else do {
         out \<leftarrow> sbuck_write bout;
         Some (n = maxkeys, bin, out\<lparr>sb_file := sb_file out @ buf, sb_runs := (sb_runs out + 1) mod 2 ^ 32\<rparr>, bout_only)
       }
     }
   }"

section \<open>Merging buckets\<close>

text \<open>An output is opened when the first run is written to it.\<close>

definition sb_append :: "'k list \<times> nat \<Rightarrow> 'k sort_bucket \<Rightarrow> 'k sort_bucket option" where
  "sb_append r b =
     (if fst r = [] then Some b
      else do { b \<leftarrow> sbuck_write b; Some (b\<lparr>sb_file := sb_file b @ fst r, sb_runs := (sb_runs b + snd r) mod 2 ^ 32\<rparr>) })"

definition sort_twoway ::
  "'k sort_context \<Rightarrow> 'k sort_bucket \<Rightarrow> 'k sort_bucket option \<Rightarrow> 'k sort_bucket \<Rightarrow> 'k sort_bucket option \<Rightarrow>
   ('k sort_bucket \<times> 'k sort_bucket option) option"
where
  "sort_twoway ctx ins0 ins1 outs0 outs1 = do {
     fin1 \<leftarrow> sbuck_read ctx ins0;
     ys \<leftarrow> (if sbuck_have ctx ins1 then do { fin2 \<leftarrow> sbuck_read ctx (the ins1); Some (sb_rest fin2) } else Some []);
     (r0, r1) \<leftarrow> twoway_merge (compare ctx) (outs1 \<noteq> None) (sb_rest fin1) ys [] [];
     outs0 \<leftarrow> sb_append r0 outs0;
     case outs1 of
       None \<Rightarrow> Some (outs0, None)
     | Some outs1 \<Rightarrow> do { outs1 \<leftarrow> sb_append r1 outs1; Some (outs0, Some outs1) }
   }"

fun sb_read_all :: "'k sort_context \<Rightarrow> 'k sort_bucket list \<Rightarrow> 'k list list option" where
  "sb_read_all ctx [] = Some []"
| "sb_read_all ctx (b # bs) = do { b \<leftarrow> sbuck_read ctx b; xss \<leftarrow> sb_read_all ctx bs; Some (sb_rest b # xss) }"

definition sort_multiway :: "'k sort_context \<Rightarrow> 'k sort_bucket list \<Rightarrow> 'k sort_bucket \<Rightarrow> 'k sort_bucket option" where
  "sort_multiway ctx ins out = do {
     out \<leftarrow> sbuck_write out;
     fins \<leftarrow> sb_read_all ctx ins;
     xs \<leftarrow> multiway_merge (compare ctx) fins (sb_file out);
     Some (out\<lparr>sb_file := xs, sb_runs := (sb_runs out + 1) mod 2 ^ 32\<rparr>)
   }"

section \<open>The governor\<close>

text \<open>
  A bucket is sorted with the one before it in the list at hand, \<open>prev\<close>, which is also the
  bucket that the result may be joined to. An operation returns what the two become in the list.
  The size that \<^verbatim>\<open>sbuck_ins_or_join\<close> returns is only traced.
\<close>

definition sbuck_join_to :: "'k sort_context \<Rightarrow> 'k sort_bucket \<Rightarrow> bool option" where
  "sbuck_join_to ctx prev =
     (if debug_flag ctx SORT_DEBUG_NO_JOIN then Some False
      else if \<not> sb_final prev then Some False
      else if sb_runs prev = 1 then Some True else None)"

definition sbuck_ins_or_join ::
  "'k sort_bucket option \<Rightarrow> 'k sort_bucket \<Rightarrow> bool \<Rightarrow> 'k sort_bucket list option"
where
  "sbuck_ins_or_join b prev join =
     (if join \<and> 2 \<le> sb_runs prev
      then (if sb_runs prev = 2 then Some [prev\<lparr>sb_runs := sb_runs prev - 1\<rparr>] else None)
      else case b of Some b \<Rightarrow> Some [prev, b] | None \<Rightarrow> Some [prev])"

definition sorter_join :: "'k sort_context \<Rightarrow> 'k sort_bucket \<Rightarrow> 'k sort_bucket \<Rightarrow> 'k sort_bucket list option" where
  "sorter_join ctx prev b =
     (if \<not> sb_final prev \<or> sb_runs b \<noteq> 1 then None
      else if \<not> sbuck_has_file prev then Some [b\<lparr>sb_final := True\<rparr>]
      else do {
        src \<leftarrow> sbuck_read ctx b;
        dest \<leftarrow> sbuck_write prev;
        Some [dest\<lparr>sb_file := sb_file dest @ sb_rest src\<rparr>]
      })"

text \<open>The loop that presorts into two buckets in turn.\<close>

partial_function (option) tw_presort ::
  "'k sort_context \<Rightarrow> bool \<Rightarrow> 'k sort_bucket \<Rightarrow> 'k sort_bucket \<Rightarrow> 'k sort_bucket \<Rightarrow> ('k sort_bucket \<times> 'k sort_bucket) option"
where
  "tw_presort ctx i b ins0 ins1 = do {
     r \<leftarrow> sort_internal ctx b (if i then ins1 else ins0) None;
     (case r of (cont, b, out, _) \<Rightarrow>
        if cont then (if i then tw_presort ctx False b ins0 out else tw_presort ctx True b out ins1)
        else Some (if i then (ins0, out) else (out, ins1)))
   }"

text \<open>The passes of the two-way merge; a null pointer is read where \<open>ins[1]\<close> is missing.\<close>

partial_function (option) tw_passes ::
  "'k sort_context \<Rightarrow> bool \<Rightarrow> 'k sort_bucket \<Rightarrow> 'k sort_bucket \<Rightarrow> 'k sort_bucket option \<Rightarrow> 'k sort_bucket list option"
where
  "tw_passes ctx join prev ins0 ins1 =
     (if sb_runs ins0 \<le> 1 \<and> ins1 = None then None
      else if sb_runs ins0 \<le> 1 \<and> sb_runs (the ins1) \<le> 1 \<and> join then do {
        r \<leftarrow> sort_twoway ctx ins0 ins1 prev None;
        sbuck_ins_or_join None (fst r) join
      } else do {
        r \<leftarrow> sort_twoway ctx ins0 ins1 sbuck_new (Some sbuck_new);
        if sbuck_have ctx (snd r) then tw_passes ctx join prev (fst r) (snd r)
        else Some [prev, fst r]
      })"

definition sorter_twoway :: "'k sort_context \<Rightarrow> 'k sort_bucket \<Rightarrow> 'k sort_bucket \<Rightarrow> 'k sort_bucket list option" where
  "sorter_twoway ctx prev b = do {
     join \<leftarrow> sbuck_join_to ctx prev;
     if debug_flag ctx SORT_DEBUG_NO_PRESORT then tw_passes ctx join prev b None
     else do {
       (cont, b, ins0, only) \<leftarrow> sort_internal ctx b sbuck_new (if join then Some prev else None);
       let prev = (case only of Some p \<Rightarrow> p | None \<Rightarrow> prev);
       if \<not> cont then sbuck_ins_or_join (Some ins0) prev join
       else do {
         (ins0, ins1) \<leftarrow> tw_presort ctx True b ins0 sbuck_new;
         tw_passes ctx join prev ins0 (Some ins1)
       }
     }
   }"

text \<open>The parts of the multi-way strategy, each swapped out, and the bucket to join to.\<close>

partial_function (option) mw_presort ::
  "'k sort_context \<Rightarrow> bool \<Rightarrow> 'k sort_bucket \<Rightarrow> 'k sort_bucket \<Rightarrow> 'k sort_bucket list \<Rightarrow>
   ('k sort_bucket \<times> 'k sort_bucket list) option"
where
  "mw_presort ctx join prev b parts = do {
     r \<leftarrow> sort_internal ctx b sbuck_new (if parts = [] \<and> join then Some prev else None);
     (case r of (cont, b, p, only) \<Rightarrow>
        if cont then
          mw_presort ctx join (case only of Some q \<Rightarrow> q | None \<Rightarrow> prev) b
            (if sbuck_have ctx (Some p) then parts @ [sbuck_swap_out ctx p] else parts)
        else Some (case only of Some q \<Rightarrow> q | None \<Rightarrow> prev,
            if sbuck_have ctx (Some p) then parts @ [sbuck_swap_out ctx p] else parts))
   }"

partial_function (option) mw_passes ::
  "'k sort_context \<Rightarrow> bool \<Rightarrow> nat \<Rightarrow> 'k sort_bucket \<Rightarrow> 'k sort_bucket list \<Rightarrow> 'k sort_bucket list option"
where
  "mw_passes ctx join max_ways prev parts =
     (if length (take max_ways parts) \<le> 1 then None
      else if drop max_ways parts = [] then do {
        out \<leftarrow> sort_multiway ctx (take max_ways parts) (if join then prev else sbuck_new);
        (if join then sbuck_ins_or_join None out True else sbuck_ins_or_join (Some out) prev False)
      } else do {
        out \<leftarrow> sort_multiway ctx (take max_ways parts) sbuck_new;
        mw_passes ctx join max_ways prev (drop max_ways parts @ [sbuck_swap_out ctx out])
      })"

definition sorter_multiway :: "'k sort_context \<Rightarrow> 'k sort_bucket \<Rightarrow> 'k sort_bucket \<Rightarrow> 'k sort_bucket list option" where
  "sorter_multiway ctx prev b = do {
     join \<leftarrow> sbuck_join_to ctx prev;
     if debug_flag ctx SORT_DEBUG_NO_PRESORT then None
     else do {
       (prev, parts) \<leftarrow> mw_presort ctx join prev b [];
       case parts of
         [] \<Rightarrow> sbuck_ins_or_join None prev join
       | [p] \<Rightarrow> sbuck_ins_or_join (Some p) prev False
       | _ \<Rightarrow> if 31 \<le> max_multiway_bits ctx then None
             else mw_passes ctx join (2 ^ max_multiway_bits ctx) prev parts
     }
   }"

text \<open>How many bits of the size are to be reduced; the shift of a 64-bit number ends at 63.\<close>

function find_bits :: "nat \<Rightarrow> nat \<Rightarrow> nat \<Rightarrow> nat option" where
  "find_bits insize mem bits =
     (if 64 \<le> bits then None
      else if mem < insize div 2 ^ bits then find_bits insize mem (bits + 1) else Some bits)"
  by auto
termination
  by (relation "measure (\<lambda>(insize, mem, bits). 64 - bits)") auto

declare find_bits.simps [simp del]

definition multiway_bits_of :: "'k sort_context \<Rightarrow> nat \<Rightarrow> nat" where
  "multiway_bits_of ctx bits =
     (if debug_flag ctx SORT_DEBUG_NO_MULTIWAY \<or> debug_flag ctx SORT_DEBUG_NO_PRESORT then 0
      else let k = min bits (max_multiway_bits ctx) in if k < min_multiway_bits ctx then 0 else k)"

definition sorter_decide :: "'k sort_context \<Rightarrow> 'k sort_bucket \<Rightarrow> 'k sort_bucket \<Rightarrow> 'k sort_bucket list option" where
  "sorter_decide ctx prev b =
     (if \<not> sbuck_have ctx (Some b) then Some [prev]
      else do {
        bits \<leftarrow> find_bits (sbuck_size ctx b) (mem_of ctx (internal_estimate ctx)) 0;
        let multiway_bits = multiway_bits_of ctx bits;
        if sb_runs b \<noteq> 0 then sorter_join ctx prev b
        else if bits = 0 then sorter_twoway ctx prev b
        else if multiway_bits = bits then sorter_multiway ctx prev b
        else if multiway_bits \<noteq> 0 then sorter_multiway ctx prev b
        else sorter_twoway ctx prev b
      })"

partial_function (option) sorter_loop :: "'k sort_context \<Rightarrow> 'k sort_bucket list \<Rightarrow> 'k sort_bucket option" where
  "sorter_loop ctx bs =
     (case bs of
        [] \<Rightarrow> None
      | [bout] \<Rightarrow> Some bout
      | bout # b # rest \<Rightarrow> do { l \<leftarrow> sorter_decide ctx bout b; sorter_loop ctx (l @ rest) })"

text \<open>
  The input \<open>xs\<close> with its announced size, and what the output stream holds already, where
  one is given. The result is what can be read from the output.
\<close>

definition sorter_run :: "'k sort_context \<Rightarrow> 'k list \<Rightarrow> nat \<Rightarrow> 'k list option \<Rightarrow> 'k list option" where
  "sorter_run ctx xs in_size out_fb = do {
     let ctx = sorter_prepare_buf ctx;
     let bin = sbuck_new\<lparr>sb_source := True, sb_open_read := True, sb_fb := True, sb_file := xs, sb_bytes := in_size\<rparr>;
     let bout = (case out_fb of
         None \<Rightarrow> sbuck_new\<lparr>sb_final := True, sb_runs := 1\<rparr>
       | Some ys \<Rightarrow> sbuck_new\<lparr>sb_final := True, sb_runs := 1, sb_fb := True, sb_open_write := True, sb_file := ys\<rparr>);
     bout \<leftarrow> sorter_loop ctx [bout, bin];
     bout \<leftarrow> sbuck_write bout;
     out \<leftarrow> sbuck_read ctx bout;
     Some (sb_rest out)
   }"

end
