(* ===== verification/Sorter_Inv.thy ===== *)
theory Sorter_Inv
  imports Sorter
begin

text \<open>
  Buckets and passes of the external sorter: what a bucket holds, what one call of the internal
  sorter and of a merge does with buckets, and what the loops of the governor make of runs and
  parts. The loops are shown to end: a pass halves the number of runs, and a merge of parts makes
  one of several.
\<close>

section \<open>What a bucket holds\<close>

text \<open>
  A bucket that was never opened, is being written, or is swapped out while being written; it
  holds \<open>xs\<close> in \<open>r\<close> runs.
\<close>

definition holds :: "'k sort_context \<Rightarrow> 'k sort_bucket \<Rightarrow> 'k list \<Rightarrow> nat \<Rightarrow> bool \<Rightarrow> bool" where
  "holds ctx b xs r final \<longleftrightarrow>
     sb_file b = xs \<and> sb_runs b = r \<and> sb_final b = final \<and> \<not> sb_open_read b \<and> \<not> sb_source b \<and>
     (sb_swapped_out b \<longrightarrow> sb_bytes b = length xs * key_size ctx) \<and>
     (if sb_open_write b then sb_fb b \<or> sb_swapped_out b
      else \<not> sb_fb b \<and> \<not> sb_swapped_out b \<and> xs = [] \<and> sb_bytes b = 0)"

lemma holds_fields: "holds ctx b xs r f \<Longrightarrow> sb_file b = xs \<and> sb_runs b = r \<and> sb_final b = f"
  by (simp add: holds_def)

lemma holds_new: "holds ctx sbuck_new [] 0 False"
  by (simp add: holds_def sbuck_new_def)

lemma holds_size: "holds ctx b xs r f \<Longrightarrow> sbuck_size ctx b = length xs * key_size ctx"
  by (auto simp: holds_def sbuck_size_def split: if_splits)

lemma holds_runs: "holds ctx b xs r f \<Longrightarrow> holds ctx (b\<lparr>sb_runs := r'\<rparr>) xs r' f"
  by (simp add: holds_def)

lemma holds_final: "holds ctx b xs r f \<Longrightarrow> holds ctx (b\<lparr>sb_final := f'\<rparr>) xs r f'"
  by (simp add: holds_def)

lemma holds_swap_out: "holds ctx b xs r f \<Longrightarrow> holds ctx (sbuck_swap_out ctx b) xs r f"
  by (auto simp: holds_def sbuck_swap_out_def)

lemma holds_write:
  assumes "holds ctx b xs r f"
  obtains b' where "sbuck_write b = Some b'" "sb_file b' = xs" "sb_runs b' = r"
    "\<And>ys r'. holds ctx (b'\<lparr>sb_file := ys, sb_runs := r'\<rparr>) ys r' f" "\<And>ys. holds ctx (b'\<lparr>sb_file := ys\<rparr>) ys r f"
  using assms by (force simp: holds_def sbuck_write_def sbuck_swap_in_def Let_def split: if_splits)

lemma holds_read:
  assumes "holds ctx b xs r f" "xs \<noteq> []"
  obtains b' where "sbuck_read ctx b = Some b'" "sb_rest b' = xs"
  using assms by (force simp: holds_def sbuck_read_def sbuck_swap_in_def sb_rest_def Let_def split: if_splits)

lemma holds_read_written:
  assumes "holds ctx b xs r f" "sbuck_write b = Some b'"
  obtains b'' where "sbuck_read ctx b' = Some b''" "sb_rest b'' = xs"
  using assms by (force simp: holds_def sbuck_read_def sbuck_write_def sbuck_swap_in_def sb_rest_def Let_def split: if_splits)

lemma holds_no_file: "holds ctx b xs r f \<Longrightarrow> \<not> sbuck_has_file b \<Longrightarrow> xs = []"
  by (auto simp: holds_def sbuck_has_file_def split: if_splits)

lemma sb_append_ok:
  assumes "holds ctx b xs r f" "ys = [] \<Longrightarrow> k = 0" "r + k < 2 ^ 32"
  obtains b' where "sb_append (ys, k) b = Some b'" "holds ctx b' (xs @ ys) (r + k) f"
proof (cases "ys = []")
  case True
  then show ?thesis using assms that by (simp add: sb_append_def)
next
  case False
  from assms(1) obtain b' where "sbuck_write b = Some b'" "sb_file b' = xs" "sb_runs b' = r"
    "\<And>ys r'. holds ctx (b'\<lparr>sb_file := ys, sb_runs := r'\<rparr>) ys r' f" by (rule holds_write) blast
  then show ?thesis using that False assms(3) by (simp add: sb_append_def)
qed

text \<open>The source, of which \<open>xs\<close> is still to be read.\<close>

definition source_of :: "'k sort_bucket \<Rightarrow> 'k list \<Rightarrow> bool" where
  "source_of b xs \<longleftrightarrow> sb_open_read b \<and> \<not> sb_swapped_out b \<and> sb_rest b = xs"

lemma source_read: "source_of b xs \<Longrightarrow> sbuck_read ctx b = Some b"
  by (simp add: source_of_def sbuck_read_def sbuck_swap_in_def)

lemma source_advance: "source_of b xs \<Longrightarrow> source_of (b\<lparr>sb_rpos := sb_rpos b + n\<rparr>) (drop n xs)"
  by (auto simp: source_of_def sb_rest_def add.commute)

lemma nruns_append: "nruns c (xs @ ys) \<le> nruns c xs + nruns c ys"
proof (induction xs)
  case (Cons x xs)
  then show ?case by (cases xs; cases ys) (auto simp: nruns_Cons)
qed simp

lemma nruns_length: "nruns c xs \<le> length xs"
  by (induction c xs rule: nruns.induct) auto

section \<open>One call on buckets\<close>

text \<open>What the governor relies on: an order, keys that are not empty and fit in the buffer.\<close>

locale sort_conf = key_order "compare ctx" for ctx :: "'k sort_context" +
  assumes key_pos: "0 < key_size ctx"
    and keys_pos: "0 < internal_num_keys ctx"
    and keys_bound: "internal_num_keys ctx \<le> 2 ^ 30"
begin

definition asc :: "'k list \<Rightarrow> bool" where
  "asc xs \<longleftrightarrow> sorted_wrt (\<lambda>x y. compare ctx x y \<le> 0) xs"

lemma asc_nil: "asc []"
  by (simp add: asc_def)

lemma asc_nruns: "asc xs \<longleftrightarrow> nruns (compare ctx) xs \<le> 1"
  using nruns_sorted by (simp add: asc_def)

lemma holds_have: "holds ctx b xs r f \<Longrightarrow> sbuck_have ctx (Some b) \<longleftrightarrow> xs \<noteq> []"
  using key_pos by (simp add: sbuck_have_def holds_size)

lemma array_sort_ok:
  assumes "length xs \<le> internal_num_keys ctx"
  obtains p where "array_sort (\<lambda>x y. compare ctx x y < 0) xs = Some p" "mset p = mset xs" "asc p"
proof -
  have "length xs \<le> 2 ^ 30" using assms keys_bound by simp
  then obtain p where p: "asort_sort (\<lambda>x y. compare ctx x y < 0) xs = Some p" "mset p = mset xs"
    "sorted_wrt (\<lambda>x y. \<not> compare ctx y x < 0) p"
    using strict.sort_ok by blast
  moreover have "asc p" unfolding asc_def by (rule sorted_wrt_mono_rel [OF _ p(3)]) (use sign in force)
  ultimately show ?thesis using that by (simp add: array_sort_def quicksort_def)
qed

text \<open>The internal sorter at the end of the source, with a last run, and with a full buffer.\<close>

lemma sort_internal_empty:
  "source_of b [] \<Longrightarrow> \<exists>b'. sort_internal ctx b out only = Some (False, b', out, only)"
  by (auto simp: sort_internal_def source_read) (simp add: source_of_def)

lemma sort_internal_last:
  assumes b: "source_of b xs" "xs \<noteq> []" "length xs < internal_num_keys ctx"
    and only: "only = (if j then Some o1 else None)" and h: "holds ctx (if j then o1 else out) ys r f" "r + 1 < 2 ^ 32"
  shows "\<exists>b' p o'. sort_internal ctx b out only = Some (False, b', (if j then out else o'), if j then Some o' else None) \<and>
    mset p = mset xs \<and> asc p \<and> holds ctx o' (ys @ p) (r + 1) f"
proof -
  obtain p where p: "array_sort (\<lambda>x y. compare ctx x y < 0) xs = Some p" "mset p = mset xs" "asc p"
    using array_sort_ok [of xs] b by auto
  obtain o' where o': "sbuck_write (if j then o1 else out) = Some o'" "sb_file o' = ys" "sb_runs o' = r"
    "\<And>ys r'. holds ctx (o'\<lparr>sb_file := ys, sb_runs := r'\<rparr>) ys r' f" using h(1) by (rule holds_write) blast
  have rest: "sb_rest b = xs" using b by (simp add: source_of_def)
  show ?thesis
    using b rest only h(2) p o'(1-3) o'(4) [where ys = "ys @ p" and r' = "r + 1"]
    by (cases j) (auto simp: sort_internal_def source_read Let_def)
qed

lemma sort_internal_full:
  assumes b: "source_of b xs" "internal_num_keys ctx \<le> length xs" and h: "holds ctx out ys r f" "r + 1 < 2 ^ 32"
  shows "\<exists>b' p o'. sort_internal ctx b out only = Some (True, b', o', only) \<and>
    source_of b' (drop (internal_num_keys ctx) xs) \<and> mset p = mset (take (internal_num_keys ctx) xs) \<and> asc p \<and>
    p \<noteq> [] \<and> holds ctx o' (ys @ p) (r + 1) f"
proof -
  let ?K = "internal_num_keys ctx"
  have n: "length (take ?K xs) = ?K" using b by simp
  obtain p where p: "array_sort (\<lambda>x y. compare ctx x y < 0) (take ?K xs) = Some p" "mset p = mset (take ?K xs)" "asc p"
    using array_sort_ok [of "take ?K xs"] by auto
  obtain o' where o': "sbuck_write out = Some o'" "sb_file o' = ys" "sb_runs o' = r"
    "\<And>ys r'. holds ctx (o'\<lparr>sb_file := ys, sb_runs := r'\<rparr>) ys r' f" using h(1) by (rule holds_write) blast
  have rest: "sb_rest b = xs" using b by (simp add: source_of_def)
  have "length p = ?K" using n p(2) mset_eq_length by metis
  then have ne: "p \<noteq> []" using keys_pos by auto
  show ?thesis
    using b rest h(2) p ne o'(1-3) o'(4) [where ys = "ys @ p" and r' = "r + 1"] keys_pos source_advance [OF b(1), of ?K]
    by (auto simp: sort_internal_def source_read Let_def min_absorb2)
qed

text \<open>The merges.\<close>

lemma sort_twoway_ok:
  assumes h: "holds ctx ins0 x0 r0 f0" "holds ctx ins1 x1 r1 f1" "x0 \<noteq> []"
    and o0: "holds ctx d0 ys s0 g0" and o1: "two \<Longrightarrow> holds ctx d1 zs s1 g1"
    and runs: "two \<or> asc x0 \<and> asc x1" and few: "length x0 + 1 < 2 ^ 32" "length x1 + 1 < 2 ^ 32" "s0 \<le> 1" "s1 \<le> 1"
  shows "\<exists>p q R d0' d1'. sort_twoway ctx ins0 (Some ins1) d0 (if two then Some d1 else None) =
      Some (d0', if two then Some d1' else None) \<and>
    holds ctx d0' (ys @ p) (s0 + (R + 1) div 2) g0 \<and> (two \<longrightarrow> holds ctx d1' (zs @ q) (s1 + R div 2) g1) \<and>
    R \<le> max (nruns (compare ctx) x0) (nruns (compare ctx) x1) \<and>
    nruns (compare ctx) p \<le> (R + 1) div 2 \<and> nruns (compare ctx) q \<le> R div 2 \<and>
    p \<noteq> [] \<and> (q = [] \<longleftrightarrow> R \<le> 1) \<and> mset p + mset q = mset x0 + mset x1"
proof -
  obtain b0 where b0: "sbuck_read ctx ins0 = Some b0" "sb_rest b0 = x0" using h by (blast elim: holds_read)
  have b1: "(if sbuck_have ctx (Some ins1) then do { fin2 \<leftarrow> sbuck_read ctx (the (Some ins1)); Some (sb_rest fin2) } else Some []) = Some x1"
  proof (cases "x1 = []")
    case True
    then show ?thesis using holds_have [OF h(2)] by simp
  next
    case False
    then obtain b1 where "sbuck_read ctx ins1 = Some b1" "sb_rest b1 = x1" using h(2) by (blast elim: holds_read)
    then show ?thesis using holds_have [OF h(2)] False by simp
  qed
  have "two \<or> nruns (compare ctx) x0 \<le> 1 \<and> nruns (compare ctx) x1 \<le> 1" using runs by (simp add: asc_nruns)
  moreover have few': "nruns (compare ctx) x0 + 1 < 2 ^ 32" "nruns (compare ctx) x1 + 1 < 2 ^ 32"
    using few(1,2) nruns_length [of "compare ctx" x0] nruns_length [of "compare ctx" x1] by linarith+
  ultimately obtain p q R where m:
    "twoway_merge (compare ctx) two x0 x1 [] [] = Some ((p, (R + 1) div 2), (q, R div 2))"
    "R \<le> max (nruns (compare ctx) x0) (nruns (compare ctx) x1)"
    "nruns (compare ctx) p \<le> (R + 1) div 2" "nruns (compare ctx) q \<le> R div 2"
    "p = [] \<longleftrightarrow> R = 0" "q = [] \<longleftrightarrow> R \<le> 1" "mset p + mset q = mset x0 + mset x1"
    using twoway_merge_ok [of two x0 x1 "[]" "[]"] by auto
  have R: "s0 + (R + 1) div 2 < 2 ^ 32" "s1 + R div 2 < 2 ^ 32" using m(2) few' few(3,4) by auto
  have "R \<noteq> 0" using m(5-7) h(3) by auto
  obtain a where a: "sb_append (p, (R + 1) div 2) d0 = Some a" "holds ctx a (ys @ p) (s0 + (R + 1) div 2) g0"
    by (rule sb_append_ok [OF o0, of p "(R + 1) div 2"]) (use \<open>R \<noteq> 0\<close> m(5) R in auto)
  show ?thesis
  proof (cases two)
    case True
    obtain c where c: "sb_append (q, R div 2) d1 = Some c" "holds ctx c (zs @ q) (s1 + R div 2) g1"
      by (rule sb_append_ok [OF o1 [OF True], of q "R div 2"]) (use m(6) R in auto)
    show ?thesis
      unfolding sort_twoway_def b1 using True b0 m a c \<open>R \<noteq> 0\<close> by fastforce
  next
    case False
    show ?thesis unfolding sort_twoway_def b1 using False b0 m a \<open>R \<noteq> 0\<close> by fastforce
  qed
qed

definition part_of :: "'k sort_bucket \<Rightarrow> 'k list \<Rightarrow> bool" where
  "part_of b xs \<longleftrightarrow> holds ctx b xs 1 False \<and> xs \<noteq> [] \<and> asc xs"

lemma sb_read_all_ok: "list_all2 part_of bs xss \<Longrightarrow> sb_read_all ctx bs = Some xss"
proof (induction rule: list_all2_induct)
  case (Cons b bs xs xss)
  from Cons(1) obtain b' where "sbuck_read ctx b = Some b'" "sb_rest b' = xs"
    by (auto simp: part_of_def elim: holds_read)
  then show ?case using Cons by simp
qed simp

lemma sort_multiway_ok:
  assumes "list_all2 part_of bs xss" "holds ctx out ys r f" "r + 1 < 2 ^ 32"
  shows "\<exists>out' p. sort_multiway ctx bs out = Some out' \<and> holds ctx out' (ys @ p) (r + 1) f \<and>
    mset p = mset (concat xss) \<and> asc p"
proof -
  have "\<forall>xs \<in> set xss. asc xs" using assms(1) by (auto simp: list_all2_conv_all_nth part_of_def in_set_conv_nth)
  then obtain p where p: "multiway_merge (compare ctx) xss ys = Some (ys @ p)" "mset p = mset (concat xss)" "asc p"
    using multiway_merge_ok [of xss ys] by (auto simp: asc_def)
  obtain o' where o': "sbuck_write out = Some o'" "sb_file o' = ys" "sb_runs o' = r"
    "\<And>ys r'. holds ctx (o'\<lparr>sb_file := ys, sb_runs := r'\<rparr>) ys r' f" using assms(2) by (rule holds_write) blast
  show ?thesis using p assms(3) o'(1-3) o'(4) [where ys = "ys @ p" and r' = "r + 1"] sb_read_all_ok [OF assms(1)]
    by (auto simp: sort_multiway_def)
qed

end

end
