(* ===== verification/Sorter_Ops.thy ===== *)
theory Sorter_Ops
  imports Sorter_Inv
begin

text \<open>
  Correctness of the external sorter: the passes of both strategies end with one run, the
  governor joins it to the output, and what can be read from the output is its old contents
  followed by the records of the input in order.
\<close>

section \<open>The passes\<close>

context sort_conf
begin

text \<open>
  What a strategy makes of the bucket \<open>prev\<close> with contents \<open>ys\<close> and of a bucket with the
  records \<open>p\<close> of the result: both in one, or the result as one run behind it.
\<close>

definition settled :: "'k sort_bucket \<Rightarrow> 'k list \<Rightarrow> 'k list \<Rightarrow> 'k sort_bucket list \<Rightarrow> bool" where
  "settled prev ys p l \<longleftrightarrow>
     (\<exists>b. l = [b] \<and> holds ctx b (ys @ p) 1 True) \<or>
     (\<exists>b r. l = [prev, b] \<and> holds ctx b p r False \<and> (p \<noteq> [] \<longrightarrow> r = 1))"

lemma settled_joined:
  "holds ctx b (ys @ p) 2 True \<Longrightarrow> \<exists>l. sbuck_ins_or_join c b True = Some l \<and> settled prev ys p l"
  using holds_fields [of ctx b] holds_runs [of ctx b "ys @ p" 2 True 1]
  by (auto simp: sbuck_ins_or_join_def settled_def)

lemma settled_behind: "holds ctx b p r False \<Longrightarrow> p \<noteq> [] \<longrightarrow> r = 1 \<Longrightarrow> settled prev ys p [prev, b]"
  by (auto simp: settled_def)

text \<open>A bucket of the two-way strategy: it has counted at least the runs that it holds.\<close>

definition stock :: "'k sort_bucket \<Rightarrow> 'k list \<Rightarrow> bool" where
  "stock b xs \<longleftrightarrow> (\<exists>r. holds ctx b xs r False \<and> nruns (compare ctx) xs \<le> r)"

text \<open>While presorting, every run that was counted has a record, so that the counter does not wrap around.\<close>

definition counted :: "'k sort_bucket \<Rightarrow> 'k list \<Rightarrow> bool" where
  "counted b xs \<longleftrightarrow> (\<exists>r. holds ctx b xs r False \<and> nruns (compare ctx) xs \<le> r \<and> r \<le> length xs)"

lemma counted_stock: "counted b xs \<Longrightarrow> stock b xs"
  by (auto simp: counted_def stock_def)

lemma counted_new: "counted sbuck_new []"
  using holds_new by (force simp: counted_def)

lemma counted_grows:
  "nruns (compare ctx) xs \<le> r \<Longrightarrow> r \<le> length xs \<Longrightarrow> holds ctx b (xs @ p) (r + 1) False \<Longrightarrow> asc p \<Longrightarrow> p \<noteq> [] \<Longrightarrow> counted b (xs @ p)"
  using nruns_append [of "compare ctx" xs p] unfolding counted_def asc_nruns
  by (intro exI [of _ "r + 1"]) (cases p; simp)

lemma counted_last:
  assumes "source_of b xs" "xs \<noteq> []" "length xs < internal_num_keys ctx" "counted out ys" "length ys + 1 < 2 ^ 32"
  shows "\<exists>b' p out'. sort_internal ctx b out None = Some (False, b', out', None) \<and> mset p = mset xs \<and> counted out' (ys @ p)"
proof -
  obtain r where r: "holds ctx out ys r False" "nruns (compare ctx) ys \<le> r" "r \<le> length ys" using assms(4) by (auto simp: counted_def)
  have h: "holds ctx (if False then undefined else out) ys r False" "r + 1 < 2 ^ 32" using r assms(5) by simp_all
  obtain b' p o' where i: "sort_internal ctx b out None = Some (False, b', o', None)" "mset p = mset xs" "asc p"
    "holds ctx o' (ys @ p) (r + 1) False" using sort_internal_last [OF assms(1-3) _ h, of None] by auto
  have "p \<noteq> []" using i(2) assms(2) by auto
  then show ?thesis using i counted_grows [OF r(2,3) i(4,3)] by blast
qed

lemma counted_full:
  assumes "source_of b xs" "internal_num_keys ctx \<le> length xs" "counted out ys" "length ys + 1 < 2 ^ 32"
  shows "\<exists>b' p out'. sort_internal ctx b out None = Some (True, b', out', None) \<and>
    source_of b' (drop (internal_num_keys ctx) xs) \<and> mset p = mset (take (internal_num_keys ctx) xs) \<and> counted out' (ys @ p)"
proof -
  obtain r where r: "holds ctx out ys r False" "nruns (compare ctx) ys \<le> r" "r \<le> length ys" using assms(3) by (auto simp: counted_def)
  have "r + 1 < 2 ^ 32" using r(3) assms(4) by simp
  then show ?thesis using sort_internal_full [OF assms(1,2) r(1), of None] counted_grows [OF r(2,3)] by blast
qed

lemma take_drop_mset: "mset (take n xs) + mset (drop n xs) = mset xs"
  by (metis append_take_drop_id mset_append)

lemma tw_presort_ok:
  assumes "source_of b xs" "counted ins0 x0" "counted ins1 x1" "length x0 + length x1 + length xs + 1 < 2 ^ 32"
  shows "\<exists>i0 i1 y0 y1. tw_presort ctx i b ins0 ins1 = Some (i0, i1) \<and> counted i0 y0 \<and> counted i1 y1 \<and>
    mset y0 + mset y1 = mset x0 + mset x1 + mset xs \<and> (x0 \<noteq> [] \<longrightarrow> y0 \<noteq> [])"
  using assms
proof (induction "length xs" arbitrary: xs i b ins0 ins1 x0 x1 rule: less_induct)
  case less
  let ?K = "internal_num_keys ctx"
  have h: "counted (if i then ins1 else ins0) (if i then x1 else x0)" "length (if i then x1 else x0) + 1 < 2 ^ 32"
    using less(3-5) by auto
  consider (empty) "xs = []" | (one) "xs \<noteq> []" "length xs < ?K" | (full) "?K \<le> length xs" by linarith
  then show ?case
  proof cases
    case empty
    then obtain b' where "sort_internal ctx b (if i then ins1 else ins0) None = Some (False, b', if i then ins1 else ins0, None)"
      using sort_internal_empty less(2) by blast
    then have "tw_presort ctx i b ins0 ins1 = Some (ins0, ins1)" by (subst tw_presort.simps) (cases i; simp)
    then show ?thesis using less(3,4) empty by auto
  next
    case one
    obtain b' p out' where r: "sort_internal ctx b (if i then ins1 else ins0) None = Some (False, b', out', None)"
      "mset p = mset xs" "counted out' ((if i then x1 else x0) @ p)" using counted_last [OF less(2) one h] by blast
    then have "tw_presort ctx i b ins0 ins1 = Some (if i then (ins0, out') else (out', ins1))"
      by (subst tw_presort.simps) simp
    then show ?thesis using r(2,3) less(3,4)
      by (intro exI [of _ "if i then ins0 else out'"] exI [of _ "if i then out' else ins1"]
          exI [of _ "if i then x0 else x0 @ p"] exI [of _ "if i then x1 @ p else x1"]) (cases i; simp)
  next
    case full
    obtain b' p out' where r: "sort_internal ctx b (if i then ins1 else ins0) None = Some (True, b', out', None)"
      "source_of b' (drop ?K xs)" "mset p = mset (take ?K xs)" "counted out' ((if i then x1 else x0) @ p)"
      using counted_full [OF less(2) full h] by blast
    have sh: "length (drop ?K xs) < length xs" using full keys_pos by simp
    have "tw_presort ctx i b ins0 ins1 = (if i then tw_presort ctx False b' ins0 out' else tw_presort ctx True b' out' ins1)"
      using r(1) by (subst tw_presort.simps) simp
    moreover have m: "mset xs = mset p + mset (drop ?K xs)" using r(3) take_drop_mset [of ?K xs] by simp
    moreover have "length p + length (drop ?K xs) = length xs" using m by (metis size_mset size_union)
    ultimately show ?thesis
      using less(1) [OF sh r(2), of ins0 x0 out' "x1 @ p" False] less(1) [OF sh r(2), of out' "x0 @ p" ins1 x1 True] less(3-5) r(4)
      by (cases i) (simp_all add: ac_simps, blast+)
  qed
qed

text \<open>A pass with two outputs; the longer input has half its runs after it.\<close>

lemma sort_twoway_pass:
  assumes "stock ins0 x0" "stock ins1 x1" "x0 \<noteq> []" "length x0 + length x1 + 1 < 2 ^ 32"
  shows "\<exists>i0 i1 y0 y1. sort_twoway ctx ins0 (Some ins1) sbuck_new (Some sbuck_new) = Some (i0, Some i1) \<and>
    stock i0 y0 \<and> stock i1 y1 \<and> y0 \<noteq> [] \<and> mset y0 + mset y1 = mset x0 + mset x1 \<and>
    (y1 = [] \<longrightarrow> holds ctx i0 y0 1 False \<and> asc y0) \<and>
    (y1 \<noteq> [] \<longrightarrow> max (nruns (compare ctx) y0) (nruns (compare ctx) y1) < max (nruns (compare ctx) x0) (nruns (compare ctx) x1))"
proof -
  from assms(1,2) obtain r0 r1 where "holds ctx ins0 x0 r0 False" "holds ctx ins1 x1 r1 False" by (auto simp: stock_def)
  from sort_twoway_ok [OF this assms(3), of sbuck_new "[]" 0 False True sbuck_new "[]" 0 False] holds_new [of ctx] assms(4)
  obtain p q R d0 d1 where r: "sort_twoway ctx ins0 (Some ins1) sbuck_new (Some sbuck_new) = Some (d0, Some d1)"
    "holds ctx d0 p ((R + 1) div 2) False" "holds ctx d1 q (R div 2) False"
    "R \<le> max (nruns (compare ctx) x0) (nruns (compare ctx) x1)"
    "nruns (compare ctx) p \<le> (R + 1) div 2" "nruns (compare ctx) q \<le> R div 2"
    "p \<noteq> []" "q = [] \<longleftrightarrow> R \<le> 1" "mset p + mset q = mset x0 + mset x1" by auto
  have "0 < nruns (compare ctx) p" using r(7) by (rule nruns_pos)
  then have R: "0 < R" using r(5) by (cases R) auto
  have one: "holds ctx d0 p 1 False \<and> asc p" if "q = []"
  proof -
    have "R = 1" using that r(8) R by simp
    then show ?thesis using r(2,5) by (simp add: asc_nruns)
  qed
  have half: "max (nruns (compare ctx) p) (nruns (compare ctx) q) < max (nruns (compare ctx) x0) (nruns (compare ctx) x1)" if "q \<noteq> []"
  proof -
    have "2 \<le> R" using that r(8) by simp
    then have "(R + 1) div 2 < R" "R div 2 < R" by presburger+
    then have "max (nruns (compare ctx) p) (nruns (compare ctx) q) < R" using r(5,6) by simp
    then show ?thesis using r(4) by linarith
  qed
  have "stock d0 p" "stock d1 q" using r(2,3,5,6) by (auto simp: stock_def)
  then show ?thesis using r(1,7,9) one half by blast
qed

lemma tw_passes_ok:
  assumes "stock ins0 x0" "stock ins1 x1" "x0 \<noteq> []" "length x0 + length x1 + 1 < 2 ^ 32" "holds ctx prev ys 1 True"
  shows "\<exists>l p. tw_passes ctx join prev ins0 (Some ins1) = Some l \<and> mset p = mset x0 + mset x1 \<and> asc p \<and> settled prev ys p l"
  using assms(1-4)
proof (induction "max (nruns (compare ctx) x0) (nruns (compare ctx) x1)" arbitrary: ins0 ins1 x0 x1 rule: less_induct)
  case less
  from less(2,3) obtain r0 r1 where h: "holds ctx ins0 x0 r0 False" "holds ctx ins1 x1 r1 False"
    and n: "nruns (compare ctx) x0 \<le> r0" "nruns (compare ctx) x1 \<le> r1" by (auto simp: stock_def)
  have rr: "sb_runs ins0 = r0" "sb_runs ins1 = r1" using h holds_fields by blast+
  show ?case
  proof (cases "r0 \<le> 1 \<and> r1 \<le> 1 \<and> join")
    case True
    then have "asc x0" "asc x1" using n by (auto simp: asc_nruns)
    from sort_twoway_ok [OF h less(4) assms(5), of False _ "[]" 0 False] this less(5)
    obtain p q R d0 where r: "sort_twoway ctx ins0 (Some ins1) prev None = Some (d0, None)"
      "holds ctx d0 (ys @ p) (1 + (R + 1) div 2) True" "R \<le> max (nruns (compare ctx) x0) (nruns (compare ctx) x1)"
      "nruns (compare ctx) p \<le> (R + 1) div 2" "p \<noteq> []" "q = [] \<longleftrightarrow> R \<le> 1" "mset p + mset q = mset x0 + mset x1" by auto
    have "R \<le> 1" using r(3) n True by linarith
    moreover have "0 < nruns (compare ctx) p" using r(5) by (rule nruns_pos)
    ultimately have R: "R = 1" using r(4) by (cases R) auto
    obtain l where "sbuck_ins_or_join None d0 True = Some l" "settled prev ys p l"
      using settled_joined [of d0 ys p None prev] r(2) R by (auto simp: numeral_2_eq_2)
    moreover have "asc p" using r(4) R by (simp add: asc_nruns)
    ultimately show ?thesis using True r rr R by (subst tw_passes.simps) auto
  next
    case False
    obtain i0 i1 y0 y1 where r: "sort_twoway ctx ins0 (Some ins1) sbuck_new (Some sbuck_new) = Some (i0, Some i1)"
      "stock i0 y0" "stock i1 y1" "y0 \<noteq> []" "mset y0 + mset y1 = mset x0 + mset x1"
      and y1: "y1 = [] \<longrightarrow> holds ctx i0 y0 1 False \<and> asc y0"
      and dec: "y1 \<noteq> [] \<longrightarrow> max (nruns (compare ctx) y0) (nruns (compare ctx) y1) < max (nruns (compare ctx) x0) (nruns (compare ctx) x1)"
      using sort_twoway_pass [OF less(2-5)] by blast
    have have1: "sbuck_have ctx (Some i1) \<longleftrightarrow> y1 \<noteq> []" using r(3) holds_have by (auto simp: stock_def)
    have step: "tw_passes ctx join prev ins0 (Some ins1) =
        (if y1 \<noteq> [] then tw_passes ctx join prev i0 (Some i1) else Some [prev, i0])"
      using False r(1) rr have1 by (subst tw_passes.simps) auto
    show ?thesis
    proof (cases "y1 = []")
      case True
      then show ?thesis using step y1 r(5) settled_behind [of i0 y0 1] by auto
    next
      case False
      have "length y0 + length y1 = length x0 + length x1" using r(5) by (metis size_mset size_union)
      then show ?thesis using less(1) [OF _ r(2-4)] less(5) dec r(5) step False by auto
    qed
  qed
qed

text \<open>Presorting for the multi-way strategy: either one short run was joined at once, or there are parts.\<close>

lemma mw_presort_ok:
  assumes "source_of b xs" "holds ctx prev ys 1 True" "list_all2 part_of parts xss"
  shows "\<exists>prev' parts' xss'. mw_presort ctx join prev b parts = Some (prev', parts') \<and> list_all2 part_of parts' xss' \<and>
    (join \<and> parts = [] \<and> parts' = [] \<and> (\<exists>p. holds ctx prev' (ys @ p) 2 True \<and> mset p = mset xs \<and> asc p) \<or>
     prev' = prev \<and> mset (concat xss') = mset (concat xss) + mset xs)"
  using assms(1,3)
proof (induction "length xs" arbitrary: xs b parts xss rule: less_induct)
  case less
  let ?K = "internal_num_keys ctx" and ?j = "parts = [] \<and> join" and ?only = "if parts = [] \<and> join then Some prev else None"
  have new: "\<not> sbuck_have ctx (Some sbuck_new)" using holds_have [OF holds_new] by simp
  consider (empty) "xs = []" | (one) "xs \<noteq> []" "length xs < ?K" | (full) "?K \<le> length xs" by linarith
  then show ?case
  proof cases
    case empty
    then obtain b' where "sort_internal ctx b sbuck_new ?only = Some (False, b', sbuck_new, ?only)"
      using sort_internal_empty less(2) by blast
    then have "mw_presort ctx join prev b parts = Some (prev, parts)" using new by (subst mw_presort.simps) simp
    then show ?thesis using less(3) empty by auto
  next
    case one
    show ?thesis
    proof (cases ?j)
      case True
      have h: "holds ctx (if True then prev else sbuck_new) ys 1 True" using assms(2) by simp
      have "1 + 1 < (2 :: nat) ^ 32" by simp
      from sort_internal_last [OF less(2) one _ h this, of ?only] True
      obtain b' p o' where r: "sort_internal ctx b sbuck_new ?only = Some (False, b', sbuck_new, Some o')"
        "mset p = mset xs" "asc p" "holds ctx o' (ys @ p) 2 True" by (auto simp: numeral_2_eq_2)
      then have "mw_presort ctx join prev b parts = Some (o', [])" using new True by (subst mw_presort.simps) simp
      then show ?thesis using r True by auto
    next
      case False
      have h: "holds ctx (if False then undefined else sbuck_new) [] 0 False" using holds_new by simp
      from sort_internal_last [OF less(2) one _ h, of ?only] False
      obtain b' p o' where r: "sort_internal ctx b sbuck_new ?only = Some (False, b', o', None)"
        "mset p = mset xs" "asc p" "holds ctx o' p 1 False" by auto
      have ne: "p \<noteq> []" using r(2) one by auto
      then have "mw_presort ctx join prev b parts = Some (prev, parts @ [sbuck_swap_out ctx o'])"
        using r holds_have [OF r(4)] by (subst mw_presort.simps) simp
      moreover have "list_all2 part_of (parts @ [sbuck_swap_out ctx o']) (xss @ [p])"
        using less(3) r ne holds_swap_out by (auto simp: part_of_def intro!: list_all2_appendI)
      ultimately show ?thesis using r(2) by auto
    qed
  next
    case full
    from sort_internal_full [OF less(2) full holds_new, of ?only]
    obtain b' p o' where r: "sort_internal ctx b sbuck_new ?only = Some (True, b', o', ?only)"
      "source_of b' (drop ?K xs)" "mset p = mset (take ?K xs)" "asc p" "p \<noteq> []" "holds ctx o' p 1 False" by auto
    have step: "mw_presort ctx join prev b parts = mw_presort ctx join prev b' (parts @ [sbuck_swap_out ctx o'])"
      using r(1,5) holds_have [OF r(6)] by (subst mw_presort.simps) simp
    have parts: "list_all2 part_of (parts @ [sbuck_swap_out ctx o']) (xss @ [p])"
      using less(3) r holds_swap_out by (auto simp: part_of_def intro!: list_all2_appendI)
    have "mset xs = mset p + mset (drop ?K xs)" using r(3) take_drop_mset [of ?K xs] by simp
    moreover have "length (drop ?K xs) < length xs" using full keys_pos by simp
    ultimately show ?thesis using less(1) [OF _ r(2) parts] step by (auto simp: ac_simps)
  qed
qed

text \<open>The merges of the multi-way strategy; the parts that are not merged yet move to the front.\<close>

lemma mw_passes_ok:
  assumes "list_all2 part_of parts xss" "1 < length parts" "1 < ways" "holds ctx prev ys 1 True"
  shows "\<exists>l p. mw_passes ctx join ways prev parts = Some l \<and> mset p = mset (concat xss) \<and> asc p \<and> settled prev ys p l"
  using assms(1,2)
proof (induction "length parts" arbitrary: parts xss rule: less_induct)
  case less
  let ?t = "take ways parts" and ?xt = "take ways xss"
  have t: "list_all2 part_of ?t ?xt" using less(2) by (rule list_all2_takeI)
  have len: "\<not> length ?t \<le> 1" using less(3) assms(3) by simp
  show ?case
  proof (cases "drop ways parts = []")
    case True
    then have all: "?t = parts" "?xt = xss" using list_all2_lengthD [OF less(2)] by auto
    have o: "holds ctx (if join then prev else sbuck_new) (if join then ys else []) (if join then 1 else 0) join"
      using assms(4) holds_new [of ctx] by simp
    obtain out p where m: "sort_multiway ctx ?t (if join then prev else sbuck_new) = Some out" "mset p = mset (concat xss)" "asc p"
      "holds ctx out ((if join then ys else []) @ p) ((if join then 1 else 0) + 1) join"
      using sort_multiway_ok [OF t o] all by (cases join) auto
    obtain l where l: "(if join then sbuck_ins_or_join None out True else sbuck_ins_or_join (Some out) prev False) = Some l"
      "settled prev ys p l"
      using m(4) settled_joined [of out ys p None prev] settled_behind [of out p 1 prev ys]
      by (cases join) (auto simp: sbuck_ins_or_join_def numeral_2_eq_2)
    have "mw_passes ctx join ways prev parts = Some l"
      using len True m(1) l(1) by (subst mw_passes.simps) (simp only: if_False if_True bind.bind_lunit simp_thms)
    then show ?thesis using m l by blast
  next
    case False
    obtain out p where m: "sort_multiway ctx ?t sbuck_new = Some out" "mset p = mset (concat ?xt)" "asc p" "holds ctx out p 1 False"
      using sort_multiway_ok [OF t holds_new] by auto
    let ?parts = "drop ways parts @ [sbuck_swap_out ctx out]" and ?xss = "drop ways xss @ [p]"
    have step: "mw_passes ctx join ways prev parts = mw_passes ctx join ways prev ?parts"
      using len False m(1) by (subst mw_passes.simps) (simp only: if_False bind.bind_lunit)
    have ne: "?xt \<noteq> []" "\<forall>xs \<in> set ?xt. xs \<noteq> []"
      using t len by (auto simp: part_of_def list_all2_conv_all_nth in_set_conv_nth)
    then have "concat ?xt \<noteq> []" by (cases ?xt) auto
    then have "p \<noteq> []" using m(2) by auto
    then have parts: "list_all2 part_of ?parts ?xss"
      using m holds_swap_out less(2) by (auto simp: part_of_def intro!: list_all2_appendI list_all2_dropI)
    have "mset (concat ?xss) = mset (concat xss)"
      using m(2) by (metis append_take_drop_id concat_append mset_append add.commute concat.simps append_Nil2)
    moreover have "length ?parts < length parts" using False assms(3) by simp
    moreover have "1 < length ?parts" using False by simp
    ultimately show ?thesis using less(1) [OF _ parts] step by simp
  qed
qed

section \<open>The governor\<close>

lemma join_to_ok: "holds ctx prev ys 1 True \<Longrightarrow> \<exists>j. sbuck_join_to ctx prev = Some j"
  by (auto simp: sbuck_join_to_def holds_def)

lemma sorter_twoway_ok:
  assumes b: "source_of b xs" and prev: "holds ctx prev ys 1 True" and "\<not> debug_flag ctx SORT_DEBUG_NO_PRESORT" and few: "length xs + 1 < 2 ^ 32"
  shows "\<exists>l p. sorter_twoway ctx prev b = Some l \<and> mset p = mset xs \<and> asc p \<and> settled prev ys p l"
proof -
  obtain j where j: "sbuck_join_to ctx prev = Some j" using join_to_ok [OF prev] by blast
  let ?K = "internal_num_keys ctx" and ?only = "if j then Some prev else None"
  have run: "sorter_twoway ctx prev b = do {
       (cont, b, ins0, only) \<leftarrow> sort_internal ctx b sbuck_new ?only;
       let prev = (case only of Some p \<Rightarrow> p | None \<Rightarrow> prev);
       if \<not> cont then sbuck_ins_or_join (Some ins0) prev j
       else do {
         (ins0, ins1) \<leftarrow> tw_presort ctx True b ins0 sbuck_new;
         tw_passes ctx j prev ins0 (Some ins1)
       }
     }" using j assms(3) by (simp add: sorter_twoway_def)
  consider (empty) "xs = []" | (one) "xs \<noteq> []" "length xs < ?K" | (full) "?K \<le> length xs" by linarith
  then show ?thesis
  proof cases
    case empty
    then obtain b' where "sort_internal ctx b sbuck_new ?only = Some (False, b', sbuck_new, ?only)"
      using sort_internal_empty b by blast
    then have "sorter_twoway ctx prev b = Some [prev, sbuck_new]"
      unfolding run using prev by (simp add: sbuck_ins_or_join_def holds_def)
    then show ?thesis using empty settled_behind [OF holds_new, of prev ys] asc_nil by simp
  next
    case one
    have h: "holds ctx (if j then prev else sbuck_new) (if j then ys else []) (if j then 1 else 0) j"
      using prev holds_new [of ctx] by simp
    have "(if j then 1 else 0) + 1 < (2 :: nat) ^ 32" by simp
    from sort_internal_last [OF b one refl h this] obtain b' p o' where r:
      "sort_internal ctx b sbuck_new ?only = Some (False, b', if j then sbuck_new else o', if j then Some o' else None)"
      "mset p = mset xs" "asc p" "holds ctx o' ((if j then ys else []) @ p) ((if j then 1 else 0) + 1) j" by blast
    show ?thesis unfolding run
      using r settled_joined [of o' ys p "Some sbuck_new" prev] settled_behind [of o' p 1 prev ys]
      by (cases j) (auto simp: sbuck_ins_or_join_def numeral_2_eq_2)
  next
    case full
    from sort_internal_full [OF b full holds_new, of ?only] obtain b' p o' where r:
      "sort_internal ctx b sbuck_new ?only = Some (True, b', o', ?only)" "source_of b' (drop ?K xs)"
      "mset p = mset (take ?K xs)" "asc p" "p \<noteq> []" "holds ctx o' p 1 False" by auto
    have m: "mset xs = mset p + mset (drop ?K xs)" using r(3) take_drop_mset [of ?K xs] by simp
    have len: "length p + length (drop ?K xs) = length xs" using m by (metis size_mset size_union)
    have "counted o' p" using counted_grows [of "[]" 0 o' p] r(4-6) by simp
    from tw_presort_ok [OF r(2) this counted_new, of True] r(5) len few obtain i0 i1 y0 y1 where t:
      "tw_presort ctx True b' o' sbuck_new = Some (i0, i1)" "counted i0 y0" "counted i1 y1"
      "mset y0 + mset y1 = mset p + mset (drop ?K xs)" "y0 \<noteq> []" by auto
    have all: "mset y0 + mset y1 = mset xs" using t(4) m by simp
    then have "length y0 + length y1 = length xs" by (metis size_mset size_union)
    then have "length y0 + length y1 + 1 < 2 ^ 32" using few by simp
    then show ?thesis unfolding run
      using tw_passes_ok [OF counted_stock [OF t(2)] counted_stock [OF t(3)] t(5) _ prev, of j] all r(1) t(1) by (cases j) auto
  qed
qed

lemma sorter_multiway_ok:
  assumes b: "source_of b xs" and prev: "holds ctx prev ys 1 True" and "\<not> debug_flag ctx SORT_DEBUG_NO_PRESORT"
    and ways: "0 < max_multiway_bits ctx" "max_multiway_bits ctx < 31"
  shows "\<exists>l p. sorter_multiway ctx prev b = Some l \<and> mset p = mset xs \<and> asc p \<and> settled prev ys p l"
proof -
  obtain j where j: "sbuck_join_to ctx prev = Some j" using join_to_ok [OF prev] by blast
  from mw_presort_ok [OF b prev, of "[]" "[]" j] obtain prev' parts xss where m:
    "mw_presort ctx j prev b [] = Some (prev', parts)" "list_all2 part_of parts xss"
    "j \<and> parts = [] \<and> (\<exists>p. holds ctx prev' (ys @ p) 2 True \<and> mset p = mset xs \<and> asc p) \<or>
     prev' = prev \<and> mset (concat xss) = mset xs" by auto
  have run: "sorter_multiway ctx prev b =
      (case parts of
         [] \<Rightarrow> sbuck_ins_or_join None prev' j
       | [p] \<Rightarrow> sbuck_ins_or_join (Some p) prev' False
       | _ \<Rightarrow> mw_passes ctx j (2 ^ max_multiway_bits ctx) prev' parts)"
    using j m(1) assms(3) ways by (auto simp: sorter_multiway_def split: list.splits)
  show ?thesis
  proof (cases "prev' = prev \<and> mset (concat xss) = mset xs")
    case False
    then obtain p where p: "j" "parts = []" "holds ctx prev' (ys @ p) 2 True" "mset p = mset xs" "asc p" using m(3) by auto
    then show ?thesis unfolding run using settled_joined [of prev' ys p None prev] by auto
  next
    case True
    consider "parts = []" | b where "parts = [b]" | b c bs where "parts = b # c # bs" by (cases parts rule: remdups_adj.cases) auto
    then show ?thesis
    proof cases
      case 1
      then have "xs = []" using m(2) True by simp
      then show ?thesis unfolding run using 1 True prev asc_nil by (auto simp: sbuck_ins_or_join_def settled_def holds_def)
    next
      case 2
      then obtain p where p: "xss = [p]" "part_of b p" using m(2) by (auto simp: list_all2_Cons1)
      then have "settled prev ys p [prev, b]" by (auto simp: part_of_def intro: settled_behind)
      then show ?thesis unfolding run using 2 True p by (auto simp: sbuck_ins_or_join_def part_of_def)
    next
      case 3
      have "(1 :: nat) < 2 ^ max_multiway_bits ctx" using ways one_less_power [of "2 :: nat"] by simp
      then show ?thesis unfolding run using mw_passes_ok [OF m(2) _ _ prev, of "2 ^ max_multiway_bits ctx" j] 3 True by auto
    qed
  qed
qed

lemma find_bits_ok:
  assumes "insize < 2 ^ 64" "0 < mem" "bits \<le> 63"
  shows "\<exists>k. find_bits insize mem bits = Some k"
  using assms(3)
proof (induction "63 - bits" arbitrary: bits)
  case 0
  then have "bits = 63" by simp
  moreover have "insize div 2 ^ 63 \<le> 1" using assms(1) less_mult_imp_div_less [of insize 2 "2 ^ 63"] by simp
  ultimately show ?case using assms(2) by (subst find_bits.simps) simp
next
  case (Suc n)
  then show ?case by (subst find_bits.simps) (cases "mem < insize div 2 ^ bits"; simp)
qed

text \<open>The first decision, about the source.\<close>

lemma decide_source_ok:
  assumes b: "source_of b xs" "sb_runs b = 0" "\<not> sb_open_write b" and sizes: "sb_bytes b < 2 ^ 64" "sb_bytes b = 0 \<longrightarrow> xs = []"
    and mem: "0 < mem_of ctx (internal_estimate ctx)" and prev: "holds ctx prev ys 1 True"
    and conf: "\<not> debug_flag ctx SORT_DEBUG_NO_PRESORT" "max_multiway_bits ctx < 31" and few: "length xs + 1 < 2 ^ 32"
  shows "\<exists>l p. sorter_decide ctx prev b = Some l \<and> mset p = mset xs \<and> asc p \<and> settled prev ys p l"
proof (cases "sb_bytes b = 0")
  case True
  then have "sorter_decide ctx prev b = Some [prev]" using b(3) by (simp add: sorter_decide_def sbuck_have_def sbuck_size_def)
  then show ?thesis using True sizes(2) prev asc_nil by (auto simp: settled_def)
next
  case False
  have size: "sbuck_size ctx b = sb_bytes b" using b(3) by (simp add: sbuck_size_def)
  obtain bits where bits: "find_bits (sb_bytes b) (mem_of ctx (internal_estimate ctx)) 0 = Some bits"
    using find_bits_ok [OF sizes(1) mem, of 0] by auto
  have "sorter_decide ctx prev b = (if bits \<noteq> 0 \<and> multiway_bits_of ctx bits \<noteq> 0 then sorter_multiway ctx prev b else sorter_twoway ctx prev b)"
    using False size bits b(2) by (auto simp: sorter_decide_def sbuck_have_def Let_def)
  moreover have "multiway_bits_of ctx bits \<noteq> 0 \<Longrightarrow> 0 < max_multiway_bits ctx"
    by (auto simp: multiway_bits_of_def Let_def split: if_splits)
  ultimately show ?thesis
    using sorter_twoway_ok [OF b(1) prev conf(1) few] sorter_multiway_ok [OF b(1) prev conf(1) _ conf(2)] by auto
qed

text \<open>The second decision, about a sorted bucket behind the output.\<close>

lemma decide_run_ok:
  assumes b: "holds ctx b p r False" "p \<noteq> [] \<longrightarrow> r = 1" and size: "length p * key_size ctx < 2 ^ 64"
    and mem: "0 < mem_of ctx (internal_estimate ctx)" and prev: "holds ctx prev ys 1 True"
  shows "\<exists>out. sorter_decide ctx prev b = Some [out] \<and> holds ctx out (ys @ p) 1 True"
proof (cases "p = []")
  case True
  then show ?thesis using holds_have [OF b(1)] prev by (simp add: sorter_decide_def)
next
  case False
  obtain bits where "find_bits (length p * key_size ctx) (mem_of ctx (internal_estimate ctx)) 0 = Some bits"
    using find_bits_ok [OF size mem, of 0] by auto
  then have run: "sorter_decide ctx prev b = sorter_join ctx prev b"
    using False holds_have [OF b(1)] holds_size [OF b(1)] b by (simp add: sorter_decide_def holds_def)
  have fl: "sb_final prev" "sb_runs b = 1" using b prev False by (auto simp: holds_def)
  show ?thesis
  proof (cases "sbuck_has_file prev")
    case True
    obtain src where src: "sbuck_read ctx b = Some src" "sb_rest src = p" using b(1) False by (rule holds_read)
    obtain dest where "sbuck_write prev = Some dest" "sb_file dest = ys" "\<And>zs. holds ctx (dest\<lparr>sb_file := zs\<rparr>) zs 1 True"
      using prev by (rule holds_write) blast
    then show ?thesis unfolding run using src fl True by (simp add: sorter_join_def)
  next
    case False
    then have "ys = []" using prev holds_no_file by blast
    then show ?thesis unfolding run
      using False fl holds_final [OF b(1), of True] b(2) \<open>p \<noteq> []\<close> by (simp add: sorter_join_def)
  qed
qed

lemma sorter_loop_ok:
  assumes "source_of b xs" "sb_runs b = 0" "\<not> sb_open_write b" and "sb_bytes b < 2 ^ 64" "sb_bytes b = 0 \<longrightarrow> xs = []"
    and size: "length xs * key_size ctx < 2 ^ 64"
    and mem: "0 < mem_of ctx (internal_estimate ctx)" and prev: "holds ctx prev ys 1 True"
    and "\<not> debug_flag ctx SORT_DEBUG_NO_PRESORT" "max_multiway_bits ctx < 31" "length xs + 1 < 2 ^ 32"
  shows "\<exists>out p. sorter_loop ctx [prev, b] = Some out \<and> holds ctx out (ys @ p) 1 True \<and> mset p = mset xs \<and> asc p"
proof -
  obtain l p where l: "sorter_decide ctx prev b = Some l" "mset p = mset xs" "asc p" "settled prev ys p l"
    using decide_source_ok [OF assms(1-5) mem prev assms(9-11)] by blast
  have loop1: "sorter_loop ctx [prev, b] = sorter_loop ctx l" using l(1) by (subst sorter_loop.simps) simp
  have fin: "sorter_loop ctx [out] = Some out" for out by (subst sorter_loop.simps) simp
  consider out where "l = [out]" "holds ctx out (ys @ p) 1 True" | c r where "l = [prev, c]" "holds ctx c p r False" "p \<noteq> [] \<longrightarrow> r = 1"
    using l(4) by (auto simp: settled_def)
  then show ?thesis
  proof cases
    case 1
    then show ?thesis using loop1 fin l by auto
  next
    case 2
    have "length p = length xs" using l(2) by (rule mset_eq_length)
    then obtain out where "sorter_decide ctx prev c = Some [out]" "holds ctx out (ys @ p) 1 True"
      using decide_run_ok [OF 2(2,3) _ mem prev] size by auto
    then have "sorter_loop ctx [prev, c] = Some out" using fin by (subst sorter_loop.simps) simp
    then show ?thesis using loop1 2(1) l \<open>holds ctx out (ys @ p) 1 True\<close> by auto
  qed
qed

end

section \<open>Sorting a file\<close>

lemma prepare_fields [simp]:
  "compare (sorter_prepare_buf ctx) = compare ctx" "key_size (sorter_prepare_buf ctx) = key_size ctx"
  "mem_of (sorter_prepare_buf ctx) = mem_of ctx" "max_multiway_bits (sorter_prepare_buf ctx) = max_multiway_bits ctx"
  "debug_flag (sorter_prepare_buf ctx) = debug_flag ctx"
  by (simp_all add: sorter_prepare_buf_def debug_flag_def fun_eq_iff Let_def)

text \<open>The buffer has two pages at least, so that a key of at most that size fits.\<close>

lemma prepare_buf_size: "2 * CPU_PAGE_SIZE \<le> big_buf_size (sorter_prepare_buf ctx)"
proof -
  have "unat (2 * of_nat CPU_PAGE_SIZE :: 64 word) \<le> big_buf_size (sorter_prepare_buf ctx)"
    by (simp add: sorter_prepare_buf_def Let_def word_le_nat_alt [symmetric])
  then show ?thesis by (simp add: CPU_PAGE_SIZE_def)
qed

lemma prepare_keys_pos:
  assumes "0 < key_size ctx" "key_size ctx \<le> 2 * CPU_PAGE_SIZE"
  shows "0 < internal_num_keys (sorter_prepare_buf ctx)"
  using assms prepare_buf_size [of ctx] by (simp add: internal_num_keys_def div_greater_zero_iff)

text \<open>The defaults of \<^verbatim>\<open>config.c\<close>, for keys of eight bytes with a numeric value.\<close>

definition default_context :: "('k \<Rightarrow> nat) \<Rightarrow> 'k sort_context" where
  "default_context v = \<lparr>sorter_bufsize = 65536, compare = int_compare v, key_size = 8, big_buf_size = 0, sorter_debug = 0,
     min_multiway_bits = 0, max_multiway_bits = 0, mem_of = \<lambda>n. n * 4 div 5\<rparr>"

lemma default_num_keys: "internal_num_keys (sorter_prepare_buf (default_context v)) = 8192"
  by (simp add: internal_num_keys_def sorter_prepare_buf_def default_context_def align_to_def CPU_PAGE_SIZE_def Let_def)

interpretation default_conf: sort_conf "sorter_prepare_buf (default_context v)" for v :: "'k \<Rightarrow> nat"
proof -
  have "compare (default_context v) = int_compare v" "key_size (default_context v) = 8" by (simp_all add: default_context_def)
  then show "sort_conf (sorter_prepare_buf (default_context v))"
    using int_order.key_order_axioms [of v] by (simp add: sort_conf_def sort_conf_axioms_def default_num_keys)
qed

text \<open>
  C1: The external sorter sorts, whichever strategy it takes. For an order on keys of at most two
  pages, with presorting enabled, a buffer of at most \<open>2 ^ 30\<close> keys and an announced size that is
  zero only if the input is empty, and fewer than \<open>2 ^ 32 - 1\<close> records (runs are counted in 32
  bits), it ends, no assertion of it fails, and the output holds what
  it held before followed by the records of the input, each as often as there, in order.
\<close>

theorem sorter_run_sorts:
  assumes "key_order (compare ctx)" "0 < key_size ctx" "key_size ctx \<le> 2 * CPU_PAGE_SIZE"
    and "internal_num_keys (sorter_prepare_buf ctx) \<le> 2 ^ 30" and "0 < mem_of ctx (internal_estimate (sorter_prepare_buf ctx))"
    and "\<not> debug_flag ctx SORT_DEBUG_NO_PRESORT" "max_multiway_bits ctx < 31"
    and "in_size < 2 ^ 64" "in_size = 0 \<longrightarrow> xs = []" "length xs * key_size ctx < 2 ^ 64" "length xs + 1 < 2 ^ 32"
  shows "\<exists>p. sorter_run ctx xs in_size out_fb = Some ((case out_fb of None \<Rightarrow> [] | Some ys \<Rightarrow> ys) @ p) \<and>
    mset p = mset xs \<and> sorted_wrt (\<lambda>x y. compare ctx x y \<le> 0) p"
proof -
  let ?ctx = "sorter_prepare_buf ctx" and ?ys = "case out_fb of None \<Rightarrow> [] | Some ys \<Rightarrow> ys"
  have conf: "sort_conf ?ctx"
    using assms(1-4) prepare_keys_pos [OF assms(2,3)] by (simp add: sort_conf_def sort_conf_axioms_def)
  define bin where "bin = sbuck_new\<lparr>sb_source := True, sb_open_read := True, sb_fb := True, sb_file := xs, sb_bytes := in_size\<rparr>"
  define bout where "bout = (case out_fb of
      None \<Rightarrow> sbuck_new\<lparr>sb_final := True, sb_runs := 1\<rparr>
    | Some ys \<Rightarrow> sbuck_new\<lparr>sb_final := True, sb_runs := 1, sb_fb := True, sb_open_write := True, sb_file := ys\<rparr>)"
  have bin: "source_of bin xs" "sb_runs bin = 0" "\<not> sb_open_write bin" "sb_bytes bin = in_size"
    by (simp_all add: bin_def source_of_def sb_rest_def sbuck_new_def)
  have bout: "holds ?ctx bout ?ys 1 True" by (auto simp: bout_def holds_def sbuck_new_def split: option.splits)
  obtain out p where out: "sorter_loop ?ctx [bout, bin] = Some out" "holds ?ctx out (?ys @ p) 1 True" "mset p = mset xs"
    "sorted_wrt (\<lambda>x y. compare ctx x y \<le> 0) p"
    using sort_conf.sorter_loop_ok [OF conf bin(1-3) _ _ _ _ bout] bin(4) assms(5-11)
    by (auto simp: sort_conf.asc_def [OF conf])
  obtain b' where b': "sbuck_write out = Some b'" using out(2) by (rule holds_write)
  obtain b'' where "sbuck_read ?ctx b' = Some b''" "sb_rest b'' = ?ys @ p" using out(2) b' by (rule holds_read_written)
  then have "sorter_run ctx xs in_size out_fb = Some (?ys @ p)"
    using out(1) b' by (simp add: sorter_run_def Let_def bin_def [symmetric] bout_def [symmetric])
  then show ?thesis using out(3,4) by blast
qed

theorem sorter_run_sorts_witness:
  "\<exists>p. sorter_run (default_context id) [5, 2, 9, 2] 32 (Some [7]) = Some ([7] @ p) \<and> mset p = {#5, 2, 9, 2#} \<and>
    sorted_wrt (\<lambda>x y. compare (default_context id) x y \<le> 0) p"
proof -
  have "key_order (compare (default_context id))"
    using int_order.key_order_axioms [of id] by (simp add: default_context_def)
  moreover have "\<not> debug_flag (default_context id) SORT_DEBUG_NO_PRESORT" by (simp add: debug_flag_def default_context_def)
  moreover have "0 < mem_of (default_context id) (internal_estimate (sorter_prepare_buf (default_context id)))"
    by (simp add: internal_estimate_def default_num_keys) (simp add: default_context_def)
  ultimately show ?thesis
    using sorter_run_sorts [of "default_context id" 32 "[5, 2, 9, 2]" "Some [7]"] default_num_keys [of id]
    by (simp add: default_context_def CPU_PAGE_SIZE_def)
qed

text \<open>
  C2: One pass of the two-way merge halves the number of runs. Whatever the two inputs hold, as long as
  neither has \<open>2 ^ 32 - 1\<close> runs (they are counted in 32 bits), with two outputs the merge ends; it makes at most as many runs \<open>R\<close> as the longer input had, counts
  them correctly, leaves the odd ones in the first output and the even ones in the second, and
  keeps every record.
\<close>

theorem twoway_merge_halves_runs:
  assumes "key_order c" "nruns c xs + 1 < 2 ^ 32" "nruns c ys + 1 < 2 ^ 32"
  shows "\<exists>p q R. twoway_merge c True xs ys a b = Some ((a @ p, (R + 1) div 2), (b @ q, R div 2)) \<and>
    R \<le> max (nruns c xs) (nruns c ys) \<and> nruns c p \<le> (R + 1) div 2 \<and> nruns c q \<le> R div 2 \<and>
    mset p + mset q = mset xs + mset ys"
  using key_order.twoway_merge_ok [OF assms(1) _ assms(2,3), of True a b] by blast

theorem twoway_merge_halves_runs_witness:
  "\<exists>p q R. twoway_merge (int_compare id) True [1, 4, 2, 3] [5, 0] [] [] = Some (([] @ p, (R + 1) div 2), ([] @ q, R div 2)) \<and>
    R \<le> max (nruns (int_compare id) [1, 4, 2, 3]) (nruns (int_compare id) [5, 0]) \<and>
    nruns (int_compare id) p \<le> (R + 1) div 2 \<and> nruns (int_compare id) q \<le> R div 2 \<and>
    mset p + mset q = mset [1, 4, 2, 3] + mset [5, 0]"
  by (rule twoway_merge_halves_runs [OF int_order.key_order_axioms]) (simp_all add: int_compare_def)

text \<open>
  C3: The tournament of the multi-way merge yields the sorted union: for any number of sorted
  streams, empty ones and none at all included, it ends, never takes a key from an exhausted
  stream, and appends every record of the streams to the output, in order.
\<close>

theorem multiway_merge_sorts:
  assumes "key_order c" "\<forall>xs \<in> set fins. sorted_wrt (\<lambda>x y. c x y \<le> 0) xs"
  shows "\<exists>p. multiway_merge c fins out = Some (out @ p) \<and> mset p = mset (concat fins) \<and> sorted_wrt (\<lambda>x y. c x y \<le> 0) p"
  using key_order.multiway_merge_ok [OF assms] .

theorem multiway_merge_sorts_witness:
  "\<exists>p. multiway_merge (int_compare id) [[1, 4], [], [0, 4, 9]] [7] = Some ([7] @ p) \<and>
    mset p = mset (concat [[1, 4], [], [0, 4, 9]]) \<and> sorted_wrt (\<lambda>x y. int_compare id x y \<le> 0) p"
  by (rule multiway_merge_sorts [OF int_order.key_order_axioms]) (simp add: int_compare_def)

text \<open>
  C35: With the switch that turns presorting off the governor cannot sort anything: for every
  input that is announced as not empty it fails, because the first pass of the two-way merge
  asks for the runs of a second input that does not exist.
\<close>

theorem sorter_no_presort_fails:
  assumes "debug_flag ctx SORT_DEBUG_NO_PRESORT" "in_size \<noteq> 0"
  shows "sorter_run ctx xs in_size out_fb = None"
proof -
  let ?ctx = "sorter_prepare_buf ctx"
  have none: "tw_passes ?ctx j prev b None = None" if "sb_runs b = 0" for j prev b
    using that by (subst tw_passes.simps) simp
  have two: "sorter_twoway ?ctx prev b = None" if "sb_runs b = 0" for prev b
    using assms(1) none [OF that] by (cases "sbuck_join_to ?ctx prev") (auto simp: sorter_twoway_def)
  have "multiway_bits_of ?ctx bits = 0" for bits using assms(1) by (simp add: multiway_bits_of_def)
  then have dec: "sorter_decide ?ctx prev b = None" if "sb_runs b = 0" "sbuck_have ?ctx (Some b)" for prev b
    using that two by (auto simp: sorter_decide_def Let_def Option.bind_eq_None_conv)
  let ?bin = "sbuck_new\<lparr>sb_source := True, sb_open_read := True, sb_fb := True, sb_file := xs, sb_bytes := in_size\<rparr>"
  have "sbuck_have ?ctx (Some ?bin)" "sb_runs ?bin = 0"
    using assms(2) by (simp_all add: sbuck_have_def sbuck_size_def sbuck_new_def)
  then have "sorter_loop ?ctx [bout, ?bin] = None" for bout using dec by (subst sorter_loop.simps) simp
  then show ?thesis by (simp add: sorter_run_def Let_def)
qed

theorem sorter_no_presort_fails_witness:
  "sorter_run (default_context id\<lparr>sorter_debug := SORT_DEBUG_NO_PRESORT\<rparr>) [1, 0] 16 None = None"
  by (rule sorter_no_presort_fails) (simp_all add: debug_flag_def SORT_DEBUG_NO_PRESORT_def)

end
