(* ===== verification/Spec2Isabelle.thy ===== *)
theory Spec2Isabelle
  imports Unaligned Crc B64 Sha1 Sha256 Md5 Hlist Mempool_Ops Asort Conf_Lex_Ops Attr Page Hash Gary Resource_Ops Fastbuf_Buf Fastbuf_Mem_Ops Fastbuf_File_Ops Sorter_Ops
begin

text \<open>
  Verification of the core library of OpenAAA.

  \<^bold>\<open>The program.\<close> OpenAAA is an authentication, authorisation and accounting toolkit in C. Its
  executables and modules (\<^verbatim>\<open>lib/aaa\<close>, \<^verbatim>\<open>modules/\<close>, \<^verbatim>\<open>net/\<close>) are thin layers over a
  library: memory management (\<^verbatim>\<open>mem/\<close>), generic containers, sorting, hashing and configuration
  (\<^verbatim>\<open>generic/\<close>), and cryptographic primitives (\<^verbatim>\<open>crypto/\<close>). The development is about that
  library. Its parts use each other as follows. Everything allocates through the x-allocators of
  \<^verbatim>\<open>mem/alloc.c\<close> or from memory pools (\<^verbatim>\<open>mem/pool.c\<close>), which get their chunks from the
  x-allocators. Growing arrays take an allocator as an argument. The intrusive lists of
  \<^verbatim>\<open>mem/list.h\<close> link structures of all other parts. The HMAC functions run on the hash
  functions of the same file, which run on the unaligned accessors of \<^verbatim>\<open>mem/unaligned.h\<close>.

  \<^bold>\<open>Conventions.\<close> The build is 64-bit little-endian x86 without \<^verbatim>\<open>MEM_POOL_MMAP\<close>. Machine
  integers are words (\<open>u32\<close>, \<open>u64\<close>, \<open>byte\<close>), except sizes and offsets of the
  allocators, which are numbers with the wrap-around written out where it can occur. Addresses are
  numbers, null is \<open>ADDR_NULL\<close>. Memory that the code writes through several pointers is an
  explicit function of the address. A result \<open>None\<close> means that the code does something undefined
  (an access outside an object, a free of what is not allocated, a signed overflow), calls
  \<^verbatim>\<open>die\<close>, or does not return. So a theorem with a result \<open>Some\<close> says that the code returns
  and that nothing undefined happens on the way. Loops without an evident bound are
  \<open>partial_function (option)\<close>, where not returning is \<open>None\<close>; no fuel is used except in
  \<open>list_walk\<close> and \<open>hwalk\<close>, whose bound is an argument and where a bound of more than the
  length of the list is shown to be enough. What the C library does with a \<^verbatim>\<open>malloc\<close> is a
  parameter (\<open>placement\<close>) under the documented contract \<open>allocator_ok\<close>; \<open>bump\<close>
  is a concrete allocator that satisfies it and serves the examples.

  \<^bold>\<open>Theories.\<close>

  \<^item> \<open>Prelude\<close>: types of machine words, generic facts on lists, words and bytes.

  \<^item> \<open>Unaligned\<close> models \<^verbatim>\<open>mem/unaligned.h\<close>. What is stored is read back; the two
    implementations of the little-endian accessors agree.

  \<^item> \<open>Crc_Tables\<close>, \<open>Crc\<close> model \<^verbatim>\<open>crypto/crc.c\<close>. The tables, the loop by one byte
    and the loops by four and eight bytes with their alignment prologue all compute the division
    by the Castagnoli polynomial bit by bit; where the prologue overruns a short buffer is shown.

  \<^item> \<open>B64\<close> models \<^verbatim>\<open>crypto/b64.c\<close>, which stores at an index of 32 bits: the announced
    length is enough, and the decoder of RFC 4648 inverts it, up to the input length at which
    both wrap around.

  \<^item> \<open>Merkle\<close> holds the interface of a hash function fed in pieces (locale
    \<open>stream_hash\<close>), interpreted in \<open>Sha1\<close>, \<open>Sha256\<close> and \<open>Md5\<close>, which model
    \<^verbatim>\<open>crypto/sha1.c\<close>, \<^verbatim>\<open>crypto/sha256.c\<close> and \<^verbatim>\<open>crypto/md5.c\<close>. The transforms are the
    compression functions of the standards, and a message fed in pieces gets the digest the
    standard defines. For SHA-1 that holds only when no update leaves a partly filled buffer
    behind: otherwise \<^verbatim>\<open>sha1_update\<close> recurses forever, and \<^verbatim>\<open>sha1_hmac\<close> returns never.
    \<^verbatim>\<open>md5_hmac\<close> does not depend on the message.

  \<^item> \<open>Mem_List\<close>, \<open>Hlist\<close> model \<^verbatim>\<open>mem/list.h\<close>. The locale \<open>intrusive_list\<close>
    states the contract of an operation on linked nodes; every sequence of operations on any
    number of lists refines operations on sequences, for all three kinds of lists. Splicing,
    cutting, replacing and rotating are shown one by one.

  \<^item> \<open>Alloc\<close> models \<^verbatim>\<open>mem/alloc.c\<close> over a heap of live blocks.

  \<^item> \<open>Mempool\<close> models \<^verbatim>\<open>mem/pool.c\<close> and \<^verbatim>\<open>mem/pool.h\<close>. \<open>Mempool_Inv\<close> states the
    invariant (three chains of chunks, the used part of each) and shows that allocations are
    aligned, disjoint and inside live memory, that popping a saved state undoes what was allocated
    since, and that deleting a pool leaks nothing; the locale \<open>arena\<close> is the contract of an
    allocator whose blocks are never freed one by one. \<open>Mempool_Ops\<close> adds strings,
    statistics, flushing and growing blocks.

  \<^item> \<open>Asort\<close> models \<^verbatim>\<open>generic/sorter/array-simple.h\<close>. For every strict weak order (locale
    \<open>strict_weak\<close>) the sorter returns a sorted rearrangement, stays inside the array although
    its inner loops have no bounds check, and its stack of fixed size does not overflow.

  \<^item> \<open>Conf_Units\<close> models the parsers of \<^verbatim>\<open>generic/opt/units.c\<close>: numbers with units,
    their errors, their silent wrap-around and what is stored as a signed \<^verbatim>\<open>int\<close>, and IP addresses.

  \<^item> \<open>Page\<close> models \<^verbatim>\<open>mem/page.h\<close> and the set-up of page maps in \<^verbatim>\<open>mem/map.c\<close>: in
    every reachable state of a map an allocated page belongs to nobody else. The set-up for mapped
    files links the last page to one behind the array.

  \<^item> \<open>Hash\<close> models \<^verbatim>\<open>generic/hash/\<close>: what the hash functions compute and their range.

  \<^item> \<open>Gary\<close> models \<^verbatim>\<open>generic/gary.c\<close>, \<^verbatim>\<open>generic/gbuf.h\<close> and \<^verbatim>\<open>generic/bsearch.h\<close>:
    pushing keeps the elements for every allocator that keeps the contract of the locale
    \<open>allocator\<close>; binary search finds the first position, also at the ends of the range.

  \<^item> \<open>Resource\<close> models the resource pools of \<^verbatim>\<open>generic/opt/resource.c\<close> and the classes of
    \<^verbatim>\<open>res-mem.c\<close>, \<^verbatim>\<open>res-subpool.c\<close> and \<^verbatim>\<open>res-mempool.c\<close>, over the heap of \<open>Alloc\<close>,
    the links of \<open>Mem_List\<close> and the pools of \<open>Mempool\<close>. \<^verbatim>\<open>rp_delete\<close> and
    \<^verbatim>\<open>res_free\<close> call each other through the class of a sub-pool; \<open>res_free_with\<close> takes the
    recursive call as an argument. \<open>Resource_Inv\<close> describes the resources of a pool as a tree
    and shows what freeing a part of it does; \<open>Resource_Ops\<close> follows a pool from its creation
    to its end.

  \<^item> \<open>Fastbuf\<close> models the front end of the buffered streams (\<^verbatim>\<open>generic/opt/fastbuf.c\<close>, the
    inline functions of \<^verbatim>\<open>fastbuf.h\<close>, the line readers of \<^verbatim>\<open>ff-string.c\<close>), with the callbacks
    of the back end as an argument. \<open>Fastbuf_Spec\<close> states what it relies on as interfaces
    (\<open>fb_reader\<close>, \<open>fb_seeker\<close>, \<open>fb_writer\<close>, \<open>fb_copier\<close>) and proves the functions
    correct from them; \<open>Fastbuf_Run\<close> makes this a refinement of an abstract stream by sequences
    of operations. \<open>Fastbuf_Buf\<close> models \<^verbatim>\<open>fb-buffer.c\<close>: reading refines
    the abstract stream, and a write that does not fit throws an exception and stores nothing
    outside the buffer. \<open>Fastbuf_Mem\<close> models \<^verbatim>\<open>fb-mem.c\<close>,
    with the invariants in \<open>Fastbuf_Mem_Inv\<close> and the round trip, the absence of leaks, and
    the broken seek in \<open>Fastbuf_Mem_Ops\<close>. \<open>Fastbuf_File\<close> models \<^verbatim>\<open>fb-file.c\<close> over a file
    whose system calls transfer as much as a function \<open>io\<close> of the number of the call allows;
    \<open>Fastbuf_File_Inv\<close> shows that every way through the refill (skipping, long seeks, keeping a
    part of the window) brings the bytes at the position, and \<open>Fastbuf_File_Ops\<close> that reading
    refines the abstract stream, that copying a file copies it, and that writing after reading
    damages it.

  \<^item> \<open>Sorter_Merge\<close> and \<open>Sorter_Multiway\<close> model the merges of the external sorter
    (\<^verbatim>\<open>generic/sorter/s-twoway.h\<close>, \<^verbatim>\<open>s-multiway.h\<close>) over any order of keys (locale
    \<open>key_order\<close>, which gives the \<open>strict_weak\<close> of \<open>Asort\<close>). \<open>Sorter\<close> models the
    buckets of \<^verbatim>\<open>sbuck.c\<close>, the internal sorter of \<^verbatim>\<open>s-fixint.h\<close> and the governor of
    \<^verbatim>\<open>govern.c\<close>. \<open>Sorter_Inv\<close> says what a bucket holds and what one call does;
    \<open>Sorter_Ops\<close> shows that the passes of both strategies end (locale \<open>sort_conf\<close>), that
    the sorter sorts while the 32-bit counts of runs do not wrap around, and that it fails
    when presorting is switched off.

  \<^item> \<open>Unesc\<close> models \<^verbatim>\<open>str_unesc\<close> of \<^verbatim>\<open>generic/string/unesc.c\<close> and the hexadecimal coding of
    \<^verbatim>\<open>mem/stack.h\<close>: escaping a string is undone, and \<^verbatim>\<open>stk_hex_dec\<close> leaves its buffers.

  \<^item> \<open>Conf_Lex\<close> models the text parser of \<^verbatim>\<open>generic/opt/input.c\<close> (lines, quotes, comments,
    continuation lines, the split of a command into words) as total functions: every loop consumes
    input. \<open>Conf_Lex_Ops\<close> shows that a command written with quoted parameters is split into
    exactly these, and what goes wrong with a quoted brace.

  \<^item> \<open>Attr\<close> models the attribute lists of \<^verbatim>\<open>generic/string/attr.c\<close> and their text form in
    \<^verbatim>\<open>generic/string/object.c\<close>. The locale \<open>dictionary\<close> is the contract of both setters; the
    sort is a rearrangement in order (\<open>key_order\<close> of \<open>Sorter_Merge\<close> for \<^verbatim>\<open>strcmp\<close>), and
    what is written is read back when it fits; when it does not, \<^verbatim>\<open>object_write\<close> overruns.

  \<^bold>\<open>Not modelled.\<close> Functions that format text through the C library (the printf family of pools
  and buffers, \<^verbatim>\<open>cf_parse_double\<close>); code that only calls the operating system (tasks and
  processes in \<^verbatim>\<open>generic/mpm\<close>, \<^verbatim>\<open>generic/runcmd.c\<close>, mapping of files, network
  daemons, Apache, OpenVPN and PKCS\#11 modules); the back ends of buffered streams on
  mappings and pools, their formatted output and their closing through resource pools; the radix
  strategies, the threads and the sorter of variable records of the external sorter; the interpreter of configuration commands and
  the option parser; protocol headers that hold declarations only; vendored code (the disassembler
  under \<^verbatim>\<open>arch/x86/asm\<close>, GNU getopt, the kernel's kconfig and build scripts).
\<close>

end
